(* ===== verification/NJ_Prelude.thy ===== *)
theory NJ_Prelude
  imports Main "HOL-Library.Word" "HOL-Library.Monad_Syntax"
begin

text \<open>
  Shared material of the development: the machine-integer types of the C++ sources, the
  reading and writing of a C array with the out-of-range access made explicit, the
  \<open>for\<close> loop of the sources as a monadic fold, the named collections of simplification
  rules, and the generic lemmas on lists, words and powers of two that the components share.
\<close>

unbundle bit_operations_syntax

section \<open>Machine integers\<close>

text \<open>
  \<open>uint32_t\<close>, \<open>uint64_t\<close> and their signed counterparts are words: the arithmetic wraps
  around, \<open>unat\<close> and \<open>uint\<close> read a word as unsigned and \<open>sint\<close> as two's complement.
  Where the sources use an index or a size that never wraps it is an \<open>int\<close> or a \<open>nat\<close>.
\<close>

type_synonym u8 = "8 word"
type_synonym u32 = "32 word"
type_synonym u64 = "64 word"

text \<open>Rule collections: the laws of array accesses and of the pointwise array updates.\<close>

named_theorems array_simps
named_theorems range_simps

section \<open>C arrays\<close>

text \<open>
  \<open>rd cs i\<close> is the read \<open>cs[i]\<close> and \<open>wr cs i v\<close> the write \<open>cs[i] = v\<close>; an index outside
  the array, which the C++ sources do not check, is the value \<open>None\<close>.
\<close>

definition rd :: "'a list \<Rightarrow> int \<Rightarrow> 'a option" where
  "rd cs i = (if 0 \<le> i \<and> i < int (length cs) then Some (cs ! nat i) else None)"

definition wr :: "'a list \<Rightarrow> int \<Rightarrow> 'a \<Rightarrow> 'a list option" where
  "wr cs i v = (if 0 \<le> i \<and> i < int (length cs) then Some (cs[nat i := v]) else None)"

lemma rd_in [array_simps]: "0 \<le> i \<Longrightarrow> i < int (length cs) \<Longrightarrow> rd cs i = Some (cs ! nat i)"
  by (simp add: rd_def)

lemma wr_in [array_simps]: "0 \<le> i \<Longrightarrow> i < int (length cs) \<Longrightarrow> wr cs i v = Some (cs[nat i := v])"
  by (simp add: wr_def)

lemma rd_eq_Some_iff: "rd cs i = Some x \<longleftrightarrow> 0 \<le> i \<and> i < int (length cs) \<and> x = cs ! nat i"
  by (auto simp: rd_def)

lemma wr_eq_Some_iff: "wr cs i v = Some cs' \<longleftrightarrow> 0 \<le> i \<and> i < int (length cs) \<and> cs' = cs[nat i := v]"
  by (auto simp: wr_def)

section \<open>Loops\<close>

text \<open>
  A counted loop runs its body over the list of the counter's values; a body that fails
  (an out-of-range access) makes the loop fail.
\<close>

fun foldM :: "('i \<Rightarrow> 's \<Rightarrow> 's option) \<Rightarrow> 'i list \<Rightarrow> 's \<Rightarrow> 's option" where
  "foldM f [] s = Some s"
| "foldM f (i # is) s = Option.bind (f i s) (foldM f is)"

lemma foldM_append: "foldM f (xs @ ys) s = Option.bind (foldM f xs s) (foldM f ys)"
  by (induction xs arbitrary: s) (auto split: bind_splits)

lemma foldM_cong:
  "(\<And>i s. i \<in> set xs \<Longrightarrow> f i s = g i s) \<Longrightarrow> foldM f xs s = foldM g xs s"
  by (induction xs arbitrary: s) (auto split: bind_splits)

lemma foldM_Some: "foldM (\<lambda>i s. Some (f i s)) xs s = Some (fold f xs s)"
  by (induction xs arbitrary: s) auto

text \<open>A loop whose body keeps an invariant and succeeds under it, succeeds and keeps it.\<close>

lemma foldM_invariant:
  assumes "I s" "\<And>i s. i \<in> set xs \<Longrightarrow> I s \<Longrightarrow> \<exists>s'. f i s = Some s' \<and> I s'"
  shows "\<exists>s'. foldM f xs s = Some s' \<and> I s'"
  using assms
proof (induction xs arbitrary: s)
  case (Cons x xs)
  then obtain s1 where "f x s = Some s1" "I s1" by force
  with Cons show ?case by auto
qed simp

text \<open>
  The pointwise update of a range: what a loop does that replaces \<open>cs[i]\<close> by
  \<open>g i (cs[i])\<close> for each \<open>i\<close> of the range.
\<close>

definition upd_range :: "(int \<Rightarrow> 'a \<Rightarrow> 'a) \<Rightarrow> int \<Rightarrow> int \<Rightarrow> 'a list \<Rightarrow> 'a list" where
  "upd_range g lo hi cs =
     map (\<lambda>k. if lo \<le> int k \<and> int k \<le> hi then g (int k) (cs ! k) else cs ! k) [0..<length cs]"

lemma length_upd_range [simp, range_simps]: "length (upd_range g lo hi cs) = length cs"
  by (simp add: upd_range_def)

lemma nth_upd_range [range_simps]:
  "k < length cs \<Longrightarrow>
   upd_range g lo hi cs ! k = (if lo \<le> int k \<and> int k \<le> hi then g (int k) (cs ! k) else cs ! k)"
  by (simp add: upd_range_def)

lemma nth_list_update_int:
  "0 \<le> i \<Longrightarrow> i < int (length cs) \<Longrightarrow> k < length cs \<Longrightarrow>
   cs[nat i := v] ! k = (if int k = i then v else cs ! k)"
  by (auto simp: nth_list_update)

lemma upd_range_empty: "hi < lo \<Longrightarrow> upd_range g lo hi cs = cs"
  by (rule nth_equalityI) (auto simp: range_simps)

definition upd_body :: "(int \<Rightarrow> 'a \<Rightarrow> 'a) \<Rightarrow> int \<Rightarrow> 'a list \<Rightarrow> 'a list option" where
  "upd_body g i cs = do { c \<leftarrow> rd cs i; wr cs i (g i c) }"

lemma foldM_upd_body:
  assumes "0 \<le> lo" "hi < int (length cs)"
  shows "foldM (upd_body g) [lo..hi] cs = Some (upd_range g lo hi cs)"
  using assms
proof (induction "nat (hi - lo + 1)" arbitrary: lo cs)
  case 0
  then show ?case by (simp add: upd_range_empty)
next
  case (Suc n)
  then have le: "lo \<le> hi" by simp
  let ?cs = "cs[nat lo := g lo (cs ! nat lo)]"
  from Suc le have IH: "foldM (upd_body g) [lo + 1..hi] ?cs = Some (upd_range g (lo + 1) hi ?cs)"
    by (intro Suc.hyps) auto
  have "upd_range g (lo + 1) hi ?cs = upd_range g lo hi cs"
    using Suc.prems le by (intro nth_equalityI) (auto simp: range_simps nth_list_update_int)
  with IH le Suc.prems show ?case
    by (simp add: upto_rec1 upd_body_def array_simps)
qed

lemma foldM_upd_body_rev:
  assumes "0 \<le> lo" "hi < int (length cs)"
  shows "foldM (upd_body g) (rev [lo..hi]) cs = Some (upd_range g lo hi cs)"
  using assms
proof (induction "nat (hi - lo + 1)" arbitrary: hi cs)
  case 0
  then show ?case by (simp add: upd_range_empty)
next
  case (Suc n)
  then have le: "lo \<le> hi" by simp
  let ?cs = "cs[nat hi := g hi (cs ! nat hi)]"
  from Suc le have IH: "foldM (upd_body g) (rev [lo..hi - 1]) ?cs = Some (upd_range g lo (hi - 1) ?cs)"
    by (intro Suc.hyps) auto
  have "upd_range g lo (hi - 1) ?cs = upd_range g lo hi cs"
    using Suc.prems le by (intro nth_equalityI) (auto simp: range_simps nth_list_update_int)
  with IH le Suc.prems show ?case
    by (simp add: upto_rec2 upd_body_def array_simps)
qed

section \<open>Words and powers of two\<close>

lemma unat_push_bit_1:
  "n < LENGTH('a::len) \<Longrightarrow> unat (push_bit n (1 :: 'a word)) = 2 ^ n"
  by (simp only: unsigned_push_bit_eq) (simp add: push_bit_eq_mult take_bit_eq_mod)

lemma unat_2_power: "n < LENGTH('a::len) \<Longrightarrow> unat (2 ^ n :: 'a word) = 2 ^ n"
  using unat_push_bit_1 [where 'a = 'a, of n] by (simp add: push_bit_eq_mult)

lemma word_neq_0_iff_bit: "(w :: 'a::len word) \<noteq> 0 \<longleftrightarrow> (\<exists>n < LENGTH('a). bit w n)"
  by (metis bit_0_eq bit_imp_le_length bit_word_eqI bot_apply bot_bool_def)

lemma word_or_eq_0_iff: "(a OR b :: 'a::len word) = 0 \<longleftrightarrow> a = 0 \<and> b = 0"
  by (auto simp: bit_eq_iff bit_or_iff)

lemma unat_drop_bit: "unat (drop_bit n w) = unat (w :: 'a::len word) div 2 ^ n"
  by (simp add: unat_drop_bit_eq drop_bit_eq_div flip: drop_bit_eq_div)

end
