(* ===== verification/DFSet.thy ===== *)
theory DFSet
  imports NJ_Prelude
begin

text \<open>
  The set algebra of the data-flow engine (\<open>compiler/optimizer/UnionBitVectorAnalysis.cpp\<close>,
  \<open>IntersectionBitVectorAnalysis.cpp\<close>, the gen/kill steps of \<open>BitVectorAnalysis.cpp\<close>). The sources are
  class templates over a \<open>Container\<close>; the model passes the container's operations as a record, and
  the locale \<open>dfset_container\<close> states what the engine expects of them. An operation returns \<open>None\<close> when
  it would touch memory outside the container. A container pointer that may be \<open>NULL\<close> is an option.
\<close>

section \<open>The container operations and the template methods\<close>

record 's container_ops =
  c_or :: "'s \<Rightarrow> 's \<Rightarrow> 's option"
  c_and :: "'s \<Rightarrow> 's \<Rightarrow> 's option"
  c_minus :: "'s \<Rightarrow> 's \<Rightarrow> 's option"
  c_assign :: "'s \<Rightarrow> 's \<Rightarrow> 's option"
  c_equal :: "'s \<Rightarrow> 's \<Rightarrow> bool option"
  c_empty :: "'s \<Rightarrow> 's option"
  c_setAll :: "int \<Rightarrow> 's \<Rightarrow> 's option"

datatype df_kind = UnionDFSetAnalysis | IntersectionDFSetAnalysis

fun compose :: "df_kind \<Rightarrow> 's container_ops \<Rightarrow> 's \<Rightarrow> 's \<Rightarrow> 's option" where
  "compose UnionDFSetAnalysis C first second = c_or C second first"
| "compose IntersectionDFSetAnalysis C first second = c_and C second first"

fun inverseCompose :: "df_kind \<Rightarrow> 's container_ops \<Rightarrow> 's \<Rightarrow> 's \<Rightarrow> 's option" where
  "inverseCompose UnionDFSetAnalysis C first second = c_and C second first"
| "inverseCompose IntersectionDFSetAnalysis C first second = c_or C second first"

fun initializeInSetInfo :: "df_kind \<Rightarrow> 's container_ops \<Rightarrow> int \<Rightarrow> 's \<Rightarrow> 's option" where
  "initializeInSetInfo UnionDFSetAnalysis C numberOfBits info = c_empty C info"
| "initializeInSetInfo IntersectionDFSetAnalysis C numberOfBits info = c_setAll C numberOfBits info"

fun initializeCurrentGenKillSetInfo :: "df_kind \<Rightarrow> 's container_ops \<Rightarrow> int \<Rightarrow> 's \<Rightarrow> 's \<Rightarrow> ('s \<times> 's) option" where
  "initializeCurrentGenKillSetInfo UnionDFSetAnalysis C numberOfBits g k = do {
     g' \<leftarrow> c_empty C g; k' \<leftarrow> c_setAll C numberOfBits k; Some (g', k') }"
| "initializeCurrentGenKillSetInfo IntersectionDFSetAnalysis C numberOfBits g k = do {
     g' \<leftarrow> c_setAll C numberOfBits g; k' \<leftarrow> c_empty C k; Some (g', k') }"

text \<open>A guarded update \<open>if (p) *x -= *p\<close> or \<open>if (p) *x |= *p\<close>.\<close>

fun whenPresent :: "('s \<Rightarrow> 's \<Rightarrow> 's option) \<Rightarrow> 's option \<Rightarrow> 's \<Rightarrow> 's option" where
  "whenPresent f None x = Some x"
| "whenPresent f (Some p) x = f p x"

text \<open>The transfer of a basic block: the in set is copied, the kill set removed, the gen set added. The code does this
  to the regular sets and again to the exception sets of the block.\<close>

definition analyzeBlock :: "'s container_ops \<Rightarrow> 's option \<Rightarrow> 's option \<Rightarrow> 's \<Rightarrow> 's \<Rightarrow> 's option" where
  "analyzeBlock C kill gen currentIn info0 = do {
     info1 \<leftarrow> c_assign C currentIn info0;
     info2 \<leftarrow> whenPresent (c_minus C) kill info1;
     whenPresent (c_or C) gen info2
   }"

text \<open>
  The summary of a region up to an edge: the gen and kill sets \<open>temp\<close> and \<open>temp2\<close> accumulated so far
  are extended by those of the node the edge leaves.
\<close>

definition edgeGenKill :: "'s container_ops \<Rightarrow> 's option \<Rightarrow> 's option \<Rightarrow> 's \<Rightarrow> 's \<Rightarrow> 's \<Rightarrow> 's \<Rightarrow> ('s \<times> 's) option" where
  "edgeGenKill C kill gen temp temp2 curGen0 curKill0 = do {
     g0 \<leftarrow> c_assign C temp curGen0;
     k0 \<leftarrow> c_assign C temp2 curKill0;
     g1 \<leftarrow> whenPresent (c_minus C) kill g0;
     g2 \<leftarrow> whenPresent (c_or C) gen g1;
     k1 \<leftarrow> whenPresent (c_minus C) gen k0;
     k2 \<leftarrow> whenPresent (c_or C) kill k1;
     Some (g2, k2)
   }"

text \<open>The elements of a container that may be absent.\<close>

definition opt_elems :: "('s \<Rightarrow> int set) \<Rightarrow> 's option \<Rightarrow> int set" where
  "opt_elems elems p = (case p of None \<Rightarrow> {} | Some t \<Rightarrow> elems t)"

section \<open>What the engine expects of a container\<close>

locale dfset_container =
  fixes C :: "'s container_ops" and elems :: "'s \<Rightarrow> int set" and invar :: "'s \<Rightarrow> bool"
    and validCount :: "int \<Rightarrow> bool"
  assumes or_law: "invar s \<Longrightarrow> invar t \<Longrightarrow> \<exists>s'. c_or C t s = Some s' \<and> invar s' \<and> elems s' = elems s \<union> elems t"
    and and_law: "invar s \<Longrightarrow> invar t \<Longrightarrow> \<exists>s'. c_and C t s = Some s' \<and> invar s' \<and> elems s' = elems s \<inter> elems t"
    and minus_law: "invar s \<Longrightarrow> invar t \<Longrightarrow> \<exists>s'. c_minus C t s = Some s' \<and> invar s' \<and> elems s' = elems s - elems t"
    and assign_law: "invar s \<Longrightarrow> invar t \<Longrightarrow> \<exists>s'. c_assign C t s = Some s' \<and> invar s' \<and> elems s' = elems t"
    and equal_law: "invar s \<Longrightarrow> invar t \<Longrightarrow> c_equal C t s = Some (elems s = elems t)"
    and empty_law: "invar s \<Longrightarrow> \<exists>s'. c_empty C s = Some s' \<and> invar s' \<and> elems s' = {}"
    and setAll_law: "invar s \<Longrightarrow> validCount n \<Longrightarrow> \<exists>s'. c_setAll C n s = Some s' \<and> invar s' \<and> elems s' = elems s \<union> {0..<n}"
begin

lemma whenPresent_minus:
  "invar s \<Longrightarrow> pred_option invar p \<Longrightarrow>
     \<exists>s'. whenPresent (c_minus C) p s = Some s' \<and> invar s' \<and> elems s' = elems s - opt_elems elems p"
  using minus_law by (cases p) (auto simp: opt_elems_def)

lemma whenPresent_or:
  "invar s \<Longrightarrow> pred_option invar p \<Longrightarrow>
     \<exists>s'. whenPresent (c_or C) p s = Some s' \<and> invar s' \<and> elems s' = elems s \<union> opt_elems elems p"
  using or_law by (cases p) (auto simp: opt_elems_def)

lemma analyzeBlock_elems:
  assumes "invar inS" "invar info0" "pred_option invar kill" "pred_option invar gen"
  shows "\<exists>s'. analyzeBlock C kill gen inS info0 = Some s' \<and> invar s'
    \<and> elems s' = opt_elems elems gen \<union> (elems inS - opt_elems elems kill)"
proof -
  obtain s1 where s1: "c_assign C inS info0 = Some s1" "invar s1" "elems s1 = elems inS"
    using assign_law [OF assms(2,1)] by blast
  obtain s2 where s2: "whenPresent (c_minus C) kill s1 = Some s2" "invar s2" "elems s2 = elems inS - opt_elems elems kill"
    using whenPresent_minus [OF s1(2) assms(3)] s1(3) by auto
  obtain s3 where "whenPresent (c_or C) gen s2 = Some s3" "invar s3" "elems s3 = elems s2 \<union> opt_elems elems gen"
    using whenPresent_or [OF s2(2) assms(4)] by auto
  with s1 s2 show ?thesis by (auto simp: analyzeBlock_def)
qed

lemma edgeGenKill_elems:
  assumes "invar temp" "invar temp2" "invar g0" "invar k0" "pred_option invar kill" "pred_option invar gen"
  shows "\<exists>g k. edgeGenKill C kill gen temp temp2 g0 k0 = Some (g, k) \<and> invar g \<and> invar k
    \<and> elems g = (elems temp - opt_elems elems kill) \<union> opt_elems elems gen
    \<and> elems k = (elems temp2 - opt_elems elems gen) \<union> opt_elems elems kill"
proof -
  obtain a where a: "c_assign C temp g0 = Some a" "invar a" "elems a = elems temp"
    using assign_law [OF assms(3,1)] by blast
  obtain b where b: "c_assign C temp2 k0 = Some b" "invar b" "elems b = elems temp2"
    using assign_law [OF assms(4,2)] by blast
  obtain g1 where g1: "whenPresent (c_minus C) kill a = Some g1" "invar g1" "elems g1 = elems temp - opt_elems elems kill"
    using whenPresent_minus [OF a(2) assms(5)] a(3) by auto
  obtain g2 where g2: "whenPresent (c_or C) gen g1 = Some g2" "invar g2" "elems g2 = elems g1 \<union> opt_elems elems gen"
    using whenPresent_or [OF g1(2) assms(6)] by blast
  obtain k1 where k1: "whenPresent (c_minus C) gen b = Some k1" "invar k1" "elems k1 = elems temp2 - opt_elems elems gen"
    using whenPresent_minus [OF b(2) assms(6)] b(3) by auto
  obtain k2 where k2: "whenPresent (c_or C) kill k1 = Some k2" "invar k2" "elems k2 = elems k1 \<union> opt_elems elems kill"
    using whenPresent_or [OF k1(2) assms(5)] by blast
  show ?thesis using a b g1 g2 k1 k2 by (simp add: edgeGenKill_def)
qed

text \<open>
  The point of the summary: flowing a set through the region's old summary and then through the node
  is flowing it through the new summary.
\<close>

lemma edgeGenKill_composes:
  assumes "invar temp" "invar temp2" "invar g0" "invar k0" "pred_option invar kill" "pred_option invar gen"
    and "invar inS" "invar i0" "invar i1" "invar i2"
  shows "\<exists>g k mid out summary. edgeGenKill C kill gen temp temp2 g0 k0 = Some (g, k)
    \<and> analyzeBlock C (Some temp2) (Some temp) inS i0 = Some mid
    \<and> analyzeBlock C kill gen mid i1 = Some out
    \<and> analyzeBlock C (Some k) (Some g) inS i2 = Some summary
    \<and> elems summary = elems out"
proof -
  obtain g k where gk: "edgeGenKill C kill gen temp temp2 g0 k0 = Some (g, k)" "invar g" "invar k"
    "elems g = (elems temp - opt_elems elems kill) \<union> opt_elems elems gen"
    "elems k = (elems temp2 - opt_elems elems gen) \<union> opt_elems elems kill"
    using edgeGenKill_elems [OF assms(1-6)] by blast
  obtain mid where mid: "analyzeBlock C (Some temp2) (Some temp) inS i0 = Some mid" "invar mid"
    "elems mid = elems temp \<union> (elems inS - elems temp2)"
    using analyzeBlock_elems [OF assms(7,8), of "Some temp2" "Some temp"] assms(1,2) by (auto simp: opt_elems_def)
  obtain out where out: "analyzeBlock C kill gen mid i1 = Some out"
    "elems out = opt_elems elems gen \<union> (elems mid - opt_elems elems kill)"
    using analyzeBlock_elems [OF mid(2) assms(9,5,6)] by blast
  obtain summary where summary: "analyzeBlock C (Some k) (Some g) inS i2 = Some summary"
    "elems summary = elems g \<union> (elems inS - elems k)"
    using analyzeBlock_elems [OF assms(7,10), of "Some k" "Some g"] gk(2,3) by (auto simp: opt_elems_def)
  have "elems summary = elems out" unfolding out summary mid gk by blast
  with gk(1) mid(1) out(1) summary(1) show ?thesis by blast
qed

text \<open>The meet over the predecessors, starting from the neutral element the analysis installs.\<close>

lemma compose_union_all:
  assumes "invar s" "\<forall>p \<in> set ps. invar p"
  shows "\<exists>s'. foldM (\<lambda>p x. compose UnionDFSetAnalysis C x p) ps s = Some s' \<and> invar s'
    \<and> elems s' = elems s \<union> (\<Union>p \<in> set ps. elems p)"
  using assms
proof (induction ps arbitrary: s)
  case (Cons p ps)
  obtain s1 where s1: "c_or C p s = Some s1" "invar s1" "elems s1 = elems s \<union> elems p"
    using or_law [of s p] Cons.prems by auto
  show ?case using Cons.IH [OF s1(2)] Cons.prems s1 by auto
qed simp

lemma compose_intersection_all:
  assumes "invar s" "\<forall>p \<in> set ps. invar p"
  shows "\<exists>s'. foldM (\<lambda>p x. compose IntersectionDFSetAnalysis C x p) ps s = Some s' \<and> invar s'
    \<and> elems s' = elems s \<inter> (\<Inter>p \<in> set ps. elems p)"
  using assms
proof (induction ps arbitrary: s)
  case (Cons p ps)
  obtain s1 where s1: "c_and C p s = Some s1" "invar s1" "elems s1 = elems s \<inter> elems p"
    using and_law [of s p] Cons.prems by auto
  show ?case using Cons.IH [OF s1(2)] Cons.prems s1 by auto
qed simp

lemma meet_union:
  assumes "invar s" "\<forall>p \<in> set ps. invar p"
  shows "\<exists>s0 s'. initializeInSetInfo UnionDFSetAnalysis C n s = Some s0
    \<and> foldM (\<lambda>p x. compose UnionDFSetAnalysis C x p) ps s0 = Some s' \<and> invar s' \<and> elems s' = (\<Union>p \<in> set ps. elems p)"
proof -
  obtain s0 where "c_empty C s = Some s0" "invar s0" "elems s0 = {}" using empty_law [OF assms(1)] by blast
  with compose_union_all [of s0 ps] assms(2) show ?thesis by auto
qed

lemma meet_intersection:
  assumes "invar s" "\<forall>p \<in> set ps. invar p" "validCount n" "elems s \<subseteq> {0..<n}" "\<forall>p \<in> set ps. elems p \<subseteq> {0..<n}"
  shows "\<exists>s0 s'. initializeInSetInfo IntersectionDFSetAnalysis C n s = Some s0
    \<and> foldM (\<lambda>p x. compose IntersectionDFSetAnalysis C x p) ps s0 = Some s' \<and> invar s'
    \<and> elems s' = {x \<in> {0..<n}. \<forall>p \<in> set ps. x \<in> elems p}"
proof -
  obtain s0 where s0: "c_setAll C n s = Some s0" "invar s0" "elems s0 = {0..<n}"
    using setAll_law [OF assms(1,3)] assms(4) by auto
  then obtain s' where "foldM (\<lambda>p x. compose IntersectionDFSetAnalysis C x p) ps s0 = Some s'" "invar s'"
    "elems s' = {0..<n} \<inter> (\<Inter>p \<in> set ps. elems p)"
    using compose_intersection_all [OF s0(2) assms(2)] by auto
  with s0(1) show ?thesis by auto
qed

end

end
