(* ===== verification/BitVector.thy ===== *)
theory BitVector
  imports DFSet
begin

text \<open>
  The growable bit vector of \<open>compiler/infra/BitVector.hpp\<close> and \<open>BitVector.cpp\<close>, on which the
  data-flow analyses of the optimizer run, in the configuration the build selects: 64-bit
  chunks (\<open>BITVECTOR_64BIT\<close>) with the bits of a chunk numbered from its most significant end
  (\<open>BITVECTOR_BIT_NUMBERING_MSB\<close>). A chunk read or write outside the array is \<open>None\<close>. The
  memory region only says where the chunk array lives and is left out; \<open>TR_ASSERT\<close> is empty in
  the production build. The model follows the sources operation by operation; the theorems
  show that every operation implements the set operation it stands for and keeps
  \<open>_firstChunkWithNonZero\<close> and \<open>_lastChunkWithNonZero\<close> precise.
\<close>

section \<open>The vector and its index arithmetic\<close>

record bitvector =
  chunks :: "u64 list"
  numChunks :: int
  firstChunkWithNonZero :: int
  lastChunkWithNonZero :: int
  growable :: bool

definition emptyBitVector :: bitvector where
  "emptyBitVector =
     \<lparr>chunks = [], numChunks = 0, firstChunkWithNonZero = 0, lastChunkWithNonZero = -1, growable = True\<rparr>"

text \<open>The shift is on \<open>int64_t\<close>, the result is converted to \<open>int32_t\<close>.\<close>

definition getChunkIndex :: "int \<Rightarrow> int" where
  "getChunkIndex bitIndex = signed_take_bit 31 (drop_bit 6 bitIndex)"

definition getIndexInChunk :: "int \<Rightarrow> int" where
  "getIndexInChunk bitIndex = bitIndex AND 63"

definition getBitMask :: "int \<Rightarrow> u64" where
  "getBitMask bitIndex = push_bit (nat (63 - (bitIndex AND 63))) 1"

definition getBitMaskRange :: "int \<Rightarrow> int \<Rightarrow> u64" where
  "getBitMaskRange m n = push_bit 1 (getBitMask m - 1) - getBitMask n + 2"

definition incrementBitMask :: "u64 \<Rightarrow> u64" where
  "incrementBitMask bitMask = drop_bit 1 bitMask"

definition getBitIndex :: "int \<Rightarrow> int" where
  "getBitIndex chunkIndex = push_bit 6 chunkIndex"

section \<open>Recomputing the bounds, resizing\<close>

function scanUp :: "u64 list \<Rightarrow> int \<Rightarrow> int \<Rightarrow> int option" where
  "scanUp cs low high =
     (if low \<le> high then
        (case rd cs low of
           None \<Rightarrow> None
         | Some c \<Rightarrow> if c = 0 then scanUp cs (low + 1) high else Some low)
      else Some low)"
  by pat_completeness auto
termination
  by (relation "measure (\<lambda>(_, low, high). nat (high - low + 1))") auto

declare scanUp.simps [simp del]

function scanDown :: "u64 list \<Rightarrow> int \<Rightarrow> int option" where
  "scanDown cs high =
     (case rd cs high of
        None \<Rightarrow> None
      | Some c \<Rightarrow> if c = 0 then scanDown cs (high - 1) else Some high)"
  by pat_completeness auto
termination
  by (relation "measure (\<lambda>(_, high). nat (high + 1))") (auto simp: rd_eq_Some_iff)

declare scanDown.simps [simp del]

definition resetLowAndHighChunks :: "int \<Rightarrow> int \<Rightarrow> bitvector \<Rightarrow> bitvector option" where
  "resetLowAndHighChunks low high v = do {
     low' \<leftarrow> scanUp (chunks v) low high;
     if low' > high
     then Some (v\<lparr>firstChunkWithNonZero := numChunks v, lastChunkWithNonZero := -1\<rparr>)
     else do {
       high' \<leftarrow> scanDown (chunks v) high;
       Some (v\<lparr>firstChunkWithNonZero := low', lastChunkWithNonZero := high'\<rparr>)
     }
   }"

text \<open>
  \<open>setChunkSize\<close> allocates the new array, clears it and copies what fits; a negative size is a
  request for an absurd amount of memory and fails.
\<close>

definition setChunkSize :: "int \<Rightarrow> bitvector \<Rightarrow> bitvector option" where
  "setChunkSize chunkSize v =
     (if chunkSize = numChunks v then Some v
      else if chunkSize = 0 then
        Some (v\<lparr>chunks := [], numChunks := 0, firstChunkWithNonZero := 0, lastChunkWithNonZero := -1\<rparr>)
      else if chunkSize < 0 then None
      else do {
        v1 \<leftarrow> (if numChunks v > chunkSize then
                 if lastChunkWithNonZero v < 0 then Some (v\<lparr>firstChunkWithNonZero := chunkSize\<rparr>)
                 else if firstChunkWithNonZero v \<ge> chunkSize then
                   Some (v\<lparr>firstChunkWithNonZero := chunkSize, lastChunkWithNonZero := -1\<rparr>)
                 else if lastChunkWithNonZero v \<ge> chunkSize then do {
                   l \<leftarrow> scanDown (chunks v) (chunkSize - 1);
                   Some (v\<lparr>lastChunkWithNonZero := l\<rparr>)
                 }
                 else Some v
               else if lastChunkWithNonZero v < 0 then Some (v\<lparr>firstChunkWithNonZero := chunkSize\<rparr>)
               else Some v);
        let chunksToCopy = (if chunkSize < numChunks v then chunkSize else numChunks v) in
        Some (v1\<lparr>chunks := take (nat chunksToCopy) (chunks v)
                            @ replicate (nat (chunkSize - chunksToCopy)) 0,
                 numChunks := chunkSize\<rparr>)
      })"

definition setSize :: "int \<Rightarrow> bitvector \<Rightarrow> bitvector option" where
  "setSize n v = setChunkSize (getChunkIndex (n - 1) + 1) v"

text \<open>The constructor that pre-allocates \<open>initBits\<close> bits, all off.\<close>

definition newBitVector :: "int \<Rightarrow> bool \<Rightarrow> bitvector" where
  "newBitVector initBits growableOrNot =
     (let n = getChunkIndex (initBits - 1) + 1 in
      \<lparr>chunks = replicate (nat n) 0, numChunks = n, firstChunkWithNonZero = n,
       lastChunkWithNonZero = -1, growable = growableOrNot\<rparr>)"

definition init :: "int \<Rightarrow> bool \<Rightarrow> bitvector option" where
  "init initBits growableOrNot = do {
     v \<leftarrow> setChunkSize (getChunkIndex (initBits - 1) + 1) emptyBitVector;
     Some (v\<lparr>growable := growableOrNot\<rparr>)
   }"

definition ensureBits :: "int \<Rightarrow> bitvector \<Rightarrow> bitvector option" where
  "ensureBits n v =
     (let chunkIndex = getChunkIndex n in
      if chunkIndex \<ge> numChunks v then setChunkSize (chunkIndex + 1) v else Some v)"

section \<open>Single bits\<close>

definition getBit :: "int \<Rightarrow> bitvector \<Rightarrow> bool option" where
  "getBit n v =
     (let chunkIndex = getChunkIndex n in
      if chunkIndex > lastChunkWithNonZero v then Some False
      else do { c \<leftarrow> rd (chunks v) chunkIndex; Some (c AND getBitMask n \<noteq> 0) })"

definition setBit :: "int \<Rightarrow> bitvector \<Rightarrow> bitvector option" where
  "setBit n v =
     (let chunkIndex = getChunkIndex n in do {
        v1 \<leftarrow> (if chunkIndex \<ge> numChunks v then setChunkSize (chunkIndex + 1) v else Some v);
        let v2 = (if chunkIndex < firstChunkWithNonZero v1
                  then v1\<lparr>firstChunkWithNonZero := chunkIndex\<rparr> else v1);
            v3 = (if chunkIndex > lastChunkWithNonZero v2
                  then v2\<lparr>lastChunkWithNonZero := chunkIndex\<rparr> else v2) in do {
        c \<leftarrow> rd (chunks v3) chunkIndex;
        cs \<leftarrow> wr (chunks v3) chunkIndex (c OR getBitMask n);
        Some (v3\<lparr>chunks := cs\<rparr>) }
      })"

definition resetBit :: "int \<Rightarrow> bool \<Rightarrow> bitvector \<Rightarrow> bitvector option" where
  "resetBit n updateLowHigh v =
     (let chunkIndex = getChunkIndex n in
      if chunkIndex > lastChunkWithNonZero v \<or> chunkIndex < firstChunkWithNonZero v then Some v
      else do {
        c \<leftarrow> rd (chunks v) chunkIndex;
        if c \<noteq> 0 then do {
          let c' = c AND NOT (getBitMask n);
          cs \<leftarrow> wr (chunks v) chunkIndex c';
          let v1 = v\<lparr>chunks := cs\<rparr>;
          if updateLowHigh \<and> c' = 0
          then resetLowAndHighChunks (firstChunkWithNonZero v) (lastChunkWithNonZero v) v1
          else Some v1
        } else Some v
      })"

definition setTo :: "int \<Rightarrow> bool \<Rightarrow> bitvector \<Rightarrow> bitvector option" where
  "setTo n value v = (if value then setBit n v else resetBit n True v)"

definition clearBit :: "int \<Rightarrow> bitvector \<Rightarrow> (bool \<times> bitvector) option" where
  "clearBit n v = do {
     rc \<leftarrow> getBit n v;
     v' \<leftarrow> (if rc then resetBit n True v else Some v);
     Some (rc, v')
   }"

fun highestBitLoop :: "u64 \<Rightarrow> int list \<Rightarrow> int \<Rightarrow> int" where
  "highestBitLoop c [] base = 0"
| "highestBitLoop c (bitIndex # is) base =
     (if c AND getBitMask bitIndex \<noteq> 0 then getIndexInChunk bitIndex + base
      else highestBitLoop c is base)"

definition getHighestBitPosition :: "bitvector \<Rightarrow> int option" where
  "getHighestBitPosition v =
     (if lastChunkWithNonZero v < 0 then Some 0
      else do {
        c \<leftarrow> rd (chunks v) (lastChunkWithNonZero v);
        Some (highestBitLoop c (rev [0..63]) (getBitIndex (lastChunkWithNonZero v)))
      })"

section \<open>Whole-vector operations\<close>

definition zeroBody :: "int \<Rightarrow> u64 list \<Rightarrow> u64 list option" where
  "zeroBody i cs = wr cs i 0"

definition combineBody :: "(u64 \<Rightarrow> u64 \<Rightarrow> u64) \<Rightarrow> u64 list \<Rightarrow> int \<Rightarrow> u64 list \<Rightarrow> u64 list option" where
  "combineBody f ds i cs = do { a \<leftarrow> rd cs i; b \<leftarrow> rd ds i; wr cs i (f a b) }"

definition emptyAll :: "bitvector \<Rightarrow> bitvector option" where
  "emptyAll v = do {
     cs \<leftarrow> foldM zeroBody [firstChunkWithNonZero v..lastChunkWithNonZero v] (chunks v);
     Some (v\<lparr>chunks := cs, firstChunkWithNonZero := numChunks v, lastChunkWithNonZero := -1\<rparr>)
   }"

definition assign :: "bitvector \<Rightarrow> bitvector \<Rightarrow> bitvector option" where
  "assign v2 v0 = do {
     v \<leftarrow> (if numChunks v0 < numChunks v2 then setChunkSize (numChunks v2) v0 else Some v0);
     let high = lastChunkWithNonZero v2;
     if high < 0 then emptyAll v
     else do {
       let low = firstChunkWithNonZero v2;
       cs1 \<leftarrow> foldM zeroBody [firstChunkWithNonZero v..low - 1] (chunks v);
       cs2 \<leftarrow> foldM (combineBody (\<lambda>a b. b) (chunks v2)) [low..high] cs1;
       cs3 \<leftarrow> foldM zeroBody [high + 1..lastChunkWithNonZero v] cs2;
       Some (v\<lparr>chunks := cs3, firstChunkWithNonZero := low, lastChunkWithNonZero := high\<rparr>)
     }
   }"

definition orWith :: "bitvector \<Rightarrow> bitvector \<Rightarrow> bitvector option" where
  "orWith v2 v0 =
     (if lastChunkWithNonZero v2 < 0 then Some v0
      else do {
        v \<leftarrow> (if numChunks v0 < numChunks v2 then setChunkSize (numChunks v2) v0 else Some v0);
        cs \<leftarrow> foldM (combineBody (OR) (chunks v2))
                [firstChunkWithNonZero v2..lastChunkWithNonZero v2] (chunks v);
        let v' = v\<lparr>chunks := cs\<rparr>;
        let v' = (if firstChunkWithNonZero v' > firstChunkWithNonZero v2
                  then v'\<lparr>firstChunkWithNonZero := firstChunkWithNonZero v2\<rparr> else v');
        let v' = (if lastChunkWithNonZero v' < lastChunkWithNonZero v2
                  then v'\<lparr>lastChunkWithNonZero := lastChunkWithNonZero v2\<rparr> else v');
        Some v'
      })"

definition andWith :: "bitvector \<Rightarrow> bitvector \<Rightarrow> bitvector option" where
  "andWith v2 v =
     (if lastChunkWithNonZero v < 0 then Some v
      else let low = firstChunkWithNonZero v2; high = lastChunkWithNonZero v2 in
      if high < firstChunkWithNonZero v \<or> low > lastChunkWithNonZero v then emptyAll v
      else do {
        (low', cs1) \<leftarrow> (if low < firstChunkWithNonZero v then Some (firstChunkWithNonZero v, chunks v)
                        else do { cs \<leftarrow> foldM zeroBody [firstChunkWithNonZero v..low - 1] (chunks v);
                                  Some (low, cs) });
        (high', cs2) \<leftarrow> (if high > lastChunkWithNonZero v then Some (lastChunkWithNonZero v, cs1)
                         else do { cs \<leftarrow> foldM zeroBody (rev [high + 1..lastChunkWithNonZero v]) cs1;
                                   Some (high, cs) });
        cs3 \<leftarrow> foldM (combineBody (AND) (chunks v2)) [low'..high'] cs2;
        resetLowAndHighChunks low' high' (v\<lparr>chunks := cs3\<rparr>)
      })"

fun intersectsLoop :: "u64 list \<Rightarrow> u64 list \<Rightarrow> int list \<Rightarrow> bool option" where
  "intersectsLoop cs ds [] = Some False"
| "intersectsLoop cs ds (i # is) = do {
     a \<leftarrow> rd cs i; b \<leftarrow> rd ds i;
     if a AND b \<noteq> 0 then Some True else intersectsLoop cs ds is
   }"

definition intersects :: "bitvector \<Rightarrow> bitvector \<Rightarrow> bool option" where
  "intersects v2 v =
     (if lastChunkWithNonZero v < 0 then Some False
      else let low = firstChunkWithNonZero v2; high = lastChunkWithNonZero v2 in
      if high < firstChunkWithNonZero v \<or> low > lastChunkWithNonZero v then Some False
      else let low' = (if low < firstChunkWithNonZero v then firstChunkWithNonZero v else low);
               high' = (if high > lastChunkWithNonZero v then lastChunkWithNonZero v else high)
           in intersectsLoop (chunks v) (chunks v2) [low'..high'])"

definition minusWith :: "bitvector \<Rightarrow> bitvector \<Rightarrow> bitvector option" where
  "minusWith v2 v =
     (if lastChunkWithNonZero v < 0 then Some v
      else let low = firstChunkWithNonZero v2; high = lastChunkWithNonZero v2 in
      if high < firstChunkWithNonZero v \<or> low > lastChunkWithNonZero v then Some v
      else let low' = (if low < firstChunkWithNonZero v then firstChunkWithNonZero v else low);
               high' = (if high > lastChunkWithNonZero v then lastChunkWithNonZero v else high)
      in do {
        cs \<leftarrow> foldM (combineBody (\<lambda>a b. a AND NOT b) (chunks v2)) [low'..high'] (chunks v);
        resetLowAndHighChunks (firstChunkWithNonZero v) (lastChunkWithNonZero v) (v\<lparr>chunks := cs\<rparr>)
      })"

fun equalLoop :: "u64 list \<Rightarrow> u64 list \<Rightarrow> int list \<Rightarrow> bool option" where
  "equalLoop cs ds [] = Some True"
| "equalLoop cs ds (i # is) = do {
     a \<leftarrow> rd cs i; b \<leftarrow> rd ds i;
     if a \<noteq> b then Some False else equalLoop cs ds is
   }"

definition equalTo :: "bitvector \<Rightarrow> bitvector \<Rightarrow> bool option" where
  "equalTo v2 v =
     (if lastChunkWithNonZero v \<noteq> lastChunkWithNonZero v2 then Some False
      else if lastChunkWithNonZero v < 0 then Some True
      else if firstChunkWithNonZero v \<noteq> firstChunkWithNonZero v2 then Some False
      else equalLoop (chunks v) (chunks v2) [firstChunkWithNonZero v..lastChunkWithNonZero v])"

definition isEmpty :: "bitvector \<Rightarrow> bool" where
  "isEmpty v \<longleftrightarrow> lastChunkWithNonZero v < 0"

section \<open>The represented set and the invariant\<close>

definition chunkAt :: "u64 list \<Rightarrow> int \<Rightarrow> u64" where
  "chunkAt cs k = (if 0 \<le> k \<and> k < int (length cs) then cs ! nat k else 0)"

definition bits :: "bitvector \<Rightarrow> int set" where
  "bits v = {n. 0 \<le> n \<and> bit (chunkAt (chunks v) (n div 64)) (nat (63 - n mod 64))}"

text \<open>
  The comment in the sources: the two bounds \<open>must be maintained precisely\<close>, with \<open>_numChunks\<close>
  and \<open>-1\<close> for an empty vector.
\<close>

definition precise :: "u64 list \<Rightarrow> int \<Rightarrow> int \<Rightarrow> bool" where
  "precise cs f l =
     (if list_all (\<lambda>c. c = 0) cs then f = int (length cs) \<and> l = -1
      else 0 \<le> f \<and> f \<le> l \<and> l < int (length cs) \<and> cs ! nat f \<noteq> 0 \<and> cs ! nat l \<noteq> 0
           \<and> list_all (\<lambda>c. c = 0) (take (nat f) cs) \<and> list_all (\<lambda>c. c = 0) (drop (nat (l + 1)) cs))"

definition bv_ok :: "bitvector \<Rightarrow> bool" where
  "bv_ok v \<longleftrightarrow> numChunks v = int (length (chunks v)) \<and> length (chunks v) < 2 ^ 31
     \<and> precise (chunks v) (firstChunkWithNonZero v) (lastChunkWithNonZero v)"

named_theorems chunk_simps

lemma chunkAt_outside [chunk_simps]: "k < 0 \<Longrightarrow> chunkAt cs k = 0" "int (length cs) \<le> k \<Longrightarrow> chunkAt cs k = 0"
  by (auto simp: chunkAt_def)

lemma chunkAt_inside: "0 \<le> k \<Longrightarrow> k < int (length cs) \<Longrightarrow> chunkAt cs k = cs ! nat k"
  by (simp add: chunkAt_def)

lemma rd_chunkAt: "0 \<le> k \<Longrightarrow> k < int (length cs) \<Longrightarrow> rd cs k = Some (chunkAt cs k)"
  by (simp add: rd_def chunkAt_def)

lemma chunkAt_update [chunk_simps]:
  "0 \<le> i \<Longrightarrow> i < int (length cs) \<Longrightarrow> chunkAt (cs[nat i := c]) k = (if k = i then c else chunkAt cs k)"
  by (auto simp: chunkAt_def nth_list_update)

lemma chunkAt_upd_range [chunk_simps]:
  "chunkAt (upd_range g lo hi cs) k =
     (if lo \<le> k \<and> k \<le> hi \<and> 0 \<le> k \<and> k < int (length cs) then g k (chunkAt cs k) else chunkAt cs k)"
  by (auto simp: chunkAt_def range_simps)

lemma chunkAt_nonzeroD: "chunkAt cs k \<noteq> 0 \<Longrightarrow> 0 \<le> k \<and> k < int (length cs)"
  by (auto simp: chunkAt_def split: if_splits)

lemma chunkAt_nonzero_iff: "chunkAt cs k \<noteq> 0 \<longleftrightarrow> 0 \<le> k \<and> k < int (length cs) \<and> cs ! nat k \<noteq> 0"
  by (auto simp: chunkAt_def)

lemma list_all_0_iff: "list_all (\<lambda>c. c = 0) cs \<longleftrightarrow> (\<forall>k. chunkAt cs k = 0)"
proof
  assume "\<forall>k. chunkAt cs k = 0"
  then have "cs ! i = 0" if "i < length cs" for i
    using that spec [of "\<lambda>k. chunkAt cs k = 0" "int i"] by (simp add: chunkAt_def)
  then show "list_all (\<lambda>c. c = 0) cs" by (simp add: list_all_length)
qed (auto simp: list_all_length chunkAt_def)

lemma take_0_iff: "0 \<le> f \<Longrightarrow> (\<forall>k. chunkAt (take (nat f) cs) k = 0) \<longleftrightarrow> (\<forall>k < f. chunkAt cs k = 0)"
proof -
  assume "0 \<le> f"
  then have "chunkAt (take (nat f) cs) k = (if k < f then chunkAt cs k else 0)" for k
    by (auto simp: chunkAt_def)
  then show ?thesis by auto
qed

lemma drop_0_iff: "0 \<le> l \<Longrightarrow> (\<forall>k. chunkAt (drop (nat (l + 1)) cs) k = 0) \<longleftrightarrow> (\<forall>k > l. chunkAt cs k = 0)"
proof -
  assume l: "0 \<le> l"
  then have d: "chunkAt (drop (nat (l + 1)) cs) k = (if 0 \<le> k then chunkAt cs (k + l + 1) else 0)" for k
    by (auto simp: chunkAt_def nat_add_distrib ac_simps)
  have "chunkAt cs k = 0" if "\<forall>k. chunkAt (drop (nat (l + 1)) cs) k = 0" "l < k" for k
    using that d [of "k - l - 1"] by simp
  with d l show ?thesis by auto
qed

lemma precise_iff:
  "precise cs f l \<longleftrightarrow>
     (if \<forall>k. chunkAt cs k = 0 then f = int (length cs) \<and> l = -1
      else chunkAt cs f \<noteq> 0 \<and> chunkAt cs l \<noteq> 0 \<and> (\<forall>k. chunkAt cs k \<noteq> 0 \<longrightarrow> f \<le> k \<and> k \<le> l))"
proof (cases "\<forall>k. chunkAt cs k = 0")
  case False
  have "precise cs f l \<longleftrightarrow> 0 \<le> f \<and> f \<le> l \<and> l < int (length cs) \<and> cs ! nat f \<noteq> 0 \<and> cs ! nat l \<noteq> 0
    \<and> (\<forall>k < f. chunkAt cs k = 0) \<and> (\<forall>k > l. chunkAt cs k = 0)"
    unfolding precise_def list_all_0_iff if_not_P [OF False] by (simp add: take_0_iff drop_0_iff cong: conj_cong)
  also have "\<dots> \<longleftrightarrow> f \<le> l \<and> chunkAt cs f \<noteq> 0 \<and> chunkAt cs l \<noteq> 0
    \<and> (\<forall>k < f. chunkAt cs k = 0) \<and> (\<forall>k > l. chunkAt cs k = 0)"
    using chunkAt_nonzero_iff [of cs f] chunkAt_nonzero_iff [of cs l] by auto
  also have "\<dots> \<longleftrightarrow> chunkAt cs f \<noteq> 0 \<and> chunkAt cs l \<noteq> 0 \<and> (\<forall>k. chunkAt cs k \<noteq> 0 \<longrightarrow> f \<le> k \<and> k \<le> l)"
    by (meson not_le)
  finally show ?thesis unfolding if_not_P [OF False] .
qed (auto simp: precise_def list_all_0_iff)

text \<open>The consequences of precise bounds that the operations use.\<close>

lemma preciseD:
  assumes "precise cs f l"
  shows "chunkAt cs k \<noteq> 0 \<Longrightarrow> f \<le> k \<and> k \<le> l"
    and "l < 0 \<Longrightarrow> l = -1 \<and> f = int (length cs) \<and> chunkAt cs k = 0"
    and "0 \<le> l \<Longrightarrow> 0 \<le> f \<and> f \<le> l \<and> l < int (length cs) \<and> chunkAt cs f \<noteq> 0 \<and> chunkAt cs l \<noteq> 0"
    and "-1 \<le> l" and "0 \<le> f" and "f \<le> int (length cs)" and "l < int (length cs)"
  using assms unfolding precise_iff
  by (auto split: if_splits dest: chunkAt_nonzeroD)

lemma precise_outside: "precise cs f l \<Longrightarrow> k < f \<or> l < k \<Longrightarrow> chunkAt cs k = 0"
  using preciseD(1) by fastforce

lemma preciseI_nonempty:
  "chunkAt cs f \<noteq> 0 \<Longrightarrow> chunkAt cs l \<noteq> 0 \<Longrightarrow> (\<And>k. chunkAt cs k \<noteq> 0 \<Longrightarrow> f \<le> k \<and> k \<le> l) \<Longrightarrow> precise cs f l"
  by (auto simp: precise_iff)

lemma preciseI_empty: "(\<And>k. chunkAt cs k = 0) \<Longrightarrow> precise cs (int (length cs)) (-1)"
  by (simp add: precise_iff)

lemma scanUp_correct:
  assumes "0 \<le> low" "high < int (length cs)"
  shows "\<exists>r. scanUp cs low high = Some r \<and> low \<le> r \<and> (\<forall>k. low \<le> k \<and> k < r \<longrightarrow> chunkAt cs k = 0)
     \<and> (r \<le> high \<longrightarrow> chunkAt cs r \<noteq> 0)"
  using assms
proof (induction cs low high rule: scanUp.induct)
  case (1 cs low high)
  show ?case
  proof (cases "low \<le> high \<and> chunkAt cs low = 0")
    case True
    then have r: "rd cs low = Some 0" using 1 by (simp add: rd_chunkAt)
    with True 1 obtain r where IH: "scanUp cs (low + 1) high = Some r" "low + 1 \<le> r"
      "\<forall>k. low + 1 \<le> k \<and> k < r \<longrightarrow> chunkAt cs k = 0" "r \<le> high \<longrightarrow> chunkAt cs r \<noteq> 0"
      by auto
    have "chunkAt cs k = 0" if "low \<le> k" "k < r" for k
      using that IH(3) True by (cases "k = low") auto
    with IH True r show ?thesis
      by (intro exI [of _ r]) (auto simp: scanUp.simps [of cs low])
  next
    case False
    with 1 show ?thesis
      by (intro exI [of _ low]) (auto simp: scanUp.simps [of cs low] rd_chunkAt)
  qed
qed

lemma scanDown_correct:
  assumes "high < int (length cs)" "low \<le> high" "chunkAt cs low \<noteq> 0"
  shows "\<exists>r. scanDown cs high = Some r \<and> low \<le> r \<and> r \<le> high \<and> chunkAt cs r \<noteq> 0
     \<and> (\<forall>k. r < k \<and> k \<le> high \<longrightarrow> chunkAt cs k = 0)"
  using assms
proof (induction cs high rule: scanDown.induct)
  case (1 cs high)
  have hi: "rd cs high = Some (chunkAt cs high)"
    using 1 chunkAt_nonzeroD [of cs low] by (simp add: rd_chunkAt)
  show ?case
  proof (cases "chunkAt cs high = 0")
    case True
    with 1 have "low \<le> high - 1" by (cases "low = high") auto
    with True 1 hi obtain r where IH: "scanDown cs (high - 1) = Some r" "low \<le> r" "r \<le> high - 1"
      "chunkAt cs r \<noteq> 0" "\<forall>k. r < k \<and> k \<le> high - 1 \<longrightarrow> chunkAt cs k = 0"
      by auto
    have "k = high \<or> k \<le> high - 1" if "k \<le> high" for k using that by auto
    with IH True hi show ?thesis
      by (intro exI [of _ r]) (auto simp: scanDown.simps [of cs high])
  next
    case False
    with 1 hi show ?thesis
      by (intro exI [of _ high]) (auto simp: scanDown.simps [of cs high])
  qed
qed

text \<open>
  The recomputation of the bounds is right whenever the scanned range holds every nonzero chunk.
\<close>

lemma resetLowAndHighChunks_correct:
  assumes "numChunks v = int (length (chunks v))" "0 \<le> low" "high < int (length (chunks v))"
    and "\<And>k. chunkAt (chunks v) k \<noteq> 0 \<Longrightarrow> low \<le> k \<and> k \<le> high"
  shows "\<exists>f l. resetLowAndHighChunks low high v =
      Some (v\<lparr>firstChunkWithNonZero := f, lastChunkWithNonZero := l\<rparr>) \<and> precise (chunks v) f l"
proof -
  obtain r where r: "scanUp (chunks v) low high = Some r" "low \<le> r"
    "\<forall>k. low \<le> k \<and> k < r \<longrightarrow> chunkAt (chunks v) k = 0" "r \<le> high \<longrightarrow> chunkAt (chunks v) r \<noteq> 0"
    using scanUp_correct [OF assms(2,3)] by blast
  have low: "r \<le> k" if "chunkAt (chunks v) k \<noteq> 0" for k
    using that r(3) assms(4) by (meson not_le)
  show ?thesis
  proof (cases "r > high")
    case True
    then have "chunkAt (chunks v) k = 0" for k using low [of k] assms(4) [of k] by fastforce
    then have "precise (chunks v) (int (length (chunks v))) (-1)" by (rule preciseI_empty)
    with True r assms(1) show ?thesis
      by (auto simp: resetLowAndHighChunks_def simp del: bitvector.update_convs intro!: exI)
  next
    case False
    with r scanDown_correct [OF assms(3), of r] obtain h where
      h: "scanDown (chunks v) high = Some h" "chunkAt (chunks v) h \<noteq> 0"
        "\<forall>k. h < k \<and> k \<le> high \<longrightarrow> chunkAt (chunks v) k = 0" by auto
    have "k \<le> h" if "chunkAt (chunks v) k \<noteq> 0" for k
      using that h(3) assms(4) by (meson not_le)
    then have "precise (chunks v) r h"
      using False r(4) h(2) low by (intro preciseI_nonempty) auto
    with False r h show ?thesis by (auto simp: resetLowAndHighChunks_def)
  qed
qed

lemma chunkAt_resized:
  assumes "0 \<le> s"
  shows "chunkAt (take (nat (min s (int (length cs)))) cs @ replicate (nat (s - min s (int (length cs)))) 0) k
    = (if k < s then chunkAt cs k else 0)"
  using assms by (auto simp: chunkAt_def nth_append min_def)

lemma setChunkSize_correct:
  assumes ok: "bv_ok v" and s: "0 \<le> s" "s < 2 ^ 31"
  shows "\<exists>v'. setChunkSize s v = Some v' \<and> bv_ok v' \<and> numChunks v' = s \<and> growable v' = growable v
     \<and> (\<forall>k. chunkAt (chunks v') k = (if k < s then chunkAt (chunks v) k else 0))"
proof -
  let ?cs = "chunks v" and ?f = "firstChunkWithNonZero v" and ?l = "lastChunkWithNonZero v"
  have n: "numChunks v = int (length ?cs)" and len: "length ?cs < 2 ^ 31"
    and p: "precise ?cs ?f ?l" using ok by (simp_all add: bv_ok_def)
  note P = preciseD [OF p]
  define ds where "ds = take (nat (min s (int (length ?cs)))) ?cs @ replicate (nat (s - min s (int (length ?cs)))) 0"
  have lds: "int (length ds) = s" using s by (auto simp: ds_def min_def)
  have ds: "chunkAt ds k = (if k < s then chunkAt ?cs k else 0)" for k
    unfolding ds_def by (rule chunkAt_resized [OF s(1)])
  consider "s = numChunks v" | "s \<noteq> numChunks v" "s = 0" | "s \<noteq> numChunks v" "s > 0" "?l < 0"
    | "s \<noteq> numChunks v" "s > 0" "0 \<le> ?l" "s \<le> ?f" | "s \<noteq> numChunks v" "s > 0" "0 \<le> ?l" "?f < s" "s \<le> ?l"
    | "s \<noteq> numChunks v" "s > 0" "0 \<le> ?l" "?l < s"
    using s(1) P by linarith
  then show ?thesis
  proof cases
    case 1
    with ok n show ?thesis by (auto simp: setChunkSize_def chunk_simps)
  next
    case 2
    then show ?thesis
      using s by (auto simp: setChunkSize_def bv_ok_def precise_def chunkAt_def)
  next
    case 3
    have "setChunkSize s v = Some (v\<lparr>firstChunkWithNonZero := s, chunks := ds, numChunks := s\<rparr>)"
      using 3 s n by (auto simp: setChunkSize_def ds_def min_def)
    moreover have "precise ds s (-1)" using preciseI_empty [of ds] ds P(2) [OF 3(3)] lds by simp
    ultimately show ?thesis using ds lds s P(2) [OF 3(3)] by (auto simp: bv_ok_def)
  next
    case 4
    have "setChunkSize s v = Some (v\<lparr>firstChunkWithNonZero := s, lastChunkWithNonZero := -1, chunks := ds, numChunks := s\<rparr>)"
      using 4 s n P(3,6) by (auto simp: setChunkSize_def ds_def min_def)
    moreover have "chunkAt ds k = 0" for k
      using P(1) [of k] 4(4) by (cases "chunkAt ?cs k = 0") (auto simp: ds)
    then have "precise ds s (-1)" using preciseI_empty [of ds] lds by simp
    ultimately show ?thesis using ds lds s by (auto simp: bv_ok_def)
  next
    case 5
    obtain l' where l': "scanDown ?cs (s - 1) = Some l'" "l' \<le> s - 1" "chunkAt ?cs l' \<noteq> 0"
      "\<forall>k. l' < k \<and> k \<le> s - 1 \<longrightarrow> chunkAt ?cs k = 0"
      using scanDown_correct [of "s - 1" ?cs ?f] 5 P(3) by auto
    have "setChunkSize s v = Some (v\<lparr>lastChunkWithNonZero := l', chunks := ds, numChunks := s\<rparr>)"
      using 5 s n P(3) l' by (auto simp: setChunkSize_def ds_def min_def)
    moreover have "k \<le> l'" if "chunkAt ds k \<noteq> 0" for k
      using that l'(4) by (auto simp: ds split: if_splits) (meson not_le zle_diff1_eq)
    then have "precise ds ?f l'"
      using 5 l' P(1,3) by (intro preciseI_nonempty) (auto simp: ds split: if_splits)
    ultimately show ?thesis using ds lds s by (auto simp: bv_ok_def)
  next
    case 6
    have "setChunkSize s v = Some (v\<lparr>chunks := ds, numChunks := s\<rparr>)"
      using 6 s n P(3) by (auto simp: setChunkSize_def ds_def min_def)
    moreover have "precise ds ?f ?l"
      using 6 P(1,3) by (intro preciseI_nonempty) (auto simp: ds split: if_splits)
    ultimately show ?thesis using ds lds s by (auto simp: bv_ok_def)
  qed
qed

section \<open>Indices and masks\<close>

lemma and_63: "(n::int) AND 63 = n mod 64"
  using take_bit_eq_mask [of 6 n] by (simp add: take_bit_eq_mod mask_eq_exp_minus_1)

lemma getChunkIndex_eq [simp]: "- (2 ^ 37) \<le> n \<Longrightarrow> n < 2 ^ 37 \<Longrightarrow> getChunkIndex n = n div 64"
  unfolding getChunkIndex_def drop_bit_eq_div
  by (subst signed_take_bit_int_eq_self) auto

lemma getIndexInChunk_eq: "getIndexInChunk n = n mod 64"
  by (simp add: getIndexInChunk_def and_63)

lemma getBitIndex_eq: "getBitIndex c = c * 64"
  by (simp add: getBitIndex_def push_bit_eq_mult)

lemma bit_getBitMask: "bit (getBitMask n) i \<longleftrightarrow> i = nat (63 - n mod 64)"
  by (auto simp: getBitMask_def and_63 bit_simps)

lemma getBitMask_mod: "getBitMask (n mod 64) = getBitMask n"
  by (simp add: getBitMask_def and_63)

lemma mask_test: "(c AND getBitMask n \<noteq> 0) \<longleftrightarrow> bit c (nat (63 - n mod 64))"
proof -
  have "c AND getBitMask n \<noteq> 0 \<longleftrightarrow> (\<exists>i < 64. bit c i \<and> i = nat (63 - n mod 64))"
    by (simp add: word_neq_0_iff_bit bit_and_iff bit_getBitMask)
  then show ?thesis by (auto dest: bit_imp_le_length)
qed

lemma pos_inj: "0 \<le> a \<Longrightarrow> a < 64 \<Longrightarrow> 0 \<le> b \<Longrightarrow> b < 64 \<Longrightarrow> nat (63 - a) = nat (63 - b) \<longleftrightarrow> a = (b::int)"
  by auto

lemma div_mod_64_eq_iff: "(m::int) div 64 = n div 64 \<and> m mod 64 = n mod 64 \<longleftrightarrow> m = n"
  by (metis div_mult_mod_eq)

lemma mem_bits: "n \<in> bits v \<longleftrightarrow> 0 \<le> n \<and> bit (chunkAt (chunks v) (n div 64)) (nat (63 - n mod 64))"
  by (simp add: bits_def)

lemma bit_or_mask: "bit (c OR getBitMask n) (nat (63 - m mod 64)) \<longleftrightarrow> bit c (nat (63 - m mod 64)) \<or> m mod 64 = n mod 64"
  by (auto simp: bit_or_iff bit_getBitMask pos_inj)

lemma bit_andnot_mask:
  "bit (c AND NOT (getBitMask n)) (nat (63 - m mod 64)) \<longleftrightarrow> bit c (nat (63 - m mod 64)) \<and> m mod 64 \<noteq> n mod 64"
  by (auto simp: bit_and_iff bit_not_iff bit_getBitMask pos_inj possible_bit_def)

lemma bits_empty_iff: "bv_ok v \<Longrightarrow> bits v = {} \<longleftrightarrow> isEmpty v"
proof -
  assume "bv_ok v"
  then have p: "precise (chunks v) (firstChunkWithNonZero v) (lastChunkWithNonZero v)" by (simp add: bv_ok_def)
  have "\<exists>n. n \<in> bits v" if "0 \<le> lastChunkWithNonZero v"
  proof -
    let ?l = "lastChunkWithNonZero v"
    have "chunkAt (chunks v) ?l \<noteq> 0" using preciseD(3) [OF p that] by simp
    then obtain i where i: "i < 64" "bit (chunkAt (chunks v) ?l) i" by (auto simp: word_neq_0_iff_bit)
    have "(?l * 64 + (63 - int i)) div 64 = ?l" "(?l * 64 + (63 - int i)) mod 64 = 63 - int i"
      using i(1) by simp_all
    with i that have "?l * 64 + (63 - int i) \<in> bits v" by (simp add: mem_bits)
    then show ?thesis by blast
  qed
  moreover have "bits v = {}" if "lastChunkWithNonZero v < 0"
    using preciseD(2) [OF p that] by (auto simp: bits_def)
  ultimately show ?thesis by (cases "lastChunkWithNonZero v < 0") (auto simp: isEmpty_def)
qed

section \<open>Single bits\<close>

lemma getBit_correct:
  assumes "bv_ok v" "0 \<le> n" "n < 2 ^ 37"
  shows "getBit n v = Some (n \<in> bits v)"
proof -
  have p: "precise (chunks v) (firstChunkWithNonZero v) (lastChunkWithNonZero v)" using assms by (simp add: bv_ok_def)
  have "n \<notin> bits v" if "n div 64 > lastChunkWithNonZero v"
    using precise_outside [OF p, of "n div 64"] that by (simp add: mem_bits)
  moreover have "rd (chunks v) (n div 64) = Some (chunkAt (chunks v) (n div 64))" if "\<not> n div 64 > lastChunkWithNonZero v"
    using that preciseD(7) [OF p] assms(2) by (intro rd_chunkAt) auto
  ultimately show ?thesis using assms by (auto simp: getBit_def Let_def mask_test mem_bits)
qed

text \<open>Growing to reach a chunk does not change the set.\<close>

lemma ensure_chunk:
  assumes "bv_ok v" "0 \<le> c" "c < 2 ^ 31 - 1"
  obtains v1 where "(if c \<ge> numChunks v then setChunkSize (c + 1) v else Some v) = Some v1" "bv_ok v1"
    "\<And>k. chunkAt (chunks v1) k = chunkAt (chunks v) k" "c < int (length (chunks v1))" "growable v1 = growable v"
    "numChunks v \<le> numChunks v1"
proof (cases "c \<ge> numChunks v")
  case True
  obtain v1 where v1: "setChunkSize (c + 1) v = Some v1" "bv_ok v1" "numChunks v1 = c + 1" "growable v1 = growable v"
    "\<And>k. chunkAt (chunks v1) k = (if k < c + 1 then chunkAt (chunks v) k else 0)"
    using setChunkSize_correct [OF assms(1), of "c + 1"] assms by auto
  have "chunkAt (chunks v1) k = chunkAt (chunks v) k" for k
    using v1(5) True assms(1) by (auto simp: bv_ok_def chunk_simps)
  with v1 True that show thesis by (auto simp: bv_ok_def)
next
  case False
  with assms that [of v] show thesis by (auto simp: bv_ok_def)
qed

lemma precise_grow_chunk:
  assumes p: "precise cs f l" and i: "0 \<le> i" "i < int (length cs)" and c: "c \<noteq> 0"
  shows "precise (cs[nat i := c]) (min f i) (max l i)"
proof (rule preciseI_nonempty)
  note P = preciseD [OF p] and U = chunkAt_update [OF i]
  show "chunkAt (cs[nat i := c]) (min f i) \<noteq> 0"
    using P(2,3,4) c i by (cases "l < 0") (auto simp: U min_def)
  show "chunkAt (cs[nat i := c]) (max l i) \<noteq> 0"
    using P(2,3,4) c i by (cases "l < 0") (auto simp: U max_def)
  show "min f i \<le> k \<and> k \<le> max l i" if "chunkAt (cs[nat i := c]) k \<noteq> 0" for k
    using that P(1) [of k] by (auto simp: U split: if_splits)
qed

text \<open>The two conditional updates of the bounds are a minimum and a maximum.\<close>

lemma lower_first:
  "(if c < firstChunkWithNonZero v then v\<lparr>firstChunkWithNonZero := c\<rparr> else v)
     = v\<lparr>firstChunkWithNonZero := min (firstChunkWithNonZero v) c\<rparr>"
  by (cases v) auto

lemma raise_last:
  "(if lastChunkWithNonZero v < c then v\<lparr>lastChunkWithNonZero := c\<rparr> else v)
     = v\<lparr>lastChunkWithNonZero := max (lastChunkWithNonZero v) c\<rparr>"
  by (cases v) auto

lemma or_mask_nonzero: "c OR getBitMask n \<noteq> 0"
  using bit_or_mask [of c n n] by (metis bit_0_eq bot_apply bot_bool_def)

lemma setBit_correct:
  assumes ok: "bv_ok v" and n: "0 \<le> n" "n < 2 ^ 37 - 64"
  shows "\<exists>v'. setBit n v = Some v' \<and> bv_ok v' \<and> bits v' = insert n (bits v) \<and> growable v' = growable v"
proof -
  define c where "c = n div 64"
  have ci: "getChunkIndex n = c" and c: "0 \<le> c" "c < 2 ^ 31 - 1" using n by (auto simp: c_def)
  from ok c obtain v1 where v1: "(if c \<ge> numChunks v then setChunkSize (c + 1) v else Some v) = Some v1" "bv_ok v1"
    "\<And>k. chunkAt (chunks v1) k = chunkAt (chunks v) k" "c < int (length (chunks v1))" "growable v1 = growable v"
    by (rule ensure_chunk) blast
  let ?d = "chunkAt (chunks v1) c OR getBitMask n"
  let ?v' = "v1\<lparr>firstChunkWithNonZero := min (firstChunkWithNonZero v1) c,
    lastChunkWithNonZero := max (lastChunkWithNonZero v1) c, chunks := (chunks v1)[nat c := ?d]\<rparr>"
  have "setBit n v = Some ?v'"
    unfolding setBit_def Let_def ci v1(1) lower_first raise_last
    using v1(4) c by (simp add: rd_chunkAt array_simps)
  moreover have "bv_ok ?v'"
    using v1(2) precise_grow_chunk [OF _ c(1) v1(4) or_mask_nonzero] by (auto simp: bv_ok_def)
  moreover have "m \<in> bits ?v' \<longleftrightarrow> m \<in> insert n (bits v)" for m
    using n div_mod_64_eq_iff [of m n] chunkAt_update [OF c(1) v1(4), of ?d "m div 64"]
    by (cases "m div 64 = c") (auto simp: mem_bits v1(3) bit_or_mask c_def)
  ultimately show ?thesis using v1(5) by auto
qed

lemma bits_bounds_update [simp]:
  "bits (v\<lparr>firstChunkWithNonZero := f\<rparr>) = bits v" "bits (v\<lparr>lastChunkWithNonZero := l\<rparr>) = bits v"
  "bits (v\<lparr>numChunks := n\<rparr>) = bits v" "bits (v\<lparr>growable := g\<rparr>) = bits v"
  by (simp_all add: bits_def)

lemma bits_cong: "(\<And>k. chunkAt (chunks v) k = chunkAt (chunks w) k) \<Longrightarrow> bits v = bits w"
  by (simp add: bits_def)

text \<open>Storing chunks that leave every nonzero chunk inside the old bounds, then rescanning.\<close>

lemma rescan_correct:
  assumes "bv_ok v" "length cs = length (chunks v)" "0 \<le> low" "high < int (length cs)"
    and "\<And>k. chunkAt cs k \<noteq> 0 \<Longrightarrow> low \<le> k \<and> k \<le> high"
  shows "\<exists>v'. resetLowAndHighChunks low high (v\<lparr>chunks := cs\<rparr>) = Some v' \<and> bv_ok v' \<and> chunks v' = cs
    \<and> growable v' = growable v"
proof -
  obtain f l where "resetLowAndHighChunks low high (v\<lparr>chunks := cs\<rparr>) =
      Some (v\<lparr>chunks := cs, firstChunkWithNonZero := f, lastChunkWithNonZero := l\<rparr>)" "precise cs f l"
    using resetLowAndHighChunks_correct [of "v\<lparr>chunks := cs\<rparr>" low high] assms
    by (auto simp: bv_ok_def)
  with assms show ?thesis by (auto simp: bv_ok_def)
qed

lemma resetBit_correct:
  assumes ok: "bv_ok v" and n: "0 \<le> n" "n < 2 ^ 37"
  shows "\<exists>v'. resetBit n True v = Some v' \<and> bv_ok v' \<and> bits v' = bits v - {n} \<and> growable v' = growable v"
proof -
  define c where "c = n div 64"
  let ?cs = "chunks v" and ?f = "firstChunkWithNonZero v" and ?l = "lastChunkWithNonZero v"
  have p: "precise ?cs ?f ?l" using ok by (simp add: bv_ok_def)
  note P = preciseD [OF p]
  have ci: "getChunkIndex n = c" and c0: "0 \<le> c" using n by (auto simp: c_def)
  show ?thesis
  proof (cases "chunkAt ?cs c = 0")
    case True
    then have "n \<notin> bits v" by (simp add: mem_bits c_def)
    moreover have "rd ?cs c = Some 0" if "c \<le> ?l"
      using that True P(7) c0 by (simp add: rd_chunkAt)
    ultimately show ?thesis using ok by (auto simp: resetBit_def ci Let_def)
  next
    case False
    note c = chunkAt_nonzeroD [OF False]
    have in_range: "?f \<le> c" "c \<le> ?l" using P(1) [OF False] by auto
    define d where "d = chunkAt ?cs c AND NOT (getBitMask n)"
    define ds where "ds = ?cs[nat c := d]"
    have ds: "chunkAt ds k = (if k = c then d else chunkAt ?cs k)" for k
      unfolding ds_def using c by (simp add: chunk_simps)
    have "m \<in> bits v' \<longleftrightarrow> m \<in> bits v - {n}" if "chunks v' = ds" for v' :: bitvector and m
      using n div_mod_64_eq_iff [of m n] ds [of "m div 64"]
      by (cases "m div 64 = c") (auto simp: mem_bits that d_def bit_andnot_mask c_def)
    then have bits: "bits v' = bits v - {n}" if "chunks v' = ds" for v' :: bitvector
      using that by blast
    have step: "resetBit n True v = (if d = 0 then resetLowAndHighChunks ?f ?l (v\<lparr>chunks := ds\<rparr>)
        else Some (v\<lparr>chunks := ds\<rparr>))"
      unfolding resetBit_def ci Let_def using in_range c False
      by (simp add: rd_chunkAt array_simps flip: d_def ds_def)
    have inside: "?f \<le> k \<and> k \<le> ?l" if "chunkAt ds k \<noteq> 0" for k
      using that in_range P(1) by (auto simp: ds split: if_splits)
    show ?thesis
    proof (cases "d = 0")
      case True
      with rescan_correct [OF ok, of ds ?f ?l] inside P obtain v' where
        "resetLowAndHighChunks ?f ?l (v\<lparr>chunks := ds\<rparr>) = Some v'" "bv_ok v'" "chunks v' = ds" "growable v' = growable v"
        by (auto simp: ds_def)
      with True step bits show ?thesis by auto
    next
      case False
      have "precise ds ?f ?l"
        using P(3) in_range c False inside by (intro preciseI_nonempty) (auto simp: ds)
      with False step bits ok show ?thesis by (auto simp: bv_ok_def ds_def)
    qed
  qed
qed

lemma clearBit_correct:
  assumes "bv_ok v" "0 \<le> n" "n < 2 ^ 37"
  shows "\<exists>v'. clearBit n v = Some (n \<in> bits v, v') \<and> bv_ok v' \<and> bits v' = bits v - {n}"
  using resetBit_correct [OF assms] assms
  by (cases "n \<in> bits v") (auto simp: clearBit_def getBit_correct)

section \<open>Whole-vector operations\<close>

lemma zeroBody_upd: "zeroBody = upd_body (\<lambda>_ _. 0)"
  by (intro ext) (simp add: zeroBody_def upd_body_def rd_def wr_def)

lemma foldM_zeroBody [chunk_simps]:
  "0 \<le> lo \<Longrightarrow> hi < int (length cs) \<Longrightarrow> foldM zeroBody [lo..hi] cs = Some (upd_range (\<lambda>_ _. 0) lo hi cs)"
  "0 \<le> lo \<Longrightarrow> hi < int (length cs) \<Longrightarrow> foldM zeroBody (rev [lo..hi]) cs = Some (upd_range (\<lambda>_ _. 0) lo hi cs)"
  by (simp_all only: zeroBody_upd foldM_upd_body foldM_upd_body_rev)

lemma foldM_combineBody [chunk_simps]:
  assumes "0 \<le> lo" "hi < int (length cs)" "hi < int (length ds)"
  shows "foldM (combineBody f ds) [lo..hi] cs = Some (upd_range (\<lambda>i a. f a (chunkAt ds i)) lo hi cs)"
proof -
  have "foldM (combineBody f ds) [lo..hi] cs = foldM (upd_body (\<lambda>i a. f a (chunkAt ds i))) [lo..hi] cs"
    using assms by (intro foldM_cong) (simp add: combineBody_def upd_body_def rd_chunkAt)
  with assms show ?thesis by (simp add: foldM_upd_body)
qed

lemma bits_or: "(\<And>k. chunkAt (chunks v') k = chunkAt (chunks v) k OR chunkAt (chunks w) k) \<Longrightarrow> bits v' = bits v \<union> bits w"
  by (auto simp: bits_def bit_or_iff)

lemma bits_and: "(\<And>k. chunkAt (chunks v') k = chunkAt (chunks v) k AND chunkAt (chunks w) k) \<Longrightarrow> bits v' = bits v \<inter> bits w"
  by (auto simp: bits_def bit_and_iff)

lemma bits_minus:
  "(\<And>k. chunkAt (chunks v') k = chunkAt (chunks v) k AND NOT (chunkAt (chunks w) k)) \<Longrightarrow> bits v' = bits v - bits w"
  by (auto simp: bits_def bit_and_iff bit_not_iff possible_bit_def)

lemma bv_okD:
  assumes "bv_ok v"
  shows "precise (chunks v) (firstChunkWithNonZero v) (lastChunkWithNonZero v)"
    "numChunks v = int (length (chunks v))" "length (chunks v) < 2 ^ 31"
  using assms by (simp_all add: bv_ok_def)

lemma emptyAll_correct:
  assumes "bv_ok v"
  shows "\<exists>v'. emptyAll v = Some v' \<and> bv_ok v' \<and> bits v' = {} \<and> growable v' = growable v \<and> numChunks v' = numChunks v"
proof -
  note p = bv_okD [OF assms] and P = preciseD [OF bv_okD(1) [OF assms]]
  let ?ds = "upd_range (\<lambda>_ _. 0) (firstChunkWithNonZero v) (lastChunkWithNonZero v) (chunks v)"
  have z: "chunkAt ?ds k = 0" for k
    using precise_outside [OF p(1), of k] by (auto simp: chunk_simps not_le chunkAt_outside)
  have e: "emptyAll v = Some (v\<lparr>chunks := ?ds, firstChunkWithNonZero := numChunks v, lastChunkWithNonZero := -1\<rparr>)"
    using P(5,7) by (simp add: emptyAll_def chunk_simps)
  have "precise ?ds (int (length (chunks v))) (-1)" using preciseI_empty [OF z] by simp
  with e p z show ?thesis by (simp add: bv_ok_def bits_def)
qed

text \<open>The resize that precedes the binary operations keeps the set.\<close>

lemma grow_to:
  assumes "bv_ok v" "bv_ok w"
  obtains v1 where "(if numChunks v < numChunks w then setChunkSize (numChunks w) v else Some v) = Some v1" "bv_ok v1"
    "\<And>k. chunkAt (chunks v1) k = chunkAt (chunks v) k" "length (chunks w) \<le> length (chunks v1)" "growable v1 = growable v"
proof (cases "numChunks v < numChunks w")
  case True
  note w = bv_okD [OF assms(2)] and v = bv_okD [OF assms(1)]
  obtain v1 where v1: "setChunkSize (numChunks w) v = Some v1" "bv_ok v1" "numChunks v1 = numChunks w" "growable v1 = growable v"
    "\<And>k. chunkAt (chunks v1) k = (if k < numChunks w then chunkAt (chunks v) k else 0)"
    using setChunkSize_correct [OF assms(1), of "numChunks w"] w by auto
  have "chunkAt (chunks v1) k = chunkAt (chunks v) k" for k
    using v1(5) True v by (auto simp: chunkAt_outside)
  with v1 True w that show thesis by (auto simp: bv_okD(2))
next
  case False
  with assms that [of v] show thesis by (auto simp: bv_ok_def)
qed

lemma assign_correct:
  assumes "bv_ok v2" "bv_ok v"
  shows "\<exists>v'. assign v2 v = Some v' \<and> bv_ok v' \<and> bits v' = bits v2"
proof -
  from assms(2,1) obtain v1 where g: "(if numChunks v < numChunks v2 then setChunkSize (numChunks v2) v else Some v) = Some v1"
    and v1: "bv_ok v1" "length (chunks v2) \<le> length (chunks v1)" by (rule grow_to) blast
  note p1 = bv_okD [OF v1(1)] and p2 = bv_okD [OF assms(1)]
  note P1 = preciseD [OF p1(1)] and P2 = preciseD [OF p2(1)]
  show ?thesis
  proof (cases "lastChunkWithNonZero v2 < 0")
    case True
    then have "bits v2 = {}" using bits_empty_iff [OF assms(1)] by (simp add: isEmpty_def)
    with True emptyAll_correct [OF v1(1)] show ?thesis by (auto simp: assign_def g Let_def)
  next
    case False
    let ?f = "firstChunkWithNonZero v2" and ?l = "lastChunkWithNonZero v2"
    have fl: "0 \<le> ?f" "?f \<le> ?l" "?l < int (length (chunks v2))" using P2(3) False by auto
    define cs where "cs = upd_range (\<lambda>_ _. 0) (?l + 1) (lastChunkWithNonZero v1)
      (upd_range (\<lambda>i a. chunkAt (chunks v2) i) ?f ?l (upd_range (\<lambda>_ _. 0) (firstChunkWithNonZero v1) (?f - 1) (chunks v1)))"
    have cs: "chunkAt cs k = chunkAt (chunks v2) k" for k
    proof (cases "?f \<le> k \<and> k \<le> ?l")
      case True
      with fl v1(2) show ?thesis by (auto simp: cs_def chunk_simps)
    next
      case out: False
      then have "chunkAt (chunks v2) k = 0" using precise_outside [OF p2(1)] by auto
      moreover have "chunkAt cs k = 0"
        using out fl P1(5,7) v1(2) precise_outside [OF p1(1), of k] chunkAt_outside(1) [of k "chunks v1"] chunkAt_outside(2) [of "chunks v1" k]
        by (auto simp: cs_def chunk_simps not_le not_less)
      ultimately show ?thesis by simp
    qed
    have "assign v2 v = Some (v1\<lparr>chunks := cs, firstChunkWithNonZero := ?f, lastChunkWithNonZero := ?l\<rparr>)"
      using False fl v1(2) P1(5,7) by (simp add: assign_def g Let_def chunk_simps cs_def)
    moreover have "precise cs ?f ?l"
      using P2(1,3) False by (intro preciseI_nonempty) (auto simp: cs)
    ultimately show ?thesis using p1 cs by (auto simp: bv_ok_def bits_def cs_def)
  qed
qed

lemma orWith_correct:
  assumes "bv_ok v2" "bv_ok v"
  shows "\<exists>v'. orWith v2 v = Some v' \<and> bv_ok v' \<and> bits v' = bits v \<union> bits v2"
proof (cases "lastChunkWithNonZero v2 < 0")
  case True
  then have "bits v2 = {}" using bits_empty_iff [OF assms(1)] by (simp add: isEmpty_def)
  with True assms show ?thesis by (auto simp: orWith_def)
next
  case False
  from assms(2,1) obtain v1 where g: "(if numChunks v < numChunks v2 then setChunkSize (numChunks v2) v else Some v) = Some v1"
    and v1: "bv_ok v1" "\<And>k. chunkAt (chunks v1) k = chunkAt (chunks v) k" "length (chunks v2) \<le> length (chunks v1)" by (rule grow_to) blast
  note p1 = bv_okD [OF v1(1)] and p2 = bv_okD [OF assms(1)]
  note P1 = preciseD [OF p1(1)] and P2 = preciseD [OF p2(1)]
  let ?f = "firstChunkWithNonZero v2" and ?l = "lastChunkWithNonZero v2"
  let ?f' = "min (firstChunkWithNonZero v1) ?f" and ?l' = "max (lastChunkWithNonZero v1) ?l"
  have fl: "0 \<le> ?f" "?f \<le> ?l" "?l < int (length (chunks v2))" using P2(3) False by auto
  define cs where "cs = upd_range (\<lambda>i a. a OR chunkAt (chunks v2) i) ?f ?l (chunks v1)"
  have cs: "chunkAt cs k = chunkAt (chunks v) k OR chunkAt (chunks v2) k" for k
    using fl v1(3) precise_outside [OF p2(1), of k] by (auto simp: cs_def chunk_simps not_le v1(2))
  have e: "orWith v2 v = Some (v1\<lparr>chunks := cs, firstChunkWithNonZero := ?f', lastChunkWithNonZero := ?l'\<rparr>)"
    unfolding orWith_def Let_def g lower_first raise_last using False fl v1(3)
    by (simp add: chunk_simps cs_def)
  have nz: "chunkAt cs k \<noteq> 0 \<longleftrightarrow> chunkAt (chunks v1) k \<noteq> 0 \<or> chunkAt (chunks v2) k \<noteq> 0" for k
    unfolding cs v1(2) by (auto simp: word_or_eq_0_iff)
  have "precise cs ?f' ?l'"
  proof (rule preciseI_nonempty)
    show "chunkAt cs ?f' \<noteq> 0" using P1(2,3) P2(3) False fl v1(3)
      by (cases "lastChunkWithNonZero v1 < 0") (auto simp: nz min_def)
    show "chunkAt cs ?l' \<noteq> 0" using P1(2,3) P2(3) False fl
      by (cases "lastChunkWithNonZero v1 < 0") (auto simp: nz max_def)
    show "?f' \<le> k \<and> k \<le> ?l'" if "chunkAt cs k \<noteq> 0" for k
      using that P1(1) [of k] P2(1) [of k] by (auto simp: nz)
  qed
  with e p1 cs bits_or [of _ v v2] show ?thesis by (auto simp: bv_ok_def cs_def)
qed

lemma andWith_correct:
  assumes "bv_ok v2" "bv_ok v"
  shows "\<exists>v'. andWith v2 v = Some v' \<and> bv_ok v' \<and> bits v' = bits v \<inter> bits v2"
proof -
  note p1 = bv_okD [OF assms(2)] and p2 = bv_okD [OF assms(1)]
  note P1 = preciseD [OF p1(1)] and P2 = preciseD [OF p2(1)]
  let ?f1 = "firstChunkWithNonZero v" and ?l1 = "lastChunkWithNonZero v"
  let ?f2 = "firstChunkWithNonZero v2" and ?l2 = "lastChunkWithNonZero v2"
  let ?lo = "max ?f1 ?f2" and ?hi = "min ?l1 ?l2"
  consider "?l1 < 0" | "0 \<le> ?l1" "?l2 < ?f1 \<or> ?l1 < ?f2" | "0 \<le> ?l1" "?f1 \<le> ?l2" "?f2 \<le> ?l1" by linarith
  then show ?thesis
  proof cases
    case 1
    then have "bits v = {}" using bits_empty_iff [OF assms(2)] by (simp add: isEmpty_def)
    with 1 assms show ?thesis by (auto simp: andWith_def)
  next
    case 2
    have "chunkAt (chunks v) k = 0 \<or> chunkAt (chunks v2) k = 0" for k
      using 2(2) P1(1) [of k] P2(1) [of k] by linarith
    then have "bits v \<inter> bits v2 = {}" by (auto simp: mem_bits) (metis bit_0_eq bot_apply bot_bool_def)
    with 2 emptyAll_correct [OF assms(2)] show ?thesis by (auto simp: andWith_def Let_def)
  next
    case 3
    have l2: "0 \<le> ?l2" using 3 P1(3) by auto
    have rng: "0 \<le> ?f1" "?l1 < int (length (chunks v))" "0 \<le> ?f2" "?l2 < int (length (chunks v2))"
      using P1(5,7) P2(5,7) by auto
    define cs where "cs = upd_range (\<lambda>i a. a AND chunkAt (chunks v2) i) ?lo ?hi
      (upd_range (\<lambda>_ _. 0) (?hi + 1) ?l1 (upd_range (\<lambda>_ _. 0) ?f1 (?lo - 1) (chunks v)))"
    have cs: "chunkAt cs k = chunkAt (chunks v) k AND chunkAt (chunks v2) k" for k
      using 3 rng precise_outside [OF p1(1), of k] precise_outside [OF p2(1), of k]
        chunkAt_outside(1) [of k "chunks v"] chunkAt_outside(2) [of "chunks v" k]
      by (auto simp: cs_def chunk_simps not_le not_less)
    have e: "andWith v2 v = resetLowAndHighChunks ?lo ?hi (v\<lparr>chunks := cs\<rparr>)"
    proof -
      have a: "(if ?f2 < ?f1 then Some (?f1, chunks v)
          else do { cs \<leftarrow> foldM zeroBody [?f1..?f2 - 1] (chunks v); Some (?f2, cs) })
          = Some (?lo, upd_range (\<lambda>_ _. 0) ?f1 (?lo - 1) (chunks v))"
        using 3 rng by (auto simp: chunk_simps max_def upd_range_empty)
      have b: "(if ?l2 > ?l1 then Some (?l1, ds)
          else do { cs \<leftarrow> foldM zeroBody (rev [?l2 + 1..?l1]) ds; Some (?l2, cs) })
          = Some (?hi, upd_range (\<lambda>_ _. 0) (?hi + 1) ?l1 ds)" if "length ds = length (chunks v)" for ds
        using 3 rng l2 that by (auto simp: chunk_simps min_def upd_range_empty)
      show ?thesis
        unfolding andWith_def Let_def a using 3 rng by (simp add: b chunk_simps cs_def)
    qed
    have "?lo \<le> k \<and> k \<le> ?hi" if "chunkAt cs k \<noteq> 0" for k
    proof -
      have "chunkAt (chunks v) k \<noteq> 0" "chunkAt (chunks v2) k \<noteq> 0" using that by (auto simp: cs)
      with P1(1) [of k] P2(1) [of k] show ?thesis by simp
    qed
    moreover have "length cs = length (chunks v)" "0 \<le> ?lo" "?hi < int (length cs)"
      using rng by (auto simp: cs_def)
    ultimately obtain v' where "andWith v2 v = Some v'" "bv_ok v'" "chunks v' = cs"
      using rescan_correct [OF assms(2), of cs ?lo ?hi] unfolding e by blast
    moreover from this cs have "bits v' = bits v \<inter> bits v2" by (intro bits_and) auto
    ultimately show ?thesis by blast
  qed
qed

lemma minusWith_correct:
  assumes "bv_ok v2" "bv_ok v"
  shows "\<exists>v'. minusWith v2 v = Some v' \<and> bv_ok v' \<and> bits v' = bits v - bits v2"
proof -
  note p1 = bv_okD [OF assms(2)] and p2 = bv_okD [OF assms(1)]
  note P1 = preciseD [OF p1(1)] and P2 = preciseD [OF p2(1)]
  let ?f1 = "firstChunkWithNonZero v" and ?l1 = "lastChunkWithNonZero v"
  let ?f2 = "firstChunkWithNonZero v2" and ?l2 = "lastChunkWithNonZero v2"
  let ?lo = "max ?f1 ?f2" and ?hi = "min ?l1 ?l2"
  consider "?l1 < 0 \<or> ?l2 < ?f1 \<or> ?l1 < ?f2" | "0 \<le> ?l1" "?f1 \<le> ?l2" "?f2 \<le> ?l1" by linarith
  then show ?thesis
  proof cases
    case 1
    have "chunkAt (chunks v) k = 0 \<or> chunkAt (chunks v2) k = 0" for k
      using 1 P1(1) [of k] P2(1) [of k] chunkAt_outside(1) [of k "chunks v"] by linarith
    then have "bits v - bits v2 = bits v" by (auto simp: mem_bits) (metis bit_0_eq bot_apply bot_bool_def)
    with 1 assms show ?thesis by (auto simp: minusWith_def Let_def)
  next
    case 2
    have rng: "0 \<le> ?f1" "?l1 < int (length (chunks v))" "0 \<le> ?f2" "?l2 < int (length (chunks v2))"
      using P1(5,7) P2(5,7) by auto
    define cs where "cs = upd_range (\<lambda>i a. a AND NOT (chunkAt (chunks v2) i)) ?lo ?hi (chunks v)"
    have cs: "chunkAt cs k = chunkAt (chunks v) k AND NOT (chunkAt (chunks v2) k)" for k
      using 2 rng precise_outside [OF p1(1), of k] precise_outside [OF p2(1), of k]
        chunkAt_outside(1) [of k "chunks v"] chunkAt_outside(2) [of "chunks v" k]
      by (auto simp: cs_def chunk_simps not_le not_less)
    have lohi: "(if ?f2 < ?f1 then ?f1 else ?f2) = ?lo" "(if ?l2 > ?l1 then ?l1 else ?l2) = ?hi" by auto
    have e: "minusWith v2 v = resetLowAndHighChunks ?f1 ?l1 (v\<lparr>chunks := cs\<rparr>)"
      unfolding minusWith_def Let_def lohi using 2 rng by (simp add: chunk_simps cs_def)
    have "?f1 \<le> k \<and> k \<le> ?l1" if "chunkAt cs k \<noteq> 0" for k
    proof -
      have "chunkAt (chunks v) k \<noteq> 0" using that by (auto simp: cs)
      with P1(1) [of k] show ?thesis by simp
    qed
    moreover have "length cs = length (chunks v)" "?l1 < int (length cs)"
      using rng by (auto simp: cs_def)
    ultimately obtain v' where "minusWith v2 v = Some v'" "bv_ok v'" "chunks v' = cs"
      using rescan_correct [OF assms(2), of cs ?f1 ?l1] rng(1) unfolding e by blast
    moreover from this cs have "bits v' = bits v - bits v2" by (intro bits_minus) auto
    ultimately show ?thesis by blast
  qed
qed

lemma intersectsLoop_correct:
  assumes "\<And>i. i \<in> set is \<Longrightarrow> 0 \<le> i \<and> i < int (length cs) \<and> i < int (length ds)"
  shows "intersectsLoop cs ds is = Some (\<exists>i \<in> set is. chunkAt cs i AND chunkAt ds i \<noteq> 0)"
  using assms by (induction "is") (auto simp: rd_chunkAt)

lemma word_inter_bits: "(a AND b :: 'a::len word) \<noteq> 0 \<longleftrightarrow> (\<exists>i. bit a i \<and> bit b i)"
  by (auto simp: word_neq_0_iff_bit bit_and_iff dest: bit_imp_le_length)

lemma chunk_bit_in_bits:
  assumes "bit (chunkAt (chunks v) k) i"
  shows "k * 64 + (63 - int i) \<in> bits v" "(k * 64 + (63 - int i)) div 64 = k" "nat (63 - (k * 64 + (63 - int i)) mod 64) = i"
proof -
  have i: "i < 64" using bit_imp_le_length [OF assms] by simp
  have k: "0 \<le> k" using assms by (auto simp: chunkAt_def split: if_splits)
  have m: "(k * 64 + (63 - int i)) mod 64 = 63 - int i" using i by simp
  show d: "(k * 64 + (63 - int i)) div 64 = k" using i by simp
  show "nat (63 - (k * 64 + (63 - int i)) mod 64) = i" unfolding m by simp
  with d assms i k show "k * 64 + (63 - int i) \<in> bits v" by (simp add: mem_bits)
qed

lemma intersects_correct:
  assumes "bv_ok v2" "bv_ok v"
  shows "intersects v2 v = Some (bits v \<inter> bits v2 \<noteq> {})"
proof -
  note p1 = bv_okD [OF assms(2)] and p2 = bv_okD [OF assms(1)]
  note P1 = preciseD [OF p1(1)] and P2 = preciseD [OF p2(1)]
  let ?f1 = "firstChunkWithNonZero v" and ?l1 = "lastChunkWithNonZero v"
  let ?f2 = "firstChunkWithNonZero v2" and ?l2 = "lastChunkWithNonZero v2"
  let ?lo = "max ?f1 ?f2" and ?hi = "min ?l1 ?l2"
  have iff: "bits v \<inter> bits v2 \<noteq> {} \<longleftrightarrow> (\<exists>k. chunkAt (chunks v) k AND chunkAt (chunks v2) k \<noteq> 0)"
  proof
    assume "\<exists>k. chunkAt (chunks v) k AND chunkAt (chunks v2) k \<noteq> 0"
    then obtain k i where "bit (chunkAt (chunks v) k) i" "bit (chunkAt (chunks v2) k) i"
      by (auto simp: word_inter_bits)
    with chunk_bit_in_bits(1) show "bits v \<inter> bits v2 \<noteq> {}" by blast
  qed (auto simp: mem_bits word_inter_bits)
  also have "\<dots> \<longleftrightarrow> (\<exists>k \<in> {?lo..?hi}. chunkAt (chunks v) k AND chunkAt (chunks v2) k \<noteq> 0)"
  proof -
    have "k \<in> {?lo..?hi}" if "chunkAt (chunks v) k AND chunkAt (chunks v2) k \<noteq> 0" for k
    proof -
      have "chunkAt (chunks v) k \<noteq> 0" "chunkAt (chunks v2) k \<noteq> 0" using that by auto
      with P1(1) [of k] P2(1) [of k] show ?thesis by simp
    qed
    then show ?thesis by blast
  qed
  finally have b: "bits v \<inter> bits v2 \<noteq> {} \<longleftrightarrow> (\<exists>k \<in> {?lo..?hi}. chunkAt (chunks v) k AND chunkAt (chunks v2) k \<noteq> 0)" .
  have lohi: "(if ?f2 < ?f1 then ?f1 else ?f2) = ?lo" "(if ?l2 > ?l1 then ?l1 else ?l2) = ?hi" by auto
  have "intersectsLoop (chunks v) (chunks v2) [?lo..?hi] =
      Some (\<exists>k \<in> {?lo..?hi}. chunkAt (chunks v) k AND chunkAt (chunks v2) k \<noteq> 0)"
    using P1(5,7) P2(5,7) by (subst intersectsLoop_correct) auto
  moreover have "{?lo..?hi} = {}" if "?l1 < 0 \<or> ?l2 < ?f1 \<or> ?l1 < ?f2" using that P1 by auto
  ultimately show ?thesis unfolding b intersects_def Let_def lohi by auto
qed

lemma equalLoop_correct:
  assumes "\<And>i. i \<in> set is \<Longrightarrow> 0 \<le> i \<and> i < int (length cs) \<and> i < int (length ds)"
  shows "equalLoop cs ds is = Some (\<forall>i \<in> set is. chunkAt cs i = chunkAt ds i)"
  using assms by (induction "is") (auto simp: rd_chunkAt)

lemma bits_eq_iff: "bits v = bits w \<longleftrightarrow> (\<forall>k. chunkAt (chunks v) k = chunkAt (chunks w) k)"
proof
  assume eq: "bits v = bits w"
  have "bit (chunkAt (chunks a) k) i" if "bits a = bits b" "bit (chunkAt (chunks b) k) i" for a b :: bitvector and k i
    using chunk_bit_in_bits [OF that(2)] that(1) by (metis mem_bits)
  from this [OF eq] this [OF eq [symmetric]] show "\<forall>k. chunkAt (chunks v) k = chunkAt (chunks w) k"
    by (auto intro: bit_eqI)
qed (auto simp: bits_def)

lemma equalTo_correct:
  assumes "bv_ok v2" "bv_ok v"
  shows "equalTo v2 v = Some (bits v = bits v2)"
proof -
  note p1 = bv_okD [OF assms(2)] and p2 = bv_okD [OF assms(1)]
  note P1 = preciseD [OF p1(1)] and P2 = preciseD [OF p2(1)]
  let ?f1 = "firstChunkWithNonZero v" and ?l1 = "lastChunkWithNonZero v"
  let ?f2 = "firstChunkWithNonZero v2" and ?l2 = "lastChunkWithNonZero v2"
  have same: "?l1 = ?l2 \<and> (0 \<le> ?l1 \<longrightarrow> ?f1 = ?f2)" if "bits v = bits v2"
  proof -
    have ch: "chunkAt (chunks v) k = chunkAt (chunks v2) k" for k using that by (simp add: bits_eq_iff)
    show ?thesis
    proof (cases "?l1 < 0")
      case True
      then have "?l2 < 0" using P1(2) P2(3) ch by (metis not_le)
      with True P1(2) P2(2) show ?thesis by simp
    next
      case False
      then have "0 \<le> ?l2" using P2(2) P1(3) ch by (metis not_le)
      with False P1(1,3) P2(1,3) ch show ?thesis by (simp add: antisym)
    qed
  qed
  have "equalLoop (chunks v) (chunks v2) [?f1..?l1] = Some (bits v = bits v2)"
    if "?l1 = ?l2" "?f1 = ?f2"
  proof -
    have "(\<forall>k \<in> {?f1..?l1}. chunkAt (chunks v) k = chunkAt (chunks v2) k) \<longleftrightarrow> bits v = bits v2"
      unfolding bits_eq_iff using precise_outside [OF p1(1)] precise_outside [OF p2(1)] that
      by (metis atLeastAtMost_iff not_le)
    with P1(5,7) P2(5,7) that show ?thesis by (subst equalLoop_correct) auto
  qed
  moreover have "bits v = bits v2" if "?l1 = ?l2" "?l1 < 0"
    using that bits_empty_iff [OF assms(1)] bits_empty_iff [OF assms(2)] by (simp add: isEmpty_def)
  ultimately show ?thesis using same by (auto simp: equalTo_def)
qed

end
