(* ===== verification/BitVectorScan.thy ===== *)
theory BitVectorScan
  imports BitVector
begin

text \<open>
  The rest of \<open>TR_BitVector\<close>: setting and clearing ranges, counting, the highest bit, packing, and the
  iterator \<open>TR_BitVectorIterator\<close>.
\<close>

section \<open>Ranges\<close>

text \<open>The two single-chunk loops that set or clear the bits of a list of bit positions.\<close>

definition setMaskBody :: "int \<Rightarrow> int \<Rightarrow> u64 list \<Rightarrow> u64 list option" where
  "setMaskBody chunkIndex i cs = do { c \<leftarrow> rd cs chunkIndex; wr cs chunkIndex (c OR getBitMask i) }"

definition clearMaskBody :: "int \<Rightarrow> int \<Rightarrow> u64 list \<Rightarrow> u64 list option" where
  "clearMaskBody chunkIndex i cs = do { c \<leftarrow> rd cs chunkIndex; wr cs chunkIndex (c AND NOT (getBitMask i)) }"

definition fillBody :: "int \<Rightarrow> u64 list \<Rightarrow> u64 list option" where
  "fillBody i cs = wr cs i (-1)"

text \<open>The loop counter is an \<open>int32_t\<close>, so a count of \<open>2 ^ 31\<close> or more overflows it.\<close>

definition setAllFirst :: "int \<Rightarrow> bitvector \<Rightarrow> bitvector option" where
  "setAllFirst n v0 =
     (if n \<le> 0 then Some v0
      else if n \<ge> 2 ^ 31 then None
      else let chunkIndex = getChunkIndex (n - 1) in do {
        v \<leftarrow> (if chunkIndex \<ge> numChunks v0 then setChunkSize (chunkIndex + 1) v0 else Some v0);
        cs1 \<leftarrow> foldM fillBody (rev [0..chunkIndex - 1]) (chunks v);
        cs2 \<leftarrow> foldM (setMaskBody chunkIndex) [getBitIndex chunkIndex..n - 1] cs1;
        let v' = v\<lparr>chunks := cs2, firstChunkWithNonZero := 0\<rparr>;
        Some (if lastChunkWithNonZero v' < chunkIndex
              then v'\<lparr>lastChunkWithNonZero := chunkIndex\<rparr> else v')
      })"

definition setAllRange :: "int \<Rightarrow> int \<Rightarrow> bitvector \<Rightarrow> bitvector option" where
  "setAllRange m n v0 =
     (let firstChunk = getChunkIndex m; lastChunk = getChunkIndex n in do {
        v1 \<leftarrow> (if lastChunk \<ge> numChunks v0 then setChunkSize (lastChunk + 1) v0 else Some v0);
        let v2 = (if firstChunk < firstChunkWithNonZero v1
                  then v1\<lparr>firstChunkWithNonZero := firstChunk\<rparr> else v1);
        let v = (if lastChunkWithNonZero v2 < lastChunk
                 then v2\<lparr>lastChunkWithNonZero := lastChunk\<rparr> else v2);
        if firstChunk = lastChunk then do {
          cs \<leftarrow> foldM (setMaskBody firstChunk) [getIndexInChunk m..getIndexInChunk n] (chunks v);
          Some (v\<lparr>chunks := cs\<rparr>)
        } else do {
          cs1 \<leftarrow> (if getIndexInChunk m > 0
                  then foldM (setMaskBody firstChunk) [getIndexInChunk m..63] (chunks v)
                  else do { c \<leftarrow> rd (chunks v) firstChunk; wr (chunks v) firstChunk (c OR -1) });
          cs2 \<leftarrow> (if getIndexInChunk n < 63
                  then foldM (setMaskBody lastChunk) (rev [0..getIndexInChunk n]) cs1
                  else do { c \<leftarrow> rd cs1 lastChunk; wr cs1 lastChunk (c OR -1) });
          cs3 \<leftarrow> foldM fillBody [firstChunk + 1..lastChunk - 1] cs2;
          Some (v\<lparr>chunks := cs3\<rparr>)
        }
      })"

definition resetAllRange :: "int \<Rightarrow> int \<Rightarrow> bitvector \<Rightarrow> bitvector option" where
  "resetAllRange m n v0 =
     (let firstChunk = getChunkIndex m; lastChunk = getChunkIndex n in
      if lastChunkWithNonZero v0 < firstChunk \<or> firstChunkWithNonZero v0 > lastChunk then Some v0
      else do {
        v \<leftarrow> (if lastChunk \<ge> numChunks v0 then setChunkSize (getChunkIndex n) v0 else Some v0);
        cs \<leftarrow> (if firstChunk = lastChunk then do {
                 c \<leftarrow> rd (chunks v) firstChunk;
                 wr (chunks v) firstChunk (c AND NOT (getBitMaskRange m n))
               } else do {
                 cs1 \<leftarrow> (if getIndexInChunk m > 0
                         then foldM (clearMaskBody firstChunk) [getIndexInChunk m..63] (chunks v)
                         else wr (chunks v) firstChunk 0);
                 cs2 \<leftarrow> (if getIndexInChunk n < 63
                         then foldM (clearMaskBody lastChunk) (rev [0..getIndexInChunk n]) cs1
                         else wr cs1 lastChunk 0);
                 foldM zeroBody [firstChunk + 1..lastChunk - 1] cs2
               });
        resetLowAndHighChunks (firstChunkWithNonZero v) (lastChunkWithNonZero v) (v\<lparr>chunks := cs\<rparr>)
      })"

section \<open>Counting\<close>

definition bitsInByte :: "nat list" where
  "bitsInByte =
     [0, 1, 1, 2, 1, 2, 2, 3, 1, 2, 2, 3, 2, 3, 3, 4,
      1, 2, 2, 3, 2, 3, 3, 4, 2, 3, 3, 4, 3, 4, 4, 5,
      1, 2, 2, 3, 2, 3, 3, 4, 2, 3, 3, 4, 3, 4, 4, 5,
      2, 3, 3, 4, 3, 4, 4, 5, 3, 4, 4, 5, 4, 5, 5, 6,
      1, 2, 2, 3, 2, 3, 3, 4, 2, 3, 3, 4, 3, 4, 4, 5,
      2, 3, 3, 4, 3, 4, 4, 5, 3, 4, 4, 5, 4, 5, 5, 6,
      2, 3, 3, 4, 3, 4, 4, 5, 3, 4, 4, 5, 4, 5, 5, 6,
      3, 4, 4, 5, 4, 5, 5, 6, 4, 5, 5, 6, 5, 6, 6, 7,
      1, 2, 2, 3, 2, 3, 3, 4, 2, 3, 3, 4, 3, 4, 4, 5,
      2, 3, 3, 4, 3, 4, 4, 5, 3, 4, 4, 5, 4, 5, 5, 6,
      2, 3, 3, 4, 3, 4, 4, 5, 3, 4, 4, 5, 4, 5, 5, 6,
      3, 4, 4, 5, 4, 5, 5, 6, 4, 5, 5, 6, 5, 6, 6, 7,
      2, 3, 3, 4, 3, 4, 4, 5, 3, 4, 4, 5, 4, 5, 5, 6,
      3, 4, 4, 5, 4, 5, 5, 6, 4, 5, 5, 6, 5, 6, 6, 7,
      3, 4, 4, 5, 4, 5, 5, 6, 4, 5, 5, 6, 5, 6, 6, 7,
      4, 5, 5, 6, 5, 6, 6, 7, 5, 6, 6, 7, 6, 7, 7, 8]"

text \<open>The eight bytes \<open>p[0]\<close> to \<open>p[7]\<close> of a chunk, least significant first (the sum does not
  depend on the byte order of the machine).\<close>

definition chunkBits :: "u64 \<Rightarrow> nat" where
  "chunkBits c =
     bitsInByte ! unat (c AND 255) + bitsInByte ! unat (drop_bit 8 c AND 255)
     + bitsInByte ! unat (drop_bit 16 c AND 255) + bitsInByte ! unat (drop_bit 24 c AND 255)
     + bitsInByte ! unat (drop_bit 32 c AND 255) + bitsInByte ! unat (drop_bit 40 c AND 255)
     + bitsInByte ! unat (drop_bit 48 c AND 255) + bitsInByte ! unat (drop_bit 56 c AND 255)"

definition countBody :: "u64 list \<Rightarrow> int \<Rightarrow> nat \<Rightarrow> nat option" where
  "countBody cs i count = do { c \<leftarrow> rd cs i; Some (if c \<noteq> 0 then count + chunkBits c else count) }"

definition elementCount :: "bitvector \<Rightarrow> nat option" where
  "elementCount v =
     foldM (countBody (chunks v)) [firstChunkWithNonZero v..lastChunkWithNonZero v] 0"

definition commonCountBody :: "u64 list \<Rightarrow> u64 list \<Rightarrow> int \<Rightarrow> nat \<Rightarrow> nat option" where
  "commonCountBody cs ds i count = do {
     a \<leftarrow> rd cs i; b \<leftarrow> rd ds i;
     let tmp = a AND b;
     Some (if tmp \<noteq> 0 then count + chunkBits tmp else count)
   }"

definition commonElementCount :: "bitvector \<Rightarrow> bitvector \<Rightarrow> nat option" where
  "commonElementCount v2 v =
     (if lastChunkWithNonZero v2 < firstChunkWithNonZero v
         \<or> firstChunkWithNonZero v2 > lastChunkWithNonZero v then Some 0
      else let low = (if firstChunkWithNonZero v \<ge> firstChunkWithNonZero v2
                      then firstChunkWithNonZero v else firstChunkWithNonZero v2);
               high = (if lastChunkWithNonZero v \<le> lastChunkWithNonZero v2
                       then lastChunkWithNonZero v else lastChunkWithNonZero v2)
           in foldM (commonCountBody (chunks v) (chunks v2)) [low..high] 0)"

definition hasMoreThanOneElement :: "bitvector \<Rightarrow> bool option" where
  "hasMoreThanOneElement v =
     (if firstChunkWithNonZero v < lastChunkWithNonZero v then Some True
      else if lastChunkWithNonZero v < 0 then Some False
      else do { c \<leftarrow> rd (chunks v) (firstChunkWithNonZero v); Some (chunkBits c > 1) })"

definition numUsedChunks :: "bitvector \<Rightarrow> int" where
  "numUsedChunks v = lastChunkWithNonZero v + 1"

definition numNonZeroChunks :: "bitvector \<Rightarrow> int" where
  "numNonZeroChunks v =
     (if lastChunkWithNonZero v < 0 then 0
      else lastChunkWithNonZero v - firstChunkWithNonZero v + 1)"

definition pack :: "bitvector \<Rightarrow> bitvector option" where
  "pack v = setChunkSize (numUsedChunks v) v"

section \<open>Iteration\<close>

function skipEmpty :: "u64 list \<Rightarrow> int \<Rightarrow> int option" where
  "skipEmpty cs k =
     (case rd cs (k + 1) of
        None \<Rightarrow> None
      | Some c \<Rightarrow> if c = 0 then skipEmpty cs (k + 1) else Some (k + 1))"
  by pat_completeness auto
termination
  by (relation "measure (\<lambda>(cs, k). nat (int (length cs) - k))") (auto simp: rd_eq_Some_iff)

declare skipEmpty.simps [simp del]

function sequentialCheck :: "u64 \<Rightarrow> u64 \<Rightarrow> int \<Rightarrow> int option" where
  "sequentialCheck tmpChunk bitMask cur =
     (if tmpChunk AND bitMask \<noteq> 0 then Some cur
      else if bitMask = 0 then None
      else sequentialCheck tmpChunk (incrementBitMask bitMask) (cur + 1))"
  by pat_completeness auto
termination
proof (relation "measure (\<lambda>(_, bitMask, _). unat bitMask)")
  show "((tmpChunk, incrementBitMask bitMask, cur + 1), (tmpChunk, bitMask, cur)) \<in> measure (\<lambda>(_, bitMask, _). unat bitMask)"
    if "bitMask \<noteq> 0" for tmpChunk bitMask :: u64 and cur :: int
    using that by (simp add: incrementBitMask_def unat_drop_bit unat_gt_0)
qed simp

declare sequentialCheck.simps [simp del]

definition getNextBit :: "bitvector \<Rightarrow> int \<Rightarrow> int option" where
  "getNextBit v cur0 =
     (let curIndex = signed_take_bit 31 (cur0 + 1); curChunk = getChunkIndex curIndex;
          endIndex = signed_take_bit 31 (push_bit 6 (numChunks v)) in
      if curChunk > lastChunkWithNonZero v then Some endIndex
      else do {
        tmpChunk \<leftarrow> rd (chunks v) curChunk;
        if tmpChunk = -1 then Some curIndex
        else let bitMask = getBitMask curIndex; tmpChunk = tmpChunk AND getBitMaskRange curIndex 63 in
          if tmpChunk = 0 then
            if curChunk \<ge> lastChunkWithNonZero v then Some endIndex
            else do {
              k \<leftarrow> skipEmpty (chunks v) curChunk;
              tmpChunk \<leftarrow> rd (chunks v) k;
              sequentialCheck tmpChunk (getBitMask 0) (signed_take_bit 31 (push_bit 6 k))
            }
          else sequentialCheck tmpChunk bitMask curIndex
      })"

definition hasMoreElements :: "bitvector \<Rightarrow> int \<Rightarrow> bool" where
  "hasMoreElements v cur \<longleftrightarrow> getChunkIndex cur < numChunks v"

definition resetIterator :: "bitvector \<Rightarrow> int \<Rightarrow> int option" where
  "resetIterator v startBit = getNextBit v (startBit - 1)"

definition getNextElement :: "bitvector \<Rightarrow> int \<Rightarrow> (int \<times> int) option" where
  "getNextElement v cur = do { cur' \<leftarrow> getNextBit v cur; Some (cur, cur') }"

partial_function (option) iterate :: "bitvector \<Rightarrow> int \<Rightarrow> int list option" where
  "iterate v cur =
     (if hasMoreElements v cur then do {
        (x, cur') \<leftarrow> getNextElement v cur;
        xs \<leftarrow> iterate v cur';
        Some (x # xs)
      } else Some [])"

definition elements :: "bitvector \<Rightarrow> int \<Rightarrow> int list option" where
  "elements v startBit = do { cur \<leftarrow> resetIterator v startBit; iterate v cur }"

text \<open>The table of bit counts, built by doubling.\<close>

fun popTable :: "nat \<Rightarrow> nat list" where
  "popTable 0 = [0]"
| "popTable (Suc k) = popTable k @ map Suc (popTable k)"

text \<open>What the iterator must stop at: the least element from \<open>low\<close> on, or the end of the array.\<close>

definition least_above :: "bitvector \<Rightarrow> int \<Rightarrow> int \<Rightarrow> bool" where
  "least_above v low m \<longleftrightarrow>
     (m \<in> bits v \<and> low \<le> m \<and> (\<forall>n \<in> bits v. low \<le> n \<longrightarrow> m \<le> n)
      \<or> m = 64 * numChunks v \<and> (\<forall>n \<in> bits v. n < low))"

section \<open>Range operations\<close>

section \<open>Ranges\<close>

lemma le_div_mod_64: "(m::int) \<le> x \<longleftrightarrow> m div 64 < x div 64 \<or> m div 64 = x div 64 \<and> m mod 64 \<le> x mod 64"
  using div_mult_mod_eq [of m 64] div_mult_mod_eq [of x 64] pos_mod_bound [of 64 m] pos_mod_bound [of 64 x]
    pos_mod_sign [of 64 m] pos_mod_sign [of 64 x] by linarith

lemma precise_superset:
  assumes p: "precise cs f l" and mono: "\<And>k. chunkAt cs k \<noteq> 0 \<Longrightarrow> chunkAt ds k \<noteq> 0"
    and ab: "chunkAt ds a \<noteq> 0" "chunkAt ds b \<noteq> 0"
    and new: "\<And>k. chunkAt ds k \<noteq> 0 \<Longrightarrow> chunkAt cs k \<noteq> 0 \<or> a \<le> k \<and> k \<le> b"
    and len: "length ds = length cs"
  shows "precise ds (min f a) (max l b)"
proof (rule preciseI_nonempty)
  note P = preciseD [OF p]
  have a: "a < int (length cs)" "0 \<le> b" using chunkAt_nonzeroD [OF ab(1)] chunkAt_nonzeroD [OF ab(2)] len by auto
  show "chunkAt ds (min f a) \<noteq> 0"
    using P(2,3,4) ab mono a by (cases "l < 0") (auto simp: min_def)
  show "chunkAt ds (max l b) \<noteq> 0"
    using P(2,3,4) ab mono a by (cases "l < 0") (auto simp: max_def)
  show "min f a \<le> k \<and> k \<le> max l b" if "chunkAt ds k \<noteq> 0" for k
    using new [OF that] P(1) [of k] by auto
qed

lemma foldM_setMaskBody:
  assumes "0 \<le> c" "c < int (length cs)"
  shows "foldM (setMaskBody c) is cs = Some (cs[nat c := fold (\<lambda>i a. a OR getBitMask i) is (chunkAt cs c)])"
  using assms(2)
proof (induction "is" arbitrary: cs)
  case (Cons i "is")
  with assms(1) show ?case
    by (simp add: setMaskBody_def rd_chunkAt array_simps Cons.IH chunkAt_update)
qed (use assms in \<open>simp add: chunkAt_inside\<close>)

lemma foldM_clearMaskBody:
  assumes "0 \<le> c" "c < int (length cs)"
  shows "foldM (clearMaskBody c) is cs = Some (cs[nat c := fold (\<lambda>i a. a AND NOT (getBitMask i)) is (chunkAt cs c)])"
  using assms(2)
proof (induction "is" arbitrary: cs)
  case (Cons i "is")
  with assms(1) show ?case
    by (simp add: clearMaskBody_def rd_chunkAt array_simps Cons.IH chunkAt_update)
qed (use assms in \<open>simp add: chunkAt_inside\<close>)

lemma bit_fold_set:
  "bit (fold (\<lambda>i a. a OR getBitMask i) is a) (nat (63 - x mod 64)) \<longleftrightarrow>
     bit a (nat (63 - x mod 64)) \<or> (\<exists>i \<in> set is. i mod 64 = x mod 64)"
  by (induction "is" arbitrary: a) (auto simp: bit_or_mask)

lemma bit_fold_clear:
  "bit (fold (\<lambda>i a. a AND NOT (getBitMask i)) is a) (nat (63 - x mod 64)) \<longleftrightarrow>
     bit a (nat (63 - x mod 64)) \<and> \<not> (\<exists>i \<in> set is. i mod 64 = x mod 64)"
  by (induction "is" arbitrary: a) (auto simp: bit_andnot_mask)

lemma mod_64_le [simp]: "x mod 64 \<le> (63::int)"
  using pos_mod_bound [of 64 x] by linarith

lemma ex_mod_upto: "0 \<le> lo \<Longrightarrow> hi < 64 \<Longrightarrow> (\<exists>i \<in> {lo..hi}. i mod 64 = x mod (64::int)) \<longleftrightarrow> lo \<le> x mod 64 \<and> x mod 64 \<le> hi"
proof -
  assume "0 \<le> lo" "hi < 64"
  then have "i mod 64 = i" if "i \<in> {lo..hi}" for i using that by auto
  then show ?thesis by fastforce
qed

lemma bit_or_minus_1: "bit (c OR - 1 :: u64) (nat (63 - x mod 64))"
proof -
  have "nat (63 - x mod 64) < 64" by simp
  then show ?thesis by (simp add: bit_or_iff bit_minus_1_iff possible_bit_def)
qed

text \<open>Setting or clearing the upper part of the first chunk and the lower part of the last one.\<close>

lemma set_upper:
  assumes "0 \<le> c" "c < int (length cs)" "0 \<le> a"
  obtains d where "(if a > 0 then foldM (setMaskBody c) [a..63] cs
      else do { x \<leftarrow> rd cs c; wr cs c (x OR -1) }) = Some (cs[nat c := d])"
    "\<And>x. bit d (nat (63 - x mod 64)) \<longleftrightarrow> bit (chunkAt cs c) (nat (63 - x mod 64)) \<or> a \<le> x mod 64"
proof (cases "a > 0")
  case True
  with assms that [of "fold (\<lambda>i a. a OR getBitMask i) [a..63] (chunkAt cs c)"] show thesis
    by (simp add: foldM_setMaskBody bit_fold_set ex_mod_upto zle_diff1_eq)
next
  case False
  then have "a = 0" using assms(3) by simp
  with assms that [of "chunkAt cs c OR - 1"] show thesis
    by (simp add: rd_chunkAt array_simps bit_or_minus_1)
qed

lemma set_lower:
  assumes "0 \<le> c" "c < int (length cs)" "b < 64"
  obtains d where "(if b < 63 then foldM (setMaskBody c) (rev [0..b]) cs
      else do { x \<leftarrow> rd cs c; wr cs c (x OR -1) }) = Some (cs[nat c := d])"
    "\<And>x. bit d (nat (63 - x mod 64)) \<longleftrightarrow> bit (chunkAt cs c) (nat (63 - x mod 64)) \<or> x mod 64 \<le> b"
proof (cases "b < 63")
  case True
  with assms that [of "fold (\<lambda>i a. a OR getBitMask i) (rev [0..b]) (chunkAt cs c)"] show thesis
    by (simp add: foldM_setMaskBody bit_fold_set ex_mod_upto)
next
  case False
  then have "b = 63" using assms(3) by simp
  with assms that [of "chunkAt cs c OR - 1"] show thesis
    by (simp add: rd_chunkAt array_simps bit_or_minus_1 zle_diff1_eq)
qed

lemma fillBody_upd: "fillBody = upd_body (\<lambda>_ _. - 1)"
  by (intro ext) (simp add: fillBody_def upd_body_def rd_def wr_def)

text \<open>A vector that gains exactly the bits of a range, with the bounds widened to its chunks.\<close>

lemma widen_correct:
  assumes ok: "bv_ok v1" and mn: "0 \<le> m" "m \<le> n" and len: "length cs = length (chunks v1)"
    and cs: "\<And>x. 0 \<le> x \<Longrightarrow> bit (chunkAt cs (x div 64)) (nat (63 - x mod 64)) \<longleftrightarrow>
      bit (chunkAt (chunks v1) (x div 64)) (nat (63 - x mod 64)) \<or> m \<le> x \<and> x \<le> n"
    and v': "v' = v1\<lparr>chunks := cs, firstChunkWithNonZero := min (firstChunkWithNonZero v1) (m div 64),
      lastChunkWithNonZero := max (lastChunkWithNonZero v1) (n div 64)\<rparr>"
  shows "bv_ok v'" and "bits v' = bits v1 \<union> {m..n}"
proof -
  show b: "bits v' = bits v1 \<union> {m..n}" using cs mn by (auto simp: bits_def v')
  have nz: "chunkAt cs k \<noteq> 0 \<longleftrightarrow> (\<exists>x. 0 \<le> x \<and> x div 64 = k \<and> bit (chunkAt cs k) (nat (63 - x mod 64)))" for k and cs
  proof
    assume "chunkAt cs k \<noteq> 0"
    then obtain i where "bit (chunkAt cs k) i" by (auto simp: word_neq_0_iff_bit)
    with chunk_bit_in_bits [of "v1\<lparr>chunks := cs\<rparr>" k i]
    show "\<exists>x. 0 \<le> x \<and> x div 64 = k \<and> bit (chunkAt cs k) (nat (63 - x mod 64))"
      by (intro exI [of _ "k * 64 + (63 - int i)"]) (simp add: mem_bits)
  qed auto
  have "precise cs (min (firstChunkWithNonZero v1) (m div 64)) (max (lastChunkWithNonZero v1) (n div 64))"
  proof (rule precise_superset [OF bv_okD(1) [OF ok]])
    show "chunkAt cs k \<noteq> 0" if "chunkAt (chunks v1) k \<noteq> 0" for k
      using that nz cs by metis
    show "chunkAt cs (m div 64) \<noteq> 0" "chunkAt cs (n div 64) \<noteq> 0"
      using nz cs [of m] cs [of n] mn by fastforce+
    show "chunkAt (chunks v1) k \<noteq> 0 \<or> m div 64 \<le> k \<and> k \<le> n div 64" if new: "chunkAt cs k \<noteq> 0" for k
    proof -
      obtain x where x: "0 \<le> x" "x div 64 = k" "bit (chunkAt cs k) (nat (63 - x mod 64))" using new nz by blast
      then show ?thesis using cs [OF x(1)] nz [of "chunks v1" k] zdiv_mono1 [of m x 64] zdiv_mono1 [of x n 64] by auto
    qed
  qed (rule len)
  with ok len show "bv_ok v'" by (simp add: bv_ok_def v')
qed

lemma setAllRange_correct:
  assumes ok: "bv_ok v" and mn: "0 \<le> m" "m \<le> n" "n < 2 ^ 37 - 64"
  shows "\<exists>v'. setAllRange m n v = Some v' \<and> bv_ok v' \<and> bits v' = bits v \<union> {m..n}"
proof -
  define a b where "a = m div 64" and "b = n div 64"
  have ab: "getChunkIndex m = a" "getChunkIndex n = b" "0 \<le> a" "a \<le> b" "b < 2 ^ 31 - 1"
    using mn zdiv_mono1 [of m n 64] by (auto simp: a_def b_def)
  from ok obtain v1 where v1: "(if b \<ge> numChunks v then setChunkSize (b + 1) v else Some v) = Some v1" "bv_ok v1"
    "\<And>k. chunkAt (chunks v1) k = chunkAt (chunks v) k" "b < int (length (chunks v1))"
    by (rule ensure_chunk) (use ab in auto)
  have bv1: "bits v1 = bits v" by (rule bits_cong) (rule v1(3))
  have lens: "a < int (length (chunks v1))" using ab v1(4) by simp
  have mod: "0 \<le> m mod 64" "n mod 64 < 64" by simp_all
  note start = setAllRange_def ab(1,2) Let_def v1(1) lower_first raise_last bind.bind_lunit getIndexInChunk_eq
  show ?thesis
  proof (cases "a = b")
    case True
    define ds where "ds = (chunks v1)[nat b := fold (\<lambda>i a. a OR getBitMask i) [m mod 64..n mod 64] (chunkAt (chunks v1) b)]"
    have ds: "bit (chunkAt ds (x div 64)) (nat (63 - x mod 64)) \<longleftrightarrow>
      bit (chunkAt (chunks v1) (x div 64)) (nat (63 - x mod 64)) \<or> m \<le> x \<and> x \<le> n" if "0 \<le> x" for x
      using True ab v1(4) le_div_mod_64 [of m x] le_div_mod_64 [of x n]
      by (cases "x div 64 = b") (auto simp: ds_def chunk_simps bit_fold_set ex_mod_upto a_def b_def)
    have "setAllRange m n v = Some (v1\<lparr>chunks := ds, firstChunkWithNonZero := min (firstChunkWithNonZero v1) a,
      lastChunkWithNonZero := max (lastChunkWithNonZero v1) b\<rparr>)"
      unfolding start using True ab v1(4) by (simp add: foldM_setMaskBody ds_def)
    with widen_correct [OF v1(2) mn(1,2) _ ds refl] bv1 show ?thesis by (simp add: ds_def flip: a_def b_def)
  next
    case False
    obtain d1 where d1: "(if m mod 64 > 0 then foldM (setMaskBody a) [m mod 64..63] (chunks v1)
      else do { x \<leftarrow> rd (chunks v1) a; wr (chunks v1) a (x OR -1) }) = Some ((chunks v1)[nat a := d1])"
      "\<And>x. bit d1 (nat (63 - x mod 64)) \<longleftrightarrow> bit (chunkAt (chunks v1) a) (nat (63 - x mod 64)) \<or> m mod 64 \<le> x mod 64"
      using set_upper [OF ab(3) lens mod(1)] by blast
    let ?c1 = "(chunks v1)[nat a := d1]"
    obtain d2 where d2: "(if n mod 64 < 63 then foldM (setMaskBody b) (rev [0..n mod 64]) ?c1
      else do { x \<leftarrow> rd ?c1 b; wr ?c1 b (x OR -1) }) = Some (?c1[nat b := d2])"
      "\<And>x. bit d2 (nat (63 - x mod 64)) \<longleftrightarrow> bit (chunkAt ?c1 b) (nat (63 - x mod 64)) \<or> x mod 64 \<le> n mod 64"
      using set_lower [of b ?c1 "n mod 64"] ab v1(4) mod by auto
    define ds where "ds = upd_range (\<lambda>_ _. - 1) (a + 1) (b - 1) (?c1[nat b := d2])"
    have ds: "bit (chunkAt ds (x div 64)) (nat (63 - x mod 64)) \<longleftrightarrow>
      bit (chunkAt (chunks v1) (x div 64)) (nat (63 - x mod 64)) \<or> m \<le> x \<and> x \<le> n" if "0 \<le> x" for x
    proof -
      have ones: "bit (- 1 :: u64) (nat (63 - x mod 64))" using bit_or_minus_1 [of 0 x] by simp
      have le: "m \<le> x \<longleftrightarrow> a < x div 64 \<or> a = x div 64 \<and> m mod 64 \<le> x mod 64"
        "x \<le> n \<longleftrightarrow> x div 64 < b \<or> x div 64 = b \<and> x mod 64 \<le> n mod 64"
        unfolding a_def b_def by (rule le_div_mod_64)+
      have ch: "chunkAt ds k = (if a < k \<and> k < b then - 1 else if k = b then d2 else if k = a then d1
          else chunkAt (chunks v1) k)" for k
        using False ab(3,4) v1(4) lens by (auto simp: ds_def chunk_simps)
      have "chunkAt ?c1 b = chunkAt (chunks v1) b" using False ab(3) lens by (simp add: chunk_simps)
      with ones d1(2) [of x] d2(2) [of x] False ab(4) show ?thesis unfolding le ch by auto
    qed
    have "setAllRange m n v = Some (v1\<lparr>chunks := ds, firstChunkWithNonZero := min (firstChunkWithNonZero v1) a,
      lastChunkWithNonZero := max (lastChunkWithNonZero v1) b\<rparr>)"
      unfolding start using False ab v1(4) d1(1) d2(1)
      by (cases "m mod 64 > 0"; cases "n mod 64 < 63") (simp_all add: ds_def fillBody_upd foldM_upd_body del: Option.bind_assoc)
    with widen_correct [OF v1(2) mn(1,2) _ ds refl] bv1 show ?thesis by (simp add: ds_def flip: a_def b_def)
  qed
qed

lemma setAllFirst_correct:
  assumes ok: "bv_ok v" and n: "n < 2 ^ 31"
  shows "\<exists>v'. setAllFirst n v = Some v' \<and> bv_ok v' \<and> bits v' = bits v \<union> {0..<n}"
proof (cases "n \<le> 0")
  case True
  with ok show ?thesis by (simp add: setAllFirst_def)
next
  case False
  define b where "b = (n - 1) div 64"
  have b: "getChunkIndex (n - 1) = b" "0 \<le> b" "b < 2 ^ 31 - 1" using n False by (auto simp: b_def)
  from ok b(2,3) obtain v1 where v1: "(if b \<ge> numChunks v then setChunkSize (b + 1) v else Some v) = Some v1" "bv_ok v1"
    "\<And>k. chunkAt (chunks v1) k = chunkAt (chunks v) k" "b < int (length (chunks v1))"
    by (rule ensure_chunk) blast
  have bv1: "bits v1 = bits v" by (rule bits_cong) (rule v1(3))
  let ?c1 = "upd_range (\<lambda>_ _. - 1) 0 (b - 1) (chunks v1)"
  define ds where "ds = ?c1[nat b := fold (\<lambda>i a. a OR getBitMask i) [b * 64..n - 1] (chunkAt ?c1 b)]"
  have ds: "bit (chunkAt ds (x div 64)) (nat (63 - x mod 64)) \<longleftrightarrow>
      bit (chunkAt (chunks v1) (x div 64)) (nat (63 - x mod 64)) \<or> 0 \<le> x \<and> x \<le> n - 1" if "0 \<le> x" for x
  proof -
    have ones: "bit (- 1 :: u64) (nat (63 - x mod 64))" using bit_or_minus_1 [of 0 x] by simp
    have le: "x \<le> n - 1 \<longleftrightarrow> x div 64 < b \<or> x div 64 = b \<and> x mod 64 \<le> (n - 1) mod 64"
      unfolding b_def by (rule le_div_mod_64)
    have ch: "chunkAt ds k = (if k = b then fold (\<lambda>i a. a OR getBitMask i) [b * 64..n - 1] (chunkAt (chunks v1) b)
        else if 0 \<le> k \<and> k < b then - 1 else chunkAt (chunks v1) k)" for k
      using b(2) v1(4) by (auto simp: ds_def chunk_simps)
    have "(\<exists>i \<in> {b * 64..n - 1}. i mod 64 = x mod 64) \<longleftrightarrow> x mod 64 \<le> (n - 1) mod 64"
    proof
      assume "\<exists>i \<in> {b * 64..n - 1}. i mod 64 = x mod 64"
      then obtain i where i: "b * 64 \<le> i" "i \<le> n - 1" "i mod 64 = x mod 64" by auto
      then have "b \<le> i div 64" using zdiv_mono1 [of "b * 64" i 64] by simp
      with i le_div_mod_64 [of i "n - 1"] show "x mod 64 \<le> (n - 1) mod 64" by (auto simp: b_def)
    next
      assume "x mod 64 \<le> (n - 1) mod 64"
      then show "\<exists>i \<in> {b * 64..n - 1}. i mod 64 = x mod 64"
        using div_mult_mod_eq [of "n - 1" 64] unfolding b_def [symmetric]
        by (intro bexI [of _ "b * 64 + x mod 64"]) simp_all
    qed
    with ones that show ?thesis unfolding le ch by (auto simp: bit_fold_set)
  qed
  have "setAllFirst n v = Some (v1\<lparr>chunks := ds, firstChunkWithNonZero := 0, lastChunkWithNonZero := max (lastChunkWithNonZero v1) b\<rparr>)"
    unfolding setAllFirst_def b(1) Let_def v1(1) raise_last using False n b(2) v1(4)
    by (simp add: fillBody_upd foldM_upd_body_rev foldM_setMaskBody getBitIndex_eq ds_def)
  moreover have "min (firstChunkWithNonZero v1) (0 div 64) = 0"
    using preciseD(5) [OF bv_okD(1) [OF v1(2)]] by simp
  moreover have "{0..n - 1} = {0..<n}" by auto
  ultimately show ?thesis
    using widen_correct [OF v1(2) _ _ _ ds refl] bv1 False by (simp add: ds_def flip: b_def)
qed

lemma bit_getBitMaskRange:
  assumes "m mod 64 \<le> n mod 64"
  shows "bit (getBitMaskRange m n) (nat (63 - x mod 64)) \<longleftrightarrow> m mod 64 \<le> x mod 64 \<and> x mod 64 \<le> n mod 64"
proof -
  let ?k = "nat (63 - n mod 64)" and ?w = "nat (n mod 64 - m mod 64 + 1)"
  have e: "nat (63 - m mod 64) + 1 = ?k + ?w" using assms by (simp add: nat_add_distrib [symmetric])
  have "getBitMaskRange m n = push_bit 1 (push_bit (nat (63 - m mod 64)) 1 - 1) - push_bit ?k 1 + 2"
    by (simp add: getBitMaskRange_def getBitMask_def and_63)
  also have "\<dots> = 2 ^ (nat (63 - m mod 64) + 1) - 2 ^ ?k" by (simp add: push_bit_eq_mult algebra_simps)
  also have "\<dots> = push_bit ?k (mask ?w)" unfolding e by (simp add: push_bit_eq_mult mask_eq_exp_minus_1 power_add algebra_simps)
  finally have r: "getBitMaskRange m n = push_bit ?k (mask ?w)" .
  define y M N where yMN: "y = x mod 64" "M = m mod 64" "N = n mod 64"
  have "0 \<le> y" "y < 64" "0 \<le> M" "M \<le> N" "N < 64" using assms by (simp_all add: yMN)
  then show ?thesis unfolding r yMN [symmetric] bit_push_bit_iff bit_mask_iff possible_bit_word
    by (auto simp: nat_le_iff nat_less_iff)
qed

lemma clear_upper:
  assumes "0 \<le> c" "c < int (length cs)" "0 \<le> a"
  obtains d where "(if a > 0 then foldM (clearMaskBody c) [a..63] cs else wr cs c 0) = Some (cs[nat c := d])"
    "\<And>x. bit d (nat (63 - x mod 64)) \<longleftrightarrow> bit (chunkAt cs c) (nat (63 - x mod 64)) \<and> \<not> a \<le> x mod 64"
proof (cases "a > 0")
  case True
  with assms that [of "fold (\<lambda>i a. a AND NOT (getBitMask i)) [a..63] (chunkAt cs c)"] show thesis
    by (simp add: foldM_clearMaskBody bit_fold_clear ex_mod_upto)
next
  case False
  then have "a = 0" using assms(3) by simp
  with assms that [of 0] show thesis by (simp add: array_simps)
qed

lemma clear_lower:
  assumes "0 \<le> c" "c < int (length cs)" "b < 64"
  obtains d where "(if b < 63 then foldM (clearMaskBody c) (rev [0..b]) cs else wr cs c 0) = Some (cs[nat c := d])"
    "\<And>x. bit d (nat (63 - x mod 64)) \<longleftrightarrow> bit (chunkAt cs c) (nat (63 - x mod 64)) \<and> \<not> x mod 64 \<le> b"
proof (cases "b < 63")
  case True
  with assms that [of "fold (\<lambda>i a. a AND NOT (getBitMask i)) (rev [0..b]) (chunkAt cs c)"] show thesis
    by (simp add: foldM_clearMaskBody bit_fold_clear ex_mod_upto)
next
  case False
  then have "b = 63" using assms(3) by simp
  with assms that [of 0] show thesis by (simp add: array_simps)
qed

text \<open>The chunk array after the three clearing steps.\<close>

lemma resetAll_chunks:
  assumes ab: "0 \<le> a" "a \<le> b" "b < int (length cs)" "a = m div 64" "b = n div 64" and mn: "m \<le> n"
  obtains ds where "(if a = b then do { c \<leftarrow> rd cs a; wr cs a (c AND NOT (getBitMaskRange m n)) }
      else do {
        cs1 \<leftarrow> (if m mod 64 > 0 then foldM (clearMaskBody a) [m mod 64..63] cs else wr cs a 0);
        cs2 \<leftarrow> (if n mod 64 < 63 then foldM (clearMaskBody b) (rev [0..n mod 64]) cs1 else wr cs1 b 0);
        foldM zeroBody [a + 1..b - 1] cs2
      }) = Some ds" "length ds = length cs"
    "\<And>x. bit (chunkAt ds (x div 64)) (nat (63 - x mod 64)) \<longleftrightarrow>
       bit (chunkAt cs (x div 64)) (nat (63 - x mod 64)) \<and> \<not> (m \<le> x \<and> x \<le> n)"
proof (cases "a = b")
  case True
  let ?d = "chunkAt cs b AND NOT (getBitMaskRange m n)"
  have mod: "m mod 64 \<le> n mod 64" using mn True ab(4,5) le_div_mod_64 [of m n] by auto
  have "bit (chunkAt (cs[nat b := ?d]) (x div 64)) (nat (63 - x mod 64)) \<longleftrightarrow>
       bit (chunkAt cs (x div 64)) (nat (63 - x mod 64)) \<and> \<not> (m \<le> x \<and> x \<le> n)" for x
  proof -
    have le: "m \<le> x \<longleftrightarrow> b < x div 64 \<or> b = x div 64 \<and> m mod 64 \<le> x mod 64"
      "x \<le> n \<longleftrightarrow> x div 64 < b \<or> x div 64 = b \<and> x mod 64 \<le> n mod 64"
      using le_div_mod_64 [of m x] le_div_mod_64 [of x n] True ab(4,5) by auto
    have ch: "chunkAt (cs[nat b := ?d]) k = (if k = b then ?d else chunkAt cs k)" for k
      using ab(1-3) by (auto simp: chunk_simps)
    have "bit ?d (nat (63 - x mod 64)) \<longleftrightarrow>
        bit (chunkAt cs b) (nat (63 - x mod 64)) \<and> \<not> (m mod 64 \<le> x mod 64 \<and> x mod 64 \<le> n mod 64)"
      using bit_getBitMaskRange [OF mod, of x] by (auto simp: bit_and_iff bit_not_iff possible_bit_def)
    then show ?thesis unfolding le ch by auto
  qed
  with True ab that [of "cs[nat b := ?d]"] show thesis by (simp add: rd_chunkAt array_simps)
next
  case False
  obtain d1 where d1: "(if m mod 64 > 0 then foldM (clearMaskBody a) [m mod 64..63] cs else wr cs a 0) = Some (cs[nat a := d1])"
    "\<And>x. bit d1 (nat (63 - x mod 64)) \<longleftrightarrow> bit (chunkAt cs a) (nat (63 - x mod 64)) \<and> \<not> m mod 64 \<le> x mod 64"
    using clear_upper [of a cs "m mod 64"] ab by auto
  let ?c1 = "cs[nat a := d1]"
  obtain d2 where d2: "(if n mod 64 < 63 then foldM (clearMaskBody b) (rev [0..n mod 64]) ?c1 else wr ?c1 b 0) = Some (?c1[nat b := d2])"
    "\<And>x. bit d2 (nat (63 - x mod 64)) \<longleftrightarrow> bit (chunkAt ?c1 b) (nat (63 - x mod 64)) \<and> \<not> x mod 64 \<le> n mod 64"
    using clear_lower [of b ?c1 "n mod 64"] ab by auto
  define ds where "ds = upd_range (\<lambda>_ _. 0) (a + 1) (b - 1) (?c1[nat b := d2])"
  have ds: "bit (chunkAt ds (x div 64)) (nat (63 - x mod 64)) \<longleftrightarrow>
     bit (chunkAt cs (x div 64)) (nat (63 - x mod 64)) \<and> \<not> (m \<le> x \<and> x \<le> n)" for x
  proof -
    have le: "m \<le> x \<longleftrightarrow> a < x div 64 \<or> a = x div 64 \<and> m mod 64 \<le> x mod 64"
      "x \<le> n \<longleftrightarrow> x div 64 < b \<or> x div 64 = b \<and> x mod 64 \<le> n mod 64"
      unfolding ab by (rule le_div_mod_64)+
    have ch: "chunkAt ds k = (if a < k \<and> k < b then 0 else if k = b then d2 else if k = a then d1
        else chunkAt cs k)" for k
      using False ab(1-3) by (auto simp: ds_def chunk_simps)
    have "chunkAt ?c1 b = chunkAt cs b" using False ab(1-3) by (simp add: chunk_simps)
    with d1(2) [of x] d2(2) [of x] False ab(2) show ?thesis unfolding le ch by auto
  qed
  have zb: "foldM zeroBody [a + 1..b - 1] (?c1[nat b := d2]) = Some ds"
    using ab by (simp add: ds_def chunk_simps)
  show thesis
    using False d1(1) d2(1) zb by (intro that [OF _ _ ds]) (simp_all add: ds_def)
qed

lemma resetAllRange_correct:
  assumes ok: "bv_ok v" and mn: "0 \<le> m" "m \<le> n" "n < 2 ^ 37" and fits: "n div 64 < numChunks v"
  shows "\<exists>v'. resetAllRange m n v = Some v' \<and> bv_ok v' \<and> bits v' = bits v - {m..n}"
proof -
  define a b where "a = m div 64" and "b = n div 64"
  note p = bv_okD [OF ok] and P = preciseD [OF bv_okD(1) [OF ok]]
  have ab: "getChunkIndex m = a" "getChunkIndex n = b" "0 \<le> a" "a \<le> b" "b < numChunks v"
    using mn zdiv_mono1 [of m n 64] fits by (auto simp: a_def b_def)
  show ?thesis
  proof (cases "lastChunkWithNonZero v < a \<or> firstChunkWithNonZero v > b")
    case True
    have "x \<notin> bits v" if "m \<le> x" "x \<le> n" for x
      using True precise_outside [OF p(1), of "x div 64"] that zdiv_mono1 [of m x 64] zdiv_mono1 [of x n 64]
      by (auto simp: mem_bits a_def b_def)
    then have "bits v - {m..n} = bits v" by auto
    with True ok ab show ?thesis by (simp add: resetAllRange_def Let_def)
  next
    case False
    have len: "b < int (length (chunks v))" using ab(5) p(2) by simp
    from ab(3,4) len a_def b_def mn(2) obtain ds where ds: "(if a = b then do { c \<leftarrow> rd (chunks v) a; wr (chunks v) a (c AND NOT (getBitMaskRange m n)) }
      else do {
        cs1 \<leftarrow> (if m mod 64 > 0 then foldM (clearMaskBody a) [m mod 64..63] (chunks v) else wr (chunks v) a 0);
        cs2 \<leftarrow> (if n mod 64 < 63 then foldM (clearMaskBody b) (rev [0..n mod 64]) cs1 else wr cs1 b 0);
        foldM zeroBody [a + 1..b - 1] cs2
      }) = Some ds" "length ds = length (chunks v)"
      "\<And>x. bit (chunkAt ds (x div 64)) (nat (63 - x mod 64)) \<longleftrightarrow>
         bit (chunkAt (chunks v) (x div 64)) (nat (63 - x mod 64)) \<and> \<not> (m \<le> x \<and> x \<le> n)"
      by (rule resetAll_chunks) blast
    have e: "resetAllRange m n v =
        resetLowAndHighChunks (firstChunkWithNonZero v) (lastChunkWithNonZero v) (v\<lparr>chunks := ds\<rparr>)"
      unfolding resetAllRange_def Let_def ab(1,2) getIndexInChunk_eq using False ab(5) ds(1) by simp
    have "firstChunkWithNonZero v \<le> k \<and> k \<le> lastChunkWithNonZero v" if nz: "chunkAt ds k \<noteq> 0" for k
    proof -
      obtain i where "bit (chunkAt ds k) i" using nz by (auto simp: word_neq_0_iff_bit)
      then have "bit (chunkAt ds k) (nat (63 - (63 - int i)))" "i < 64"
        using bit_imp_le_length [of "chunkAt ds k" i] by auto
      with ds(3) [of "k * 64 + (63 - int i)"] have "bit (chunkAt (chunks v) k) i" by simp
      then have "chunkAt (chunks v) k \<noteq> 0" by auto
      then show ?thesis by (rule P(1))
    qed
    then obtain v' where v': "resetAllRange m n v = Some v'" "bv_ok v'" "chunks v' = ds"
      using rescan_correct [OF ok ds(2), of "firstChunkWithNonZero v" "lastChunkWithNonZero v"] P(5,7) ds(2) e
      by auto
    have "x \<in> bits v' \<longleftrightarrow> x \<in> bits v - {m..n}" for x
      unfolding Diff_iff mem_bits v'(3) ds(3) atLeastAtMost_iff by blast
    with v' show ?thesis by blast
  qed
qed

text \<open>
  When the range ends past the allocated chunks, \<open>resetAll\<close> grows the array one chunk short of
  what it then writes: it asks for \<open>getChunkIndex(n)\<close> chunks and stores into chunk \<open>getChunkIndex(n)\<close>.
\<close>

lemma resetAllRange_overrun:
  assumes ok: "bv_ok v" and mn: "0 \<le> m" "m \<le> n" "n < 2 ^ 37" and past: "numChunks v \<le> n div 64"
    and meets: "m div 64 \<le> lastChunkWithNonZero v"
  shows "resetAllRange m n v = None"
proof -
  define a b where "a = m div 64" and "b = n div 64"
  note p = bv_okD [OF ok] and P = preciseD [OF bv_okD(1) [OF ok]]
  have ab: "getChunkIndex m = a" "getChunkIndex n = b" "0 \<le> a" "a < b" "numChunks v \<le> b" "b < 2 ^ 31"
    using mn past meets P(7) p(2) by (auto simp: a_def b_def)
  obtain v1 where v1: "(if b \<ge> numChunks v then setChunkSize b v else Some v) = Some v1" "bv_ok v1" "int (length (chunks v1)) = b"
    using setChunkSize_correct [OF ok, of b] ab by (auto simp: bv_ok_def)
  have len1: "a < int (length (chunks v1))" using ab v1 by simp
  obtain d1 where d1: "(if m mod 64 > 0 then foldM (clearMaskBody a) [m mod 64..63] (chunks v1) else wr (chunks v1) a 0) = Some ((chunks v1)[nat a := d1])"
    using clear_upper [OF ab(3) len1, of "m mod 64"] by auto
  have r: "wr ((chunks v1)[nat a := d1]) b c = None" "rd ((chunks v1)[nat a := d1]) b = None" for c
    using v1(3) by (simp_all add: wr_def rd_def)
  have "(if n mod 64 < 63 then foldM (clearMaskBody b) (rev [0..n mod 64]) ((chunks v1)[nat a := d1]) else wr ((chunks v1)[nat a := d1]) b 0) = None"
  proof -
    obtain i "is" where "rev [0..n mod 64] = i # is" using pos_mod_sign [of 64 n] by (cases "rev [0..n mod 64]") auto
    then show ?thesis by (simp add: r clearMaskBody_def)
  qed
  moreover have "\<not> (lastChunkWithNonZero v < a \<or> firstChunkWithNonZero v > b)"
    using meets P(3,6) ab p(2) by (auto simp: a_def)
  ultimately show ?thesis
    unfolding resetAllRange_def Let_def ab(1,2) getIndexInChunk_eq v1(1) using d1 ab(4)
    by simp
qed

section \<open>Counting is cardinality\<close>

lemma length_popTable [simp]: "length (popTable k) = 2 ^ k"
  by (induction k) auto

lemma popTable_nth: "n < 2 ^ k \<Longrightarrow> popTable k ! n = length (filter (bit n) [0..<k])"
proof (induction k arbitrary: n)
  case (Suc k)
  show ?case
  proof (cases "n < 2 ^ k")
    case True
    with Suc.IH [of n] show ?thesis by (simp add: nth_append bit_nat_iff bit_iff_odd)
  next
    case False
    define m where "m = n - 2 ^ k"
    have m: "n = 2 ^ k + m" "m < 2 ^ k" using False Suc.prems by (auto simp: m_def)
    have "bit n i \<longleftrightarrow> bit m i" if "i < k" for i
    proof -
      have "(2::nat) ^ k = 2 * 2 ^ (k - i - 1) * 2 ^ i" using that
        by (simp flip: power_Suc power_add)
      then show ?thesis unfolding m(1) bit_iff_odd by (metis div_mult_self3 even_add even_mult_iff even_numeral power_not_zero zero_neq_numeral)
    qed
    then have "filter (bit n) [0..<k] = filter (bit m) [0..<k]" by (intro filter_cong) auto
    moreover have "bit n k" unfolding m(1) bit_iff_odd using m(2) by (simp add: div_add_self1)
    ultimately show ?thesis using Suc.IH [OF m(2)] m False by (simp add: nth_append)
  qed
qed simp

lemma bitsInByte_table: "n < 256 \<Longrightarrow> bitsInByte ! n = length (filter (bit n) [0..<8])"
proof -
  have "bitsInByte = popTable 8" by (simp add: bitsInByte_def eval_nat_numeral)
  then show "n < 256 \<Longrightarrow> bitsInByte ! n = length (filter (bit n) [0..<8])" using popTable_nth [of n 8] by simp
qed

lemma bitsInByte_correct:
  "bitsInByte ! unat (drop_bit k c AND 255 :: u64) = card {i. k \<le> i \<and> i < k + 8 \<and> bit c i}"
proof -
  let ?n = "unat (drop_bit k c AND 255)"
  have m: "drop_bit k c AND 255 = take_bit 8 (drop_bit k c)" by (simp add: take_bit_eq_mask mask_eq_exp_minus_1)
  have "?n < 256" unfolding m using take_bit_nat_less_exp [of 8 "unat (drop_bit k c)"] by (simp add: unsigned_take_bit_eq)
  then have "bitsInByte ! ?n = length (filter (bit ?n) [0..<8])"
    by (rule bitsInByte_table)
  also have "\<dots> = card (set (filter (bit ?n) [0..<8]))" by (simp only: distinct_card distinct_filter distinct_upt)
  also have "set (filter (bit ?n) [0..<8]) = {i. i < 8 \<and> bit c (i + k)}"
    unfolding m by (auto simp: bit_unsigned_iff bit_take_bit_iff bit_drop_bit_eq add.commute)
  also have "card \<dots> = card ((\<lambda>i. i + k) ` {i. i < 8 \<and> bit c (i + k)})"
    by (simp add: card_image)
  also have "(\<lambda>i. i + k) ` {i. i < 8 \<and> bit c (i + k)} = {i. k \<le> i \<and> i < k + 8 \<and> bit c i}"
  proof (rule set_eqI, rule iffI)
    fix i assume "i \<in> {i. k \<le> i \<and> i < k + 8 \<and> bit c i}"
    then show "i \<in> (\<lambda>i. i + k) ` {i. i < 8 \<and> bit c (i + k)}" by (intro image_eqI [of _ _ "i - k"]) auto
  qed auto
  finally show ?thesis .
qed

lemma card_bits_split:
  "card {i. k \<le> i \<and> i < k + 8 \<and> bit c i} + card {i. k + 8 \<le> i \<and> i < m \<and> bit (c :: u64) i}
     = card {i. k \<le> i \<and> i < m \<and> bit c i}" if "k + 8 \<le> m"
proof -
  have "{i. k \<le> i \<and> i < m \<and> bit c i} = {i. k \<le> i \<and> i < k + 8 \<and> bit c i} \<union> {i. k + 8 \<le> i \<and> i < m \<and> bit c i}"
    using that by auto
  then show ?thesis by (simp add: card_Un_disjoint disjoint_iff)
qed

lemma chunkBits_correct: "chunkBits c = card {i. bit c i}"
proof -
  have "{i. bit c i} = {i. 0 \<le> i \<and> i < 64 \<and> bit c i}" using bit_imp_le_length [of c] by auto
  with bitsInByte_correct [of 0 c] show ?thesis
    using card_bits_split [of 0 64 c] card_bits_split [of 8 64 c] card_bits_split [of 16 64 c] card_bits_split [of 24 64 c]
      card_bits_split [of 32 64 c] card_bits_split [of 40 64 c] card_bits_split [of 48 64 c] card_bits_split [of 56 64 c]
    by (simp add: chunkBits_def bitsInByte_correct)
qed

lemma chunkBits_0 [simp]: "chunkBits 0 = 0"
  by (simp add: chunkBits_def bitsInByte_def)

lemma bits_in_bounds:
  assumes "bv_ok v" "n \<in> bits v"
  shows "firstChunkWithNonZero v \<le> n div 64" "n div 64 \<le> lastChunkWithNonZero v"
proof -
  have "chunkAt (chunks v) (n div 64) \<noteq> 0" using assms(2) by (auto simp: mem_bits)
  with preciseD(1) [OF bv_okD(1) [OF assms(1)]]
  show "firstChunkWithNonZero v \<le> n div 64" "n div 64 \<le> lastChunkWithNonZero v" by auto
qed

text \<open>The elements of one chunk.\<close>

lemma card_chunk: "card {n \<in> bits v. n div 64 = k} = chunkBits (chunkAt (chunks v) k)"
proof -
  have "{n \<in> bits v. n div 64 = k} = (\<lambda>i. k * 64 + (63 - int i)) ` {i. bit (chunkAt (chunks v) k) i}"
  proof (rule set_eqI, rule iffI)
    fix n assume "n \<in> {n \<in> bits v. n div 64 = k}"
    then have "bit (chunkAt (chunks v) k) (nat (63 - n mod 64))" "n = k * 64 + (63 - int (nat (63 - n mod 64)))"
      by (auto simp: mem_bits)
    then show "n \<in> (\<lambda>i. k * 64 + (63 - int i)) ` {i. bit (chunkAt (chunks v) k) i}" by blast
  qed (use chunk_bit_in_bits in auto)
  moreover have "inj_on (\<lambda>i. k * 64 + (63 - int i)) A" for A by (auto simp: inj_on_def)
  ultimately show ?thesis by (simp add: card_image chunkBits_correct)
qed

lemma card_by_chunks:
  assumes "finite S" "\<And>x. x \<in> S \<Longrightarrow> f x \<in> set ks" "distinct ks"
  shows "card S = sum_list (map (\<lambda>k. card {x \<in> S. f x = k}) ks)"
proof -
  have "S = (\<Union>k \<in> set ks. {x \<in> S. f x = k})" using assms(2) by auto
  then have "card S = (\<Sum>k \<in> set ks. card {x \<in> S. f x = k})"
    using card_UN_disjoint [of "set ks" "\<lambda>k. {x \<in> S. f x = k}"] assms(1) by auto
  then show ?thesis by (simp add: sum_list_distinct_conv_sum_set [OF assms(3)])
qed

lemma finite_bits: "finite (bits v)"
proof (rule finite_subset)
  show "bits v \<subseteq> {0..int (length (chunks v)) * 64}"
  proof
    fix n assume "n \<in> bits v"
    then have "chunkAt (chunks v) (n div 64) \<noteq> 0" "0 \<le> n" by (auto simp: mem_bits)
    then have "n div 64 < int (length (chunks v))" by (auto dest: chunkAt_nonzeroD)
    then have "n div 64 * 64 + 64 \<le> int (length (chunks v)) * 64" by simp
    with \<open>0 \<le> n\<close> show "n \<in> {0..int (length (chunks v)) * 64}"
      using div_mult_mod_eq [of n 64] pos_mod_bound [of 64 n] unfolding atLeastAtMost_iff by linarith
  qed
qed simp

lemma foldM_count:
  assumes "\<And>i. i \<in> set is \<Longrightarrow> rd cs i = Some (g i)"
  shows "foldM (countBody cs) is n = Some (n + sum_list (map (\<lambda>i. chunkBits (g i)) is))"
  using assms by (induction "is" arbitrary: n) (auto simp: countBody_def)

lemma elementCount_correct:
  assumes ok: "bv_ok v"
  shows "elementCount v = Some (card (bits v))"
proof -
  note p = bv_okD [OF ok] and P = preciseD [OF bv_okD(1) [OF ok]]
  let ?ks = "[firstChunkWithNonZero v..lastChunkWithNonZero v]"
  have "card (bits v) = sum_list (map (\<lambda>k. card {n \<in> bits v. n div 64 = k}) ?ks)"
    by (rule card_by_chunks) (use bits_in_bounds [OF ok] in \<open>auto simp: finite_bits\<close>)
  moreover have "rd (chunks v) i = Some (chunkAt (chunks v) i)" if "i \<in> set ?ks" for i
    using that P(5,7) by (intro rd_chunkAt) auto
  then have "elementCount v = Some (sum_list (map (\<lambda>i. chunkBits (chunkAt (chunks v) i)) ?ks))"
    unfolding elementCount_def by (subst foldM_count) auto
  ultimately show ?thesis by (simp only: card_chunk)
qed

lemma commonElementCount_correct:
  assumes ok: "bv_ok v" "bv_ok w"
  shows "commonElementCount w v = Some (card (bits v \<inter> bits w))"
proof -
  note P = preciseD [OF bv_okD(1) [OF ok(1)]] and Q = preciseD [OF bv_okD(1) [OF ok(2)]]
  define lo hi where lohi: "lo = max (firstChunkWithNonZero v) (firstChunkWithNonZero w)"
    "hi = min (lastChunkWithNonZero v) (lastChunkWithNonZero w)"
  define u where "u = v\<lparr>chunks := map (\<lambda>k. chunkAt (chunks v) k AND chunkAt (chunks w) k) [0..int (length (chunks v)) - 1]\<rparr>"
  have u: "chunkAt (chunks u) k = chunkAt (chunks v) k AND chunkAt (chunks w) k" for k
    by (auto simp: u_def chunkAt_def nth_upto)
  have bu: "bits u = bits v \<inter> bits w" by (auto simp: bits_def u bit_and_iff)
  have in_lohi: "n div 64 \<in> set [lo..hi]" if "n \<in> bits v" "n \<in> bits w" for n
    using bits_in_bounds [OF ok(1) that(1)] bits_in_bounds [OF ok(2) that(2)] by (simp add: lohi)
  show ?thesis
  proof (cases "lastChunkWithNonZero w < firstChunkWithNonZero v \<or> firstChunkWithNonZero w > lastChunkWithNonZero v")
    case True
    have "bits v \<inter> bits w = {}" using in_lohi True by (force simp: lohi)
    then show ?thesis unfolding commonElementCount_def if_P [OF True] by simp
  next
    case False
    have rd: "rd (chunks v) i = Some (chunkAt (chunks v) i)" "rd (chunks w) i = Some (chunkAt (chunks w) i)"
      if "i \<in> set [lo..hi]" for i
      using that P(5,7) Q(5,7) by (auto intro!: rd_chunkAt simp: lohi)
    have "foldM (commonCountBody (chunks v) (chunks w)) is n = Some (n + sum_list (map (\<lambda>i. chunkBits (chunkAt (chunks u) i)) is))"
      if "set is \<subseteq> set [lo..hi]" for "is" n
      using that by (induction "is" arbitrary: n) (auto simp: commonCountBody_def rd u Let_def)
    then have "commonElementCount w v = Some (sum_list (map (\<lambda>i. chunkBits (chunkAt (chunks u) i)) [lo..hi]))"
      unfolding commonElementCount_def if_not_P [OF False] by (simp add: lohi Let_def max_def min_def)
    moreover have "card (bits u) = sum_list (map (\<lambda>k. card {n \<in> bits u. n div 64 = k}) [lo..hi])"
      by (rule card_by_chunks) (use in_lohi bu in \<open>auto simp: finite_bits\<close>)
    ultimately show ?thesis unfolding card_chunk by (simp add: bu)
  qed
qed

section \<open>The iterator enumerates the set in order\<close>

lemma skipEmpty_correct:
  assumes "-1 \<le> k" "k < l" "chunkAt cs l \<noteq> 0"
  shows "\<exists>m. skipEmpty cs k = Some m \<and> k < m \<and> m \<le> l \<and> chunkAt cs m \<noteq> 0 \<and> (\<forall>j. k < j \<and> j < m \<longrightarrow> chunkAt cs j = 0)"
  using assms(1,2)
proof (induction "nat (l - k)" arbitrary: k)
  case (Suc n)
  have rd: "rd cs (k + 1) = Some (chunkAt cs (k + 1))"
    using Suc.prems chunkAt_nonzeroD [OF assms(3)] by (intro rd_chunkAt) auto
  show ?case
  proof (cases "chunkAt cs (k + 1) = 0")
    case False
    with rd Suc.prems show ?thesis by (subst skipEmpty.simps) auto
  next
    case True
    then have "k + 1 \<noteq> l" using assms(3) by auto
    moreover have "n = nat (l - (k + 1))" using Suc.hyps(2) by simp
    ultimately obtain m where m: "skipEmpty cs (k + 1) = Some m" "k + 1 < m" "m \<le> l"
      "chunkAt cs m \<noteq> 0" "\<forall>j. k + 1 < j \<and> j < m \<longrightarrow> chunkAt cs j = 0" using Suc.hyps(1) [of "k + 1"] Suc.prems by auto
    have "chunkAt cs j = 0" if "k < j" "j < m" for j
      using that m(5) True by (cases "j = k + 1") auto
    with m rd True show ?thesis by (subst skipEmpty.simps) auto
  qed
qed simp

lemma sequentialCheck_correct:
  assumes "bit tmp q" "q \<le> p" "p < 64" "\<And>r. q < r \<Longrightarrow> r \<le> p \<Longrightarrow> \<not> bit tmp r"
  shows "sequentialCheck tmp (push_bit p 1) cur = Some (cur + int (p - q))"
  using assms(2-4)
proof (induction "p - q" arbitrary: p cur)
  have nz: "tmp AND push_bit p 1 \<noteq> 0 \<longleftrightarrow> bit tmp p" if "p < 64" for p
    using that by (simp add: bit_iff_and_push_bit_not_eq_0)
  case 0
  then show ?case using assms(1) nz [of p] by (subst sequentialCheck.simps) simp
next
  have nz: "tmp AND push_bit p 1 \<noteq> 0 \<longleftrightarrow> bit tmp p" if "p < 64" for p
    using that by (simp add: bit_iff_and_push_bit_not_eq_0)
  case (Suc n)
  then obtain p' where p': "p = Suc p'" by (cases p) auto
  have "incrementBitMask (push_bit p 1) = push_bit p' 1"
    unfolding incrementBitMask_def p' using Suc.prems(2) p'
    by (intro bit_word_eqI) (auto simp: bit_simps)
  moreover have "sequentialCheck tmp (push_bit p' 1) (cur + 1) = Some (cur + 1 + int (p' - q))"
    using Suc.hyps(1) [of p' "cur + 1"] Suc.hyps(2) Suc.prems p' by auto
  moreover have "\<not> bit tmp p" using Suc.hyps(2) Suc.prems by auto
  moreover have "push_bit p 1 \<noteq> (0 :: u64)" using Suc.prems(2) by (auto simp: word_neq_0_iff_bit bit_simps)
  ultimately show ?case using nz [of p] Suc.prems Suc.hyps(2) p' by (subst sequentialCheck.simps) simp
qed

lemma highest_bit: "c \<noteq> 0 \<Longrightarrow> \<exists>q < 64. bit (c :: u64) q \<and> (\<forall>r > q. \<not> bit c r)"
proof -
  assume "c \<noteq> 0"
  then have ex: "\<exists>q. bit c q" by (auto simp: word_neq_0_iff_bit)
  let ?q = "Max {q. bit c q}"
  have "{q. bit c q} \<subseteq> {..<64}" using bit_imp_le_length [of c] by auto
  then have fin: "finite {q. bit c q}" by (rule finite_subset) simp
  have "bit c ?q" using Max_in [OF fin] ex by auto
  moreover have "\<not> bit c r" if "r > ?q" for r 
  proof
    assume "bit c r"
    then have "r \<le> ?q" using Max_ge [OF fin, of r] by simp
    with that show False by simp
  qed
  moreover have "?q < 64" using bit_imp_le_length [OF calculation(1)] by simp
  ultimately show ?thesis by (intro exI [of _ ?q]) blast
qed

lemma least_in_chunk:
  assumes c: "\<And>j. bit c j \<Longrightarrow> bit (chunkAt (chunks v) k) j"
    "\<And>n. n \<in> bits v \<Longrightarrow> n div 64 = k \<Longrightarrow> low \<le> n \<Longrightarrow> bit c (nat (63 - n mod 64))"
    and q: "bit c q" "\<forall>r > q. \<not> bit c r"
    and low: "low \<le> k * 64 + (63 - int q)" and gap: "\<And>n. n \<in> bits v \<Longrightarrow> low \<le> n \<Longrightarrow> k \<le> n div 64"
  shows "least_above v low (k * 64 + (63 - int q))"
proof -
  note m = chunk_bit_in_bits [OF c(1) [OF q(1)]]
  have "k * 64 + (63 - int q) \<le> n" if n: "n \<in> bits v" "low \<le> n" for n
  proof (cases "n div 64 = k")
    case True
    then have "nat (63 - n mod 64) \<le> q" using c(2) [OF n(1) _ n(2)] q(2) by (metis not_le)
    then have "63 - int q \<le> n mod 64" by linarith
    with True show ?thesis using div_mult_mod_eq [of n 64] by linarith
  next
    case False
    with gap [OF n] have "k + 1 \<le> n div 64" by simp
    then show ?thesis using div_mult_mod_eq [of n 64] pos_mod_sign [of 64 n] by linarith
  qed
  with m(1) low show ?thesis by (simp add: least_above_def)
qed

lemma getNextBit_correct:
  assumes ok: "bv_ok v" and small: "length (chunks v) < 2 ^ 25" and cur: "-1 \<le> cur" "cur < 2 ^ 31 - 1"
  shows "\<exists>m. getNextBit v cur = Some m \<and> least_above v (cur + 1) m"
proof -
  note p = bv_okD [OF ok] and P = preciseD [OF bv_okD(1) [OF ok]]
  define n1 a where n1: "n1 = cur + 1" and a: "a = n1 div 64"
  have s: "signed_take_bit 31 (cur + 1) = n1" using cur by (simp add: n1 signed_take_bit_int_eq_self)
  have e: "signed_take_bit 31 (push_bit 6 (numChunks v)) = 64 * numChunks v"
    using small p(2) by (simp add: push_bit_eq_mult signed_take_bit_int_eq_self)
  have n1': "0 \<le> n1" "n1 < 2 ^ 31" using cur by (auto simp: n1)
  have ga: "getChunkIndex n1 = a" using n1' by (simp add: a)
  note bb = bits_in_bounds [OF ok]
  have g: "getNextBit v cur =
     (if a > lastChunkWithNonZero v then Some (64 * numChunks v)
      else do {
        c \<leftarrow> rd (chunks v) a;
        if c = -1 then Some n1
        else if c AND getBitMaskRange n1 63 = 0 then
          if a \<ge> lastChunkWithNonZero v then Some (64 * numChunks v)
          else do {
            k \<leftarrow> skipEmpty (chunks v) a;
            c \<leftarrow> rd (chunks v) k;
            sequentialCheck c (getBitMask 0) (signed_take_bit 31 (push_bit 6 k))
          }
        else sequentialCheck (c AND getBitMaskRange n1 63) (getBitMask n1) n1
      })" unfolding getNextBit_def Let_def s e ga by (rule refl)
  have "\<exists>m. getNextBit v cur = Some m \<and> least_above v n1 m"
  proof (cases "a > lastChunkWithNonZero v")
    case True
    have "n < n1" if "n \<in> bits v" for n
      using bb(2) [OF that] True zdiv_mono1 [of n1 n 64] by (fastforce simp: a not_less [symmetric])
    with True show ?thesis by (simp add: g least_above_def)
  next
    case False
    define c where "c = chunkAt (chunks v) a"
    have rd: "rd (chunks v) a = Some c" unfolding c_def
      using False P(7) n1' by (intro rd_chunkAt) (auto simp: a)
    show ?thesis
    proof (cases "c = -1")
      case True
      then have "n1 \<in> bits v" using n1'(1) bit_or_minus_1 [of 0 n1] by (simp add: mem_bits c_def a)
      with True False rd show ?thesis by (simp add: g least_above_def)
    next
      case nones: False
      define t where "t = c AND getBitMaskRange n1 63"
      have "n1 mod 64 \<le> 63 mod 64" using pos_mod_bound [of 64 n1] by simp
      from bit_getBitMaskRange [OF this] have t: "bit t (nat (63 - x mod 64)) \<longleftrightarrow> bit c (nat (63 - x mod 64)) \<and> n1 mod 64 \<le> x mod 64" for x
        by (auto simp: t_def bit_and_iff)
      have inc: "bit t (nat (63 - n mod 64))" if "n \<in> bits v" "n div 64 = a" "n1 \<le> n" for n
        unfolding t using that le_div_mod_64 [of n1 n] by (auto simp: mem_bits c_def a)
      show ?thesis
      proof (cases "t = 0")
        case tz: True
        have gap: "a < n div 64" if "n \<in> bits v" "n1 \<le> n" for n
          using inc [OF that(1) _ that(2)] tz zdiv_mono1 [OF that(2), of 64] by (cases "n div 64 = a") (auto simp: a)
        show ?thesis
        proof (cases "a \<ge> lastChunkWithNonZero v")
          case True
          have "n < n1" if "n \<in> bits v" for n using bb(2) [OF that] gap [OF that] True by force
          with True False rd nones tz show ?thesis
            by (simp add: g least_above_def flip: t_def)
        next
          case lt: False
          have l: "chunkAt (chunks v) (lastChunkWithNonZero v) \<noteq> 0" "0 \<le> a" using lt P(3) n1'(1) by (auto simp: a)
          obtain k where k: "skipEmpty (chunks v) a = Some k" "a < k" "k \<le> lastChunkWithNonZero v"
            "chunkAt (chunks v) k \<noteq> 0" "\<forall>j. a < j \<and> j < k \<longrightarrow> chunkAt (chunks v) j = 0"
            using skipEmpty_correct [of a "lastChunkWithNonZero v" "chunks v"] lt l by auto
          obtain q where q: "q < 64" "bit (chunkAt (chunks v) k) q" "\<forall>r > q. \<not> bit (chunkAt (chunks v) k) r"
            using highest_bit [OF k(4)] by auto
          have sk: "signed_take_bit 31 (push_bit 6 k) = k * 64"
            using small k(3) P(7) l(2) k(2) by (simp add: push_bit_eq_mult signed_take_bit_int_eq_self)
          have g0: "getBitMask 0 = push_bit 63 1" by (simp add: getBitMask_def)
          have rk: "rd (chunks v) k = Some (chunkAt (chunks v) k)" using k(2,3) l(2) P(7) by (intro rd_chunkAt) auto
          have "getNextBit v cur = Some (k * 64 + (63 - int q))"
            using False lt rd nones tz rk k(1) sequentialCheck_correct [OF q(2), of 63 "k * 64"] q(1,3)
            by (simp add: g sk g0 of_nat_diff flip: t_def)
          moreover have "least_above v n1 (k * 64 + (63 - int q))"
          proof (rule least_in_chunk [OF _ _ q(2,3)])
            show "k \<le> n div 64" if "n \<in> bits v" "n1 \<le> n" for n
            proof (rule ccontr)
              assume "\<not> k \<le> n div 64"
              with k(5) gap [OF that] have "chunkAt (chunks v) (n div 64) = 0" by simp
              with that(1) show False by (simp add: mem_bits)
            qed
            show "n1 \<le> k * 64 + (63 - int q)"
              using le_div_mod_64 [of n1 "k * 64 + (63 - int q)"] q(1) k(2) by (simp add: a)
          qed (auto simp: mem_bits)
          ultimately show ?thesis by blast
        qed
      next
        case False': False
        obtain q where q: "q < 64" "bit t q" "\<forall>r > q. \<not> bit t r" using highest_bit [OF False'] by auto
        have qm: "int q \<le> 63 - n1 mod 64"
          using t [of "63 - int q"] q(1,2) by simp
        have gm: "getBitMask n1 = push_bit (nat (63 - n1 mod 64)) 1" by (simp add: getBitMask_def and_63)
        have n1e: "n1 + (63 - n1 mod 64 - int q) = a * 64 + (63 - int q)" unfolding a minus_mod_eq_div_mult [symmetric] by simp
        have "int (nat (63 - n1 mod 64) - q) = 63 - n1 mod 64 - int q" using qm by (simp add: nat_diff_distrib of_nat_diff)
        then have "getNextBit v cur = Some (a * 64 + (63 - int q))"
          using False False' rd nones sequentialCheck_correct [OF q(2), of "nat (63 - n1 mod 64)" n1] q(1,3) qm
          by (simp add: g gm n1e nat_le_iff le_nat_iff flip: t_def)
        moreover have "least_above v n1 (a * 64 + (63 - int q))"
        proof (rule least_in_chunk [OF _ inc q(2,3)])
          show "bit (chunkAt (chunks v) a) j" if "bit t j" for j using that by (simp add: t_def bit_and_iff c_def)
          show "n1 \<le> a * 64 + (63 - int q)" using qm n1e by linarith
          show "a \<le> n div 64" if "n1 \<le> n" for n using zdiv_mono1 [OF that, of 64] by (simp add: a)
        qed
        ultimately show ?thesis by blast
      qed
    qed
  qed
  then show ?thesis by (simp add: n1)
qed

lemma bits_upper:
  assumes "bv_ok v" "n \<in> bits v"
  shows "n div 64 < numChunks v" "n < 64 * numChunks v" "0 \<le> n"
proof -
  show c: "n div 64 < numChunks v"
    using bits_in_bounds(2) [OF assms] preciseD(7) [OF bv_okD(1) [OF assms(1)]] bv_okD(2) [OF assms(1)] by simp
  show "n < 64 * numChunks v" using c div_mult_mod_eq [of n 64] pos_mod_bound [of 64 n] by linarith
  show "0 \<le> n" using assms(2) by (simp add: mem_bits)
qed

lemma hasMoreElements_iff:
  assumes ok: "bv_ok v" and small: "length (chunks v) < 2 ^ 25" and m: "least_above v low m"
  shows "hasMoreElements v m \<longleftrightarrow> m \<in> bits v" "0 \<le> m" "m < 2 ^ 31"
proof -
  have nc: "0 \<le> numChunks v" "numChunks v < 2 ^ 25" using bv_okD(2) [OF ok] small by simp_all
  consider "m \<in> bits v" | "m = 64 * numChunks v" "m \<notin> bits v"
    using m bits_upper(2) [OF ok] by (auto simp: least_above_def)
  then have "(hasMoreElements v m \<longleftrightarrow> m \<in> bits v) \<and> 0 \<le> m \<and> m < 2 ^ 31"
  proof cases
    case 1
    note u = bits_upper [OF ok 1]
    have "m < 2 ^ 31" using u(2) nc(2) by simp
    with u 1 show ?thesis by (simp add: hasMoreElements_def)
  next
    case 2
    with nc show ?thesis by (simp add: hasMoreElements_def)
  qed
  then show "hasMoreElements v m \<longleftrightarrow> m \<in> bits v" "0 \<le> m" "m < 2 ^ 31" by auto
qed

lemma iterate_correct:
  assumes ok: "bv_ok v" and small: "length (chunks v) < 2 ^ 25" and m: "least_above v low m"
  shows "iterate v m = Some (sorted_list_of_set {n \<in> bits v. low \<le> n})"
  using m
proof (induction "card {n \<in> bits v. low \<le> n}" arbitrary: low m rule: less_induct)
  case less
  note h = hasMoreElements_iff [OF ok small less.prems]
  let ?S = "\<lambda>l. {n \<in> bits v. l \<le> n}"
  show ?case
  proof (cases "m \<in> bits v")
    case False
    then have S: "?S low = {}" using less.prems by (auto simp: least_above_def)
    show ?thesis unfolding S using False h(1) by (subst iterate.simps) simp
  next
    case True
    then have lm: "low \<le> m" "\<And>n. n \<in> bits v \<Longrightarrow> low \<le> n \<Longrightarrow> m \<le> n"
      using less.prems bits_upper(2) [OF ok] by (auto simp: least_above_def)
    have S: "?S low = insert m (?S (m + 1))"
    proof (rule set_eqI, rule iffI)
      fix n assume "n \<in> ?S low"
      with lm(2) [of n] show "n \<in> insert m (?S (m + 1))" by auto
    qed (use True lm(1) in auto)
    have fin: "finite (?S l)" for l using finite_bits [of v] by simp
    have mx: "m < 2 ^ 31 - 1" using bits_upper(2) [OF ok True] bv_okD(2) [OF ok] small by simp
    obtain m' where m': "getNextBit v m = Some m'" "least_above v (m + 1) m'"
      using getNextBit_correct [OF ok small, of m] h(2) mx by auto
    have "card (?S (m + 1)) < card (?S low)" unfolding S using fin by simp
    from less.hyps [OF this m'(2)] have "iterate v m = Some (m # sorted_list_of_set (?S (m + 1)))"
      using h(1) True m'(1) by (subst iterate.simps) (simp add: getNextElement_def)
    moreover have "sorted_list_of_set (?S low) = m # sorted_list_of_set (?S (m + 1))"
      unfolding S using fin [of "m + 1"] by (subst sorted_list_of_set_insert) (auto simp: insort_is_Cons)
    ultimately show ?thesis by simp
  qed
qed

lemma elements_correct:
  assumes "bv_ok v" "length (chunks v) < 2 ^ 25" "0 \<le> startBit" "startBit < 2 ^ 31"
  shows "elements v startBit = Some (sorted_list_of_set {n \<in> bits v. startBit \<le> n})"
proof -
  obtain m where "resetIterator v startBit = Some m" "least_above v startBit m"
    using getNextBit_correct [of v "startBit - 1"] assms by (auto simp: resetIterator_def)
  with iterate_correct [OF assms(1,2)] show ?thesis by (simp add: elements_def)
qed

lemma highestBitLoop_correct:
  assumes "sorted_wrt (>) is" "\<forall>i \<in> set is. 0 \<le> i \<and> i < 64" "\<exists>i \<in> set is. bit c (nat (63 - i))"
  shows "\<exists>i \<in> set is. highestBitLoop c is base = i + base \<and> bit c (nat (63 - i))
    \<and> (\<forall>j \<in> set is. bit c (nat (63 - j)) \<longrightarrow> j \<le> i)"
  using assms
proof (induction "is")
  case (Cons a "is")
  have a: "a mod 64 = a" "c AND getBitMask a \<noteq> 0 \<longleftrightarrow> bit c (nat (63 - a mod 64))"
    using Cons.prems(2) by (simp_all add: mask_test)
  show ?case
  proof (cases "bit c (nat (63 - a))")
    case True
    with a Cons.prems(1) show ?thesis by (auto simp: less_imp_le getIndexInChunk_eq)
  next
    case False
    with a Cons show ?thesis by auto
  qed
qed simp

lemma getHighestBitPosition_correct:
  assumes ok: "bv_ok v"
  shows "getHighestBitPosition v = Some (if bits v = {} then 0 else Max (bits v))"
proof (cases "lastChunkWithNonZero v < 0")
  case True
  then have "bits v = {}" using bits_empty_iff [OF ok] by (simp add: isEmpty_def)
  with True show ?thesis by (simp add: getHighestBitPosition_def)
next
  case False
  note P = preciseD [OF bv_okD(1) [OF ok]]
  define l c where "l = lastChunkWithNonZero v" and "c = chunkAt (chunks v) l"
  have l: "0 \<le> l" "rd (chunks v) l = Some c" "c \<noteq> 0"
    using False P(3,7) by (auto simp: l_def c_def intro: rd_chunkAt)
  obtain q where "bit c q" "q < 64" using highest_bit [OF l(3)] by auto
  then have "\<exists>i \<in> set (rev [0..63]). bit c (nat (63 - i))" by (intro bexI [of _ "63 - int q"]) auto
  moreover have "sorted_wrt (>) (rev [0..63])" by (simp add: sorted_wrt_rev)
  ultimately obtain i where i: "0 \<le> i" "i < 64" "bit c (nat (63 - i))"
    "highestBitLoop c (rev [0..63]) (getBitIndex l) = i + getBitIndex l"
    "\<And>j. 0 \<le> j \<Longrightarrow> j < 64 \<Longrightarrow> bit c (nat (63 - j)) \<Longrightarrow> j \<le> i"
    using highestBitLoop_correct [of "rev [0..63]" c "getBitIndex l"] by auto
  have mem: "i + l * 64 \<in> bits v" using i(1-3) l(1) by (simp add: mem_bits c_def)
  have "n \<le> i + l * 64" if n: "n \<in> bits v" for n
  proof (cases "n div 64 = l")
    case True
    then have "n mod 64 \<le> i" using i(5) [of "n mod 64"] n by (simp add: mem_bits c_def)
    with True show ?thesis using div_mult_mod_eq [of n 64] by linarith
  next
    case False
    with bits_in_bounds(2) [OF ok n] have "n div 64 + 1 \<le> l" by (simp add: l_def)
    then show ?thesis using div_mult_mod_eq [of n 64] pos_mod_bound [of 64 n] i(1) by linarith
  qed
  with mem have "Max (bits v) = i + l * 64" by (intro Max_eqI) (auto simp: finite_bits)
  moreover have "getHighestBitPosition v = Some (i + l * 64)"
    using False l i(4) by (simp add: getHighestBitPosition_def getBitIndex_eq flip: l_def)
  ultimately show ?thesis using mem by auto
qed

lemma hasMoreThanOneElement_correct:
  assumes ok: "bv_ok v"
  shows "hasMoreThanOneElement v = Some (card (bits v) > 1)"
proof -
  note P = preciseD [OF bv_okD(1) [OF ok]]
  define f l where fl: "f = firstChunkWithNonZero v" "l = lastChunkWithNonZero v"
  consider "f < l" | "l < 0" "l \<le> f" | "0 \<le> l" "f = l" using P(3,4,5) fl by force
  then show ?thesis
  proof cases
    case 1
    have "chunkAt (chunks v) f \<noteq> 0" "chunkAt (chunks v) l \<noteq> 0" using 1 P(3,5) by (auto simp: fl)
    then obtain i j where "bit (chunkAt (chunks v) f) i" "bit (chunkAt (chunks v) l) j"
      by (auto simp: word_neq_0_iff_bit)
    note x = chunk_bit_in_bits [OF this(1)] and y = chunk_bit_in_bits [OF this(2)]
    have "f * 64 + (63 - int i) \<noteq> l * 64 + (63 - int j)" using x(2) y(2) 1 by auto
    with x(1) y(1) have "\<not> card (bits v) \<le> 1" using card_le_Suc0_iff_eq [OF finite_bits [of v]] by (metis One_nat_def)
    with 1 show ?thesis by (simp add: hasMoreThanOneElement_def fl)
  next
    case 2
    then have "bits v = {}" using bits_empty_iff [OF ok] by (simp add: fl isEmpty_def)
    with 2 show ?thesis by (simp add: hasMoreThanOneElement_def fl)
  next
    case 3
    have "{n \<in> bits v. n div 64 = f} = bits v"
      using bits_in_bounds [OF ok] 3 by (force simp: fl)
    then have "card (bits v) = chunkBits (chunkAt (chunks v) f)" using card_chunk [of v f] by simp
    moreover have "rd (chunks v) f = Some (chunkAt (chunks v) f)" using 3 P(7) by (intro rd_chunkAt) (auto simp: fl)
    ultimately show ?thesis using 3 by (simp add: hasMoreThanOneElement_def fl)
  qed
qed

lemma pack_correct:
  assumes ok: "bv_ok v"
  shows "\<exists>v'. pack v = Some v' \<and> bv_ok v' \<and> bits v' = bits v \<and> numChunks v' = lastChunkWithNonZero v + 1"
proof -
  note p = bv_okD [OF ok] and P = preciseD [OF bv_okD(1) [OF ok]]
  have l: "0 \<le> lastChunkWithNonZero v + 1" "lastChunkWithNonZero v + 1 < 2 ^ 31" using P(4,7) p(3) by auto
  obtain v' where v': "setChunkSize (lastChunkWithNonZero v + 1) v = Some v'" "bv_ok v'"
    "numChunks v' = lastChunkWithNonZero v + 1"
    "\<And>k. chunkAt (chunks v') k = (if k < lastChunkWithNonZero v + 1 then chunkAt (chunks v) k else 0)"
    using setChunkSize_correct [OF ok l] by blast
  have "bits v' = bits v"
    using v'(4) P(1) by (intro bits_cong) (metis zless_add1_eq not_less_iff_gr_or_eq zle_add1_eq_le)
  with v' show ?thesis by (simp add: pack_def numUsedChunks_def)
qed

end
