(* ===== verification/BitContainer.thy ===== *)
theory BitContainer
  imports BitVectorScan
begin

text \<open>
  The other containers of \<open>compiler/infra/BitVector.hpp\<close>: \<open>TR_BitContainer\<close> (a bit vector or a single
  index), its iterator, \<open>TR_SingleBitContainer\<close> and \<open>TR_BitMatrix\<close>. Both \<open>TR_BitVector\<close> and
  \<open>TR_SingleBitContainer\<close> instantiate the data-flow templates, so both interpret \<open>dfset_container\<close>.
\<close>

section \<open>TR\_BitContainer\<close>

datatype bit_container = singleton int | bitvector "bitvector option"

definition getBitVector :: "bit_container \<Rightarrow> bitvector option" where
  "getBitVector b = (case b of bitvector v \<Rightarrow> v | singleton _ \<Rightarrow> None)"

fun containerGet :: "int \<Rightarrow> bit_container \<Rightarrow> int option" where
  "containerGet n (bitvector (Some v)) = do { r \<leftarrow> getBit n v; Some (of_bool r) }"
| "containerGet n (bitvector None) = Some 0"
| "containerGet n (singleton s) = Some (if s = n then s else 0)"

fun containerEq :: "bitvector \<Rightarrow> bit_container \<Rightarrow> bool option" where
  "containerEq v2 (bitvector (Some v)) = equalTo v2 v"
| "containerEq v2 (bitvector None) = Some False"
| "containerEq v2 (singleton s) = do {
     r \<leftarrow> getBit s v2;
     if r then do { m \<leftarrow> hasMoreThanOneElement v2; Some (\<not> m) } else Some False }"

fun containerHasMoreThanOne :: "bit_container \<Rightarrow> bool option" where
  "containerHasMoreThanOne (bitvector (Some v)) = hasMoreThanOneElement v"
| "containerHasMoreThanOne (bitvector None) = Some False"
| "containerHasMoreThanOne (singleton s) = Some False"

fun containerIntersectsBV :: "bitvector \<Rightarrow> bit_container \<Rightarrow> bool option" where
  "containerIntersectsBV v2 (bitvector (Some v)) = intersects v2 v"
| "containerIntersectsBV v2 (bitvector None) = Some False"
| "containerIntersectsBV v2 (singleton s) = getBit s v2"

fun containerIntersects :: "bit_container \<Rightarrow> bit_container \<Rightarrow> bool option" where
  "containerIntersects (bitvector (Some v2)) b = containerIntersectsBV v2 b"
| "containerIntersects (bitvector None) b = Some False"
| "containerIntersects (singleton s2) (bitvector (Some v)) = do {
     r \<leftarrow> containerGet s2 (bitvector (Some v)); Some (r \<noteq> 0) }"
| "containerIntersects (singleton s2) (bitvector None) = Some False"
| "containerIntersects (singleton s2) (singleton s) = Some (s2 = s)"

fun containerIsEmpty :: "bit_container \<Rightarrow> bool" where
  "containerIsEmpty (bitvector (Some v)) = isEmpty v"
| "containerIsEmpty (bitvector None) = True"
| "containerIsEmpty (singleton s) = False"

section \<open>TR\_BitContainerIterator\<close>

datatype container_iterator =
    BitvectorIterator "bitvector option" int
  | SingletonIterator int int

text \<open>With no vector the cursor is never read; the model keeps \<open>-1\<close> there.\<close>

fun setBitContainer :: "bit_container \<Rightarrow> container_iterator option" where
  "setBitContainer (bitvector (Some v)) = do { cur \<leftarrow> resetIterator v 0; Some (BitvectorIterator (Some v) cur) }"
| "setBitContainer (bitvector None) = Some (BitvectorIterator None (-1))"
| "setBitContainer (singleton s) = Some (SingletonIterator s (-1))"

fun containerHasMoreElements :: "container_iterator \<Rightarrow> bool" where
  "containerHasMoreElements (BitvectorIterator (Some v) cur) = hasMoreElements v cur"
| "containerHasMoreElements (BitvectorIterator None cur) = False"
| "containerHasMoreElements (SingletonIterator s cur) = (cur = -1)"

fun containerNextElement :: "container_iterator \<Rightarrow> (int \<times> container_iterator) option" where
  "containerNextElement (BitvectorIterator (Some v) cur) = do {
     (x, cur') \<leftarrow> getNextElement v cur; Some (x, BitvectorIterator (Some v) cur') }"
| "containerNextElement (BitvectorIterator None cur) = Some (-1, BitvectorIterator None cur)"
| "containerNextElement (SingletonIterator s cur) = Some (s, SingletonIterator s s)"

partial_function (option) containerIterate :: "container_iterator \<Rightarrow> int list option" where
  "containerIterate it =
     (if containerHasMoreElements it then do {
        (x, it') \<leftarrow> containerNextElement it;
        xs \<leftarrow> containerIterate it';
        Some (x # xs)
      } else Some [])"

definition containerElements :: "bit_container \<Rightarrow> int list option" where
  "containerElements b = do { it \<leftarrow> setBitContainer b; containerIterate it }"

section \<open>TR\_SingleBitContainer\<close>

record single_bit = sb_value :: bool

definition sbOr :: "single_bit \<Rightarrow> single_bit \<Rightarrow> single_bit" where
  "sbOr other s = s\<lparr>sb_value := sb_value s \<or> sb_value other\<rparr>"

definition sbAnd :: "single_bit \<Rightarrow> single_bit \<Rightarrow> single_bit" where
  "sbAnd other s = s\<lparr>sb_value := sb_value s \<and> sb_value other\<rparr>"

definition sbMinus :: "single_bit \<Rightarrow> single_bit \<Rightarrow> single_bit" where
  "sbMinus other s = (if sb_value other then s\<lparr>sb_value := False\<rparr> else s)"

definition sbAssign :: "single_bit \<Rightarrow> single_bit \<Rightarrow> single_bit" where
  "sbAssign other s = s\<lparr>sb_value := sb_value other\<rparr>"

definition sbEqual :: "single_bit \<Rightarrow> single_bit \<Rightarrow> bool" where
  "sbEqual other s \<longleftrightarrow> sb_value s = sb_value other"

definition sbEmpty :: "single_bit \<Rightarrow> single_bit" where
  "sbEmpty s = s\<lparr>sb_value := False\<rparr>"

definition sbSetAll :: "int \<Rightarrow> single_bit \<Rightarrow> single_bit" where
  "sbSetAll n s = (if n > 0 then s\<lparr>sb_value := True\<rparr> else s)"

definition sbSetAllRange :: "int \<Rightarrow> int \<Rightarrow> single_bit \<Rightarrow> single_bit" where
  "sbSetAllRange m n s = (if m = 0 \<and> n = 1 then s\<lparr>sb_value := True\<rparr> else s)"

definition sbResetAll :: "int \<Rightarrow> single_bit \<Rightarrow> single_bit" where
  "sbResetAll n s = (if n > 0 then s\<lparr>sb_value := False\<rparr> else s)"

definition sbIntersects :: "single_bit \<Rightarrow> single_bit \<Rightarrow> bool" where
  "sbIntersects other s \<longleftrightarrow> sb_value s \<and> sb_value other"

definition sbElementCount :: "single_bit \<Rightarrow> nat" where
  "sbElementCount s = 1"

section \<open>TR\_BitMatrix\<close>

record bit_matrix =
  rows :: int
  bitsPerRow :: int
  vector :: bitvector

definition newBitMatrix :: "int \<Rightarrow> int \<Rightarrow> bit_matrix" where
  "newBitMatrix r b =
     \<lparr>rows = r, bitsPerRow = b, vector = newBitVector (signed_take_bit 31 (r * b)) False\<rparr>"

definition matrixGet :: "int \<Rightarrow> int \<Rightarrow> bit_matrix \<Rightarrow> bool option" where
  "matrixGet row bitIndex m = getBit (signed_take_bit 31 (bitIndex + row * bitsPerRow m)) (vector m)"

definition matrixSet :: "int \<Rightarrow> int \<Rightarrow> bit_matrix \<Rightarrow> bit_matrix option" where
  "matrixSet row bitIndex m = do {
     v \<leftarrow> setBit (signed_take_bit 31 (bitIndex + row * bitsPerRow m)) (vector m);
     Some (m\<lparr>vector := v\<rparr>) }"

definition matrixReset :: "int \<Rightarrow> int \<Rightarrow> bit_matrix \<Rightarrow> bit_matrix option" where
  "matrixReset row bitIndex m = do {
     v \<leftarrow> resetBit (signed_take_bit 31 (bitIndex + row * bitsPerRow m)) True (vector m);
     Some (m\<lparr>vector := v\<rparr>) }"

section \<open>The two containers of the data-flow engine\<close>

definition bv_ops :: "bitvector container_ops" where
  "bv_ops = \<lparr>c_or = orWith, c_and = andWith, c_minus = minusWith, c_assign = assign, c_equal = equalTo,
     c_empty = emptyAll, c_setAll = setAllFirst\<rparr>"

definition sb_ops :: "single_bit container_ops" where
  "sb_ops = \<lparr>c_or = (\<lambda>t s. Some (sbOr t s)), c_and = (\<lambda>t s. Some (sbAnd t s)), c_minus = (\<lambda>t s. Some (sbMinus t s)),
     c_assign = (\<lambda>t s. Some (sbAssign t s)), c_equal = (\<lambda>t s. Some (sbEqual t s)),
     c_empty = (\<lambda>s. Some (sbEmpty s)), c_setAll = (\<lambda>n s. Some (sbSetAll n s))\<rparr>"

definition sb_elems :: "single_bit \<Rightarrow> int set" where
  "sb_elems s = (if sb_value s then {0} else {})"

text \<open>Histories of one vector: the single-vector operations a client can issue, run one after another.\<close>

datatype bv_op = Set int | Reset int | Clear int | SetAll int | SetRange int int | Empty
  | Or bitvector | And bitvector | Minus bitvector | Assign bitvector | Pack

fun exec :: "bv_op \<Rightarrow> bitvector \<Rightarrow> bitvector option" where
  "exec (Set n) v = setBit n v"
| "exec (Reset n) v = resetBit n True v"
| "exec (Clear n) v = map_option snd (clearBit n v)"
| "exec (SetAll n) v = setAllFirst n v"
| "exec (SetRange m n) v = setAllRange m n v"
| "exec Empty v = emptyAll v"
| "exec (Or w) v = orWith w v"
| "exec (And w) v = andWith w v"
| "exec (Minus w) v = minusWith w v"
| "exec (Assign w) v = assign w v"
| "exec Pack v = pack v"

text \<open>The specification: the same operations on sets of integers.\<close>

fun abs_exec :: "bv_op \<Rightarrow> int set \<Rightarrow> int set" where
  "abs_exec (Set n) S = insert n S"
| "abs_exec (Reset n) S = S - {n}"
| "abs_exec (Clear n) S = S - {n}"
| "abs_exec (SetAll n) S = S \<union> {0..<n}"
| "abs_exec (SetRange m n) S = S \<union> {m..n}"
| "abs_exec Empty S = {}"
| "abs_exec (Or w) S = S \<union> bits w"
| "abs_exec (And w) S = S \<inter> bits w"
| "abs_exec (Minus w) S = S - bits w"
| "abs_exec (Assign w) S = bits w"
| "abs_exec Pack S = S"

fun op_ok :: "bv_op \<Rightarrow> bool" where
  "op_ok (Set n) \<longleftrightarrow> 0 \<le> n \<and> n < 2 ^ 37 - 64"
| "op_ok (Reset n) \<longleftrightarrow> 0 \<le> n \<and> n < 2 ^ 37"
| "op_ok (Clear n) \<longleftrightarrow> 0 \<le> n \<and> n < 2 ^ 37"
| "op_ok (SetAll n) \<longleftrightarrow> n < 2 ^ 31"
| "op_ok (SetRange m n) \<longleftrightarrow> 0 \<le> m \<and> m \<le> n \<and> n < 2 ^ 37 - 64"
| "op_ok Empty \<longleftrightarrow> True"
| "op_ok (Or w) \<longleftrightarrow> bv_ok w"
| "op_ok (And w) \<longleftrightarrow> bv_ok w"
| "op_ok (Minus w) \<longleftrightarrow> bv_ok w"
| "op_ok (Assign w) \<longleftrightarrow> bv_ok w"
| "op_ok Pack \<longleftrightarrow> True"

section \<open>The interfaces hold\<close>

interpretation bv: dfset_container bv_ops bits bv_ok "\<lambda>n. n < 2 ^ 31"
proof unfold_locales
  fix s t :: bitvector assume st: "bv_ok s" "bv_ok t"
  show "\<exists>s'. c_or bv_ops t s = Some s' \<and> bv_ok s' \<and> bits s' = bits s \<union> bits t"
    using orWith_correct [OF st(2,1)] by (simp add: bv_ops_def)
  show "\<exists>s'. c_and bv_ops t s = Some s' \<and> bv_ok s' \<and> bits s' = bits s \<inter> bits t"
    using andWith_correct [OF st(2,1)] by (simp add: bv_ops_def)
  show "\<exists>s'. c_minus bv_ops t s = Some s' \<and> bv_ok s' \<and> bits s' = bits s - bits t"
    using minusWith_correct [OF st(2,1)] by (simp add: bv_ops_def)
  show "\<exists>s'. c_assign bv_ops t s = Some s' \<and> bv_ok s' \<and> bits s' = bits t"
    using assign_correct [OF st(2,1)] by (simp add: bv_ops_def)
  show "c_equal bv_ops t s = Some (bits s = bits t)"
    using equalTo_correct [OF st(2,1)] by (simp add: bv_ops_def)
next
  fix s :: bitvector assume s: "bv_ok s"
  show "\<exists>s'. c_empty bv_ops s = Some s' \<and> bv_ok s' \<and> bits s' = {}"
    using emptyAll_correct [OF s] by (auto simp: bv_ops_def)
  show "\<exists>s'. c_setAll bv_ops n s = Some s' \<and> bv_ok s' \<and> bits s' = bits s \<union> {0..<n}" if "n < 2 ^ 31" for n
    using setAllFirst_correct [OF s that] by (simp add: bv_ops_def)
qed

interpretation sb: dfset_container sb_ops sb_elems "\<lambda>_. True" "\<lambda>n. n < 2"
  by unfold_locales
    (auto simp: sb_ops_def sb_elems_def sbOr_def sbAnd_def sbMinus_def sbAssign_def sbEqual_def sbEmpty_def sbSetAll_def)


section \<open>Bit vectors implement sets\<close>

lemma exec_correct:
  assumes "bv_ok v" "op_ok c"
  shows "\<exists>v'. exec c v = Some v' \<and> bv_ok v' \<and> bits v' = abs_exec c (bits v)"
proof (cases c)
  case (Set n) with setBit_correct [of v n] assms show ?thesis by auto
next
  case (Reset n) with resetBit_correct [of v n] assms show ?thesis by auto
next
  case (Clear n) with clearBit_correct [of v n] assms show ?thesis by auto
next
  case (SetAll n) with setAllFirst_correct [of v n] assms show ?thesis by auto
next
  case (SetRange m n) with setAllRange_correct [of v m n] assms show ?thesis by auto
next
  case Empty with emptyAll_correct [of v] assms show ?thesis by auto
next
  case (Or w) with orWith_correct [of w v] assms show ?thesis by auto
next
  case (And w) with andWith_correct [of w v] assms show ?thesis by auto
next
  case (Minus w) with minusWith_correct [of w v] assms show ?thesis by auto
next
  case (Assign w) with assign_correct [of w v] assms show ?thesis by auto
next
  case Pack with pack_correct [of v] assms show ?thesis by auto
qed

lemma history_correct:
  assumes "bv_ok v" "list_all op_ok cs"
  shows "\<exists>v'. foldM exec cs v = Some v' \<and> bv_ok v' \<and> bits v' = fold abs_exec cs (bits v)"
  using assms
proof (induction cs arbitrary: v)
  case (Cons c cs)
  obtain v1 where v1: "exec c v = Some v1" "bv_ok v1" "bits v1 = abs_exec c (bits v)"
    using exec_correct [of v c] Cons.prems by auto
  show ?case using Cons.IH [OF v1(2)] Cons.prems v1 by auto
qed simp

lemma emptyBitVector_ok: "bv_ok emptyBitVector" "bits emptyBitVector = {}"
  by (auto simp: bv_ok_def precise_def emptyBitVector_def bits_def chunkAt_def)

lemma newBitVector_ok:
  assumes "0 \<le> n" "n < 2 ^ 37 - 64"
  shows "bv_ok (newBitVector n g)" "bits (newBitVector n g) = {}"
proof -
  have "-1 \<le> (n - 1) div 64" "(n - 1) div 64 < 2 ^ 31 - 1" using assms by auto
  then show "bv_ok (newBitVector n g)" "bits (newBitVector n g) = {}"
    by (auto simp: newBitVector_def getChunkIndex_def drop_bit_eq_div signed_take_bit_int_eq_self
        bv_ok_def precise_def bits_def chunkAt_def Let_def list_all_length)
qed

text \<open>A sample vector: two chunks, the elements 125 and 127.\<close>

lemma sample_ok: "bv_ok \<lparr>chunks = [0, 5], numChunks = 2, firstChunkWithNonZero = 1, lastChunkWithNonZero = 1, growable = True\<rparr>"
  by (simp add: bv_ok_def precise_def)

text \<open>
  C37: a bit vector implements a set. Any sequence of the operations \<open>set\<close>, \<open>reset\<close>, \<open>clear\<close>, \<open>setAll\<close> (both forms), \<open>empty\<close>,
  \<open>|=\<close>, \<open>&=\<close>, \<open>-=\<close>, \<open>=\<close> and \<open>pack\<close>, started from the freshly constructed vector, never reads or writes outside
  the chunk array, keeps the chunk bounds precise, and afterwards \<open>get\<close> answers membership in the set that the
  same operations build, for every index a chunk index can name. The reset of a range is not among the operations: it
  can write past the array (\<open>resetAll_range_overrun\<close>).
\<close>

theorem bitvector_refines_set:
  assumes "list_all op_ok cs" "0 \<le> n" "n < 2 ^ 37"
  shows "\<exists>v. foldM exec cs emptyBitVector = Some v \<and> bv_ok v
    \<and> getBit n v = Some (n \<in> fold abs_exec cs {})"
proof -
  obtain v where "foldM exec cs emptyBitVector = Some v" "bv_ok v" "bits v = fold abs_exec cs {}"
    using history_correct [OF emptyBitVector_ok(1) assms(1)] emptyBitVector_ok(2) by auto
  with getBit_correct [of v n] assms show ?thesis by auto
qed

theorem bitvector_refines_set_witness:
  "\<exists>v. foldM exec [Set 3, Set 130, SetRange 60 70, Reset 3, Clear 64] emptyBitVector = Some v \<and> bv_ok v
    \<and> getBit 64 v = Some False"
  using bitvector_refines_set [of "[Set 3, Set 130, SetRange 60 70, Reset 3, Clear 64]" 64] by simp

text \<open>
  The comparison \<open>==\<close>, \<open>intersects\<close>, \<open>isEmpty\<close> and the counting operations \<open>elementCount\<close>,
  \<open>commonElementCount\<close> and \<open>hasMoreThanOneElement\<close> answer about the represented sets: equality, common
  elements, emptiness and cardinalities, whatever sizes the two vectors have grown to.
\<close>

lemma bitvector_queries:
  assumes "bv_ok v" "bv_ok w"
  shows "equalTo w v = Some (bits v = bits w) \<and> intersects w v = Some (bits v \<inter> bits w \<noteq> {})
    \<and> isEmpty v = (bits v = {}) \<and> elementCount v = Some (card (bits v))
    \<and> commonElementCount w v = Some (card (bits v \<inter> bits w))
    \<and> hasMoreThanOneElement v = Some (card (bits v) > 1)"
  using equalTo_correct [OF assms(2,1)] intersects_correct [OF assms(2,1)] bits_empty_iff [OF assms(1)]
    elementCount_correct [OF assms(1)] commonElementCount_correct [OF assms] hasMoreThanOneElement_correct [OF assms(1)]
  by simp

text \<open>
  Iterating with \<open>TR_BitVectorIterator\<close> from \<open>startBit\<close> ends, and visits exactly the elements from
  \<open>startBit\<close> on, each once and in increasing order. The vector has fewer than \<open>2 ^ 25\<close> chunks, so that the
  iterator's 32-bit cursor can name its end.
\<close>

lemma iterator_enumerates:
  assumes "bv_ok v" "length (chunks v) < 2 ^ 25" "0 \<le> startBit" "startBit < 2 ^ 31"
  shows "elements v startBit = Some (sorted_list_of_set {n \<in> bits v. startBit \<le> n})"
  using assms by (rule elements_correct)

text \<open>
  \<open>getHighestBitPosition\<close> is the greatest element, and 0 for an empty vector.
\<close>

lemma highest_bit_position:
  assumes "bv_ok v"
  shows "getHighestBitPosition v = Some (if bits v = {} then 0 else Max (bits v))"
  using assms by (rule getHighestBitPosition_correct)

section \<open>Range reset\<close>

text \<open>
  \<open>resetAll(m, n)\<close> removes exactly the elements of the inclusive range when the range ends within the
  allocated chunks.
\<close>

lemma resetAll_range:
  assumes "bv_ok v" "0 \<le> m" "m \<le> n" "n < 2 ^ 37" "n div 64 < numChunks v"
  shows "\<exists>v'. resetAllRange m n v = Some v' \<and> bv_ok v' \<and> bits v' = bits v - {m..n}"
  using assms by (rule resetAllRange_correct)

text \<open>
  When the range ends past the allocated chunks and reaches a chunk in use, \<open>resetAll(m, n)\<close> writes outside
  the chunk array: it grows the array to \<open>getChunkIndex(n)\<close> chunks and then stores into chunk
  \<open>getChunkIndex(n)\<close>.
\<close>

lemma resetAll_range_overrun:
  assumes "bv_ok v" "0 \<le> m" "m \<le> n" "n < 2 ^ 37" "numChunks v \<le> n div 64" "m div 64 \<le> lastChunkWithNonZero v"
  shows "resetAllRange m n v = None"
  using assms by (rule resetAllRange_overrun)

section \<open>The data-flow steps on bit vectors\<close>

text \<open>
  C39: region summaries compose. Extending a region's gen and kill sets by those of the node an edge leaves gives
  a summary whose effect on any in set is that of the old summary followed by the node, and none of the steps
  fails, for bit vectors of any sizes and with absent (\<open>NULL\<close>) gen or kill sets.
\<close>

theorem region_summary_composes:
  assumes "bv_ok temp" "bv_ok temp2" "bv_ok g0" "bv_ok k0" "pred_option bv_ok kill" "pred_option bv_ok gen"
    and "bv_ok inS" "bv_ok i0" "bv_ok i1" "bv_ok i2"
  shows "\<exists>g k mid out summary. edgeGenKill bv_ops kill gen temp temp2 g0 k0 = Some (g, k)
    \<and> analyzeBlock bv_ops (Some temp2) (Some temp) inS i0 = Some mid
    \<and> analyzeBlock bv_ops kill gen mid i1 = Some out
    \<and> analyzeBlock bv_ops (Some k) (Some g) inS i2 = Some summary
    \<and> bits summary = bits out"
  using assms by (rule bv.edgeGenKill_composes)

theorem region_summary_composes_witness:
  "\<exists>g k mid out summary.
    edgeGenKill bv_ops None (Some \<lparr>chunks = [0, 5], numChunks = 2, firstChunkWithNonZero = 1, lastChunkWithNonZero = 1, growable = True\<rparr>)
      emptyBitVector emptyBitVector emptyBitVector emptyBitVector = Some (g, k)
    \<and> analyzeBlock bv_ops (Some emptyBitVector) (Some emptyBitVector) emptyBitVector emptyBitVector = Some mid
    \<and> analyzeBlock bv_ops None (Some \<lparr>chunks = [0, 5], numChunks = 2, firstChunkWithNonZero = 1, lastChunkWithNonZero = 1, growable = True\<rparr>) mid emptyBitVector = Some out
    \<and> analyzeBlock bv_ops (Some k) (Some g) emptyBitVector emptyBitVector = Some summary
    \<and> bits summary = bits out"
  by (rule region_summary_composes) (simp_all add: emptyBitVector_ok sample_ok)

text \<open>
  The meet of an intersection analysis. Starting from the universe of \<open>n\<close> bits that \<open>initializeInSetInfo\<close>
  installs and composing with the out set of each predecessor gives the bits common to all predecessors.
\<close>

lemma intersection_meet:
  assumes "bv_ok s" "\<forall>p \<in> set ps. bv_ok p" "n < 2 ^ 31" "bits s \<subseteq> {0..<n}" "\<forall>p \<in> set ps. bits p \<subseteq> {0..<n}"
  shows "\<exists>s0 s'. initializeInSetInfo IntersectionDFSetAnalysis bv_ops n s = Some s0
    \<and> foldM (\<lambda>p x. compose IntersectionDFSetAnalysis bv_ops x p) ps s0 = Some s' \<and> bv_ok s'
    \<and> bits s' = {x \<in> {0..<n}. \<forall>p \<in> set ps. x \<in> bits p}"
  using assms by (rule bv.meet_intersection)

section \<open>Bit containers\<close>

definition container_elems :: "bit_container \<Rightarrow> int set" where
  "container_elems b = (case b of singleton s \<Rightarrow> {s} | bitvector None \<Rightarrow> {} | bitvector (Some v) \<Rightarrow> bits v)"

fun container_ok :: "bit_container \<Rightarrow> bool" where
  "container_ok (singleton s) \<longleftrightarrow> 0 \<le> s \<and> s < 2 ^ 31"
| "container_ok (bitvector None) \<longleftrightarrow> True"
| "container_ok (bitvector (Some v)) \<longleftrightarrow> bv_ok v \<and> length (chunks v) < 2 ^ 25"

lemma containerIterate_bitvector:
  assumes ok: "bv_ok v" and small: "length (chunks v) < 2 ^ 25" and cur: "least_above v low cur"
  shows "containerIterate (BitvectorIterator (Some v) cur) = iterate v cur"
  using cur
proof (induction "card {n \<in> bits v. low \<le> n}" arbitrary: low cur rule: less_induct)
  case less
  note h = hasMoreElements_iff [OF ok small less.prems]
  show ?case
  proof (cases "cur \<in> bits v")
    case False
    with h(1) show ?thesis by (subst containerIterate.simps, subst iterate.simps) simp
  next
    case True
    have low: "low \<le> cur" using less.prems True bits_upper(2) [OF ok] by (auto simp: least_above_def)
    have "cur < 2 ^ 31 - 1" using bits_upper(2) [OF ok True] bv_okD(2) [OF ok] small by simp
    then obtain m where m: "getNextBit v cur = Some m" "least_above v (cur + 1) m"
      using getNextBit_correct [OF ok small, of cur] h(2) by auto
    have "{n \<in> bits v. cur + 1 \<le> n} \<subset> {n \<in> bits v. low \<le> n}"
      using True low by (intro psubsetI) (auto simp: set_eq_iff intro!: exI [of _ cur])
    then have "card {n \<in> bits v. cur + 1 \<le> n} < card {n \<in> bits v. low \<le> n}"
      using finite_bits [of v] by (intro psubset_card_mono) auto
    from less.hyps [OF this m(2)] m(1) h(1) True show ?thesis
      by (subst containerIterate.simps, subst iterate.simps) (simp add: getNextElement_def)
  qed
qed

text \<open>
  \<open>TR_BitContainerIterator\<close> visits the elements of the container in increasing order, in each of the three
  representations (no vector, a vector, a single index).
\<close>

lemma container_iterator_enumerates:
  assumes "container_ok b"
  shows "containerElements b = Some (sorted_list_of_set (container_elems b))"
proof (cases b rule: containerIsEmpty.cases)
  case (1 v)
  with assms have ok: "bv_ok v" "length (chunks v) < 2 ^ 25" by auto
  obtain m where m: "resetIterator v 0 = Some m" "least_above v 0 m"
    using getNextBit_correct [OF ok, of "-1"] by (auto simp: resetIterator_def)
  have "{n \<in> bits v. 0 \<le> n} = bits v" by (auto simp: mem_bits)
  with m containerIterate_bitvector [OF ok m(2)] iterate_correct [OF ok m(2)] 1 show ?thesis
    by (simp add: containerElements_def container_elems_def)
next
  case 2
  then show ?thesis
    by (simp add: containerElements_def container_elems_def containerIterate.simps)
next
  case (3 s)
  then have "containerIterate (SingletonIterator s (-1)) = Some [s]"
    using assms by (subst containerIterate.simps, simp, subst containerIterate.simps) simp
  with 3 show ?thesis by (simp add: containerElements_def container_elems_def)
qed

text \<open>
  \<open>intersects\<close> between two containers decides whether they share an element.
\<close>

lemma container_intersects:
  assumes "container_ok a" "container_ok b"
  shows "containerIntersects a b = Some (container_elems b \<inter> container_elems a \<noteq> {})"
  using assms
  by (cases a rule: containerIsEmpty.cases; cases b rule: containerIsEmpty.cases)
    (auto simp: container_elems_def intersects_correct getBit_correct)

text \<open>
  \<open>TR_BitContainer::get\<close> on a single index answers with the index itself, so it decides membership for
  every index but 0: the container of the single index 0 has an element (its iterator visits it) that \<open>get\<close>
  reports absent.
\<close>

lemma container_get_singleton:
  "(\<exists>r. containerGet n (singleton s) = Some r \<and> (r \<noteq> 0) = (n \<in> container_elems (singleton s) \<and> n \<noteq> 0))
   \<and> containerElements (singleton 0) = Some [0] \<and> containerGet 0 (singleton 0) = Some 0"
  by (simp add: container_elems_def containerElements_def containerIterate.simps)

section \<open>Bit matrices\<close>

definition matrix_ok :: "bit_matrix \<Rightarrow> bool" where
  "matrix_ok m \<longleftrightarrow> bv_ok (vector m) \<and> 0 \<le> rows m \<and> 0 \<le> bitsPerRow m \<and> rows m * bitsPerRow m < 2 ^ 31"

definition cell :: "int \<Rightarrow> int \<Rightarrow> bit_matrix \<Rightarrow> bool" where
  "cell row b m \<longleftrightarrow> 0 \<le> row \<and> row < rows m \<and> 0 \<le> b \<and> b < bitsPerRow m"

lemma cell_index:
  assumes "matrix_ok m" "cell row b m"
  shows "signed_take_bit 31 (b + row * bitsPerRow m) = b + row * bitsPerRow m"
    "0 \<le> b + row * bitsPerRow m" "b + row * bitsPerRow m < 2 ^ 31"
proof -
  have "(row + 1) * bitsPerRow m \<le> rows m * bitsPerRow m"
    using assms by (intro mult_right_mono) (auto simp: cell_def matrix_ok_def)
  then have "b + row * bitsPerRow m < 2 ^ 31" "0 \<le> b + row * bitsPerRow m"
    using assms by (auto simp: cell_def matrix_ok_def algebra_simps)
  then show "signed_take_bit 31 (b + row * bitsPerRow m) = b + row * bitsPerRow m"
    "0 \<le> b + row * bitsPerRow m" "b + row * bitsPerRow m < 2 ^ 31"
    by (simp_all add: signed_take_bit_int_eq_self)
qed

lemma cell_index_inj:
  assumes "cell row b m" "cell row' b' m" "b + row * bitsPerRow m = b' + row' * bitsPerRow m"
  shows "row = row' \<and> b = b'"
proof -
  have "(b + row * bitsPerRow m) div bitsPerRow m = row" "(b' + row' * bitsPerRow m) div bitsPerRow m = row'"
    using assms(1,2) by (auto simp: cell_def)
  with assms(3) show ?thesis by simp
qed

text \<open>
  the cells of a bit matrix are independent: setting or resetting one cell changes that cell and no other,
  and the matrix keeps its invariant.
\<close>

lemma matrix_cells_independent:
  assumes "matrix_ok m" "cell row b m" "cell row' b' m" "matrixGet row' b' m = Some old"
  shows "\<exists>m1 m2. matrixSet row b m = Some m1 \<and> matrix_ok m1 \<and> matrixReset row b m = Some m2 \<and> matrix_ok m2
    \<and> matrixGet row' b' m1 = Some (row' = row \<and> b' = b \<or> old)
    \<and> matrixGet row' b' m2 = Some (\<not> (row' = row \<and> b' = b) \<and> old)"
proof -
  let ?i = "b + row * bitsPerRow m" and ?j = "b' + row' * bitsPerRow m"
  note i = cell_index [OF assms(1,2)] and j = cell_index [OF assms(1,3)]
  have eq: "?j = ?i \<longleftrightarrow> row' = row \<and> b' = b" using cell_index_inj [OF assms(3,2)] by auto
  have ok: "bv_ok (vector m)" using assms(1) by (simp add: matrix_ok_def)
  obtain v1 where v1: "setBit ?i (vector m) = Some v1" "bv_ok v1" "bits v1 = insert ?i (bits (vector m))"
    using setBit_correct [OF ok, of ?i] i by auto
  obtain v2 where v2: "resetBit ?i True (vector m) = Some v2" "bv_ok v2" "bits v2 = bits (vector m) - {?i}"
    using resetBit_correct [OF ok, of ?i] i by auto
  have "old = (?j \<in> bits (vector m))" using assms(4) getBit_correct [OF ok, of ?j] j by (simp add: matrixGet_def)
  then show ?thesis
    using assms(1) v1 v2 i j eq getBit_correct [OF v1(2), of ?j] getBit_correct [OF v2(2), of ?j]
    by (auto simp: matrixSet_def matrixReset_def matrixGet_def matrix_ok_def)
qed

end
