(* ===== verification/KeyedTable.thy ===== *)
theory KeyedTable
  imports NJ_Prelude
begin

text \<open>
  The contract shared by the keyed tables of the compiler's infrastructure (the AVL trees and the hash tables):
  a lookup, and an addition that leaves an existing entry alone. \<open>room t n\<close> says that \<open>n\<close> more additions fit.
\<close>

locale keyed_table =
  fixes lookup :: "'t \<Rightarrow> 'k \<Rightarrow> 'v option" and add :: "'k \<Rightarrow> 'v \<Rightarrow> 't \<Rightarrow> 't option"
    and invar :: "'t \<Rightarrow> bool" and room :: "'t \<Rightarrow> nat \<Rightarrow> bool"
  assumes add_law: "invar t \<Longrightarrow> room t (Suc n) \<Longrightarrow>
    \<exists>t'. add k v t = Some t' \<and> invar t' \<and> room t' n
      \<and> lookup t' = (if lookup t k = None then (lookup t)(k \<mapsto> v) else lookup t)"
begin

lemma add_all:
  assumes "invar t" "room t (length kvs)"
  shows "\<exists>t'. foldM (\<lambda>(k, v). add k v) kvs t = Some t' \<and> invar t' \<and> lookup t' = map_of kvs ++ lookup t"
  using assms
proof (induction kvs arbitrary: t)
  case (Cons p kvs)
  obtain k v where p: "p = (k, v)" by (cases p)
  obtain t1 where t1: "add k v t = Some t1" "invar t1" "room t1 (length kvs)"
    "lookup t1 = (if lookup t k = None then (lookup t)(k \<mapsto> v) else lookup t)"
    using add_law [of t "length kvs" k v] Cons.prems by auto
  obtain t2 where t2: "foldM (\<lambda>(k, v). add k v) kvs t1 = Some t2" "invar t2" "lookup t2 = map_of kvs ++ lookup t1"
    using Cons.IH [OF t1(2,3)] by blast
  have "map_of kvs ++ lookup t1 = map_of (p # kvs) ++ lookup t"
    unfolding t1(4) p by (rule ext) (auto simp: map_add_def split: option.splits)
  then show ?case using p t1(1) t2 by (intro exI [of _ t2]) (simp del: map_of.simps)
qed simp

end

end
