(* ===== verification/AVLTree.thy ===== *)
theory AVLTree
  imports KeyedTable
begin

text \<open>
  The AVL trees of \<open>compiler/infra/AVLTree.hpp\<close>. A tree is modelled by the shape its pointers form, a node
  carrying its key, its payload (the fields of the template argument \<open>T\<close>) and its balance; the parent pointers
  are determined by the shape. Dereferencing a null child is \<open>None\<close>. One detail of the sources decides the
  behaviour: \<open>balance()\<close> is declared to return \<open>bool\<close>, so every read of the balance yields 0 or 1 and a
  left-heavy node reads as a right-heavy one. The theorems show what the code does nevertheless guarantee
  (search order, the map it represents) and what is lost (the balance, and with it a null dereference in
  \<open>remove\<close>).
\<close>

section \<open>Nodes and queries\<close>

datatype 'a avl = Leaf | Node (left: "'a avl") (key: int) (val: 'a) (bal: int) (right: "'a avl")

text \<open>\<open>bool balance()\<close>\<close>

definition balance :: "int \<Rightarrow> int" where
  "balance b = of_bool (b \<noteq> 0)"

fun height :: "'a avl \<Rightarrow> int" where
  "height Leaf = 0"
| "height (Node l k v b r) =
     (let lh = (case l of Leaf \<Rightarrow> 1 | Node _ _ _ _ _ \<Rightarrow> height l + 1);
          rh = (case r of Leaf \<Rightarrow> 1 | Node _ _ _ _ _ \<Rightarrow> height r + 1) in
      if lh \<ge> rh then lh else rh)"

text \<open>\<open>verify\<close>, without the parent pointers; \<open>height\<close> and the stored balance are compared as integers.\<close>

fun verify :: "'a avl \<Rightarrow> bool" where
  "verify Leaf = True"
| "verify (Node l k v b r) =
     (case l of
        Leaf \<Rightarrow> (case r of Leaf \<Rightarrow> True
                | Node _ _ _ _ _ \<Rightarrow> if height r \<noteq> 1 \<or> b \<noteq> 1 then False else verify r)
      | Node _ _ _ _ _ \<Rightarrow>
          (case r of Leaf \<Rightarrow> if height l \<noteq> 1 \<or> b \<noteq> -1 then False else verify l
           | Node _ _ _ _ _ \<Rightarrow>
               if height r - height l \<noteq> b then False
               else if \<not> verify l then False
               else if \<not> verify r then False
               else True))"

fun find :: "int \<Rightarrow> 'a avl \<Rightarrow> 'a option" where
  "find k Leaf = None"
| "find k (Node l k' v b r) =
     (if k < k' then find k l else if k > k' then find k r else Some v)"

section \<open>Rebalancing\<close>

text \<open>Both return the new subtree and the value of the function: non-zero if the height changes.\<close>

fun balanceLeft :: "'a avl \<Rightarrow> ('a avl \<times> int) option" where
  "balanceLeft (Node (Node ll k1 v1 b1 lr) k v b r) =
     (if balance b1 \<le> 0 then
        let nb = - (balance b1 + 1); pb = - balance nb in
        Some (Node ll k1 v1 pb (Node lr k v nb r), balance pb)
      else
        (case lr of
           Leaf \<Rightarrow> None
         | Node p k2 v2 b2 q \<Rightarrow>
             let b1' = (if balance b2 \<le> 0 then 0 else -1);
                 b' = (if balance b2 \<ge> 0 then 0 else 1) in
             Some (Node (Node ll k1 v1 b1' p) k2 v2 0 (Node q k v b' r), 0)))"
| "balanceLeft _ = None"

fun balanceRight :: "'a avl \<Rightarrow> ('a avl \<times> int) option" where
  "balanceRight (Node l k v b (Node rl k1 v1 b1 rr)) =
     (if balance b1 \<ge> 0 then
        let nb = 1 - balance b1; pb = - balance nb in
        Some (Node (Node l k v nb rl) k1 v1 pb rr, balance pb)
      else
        (case rl of
           Leaf \<Rightarrow> None
         | Node p k2 v2 b2 q \<Rightarrow>
             let b1' = (if balance b2 \<ge> 0 then 0 else 1);
                 b' = (if balance b2 \<le> 0 then 0 else -1) in
             Some (Node (Node l k v b' p) k2 v2 0 (Node q k1 v1 b1' rr), 0)))"
| "balanceRight _ = None"

section \<open>Insertion\<close>

text \<open>
  The recursive \<open>findOrCreate\<close>: \<open>fresh\<close> is the node to be inserted if the key is absent (\<open>_nodeToBeInserted\<close>, or
  what \<open>allocate(key)\<close> returns). The result is the new subtree, the payload of the node found or created, and
  \<open>heightChanged\<close>.
\<close>

fun findOrCreateRec :: "int \<Rightarrow> 'a \<Rightarrow> 'a avl \<Rightarrow> ('a avl \<times> 'a \<times> int) option" where
  "findOrCreateRec k fresh Leaf = None"
| "findOrCreateRec k fresh (Node l k' v b r) =
     (if k < k' then do {
        (l', res, hc) \<leftarrow> (case l of
             Leaf \<Rightarrow> Some (Node Leaf k fresh 0 Leaf, fresh, 1)
           | Node _ _ _ _ _ \<Rightarrow> findOrCreateRec k fresh l);
        if hc \<noteq> 0 then
          let hc' = balance b - 1; t' = Node l' k' v hc' r in
          if hc' < -1 then do { (t'', hc'') \<leftarrow> balanceLeft t'; Some (t'', res, hc'') }
          else Some (t', res, hc')
        else Some (Node l' k' v b r, res, hc)
      }
      else if k > k' then do {
        (r', res, hc) \<leftarrow> (case r of
             Leaf \<Rightarrow> Some (Node Leaf k fresh 0 Leaf, fresh, 1)
           | Node _ _ _ _ _ \<Rightarrow> findOrCreateRec k fresh r);
        if hc \<noteq> 0 then
          let hc' = balance b + 1; t' = Node l k' v hc' r' in
          if hc' > 1 then do { (t'', hc'') \<leftarrow> balanceRight t'; Some (t'', res, hc'') }
          else Some (t', res, hc')
        else Some (Node l k' v b r', res, hc)
      }
      else Some (Node l k' v b r, v, 0))"

text \<open>\<open>findOrCreate\<close> and \<open>insert\<close> on a tree: the first node is installed as the root.\<close>

definition findOrCreate :: "int \<Rightarrow> 'a \<Rightarrow> 'a avl \<Rightarrow> ('a avl \<times> 'a) option" where
  "findOrCreate k fresh t =
     (case t of
        Leaf \<Rightarrow> Some (Node Leaf k fresh 0 Leaf, fresh)
      | Node _ _ _ _ _ \<Rightarrow> do { (t', res, hc) \<leftarrow> findOrCreateRec k fresh t; Some (t', res) })"

section \<open>Removal\<close>

text \<open>
  \<open>swapRightmost\<close> exchanges the node to be deleted with the rightmost node of its left subtree: it returns the
  left subtree with the doomed node (key, payload and the balance it takes over) at the rightmost place, and the
  key and payload that move up together with the balance they take over. The balances are read with \<open>balance()\<close>.
\<close>

fun swapRightmost :: "'a avl \<Rightarrow> int \<Rightarrow> 'a \<Rightarrow> int \<Rightarrow> ('a avl \<times> int \<times> 'a \<times> int) option" where
  "swapRightmost Leaf dk dv db = None"
| "swapRightmost (Node l k v b Leaf) dk dv db = Some (Node l dk dv (balance b) Leaf, k, v, balance db)"
| "swapRightmost (Node l k v b (Node rl rk rv rb rr)) dk dv db = do {
     (r', k', v', b') \<leftarrow> swapRightmost (Node rl rk rv rb rr) dk dv db;
     Some (Node l k v b r', k', v', b')
   }"

lemma swapRightmost_size:
  "swapRightmost t dk dv db = Some (t', k', v', b') \<Longrightarrow> size t' = size t"
  by (induction t dk dv db arbitrary: t' k' v' b' rule: swapRightmost.induct) (auto split: bind_splits)

text \<open>The recursive \<open>remove\<close>: new subtree, payload of the removed node if any, \<open>heightChanged\<close>.\<close>

definition afterLeft :: "'a avl \<Rightarrow> int \<Rightarrow> 'a \<Rightarrow> int \<Rightarrow> 'a avl \<Rightarrow> 'a option \<Rightarrow> int \<Rightarrow> ('a avl \<times> 'a option \<times> int) option" where
  "afterLeft l k v b r res hc =
     (if hc \<noteq> 0 then
        let h = balance b; t = Node l k v (h + 1) r in
        if h > 0 then do { (t', c) \<leftarrow> balanceRight t; Some (t', res, of_bool (c = 0)) }
        else Some (t, res, h)
      else Some (Node l k v b r, res, hc))"

definition afterRight :: "'a avl \<Rightarrow> int \<Rightarrow> 'a \<Rightarrow> int \<Rightarrow> 'a avl \<Rightarrow> 'a option \<Rightarrow> int \<Rightarrow> ('a avl \<times> 'a option \<times> int) option" where
  "afterRight l k v b r res hc =
     (if hc \<noteq> 0 then
        let h = balance b; t = Node l k v (h - 1) r in
        if h < 0 then do { (t', c) \<leftarrow> balanceLeft t; Some (t', res, of_bool (c = 0)) }
        else Some (t, res, h)
      else Some (Node l k v b r, res, hc))"

function removeRec :: "int \<Rightarrow> 'a avl \<Rightarrow> ('a avl \<times> 'a option \<times> int) option" where
  "removeRec k Leaf = Some (Leaf, None, 0)"
| "removeRec k (Node l k' v b r) =
     (if k = k' then
        (case r of
           Leaf \<Rightarrow> Some (l, Some v, 1)
         | Node _ _ _ _ _ \<Rightarrow>
             (case l of
                Leaf \<Rightarrow> Some (r, Some v, 1)
              | Node _ _ _ _ _ \<Rightarrow>
                  (case swapRightmost l k' v b of
                     None \<Rightarrow> None
                   | Some (l1, k1, v1, b1) \<Rightarrow>
                       (case removeRec k l1 of
                          None \<Rightarrow> None
                        | Some (l2, res, hc) \<Rightarrow> afterLeft l2 k1 v1 b1 r res hc))))
      else if k < k' then
        (case removeRec k l of None \<Rightarrow> None | Some (l', res, hc) \<Rightarrow> afterLeft l' k' v b r res hc)
      else
        (case removeRec k r of None \<Rightarrow> None | Some (r', res, hc) \<Rightarrow> afterRight l k' v b r' res hc))"
  by pat_completeness auto
termination
  by (relation "measure (size \<circ> snd)") (auto dest: swapRightmost_size)

definition remove :: "int \<Rightarrow> 'a avl \<Rightarrow> ('a avl \<times> 'a option) option" where
  "remove k t = do { (t', res, hc) \<leftarrow> removeRec k t; Some (t', res) }"

text \<open>\<open>copySubtree\<close>, for a \<open>copy\<close> that duplicates key and payload.\<close>

fun copySubtree :: "'a avl \<Rightarrow> 'a avl" where
  "copySubtree Leaf = Leaf"
| "copySubtree (Node l k v b r) = Node (copySubtree l) k v (balance b) (copySubtree r)"


section \<open>The represented map\<close>

fun inorder :: "'a avl \<Rightarrow> (int \<times> 'a) list" where
  "inorder Leaf = []"
| "inorder (Node l k v b r) = inorder l @ (k, v) # inorder r"

definition bst :: "'a avl \<Rightarrow> bool" where
  "bst t \<longleftrightarrow> sorted_wrt (<) (map fst (inorder t))"

fun ins_list :: "int \<Rightarrow> 'a \<Rightarrow> (int \<times> 'a) list \<Rightarrow> (int \<times> 'a) list" where
  "ins_list k v [] = [(k, v)]"
| "ins_list k v ((k', v') # xs) =
     (if k < k' then (k, v) # (k', v') # xs else if k = k' then (k', v') # xs else (k', v') # ins_list k v xs)"

abbreviation ascending :: "(int \<times> 'a) list \<Rightarrow> bool" where
  "ascending xs \<equiv> sorted_wrt (<) (map fst xs)"

named_theorems tree_simps

lemma ascending_append [tree_simps]:
  "ascending (xs @ (k, v) # ys) \<longleftrightarrow> ascending xs \<and> ascending ys \<and> (\<forall>p \<in> set xs. fst p < k) \<and> (\<forall>p \<in> set ys. k < fst p)"
  by (fastforce simp: sorted_wrt_append)

lemma ins_list_left [tree_simps]:
  "k < k' \<Longrightarrow> ins_list k v (xs @ (k', v') # ys) = ins_list k v xs @ (k', v') # ys"
  by (induction xs) auto

lemma ins_list_right [tree_simps]:
  "\<forall>p \<in> set xs. fst p < k' \<Longrightarrow> k' < k \<Longrightarrow> ins_list k v (xs @ (k', v') # ys) = xs @ (k', v') # ins_list k v ys"
  by (induction xs) auto

lemma ins_list_here [tree_simps]:
  "\<forall>p \<in> set xs. fst p < k \<Longrightarrow> ins_list k v (xs @ (k, v') # ys) = xs @ (k, v') # ys"
  by (induction xs) auto

lemma set_ins_list: "fst ` set (ins_list k v xs) = insert k (fst ` set xs)"
  by (induction k v xs rule: ins_list.induct) auto

lemma ascending_ins_list: "ascending xs \<Longrightarrow> ascending (ins_list k v xs)"
proof (induction k v xs rule: ins_list.induct)
  case (2 k v k' v' xs)
  have "\<forall>p \<in> set (ins_list k v xs). k' < fst p" if "k' < k"
  proof
    fix p assume "p \<in> set (ins_list k v xs)"
    then have "fst p \<in> insert k (fst ` set xs)" using set_ins_list [of k v xs] by blast
    with 2 that show "k' < fst p" by auto
  qed
  with 2 show ?case by auto
qed simp

lemma map_of_ins_list:
  "ascending xs \<Longrightarrow> map_of (ins_list k v xs) = (if map_of xs k = None then (map_of xs)(k \<mapsto> v) else map_of xs)"
proof (induction k v xs rule: ins_list.induct)
  case (2 k v k' v' xs)
  have "map_of xs k = None" if "k < k'" using 2(2) that by (fastforce simp: map_of_eq_None_iff)
  with 2 show ?case by (auto simp: fun_eq_iff)
qed simp

lemma bst_Leaf [tree_simps]: "bst Leaf"
  by (simp add: bst_def)

lemma bst_Node [tree_simps]:
  "bst (Node l k v b r) \<longleftrightarrow> bst l \<and> bst r \<and> (\<forall>p \<in> set (inorder l). fst p < k) \<and> (\<forall>p \<in> set (inorder r). k < fst p)"
  unfolding bst_def inorder.simps ascending_append by (rule refl)

lemma find_inorder: "bst t \<Longrightarrow> find k t = map_of (inorder t) k"
proof (induction t)
  case (Node l k' v b r)
  have lr: "bst l" "bst r" "\<forall>p \<in> set (inorder l). fst p < k'" "\<forall>p \<in> set (inorder r). k' < fst p"
    using Node.prems by (auto simp: bst_Node)
  have "map_of (inorder l) k = None" if "k' \<le> k" using lr(3) that by (fastforce simp: map_of_eq_None_iff)
  moreover have "map_of (inorder r) k = None" if "k \<le> k'" using lr(4) that by (fastforce simp: map_of_eq_None_iff)
  ultimately show ?case using Node.IH lr(1,2) by (auto simp: map_add_def split: option.splits)
qed simp

section \<open>What insertion guarantees\<close>

lemma balance_cases: "balance b = 0 \<or> balance b = 1"
  by (simp add: balance_def)

text \<open>A read of the balance is never negative, so the left rotation test never succeeds after an insertion.\<close>

lemma balanceRight_inorder: "balanceRight t = Some (t', c) \<Longrightarrow> inorder t' = inorder t"
  by (induction t rule: balanceRight.induct) (auto simp: Let_def split: if_splits avl.splits)

lemma balanceRight_defined: "r \<noteq> Leaf \<Longrightarrow> \<exists>t' c. balanceRight (Node l k v b r) = Some (t', c) \<and> t' \<noteq> Leaf"
  using balance_cases by (cases r) (auto simp: Let_def balance_def)

lemma findOrCreateRec_correct:
  assumes "bst t" "t \<noteq> Leaf"
  shows "\<exists>t' res hc. findOrCreateRec k fresh t = Some (t', res, hc) \<and> t' \<noteq> Leaf
    \<and> inorder t' = ins_list k fresh (inorder t) \<and> find k t \<in> {None, Some res} \<and> (find k t = None \<longrightarrow> res = fresh)"
  using assms
proof (induction t)
  case (Node l k' v b r)
  note b = Node.prems(1) [unfolded bst_Node]
  have step: "\<exists>s' res hc. (case s of Leaf \<Rightarrow> Some (Node Leaf k fresh 0 Leaf, fresh, 1)
        | Node _ _ _ _ _ \<Rightarrow> findOrCreateRec k fresh s) = Some (s', res, hc) \<and> s' \<noteq> Leaf
      \<and> inorder s' = ins_list k fresh (inorder s) \<and> find k s \<in> {None, Some res} \<and> (find k s = None \<longrightarrow> res = fresh)"
    if "s = l \<or> s = r" for s
    using Node.IH b that by (cases s) auto
  consider "k < k'" | "k' < k" | "k = k'" by linarith
  then show ?case
  proof cases
    case 1
    obtain l' res hc where l': "(case l of Leaf \<Rightarrow> Some (Node Leaf k fresh 0 Leaf, fresh, 1)
        | Node _ _ _ _ _ \<Rightarrow> findOrCreateRec k fresh l) = Some (l', res, hc)"
      "inorder l' = ins_list k fresh (inorder l)" "find k l \<in> {None, Some res}" "find k l = None \<longrightarrow> res = fresh"
      using step [OF disjI1 [OF refl]] by (elim exE conjE) (rule that)
    with 1 show ?thesis by (auto simp: balance_def tree_simps Let_def)
  next
    case 2
    obtain r' res hc where r': "(case r of Leaf \<Rightarrow> Some (Node Leaf k fresh 0 Leaf, fresh, 1)
        | Node _ _ _ _ _ \<Rightarrow> findOrCreateRec k fresh r) = Some (r', res, hc)" "r' \<noteq> Leaf"
      "inorder r' = ins_list k fresh (inorder r)" "find k r \<in> {None, Some res}" "find k r = None \<longrightarrow> res = fresh"
      using step [OF disjI2 [OF refl]] by (elim exE conjE) (rule that)
    obtain t' c where "balanceRight (Node l k' v (balance b + 1) r') = Some (t', c)" "t' \<noteq> Leaf"
      "inorder t' = inorder l @ (k', v) # inorder r'"
      using balanceRight_defined [OF r'(2)] balanceRight_inorder by fastforce
    with 2 r' b show ?thesis by (auto simp: tree_simps Let_def)
  next
    case 3
    with b show ?thesis by (simp add: tree_simps)
  qed
qed simp

lemma findOrCreate_correct:
  assumes "bst t"
  shows "\<exists>t' res. findOrCreate k fresh t = Some (t', res) \<and> bst t' \<and> res = (case find k t of None \<Rightarrow> fresh | Some v \<Rightarrow> v)
    \<and> (\<lambda>q. find q t') = (if find k t = None then (\<lambda>q. find q t)(k \<mapsto> fresh) else (\<lambda>q. find q t))"
proof (cases t)
  case Leaf
  then show ?thesis by (auto simp: findOrCreate_def tree_simps)
next
  case (Node l k' v b r)
  then obtain t' res hc where r: "findOrCreateRec k fresh t = Some (t', res, hc)"
    "inorder t' = ins_list k fresh (inorder t)" "find k t \<in> {None, Some res}" "find k t = None \<longrightarrow> res = fresh"
    using findOrCreateRec_correct [OF assms, of k fresh] by auto
  have "bst t'" using assms r(2) ascending_ins_list by (simp add: bst_def)
  with r Node find_inorder [OF this] find_inorder [OF assms] map_of_ins_list [of "inorder t" k fresh] assms
  show ?thesis unfolding bst_def by (cases "map_of (inorder t) k") (simp_all add: findOrCreate_def fun_eq_iff del: inorder.simps)
qed

section \<open>What removal guarantees\<close>

lemma swapRightmost_correct:
  "t \<noteq> Leaf \<Longrightarrow> \<exists>t' k' v' xs. swapRightmost t dk dv db = Some (t', k', v', balance db) \<and> t' \<noteq> Leaf
     \<and> inorder t = xs @ [(k', v')] \<and> inorder t' = xs @ [(dk, dv)]"
  by (induction t dk dv db rule: swapRightmost.induct) auto

lemma afterLeft_inorder: "afterLeft l k v b r res hc = Some (t', res', hc') \<Longrightarrow> inorder t' = inorder l @ (k, v) # inorder r \<and> res' = res"
  by (auto simp: afterLeft_def Let_def balanceRight_inorder split: if_splits bind_splits)

lemma afterRight_inorder: "afterRight l k v b r res hc = Some (t', res', hc') \<Longrightarrow> inorder t' = inorder l @ (k, v) # inorder r \<and> res' = res"
  by (auto simp: afterRight_def Let_def balance_def of_bool_def split: if_splits bind_splits)

lemma filter_key_less: "\<forall>p \<in> set xs. fst p < (k :: int) \<Longrightarrow> filter (\<lambda>p. fst p \<noteq> k) xs = xs"
  by (induction xs) auto

lemma filter_key_greater: "\<forall>p \<in> set xs. (k :: int) < fst p \<Longrightarrow> filter (\<lambda>p. fst p \<noteq> k) xs = xs"
  by (induction xs) auto

lemma map_of_filter_key: "map_of (filter (\<lambda>p. fst p \<noteq> k) xs) q = (if q = k then None else map_of xs q)"
  by (induction xs) auto

lemma removeRec_correct:
  "removeRec k t = Some (t', res, hc) \<Longrightarrow> bst t \<Longrightarrow>
     inorder t' = filter (\<lambda>p. fst p \<noteq> k) (inorder t) \<and> res = find k t"
proof (induction k t arbitrary: t' res hc rule: removeRec.induct)
  case (2 k l k' v b r)
  note b = 2(5) [unfolded bst_Node] and rem = 2(4)
  note f = filter_key_less filter_key_greater
  have fl: "find k (Node l k' v b r) = (if k < k' then find k l else if k' < k then find k r else Some v)" by simp
  consider "k < k'" | "k' < k" | "k = k'" "r = Leaf \<or> l = Leaf" | "k = k'" "r \<noteq> Leaf" "l \<noteq> Leaf" by force
  then show ?case
  proof cases
    case 1
    then obtain l' hc1 where "removeRec k l = Some (l', res, hc1)" "inorder t' = inorder l' @ (k', v) # inorder r"
      using rem by (auto split: option.splits dest: afterLeft_inorder)
    moreover have "filter (\<lambda>p. fst p \<noteq> k) (inorder r) = inorder r" using b 1 by (intro f(2)) fastforce
    ultimately show ?thesis using 2(2) [of l' res hc1] 1 b by auto
  next
    case r2: 2
    then obtain r' hc1 where "removeRec k r = Some (r', res, hc1)" "inorder t' = inorder l @ (k', v) # inorder r'"
      using rem by (auto split: option.splits dest: afterRight_inorder)
    moreover have "filter (\<lambda>p. fst p \<noteq> k) (inorder l) = inorder l" using b r2 by (intro f(1)) fastforce
    ultimately show ?thesis using 2(3) [of r' res hc1] r2 b by auto
  next
    case 3
    with b rem f(1) [of "inorder l" k] f(2) [of "inorder r" k] show ?thesis
      by (auto split: avl.splits)
  next
    case 4
    obtain l1 k1 v1 xs where s: "swapRightmost l k' v b = Some (l1, k1, v1, balance b)" "l1 \<noteq> Leaf"
      "inorder l = xs @ [(k1, v1)]" "inorder l1 = xs @ [(k', v)]"
      using swapRightmost_correct [OF 4(3), of k' v b] by blast
    have lt: "\<forall>p \<in> set xs. fst p < k" "ascending xs"
      using b 4(1) by (auto simp: bst_def sorted_wrt_append s(3))
    have bst1: "bst l1" using lt 4(1) by (auto simp: bst_def s(4) sorted_wrt_append)
    obtain l2 hc1 where l2: "removeRec k l1 = Some (l2, res, hc1)" "inorder t' = inorder l2 @ (k1, v1) # inorder r"
      using rem 4 s(1) by (auto split: option.splits avl.splits dest: afterLeft_inorder)
    obtain rl rk rv rb rr ll lk lv lb lr where n: "r = Node rl rk rv rb rr" "l = Node ll lk lv lb lr"
      using 4(2,3) by (cases r; cases l) auto
    have "inorder l2 = filter (\<lambda>p. fst p \<noteq> k) (inorder l1) \<and> res = find k l1"
      by (rule 2(1) [OF 4(1) n s(1) refl refl refl l2(1) bst1])
    then have "inorder l2 = xs \<and> res = find k l1" using lt(1) 4(1) s(4) f(1) by simp
    moreover have "find k l1 = Some v" using find_inorder [OF bst1, of k] lt(1) 4(1)
      by (auto simp: s(4) map_add_def map_of_eq_None_iff split: option.splits dest!: map_of_SomeD)
    ultimately show ?thesis using b 4 l2 s(3) f(1) [of xs k] f(2) [of "inorder r" k] by auto
  qed
qed simp

lemma removeRec_absent: "bst t \<Longrightarrow> find k t = None \<Longrightarrow> removeRec k t = Some (t, None, 0)"
  by (induction t) (auto simp: tree_simps afterLeft_def afterRight_def split: if_splits)

interpretation avl: keyed_table "\<lambda>t k. find k t" "\<lambda>k v t. map_option fst (findOrCreate k v t)" bst "\<lambda>_ _. True"
proof unfold_locales
  fix t :: "'a avl" and n :: nat and k :: int and v :: 'a
  assume "bst t"
  from findOrCreate_correct [OF this, of k v]
  show "\<exists>t'. map_option fst (findOrCreate k v t) = Some t' \<and> bst t' \<and> True
    \<and> (\<lambda>q. find q t') = (if find k t = None then (\<lambda>q. find q t)(k \<mapsto> v) else (\<lambda>q. find q t))"
    by auto
qed

section \<open>Properties\<close>

text \<open>
  C40: searching and inserting. On a tree in search order, \<open>findOrCreate\<close> (and \<open>insert\<close>) never dereferences a null
  child, keeps the search order, returns the node already stored under the key or else the new node, and
  afterwards \<open>find\<close> answers as before for every other key. The rotations run on misread balances and still
  preserve all of this.
\<close>

theorem avl_findOrCreate:
  assumes "bst t"
  shows "\<exists>t' res. findOrCreate k fresh t = Some (t', res) \<and> bst t'
    \<and> res = (case find k t of None \<Rightarrow> fresh | Some v \<Rightarrow> v)
    \<and> (\<forall>q. find q t' = (if q = k then Some res else find q t))"
proof -
  obtain t' res where "findOrCreate k fresh t = Some (t', res)" "bst t'"
    "res = (case find k t of None \<Rightarrow> fresh | Some v \<Rightarrow> v)"
    "(\<lambda>q. find q t') = (if find k t = None then (\<lambda>q. find q t)(k \<mapsto> fresh) else (\<lambda>q. find q t))"
    using findOrCreate_correct [OF assms] by blast
  then show ?thesis by (auto simp: fun_eq_iff split: if_splits)
qed

theorem avl_findOrCreate_witness:
  "\<exists>t' res. findOrCreate 5 True (Node Leaf 2 False 0 Leaf) = Some (t', res) \<and> bst t'
    \<and> res = (case find 5 (Node Leaf 2 False 0 Leaf) of None \<Rightarrow> True | Some v \<Rightarrow> v)
    \<and> (\<forall>q. find q t' = (if q = 5 then Some res else find q (Node Leaf 2 False 0 Leaf)))"
  by (rule avl_findOrCreate) (simp add: bst_def)

text \<open>
  Inserting a list of nodes into the empty tree builds exactly the map in which the first node of each key
  wins.
\<close>

lemma avl_insert_all:
  "\<exists>t. foldM (\<lambda>(k, v) t. map_option fst (findOrCreate k v t)) kvs Leaf = Some t \<and> bst t
    \<and> (\<forall>q. find q t = map_of kvs q)"
  using avl.add_all [of Leaf kvs] by (auto simp: tree_simps fun_eq_iff map_add_def)

text \<open>
  Removing. If \<open>remove\<close> returns, the node it returns is the one stored under the key, the tree keeps its search
  order and has exactly the other keys; and removing an absent key always returns, with the tree unchanged.
\<close>

lemma avl_remove:
  assumes "bst t"
  shows "(\<forall>t' res. remove k t = Some (t', res) \<longrightarrow>
      bst t' \<and> res = find k t \<and> (\<forall>q. find q t' = (if q = k then None else find q t)))
    \<and> (find k t = None \<longrightarrow> remove k t = Some (t, None))"
proof (intro conjI allI impI)
  fix t' res assume "remove k t = Some (t', res)"
  then obtain hc where hc: "removeRec k t = Some (t', res, hc)" by (auto simp: remove_def split: bind_splits)
  note r = removeRec_correct [OF hc assms]
  show b: "bst t'" using assms r by (simp add: bst_def sorted_wrt_map sorted_wrt_filter)
  show "res = find k t" using r by simp
  show "find q t' = (if q = k then None else find q t)" for q
    using r by (simp add: find_inorder [OF b] find_inorder [OF assms] map_of_filter_key)
qed (simp add: remove_def removeRec_absent [OF assms])

text \<open>
  A defect of \<open>remove\<close>. Because the balance of a left-heavy node reads as 1, removing the left leaf under a
  node without right child rebalances to the right and dereferences the null right child. Inserting any two
  keys in descending order and removing the smaller one is enough.
\<close>

lemma avl_remove_null_dereference:
  assumes "k < k'"
  shows "\<exists>t1 t2 r1 r2. findOrCreate k' v' Leaf = Some (t1, r1) \<and> findOrCreate k v t1 = Some (t2, r2)
    \<and> bst t2 \<and> find k t2 = Some v \<and> remove k t2 = None"
  using assms
  by (simp add: findOrCreate_def balance_def remove_def afterLeft_def bst_def Let_def)

section \<open>Descending insertions degenerate\<close>

text \<open>A left spine whose bottom node has balance -1 if it has a child; the nodes above read 0.\<close>

fun spine :: "int list \<Rightarrow> int avl \<Rightarrow> bool" where
  "spine [] t \<longleftrightarrow> t = Leaf"
| "spine (k # ks) t \<longleftrightarrow> (\<exists>l b. t = Node l k k b Leaf \<and> spine ks l
     \<and> (ks = [] \<longrightarrow> b = 0) \<and> (length ks = 1 \<longrightarrow> b \<noteq> 0))"

lemma spine_height: "spine ks t \<Longrightarrow> height t = int (length ks)"
proof (induction ks arbitrary: t)
  case (Cons k ks)
  then obtain l b where t: "t = Node l k k b Leaf" "spine ks l" by auto
  with Cons.IH [OF t(2)] show ?case by (cases ks; cases l) (auto simp: Let_def)
qed simp

lemma spine_insert:
  "spine ks t \<Longrightarrow> ks \<noteq> [] \<Longrightarrow> \<forall>k' \<in> set ks. k < k' \<Longrightarrow>
     \<exists>t' hc. findOrCreateRec k k t = Some (t', k, hc) \<and> spine (ks @ [k]) t' \<and> (2 \<le> length ks \<longrightarrow> hc = 0)"
proof (induction ks arbitrary: t)
  case (Cons k0 ks)
  obtain l b where t: "t = Node l k0 k0 b Leaf" "spine ks l" "ks = [] \<longrightarrow> b = 0" "length ks = 1 \<longrightarrow> b \<noteq> 0"
    using Cons.prems(1) by auto
  show ?case
  proof (cases ks)
    case Nil
    with t Cons.prems show ?thesis by (simp add: balance_def Let_def)
  next
    case (Cons k1 ks')
    obtain l' hc where l': "findOrCreateRec k k l = Some (l', k, hc)" "spine (ks @ [k]) l'" "2 \<le> length ks \<longrightarrow> hc = 0"
      using Cons.IH [OF t(2)] Cons.prems Cons by auto
    have "l \<noteq> Leaf" using t(2) Cons by auto
    then have c: "(case l of Leaf \<Rightarrow> Some (Node Leaf k k 0 Leaf, k, 1) | Node _ _ _ _ _ \<Rightarrow> findOrCreateRec k k l) = Some (l', k, hc)"
      using l'(1) by (cases l) auto
    have "findOrCreateRec k k t = Some (Node l' k0 k0 (if hc = 0 then b else balance b - 1) Leaf, k, if hc = 0 then 0 else balance b - 1)"
      using t(1) c Cons.prems by (auto simp: balance_def Let_def)
    moreover have "hc = 0 \<or> balance b = 1" using l'(3) t(4) Cons by (cases ks') (auto simp: balance_def)
    ultimately show ?thesis using l'(2) Cons by auto
  qed
qed simp

lemma spine_insert_all:
  "sorted_wrt (>) (js @ ks) \<Longrightarrow> spine js t \<Longrightarrow>
     \<exists>t'. foldM (\<lambda>k t. map_option fst (findOrCreate k k t)) ks t = Some t' \<and> spine (js @ ks) t'"
proof (induction ks arbitrary: js t)
  case (Cons k ks)
  have less: "\<forall>k' \<in> set js. k < k'" using Cons.prems(1) by (auto simp: sorted_wrt_append)
  have "\<exists>t1. map_option fst (findOrCreate k k t) = Some t1 \<and> spine (js @ [k]) t1"
  proof (cases "js = []")
    case True
    with Cons.prems(2) show ?thesis by (simp add: findOrCreate_def)
  next
    case False
    then have "t \<noteq> Leaf" using Cons.prems(2) by (cases js) auto
    with spine_insert [OF Cons.prems(2) False less] show ?thesis
      by (cases t) (auto simp: findOrCreate_def simp del: findOrCreateRec.simps spine.simps)
  qed
  then obtain t1 where t1: "map_option fst (findOrCreate k k t) = Some t1" "spine (js @ [k]) t1" by blast
  then obtain res where "findOrCreate k k t = Some (t1, res)" by auto
  with Cons.IH [OF _ t1(2)] Cons.prems(1) show ?case by simp
qed simp

text \<open>
  The trees do not balance. Because \<open>balance()\<close> returns \<open>bool\<close>, inserting any list of keys in descending order
  never rotates and builds a tree whose height is the number of keys.
\<close>

lemma avl_degenerates:
  assumes "sorted_wrt (>) ks"
  shows "\<exists>t. foldM (\<lambda>k t. map_option fst (findOrCreate k k t)) ks Leaf = Some t \<and> height t = int (length ks)"
  using spine_insert_all [of "[]" ks Leaf] assms spine_height by fastforce

end
