(* ===== verification/Bits.thy ===== *)
theory Bits
  imports NJ_Prelude
begin

text \<open>
  The bit-manipulation routines of \<open>compiler/infra/Bit.hpp\<close> and the portable
  \<open>leadingZeroes\<close> of \<open>compiler/codegen/OMRCodeGenerator.cpp\<close>, with the byte table of
  \<open>compiler/cs2/bitmanip.h\<close>. An overload pair for 32 and 64 bits that differs only in
  the width is one definition over \<open>'a word\<close>; signed overflow in the sources wraps, as it
  does on the targets of the compiler.
\<close>

section \<open>Counting zeroes\<close>

definition kByteLeadingZeroes :: "nat list" where
  "kByteLeadingZeroes =
     [8] @ [7] @ replicate 2 6 @ replicate 4 5 @ replicate 8 4 @ replicate 16 3 @
     replicate 32 2 @ replicate 64 1 @ replicate 128 0"

definition LeadingZeroes_byte :: "u8 \<Rightarrow> nat" where
  "LeadingZeroes_byte b = kByteLeadingZeroes ! unat b"

text \<open>The loop \<open>for (bitCount = 0; bitCount < W; bitCount += 8)\<close> with its moving byte mask.\<close>

function leadingZeroes_loop :: "nat \<Rightarrow> 'a::len word \<Rightarrow> 'a word \<Rightarrow> nat" where
  "leadingZeroes_loop bitCount byteMask inputWord =
     (if bitCount < LENGTH('a) then
        let testWord = inputWord AND byteMask in
        if testWord \<noteq> 0
        then bitCount + LeadingZeroes_byte (ucast (drop_bit (LENGTH('a) - 8 - bitCount) testWord))
        else leadingZeroes_loop (bitCount + 8) (drop_bit 8 byteMask) inputWord
      else LENGTH('a))"
  by pat_completeness auto
termination
  by (relation "measure (\<lambda>(b, _, _). LENGTH('a) - b)") auto

declare leadingZeroes_loop.simps [simp del]

definition leadingZeroes :: "'a::len word \<Rightarrow> nat" where
  "leadingZeroes inputWord = leadingZeroes_loop 0 (push_bit (LENGTH('a) - 8) 255) inputWord"

definition trailingZeroes :: "'a::len word \<Rightarrow> nat" where
  "trailingZeroes inputWord =
     (let work = NOT inputWord AND (inputWord - 1) in LENGTH('a) - leadingZeroes work)"

definition leadingOnes :: "'a::len word \<Rightarrow> nat" where
  "leadingOnes inputWord = leadingZeroes (NOT inputWord)"

section \<open>Powers of two\<close>

definition ceilingPowerOfTwo :: "u32 \<Rightarrow> u32" where
  "ceilingPowerOfTwo inputWord = push_bit (32 - leadingZeroes (inputWord - 1)) 1"

definition floorPowerOfTwo :: "u32 \<Rightarrow> u32" where
  "floorPowerOfTwo inputWord = push_bit (31 - leadingZeroes inputWord) 1"

definition floorPowerOfTwo64 :: "u64 \<Rightarrow> u64" where
  "floorPowerOfTwo64 inputWord = push_bit (63 - leadingZeroes inputWord) 1"

text \<open>\<open>INT_MIN\<close> and \<open>LONG_MIN\<close> are the word with only the sign bit set.\<close>

definition isNonNegativePowerOf2 :: "'a::len word \<Rightarrow> bool" where
  "isNonNegativePowerOf2 input =
     (if input = push_bit (LENGTH('a) - 1) 1 then False else input AND - input = input)"

definition isNonPositivePowerOf2 :: "'a::len word \<Rightarrow> bool" where
  "isNonPositivePowerOf2 input \<longleftrightarrow> input AND - input = - input"

definition isPowerOf2 :: "'a::len word \<Rightarrow> bool" where
  "isPowerOf2 input = (let input' = if sint input < 0 then - input else input
                       in input' AND - input' = input')"

definition isEven :: "'a::len word \<Rightarrow> bool" where
  "isEven input \<longleftrightarrow> input AND 1 = 0"

definition isOdd :: "'a::len word \<Rightarrow> bool" where
  "isOdd input \<longleftrightarrow> input AND 1 \<noteq> 0"

section \<open>Contiguous masks\<close>

definition contiguousBits :: "'a::len word \<Rightarrow> bool" where
  "contiguousBits lmask0 =
     (let amask = lmask0;
          lmask = lmask0 XOR signed_drop_bit (LENGTH('a) - 1) amask;
          lmask = ((lmask OR (lmask - 1)) + 1) AND lmask;
          amask = lmask;
          lmask = (if sint amask < 0 then - amask else amask) - 1
      in signed_drop_bit (LENGTH('a) - 1) lmask \<noteq> 0)"

section \<open>Population count\<close>

definition populationCount32 :: "u32 \<Rightarrow> u32" where
  "populationCount32 inputWord =
     (let work = inputWord in
      if 0 = work then 0 else
      let work = work - (drop_bit 1 work AND 0x55555555);
          temp = drop_bit 2 work AND 0x33333333;
          work = (work AND 0x33333333) + temp;
          work = (work + drop_bit 4 work) AND 0x0F0F0F0F;
          work = work + push_bit 8 work;
          work = work + push_bit 16 work
      in drop_bit 24 work)"

definition populationCount64 :: "u64 \<Rightarrow> u64" where
  "populationCount64 inputWord =
     (let work = inputWord in
      if 0 = work then 0 else
      let work = work - (drop_bit 1 work AND 0x5555555555555555);
          temp = drop_bit 2 work AND 0x3333333333333333;
          work = (work AND 0x3333333333333333) + temp;
          work = (work + drop_bit 4 work) AND 0x0F0F0F0F0F0F0F0F;
          work = work + push_bit 8 work;
          work = work + push_bit 16 work;
          work = work + push_bit 32 work
      in drop_bit 56 work)"

section \<open>Decimal precision\<close>

text \<open>\<open>maxAbsoluteValueTable[i]\<close> is the greatest absolute value of \<open>i + 1\<close> decimal digits.\<close>

definition TR_MAX_PRECISION_LOOKUP :: nat where
  "TR_MAX_PRECISION_LOOKUP = 18"

definition maxAbsoluteValueTable :: "int list" where
  "maxAbsoluteValueTable =
     [9, 99, 999, 9999, 99999, 999999, 9999999, 99999999, 999999999, 9999999999, 99999999999,
      999999999999, 9999999999999, 99999999999999, 999999999999999, 9999999999999999,
      99999999999999999, 999999999999999999]"

definition getMaxAbsValueForPrecision :: "int \<Rightarrow> int" where
  "getMaxAbsValueForPrecision precision =
     (if 0 < precision \<and> precision \<le> int TR_MAX_PRECISION_LOOKUP
      then maxAbsoluteValueTable ! nat (precision - 1) else 2 ^ 63 - 1)"

fun getPrecisionFromValue_loop :: "int \<Rightarrow> int list \<Rightarrow> int \<Rightarrow> int" where
  "getPrecisionFromValue_loop value [] i = 19"
| "getPrecisionFromValue_loop value (m # ms) i =
     (if value \<le> m then i + 1 else getPrecisionFromValue_loop value ms (i + 1))"

definition getPrecisionFromValue :: "int \<Rightarrow> int" where
  "getPrecisionFromValue value =
     (if value = - (2 ^ 63) then 19
      else getPrecisionFromValue_loop (if value < 0 then value * -1 else value) maxAbsoluteValueTable 0)"

definition getPrecisionFromRange :: "int \<Rightarrow> int \<Rightarrow> int" where
  "getPrecisionFromRange low high = max (getPrecisionFromValue low) (getPrecisionFromValue high)"

fun computePositivePowerOfTen_loop :: "nat \<Rightarrow> u64 \<Rightarrow> u64" where
  "computePositivePowerOfTen_loop 0 base = base"
| "computePositivePowerOfTen_loop (Suc k) base = computePositivePowerOfTen_loop k (base * 10)"

definition computePositivePowerOfTen :: "nat \<Rightarrow> u64" where
  "computePositivePowerOfTen exponent = computePositivePowerOfTen_loop exponent 1"

definition isPositivePowerOfTen :: "u64 \<Rightarrow> bool" where
  "isPositivePowerOfTen val =
     (let exponent = trailingZeroes val
      in exponent \<le> 19 \<and> val = computePositivePowerOfTen exponent)"

section \<open>Leading and trailing zeroes\<close>

lemma kByteLeadingZeroes_nth:
  assumes "2 ^ k \<le> b" "b < 2 ^ Suc k" "k < 8"
  shows "kByteLeadingZeroes ! b = 7 - k"
proof -
  have "k \<in> {0, 1, 2, 3, 4, 5, 6, 7}" using assms(3) by auto
  with assms(1,2) show ?thesis
    unfolding kByteLeadingZeroes_def
    by (elim insertE) (auto simp: nth_append nth_Cons')
qed

lemma unat_floor_log:
  assumes "(w :: 'a::len word) \<noteq> 0"
  obtains k where "k < LENGTH('a)" "2 ^ k \<le> unat w" "unat w < 2 ^ Suc k"
proof -
  have pos: "0 < unat w" using assms by (simp add: unat_gt_0)
  then obtain k where k: "2 ^ k \<le> unat w" "unat w < 2 ^ Suc k"
    using ex_power_ivl1 [of 2 "unat w"] by auto
  have "(2::nat) ^ k < 2 ^ LENGTH('a)" using k(1) unsigned_less [of w] by (rule le_less_trans)
  then show thesis using that k by (simp add: power_strict_increasing_iff)
qed

lemma LeadingZeroes_byte_eq:
  assumes "2 ^ k \<le> unat b" "unat b < 2 ^ Suc k"
  shows "LeadingZeroes_byte b = 7 - k" "k < 8"
proof -
  have "unat b < 2 ^ 8" using unsigned_less [of b, where 'a = nat] by simp
  with assms(1) have "(2::nat) ^ k < 2 ^ 8" by (rule le_less_trans)
  then show "k < 8" by (simp only: power_strict_increasing_iff)
  with assms show "LeadingZeroes_byte b = 7 - k"
    by (simp add: LeadingZeroes_byte_def kByteLeadingZeroes_nth)
qed

text \<open>One iteration: the tested byte is the top byte of what is left of the word.\<close>

lemma not_bit_of_unat_less: "unat (w :: 'a::len word) < 2 ^ m \<Longrightarrow> m \<le> n \<Longrightarrow> \<not> bit w n"
  using bit_take_bit_iff [of m "unat w" n]
  by (auto simp: take_bit_nat_eq_self bit_unsigned_iff possible_bit_def dest: bit_imp_le_length)

lemma bit_byte_mask: "bit (255 :: 'a::len word) i \<longleftrightarrow> i < 8 \<and> i < LENGTH('a)"
  using bit_mask_iff [of 8 i, where 'a = "'a word"] by (auto simp: mask_eq_exp_minus_1 possible_bit_def)

lemma byte_of_masked:
  fixes w :: "'a::len word"
  assumes "k + 8 \<le> LENGTH('a)" "unat w < 2 ^ (k + 8)"
  shows "w AND push_bit k 255 = push_bit k (drop_bit k w)"
proof (rule bit_word_eqI)
  fix n assume n: "n < LENGTH('a)"
  show "bit (w AND push_bit k 255) n = bit (push_bit k (drop_bit k w)) n"
    using assms n not_bit_of_unat_less [OF assms(2), of n]
    by (cases "n < k + 8") (auto simp: bit_simps bit_byte_mask simp del: bit_numeral_word_iff)
qed

lemma unat_byte_of_masked:
  fixes w :: "'a::len word"
  assumes "k + 8 \<le> LENGTH('a)" "unat w < 2 ^ (k + 8)"
  shows "unat (ucast (drop_bit k (w AND push_bit k 255)) :: u8) = unat w div 2 ^ k"
    and "w AND push_bit k 255 = 0 \<longleftrightarrow> unat w < 2 ^ k"
proof -
  have d: "drop_bit k (push_bit k (drop_bit k w)) = drop_bit k w"
    using assms by (intro bit_word_eqI) (auto simp: bit_simps dest: bit_imp_le_length)
  have lt: "unat w div 2 ^ k < 256"
    using assms(2) by (simp add: less_mult_imp_div_less power_add mult.commute)
  show "unat (ucast (drop_bit k (w AND push_bit k 255)) :: u8) = unat w div 2 ^ k"
    using lt by (simp add: byte_of_masked [OF assms] d unsigned_ucast_eq unat_drop_bit take_bit_eq_mod)
  have "w AND push_bit k 255 = 0 \<longleftrightarrow> drop_bit k w = 0"
    by (metis byte_of_masked [OF assms] d drop_bit_of_0 push_bit_of_0)
  also have "\<dots> \<longleftrightarrow> unat w div 2 ^ k = 0"
    by (metis unat_drop_bit unat_eq_zero)
  finally show "w AND push_bit k 255 = 0 \<longleftrightarrow> unat w < 2 ^ k"
    by (simp add: div_eq_0_iff)
qed

lemma leadingZeroes_loop_eq:
  fixes w :: "'a::len word"
  assumes "LENGTH('a) = b + 8 * m" "unat w < 2 ^ (8 * m)" "2 ^ k \<le> unat w" "unat w < 2 ^ Suc k"
  shows "leadingZeroes_loop b (push_bit (8 * m - 8) 255) w = LENGTH('a) - 1 - k"
  using assms(1,2)
proof (induction m arbitrary: b)
  case 0
  with assms(3) show ?case by (metis less_one mult_0_right not_one_le_zero one_le_numeral one_le_power order.trans power_0)
next
  case (Suc m)
  have lt: "unat w < 2 ^ (8 * m + 8)" and len: "8 * m + 8 \<le> LENGTH('a)"
    using Suc.prems by (simp_all add: add.commute)
  note step = unat_byte_of_masked [OF len lt]
  show ?case
  proof (cases "unat w < 2 ^ (8 * m)")
    case True
    have m0: "m \<noteq> 0" using True assms(3) by (metis less_one mult_0_right not_one_le_zero one_le_numeral one_le_power order.trans power_0)
    have "drop_bit 8 (push_bit (8 * m) (255 :: 'a word)) = push_bit (8 * m - 8) 255"
      using m0 len by (intro bit_word_eqI) (auto simp: bit_simps bit_byte_mask simp del: bit_numeral_word_iff)
    moreover have "leadingZeroes_loop (b + 8) (push_bit (8 * m - 8) 255) w = LENGTH('a) - 1 - k"
      using Suc True by simp
    ultimately show ?thesis
      using Suc.prems True step(2) by (subst leadingZeroes_loop.simps) (simp add: Let_def)
  next
    case False
    have "(2::nat) ^ (8 * m) < 2 ^ Suc k" using False assms(4) by linarith
    then have lo: "8 * m \<le> k" by (simp only: power_strict_increasing_iff less_Suc_eq_le one_less_numeral_iff semiring_norm)
    then obtain j where j: "k = 8 * m + j" using le_Suc_ex by blast
    let ?b = "ucast (drop_bit (8 * m) (w AND push_bit (8 * m) 255)) :: u8"
    have "2 ^ j \<le> unat ?b" "unat ?b < 2 ^ Suc j"
      using assms(3,4) unfolding step j
      by (simp_all add: power_add less_eq_div_iff_mult_less_eq div_less_iff_less_mult mult.commute)
    from LeadingZeroes_byte_eq [OF this] have "LeadingZeroes_byte ?b = 7 - j" "j < 8" by simp_all
    with False Suc.prems step(2) j show ?thesis
      by (subst leadingZeroes_loop.simps) (simp add: Let_def)
  qed
qed

lemma leadingZeroes_nonzero:
  fixes w :: "'a::len word"
  assumes "8 dvd LENGTH('a)" "2 ^ k \<le> unat w" "unat w < 2 ^ Suc k"
  shows "leadingZeroes w = LENGTH('a) - 1 - k"
proof -
  obtain m where m: "LENGTH('a) = 8 * m" using assms(1) by (rule dvdE)
  show ?thesis unfolding leadingZeroes_def m
    using leadingZeroes_loop_eq [where 'a = 'a, of 0 m w k] assms unsigned_less [of w, where 'a = nat]
    by (simp add: m)
qed

lemma leadingZeroes_loop_0: "leadingZeroes_loop b m (0 :: 'a::len word) = LENGTH('a)"
  by (induction "LENGTH('a) - b" arbitrary: b m rule: less_induct)
    (subst leadingZeroes_loop.simps, simp)

lemma leadingZeroes_0 [simp]: "leadingZeroes (0 :: 'a::len word) = LENGTH('a)"
  by (simp add: leadingZeroes_def leadingZeroes_loop_0)

lemma leadingZeroes_eqD:
  fixes w :: "'a::len word"
  assumes "8 dvd LENGTH('a)" "w \<noteq> 0"
  shows "leadingZeroes w < LENGTH('a)" "2 ^ (LENGTH('a) - 1 - leadingZeroes w) \<le> unat w"
    "unat w < 2 ^ (LENGTH('a) - leadingZeroes w)"
proof -
  obtain k where k: "k < LENGTH('a)" "2 ^ k \<le> unat w" "unat w < 2 ^ Suc k"
    using assms(2) by (rule unat_floor_log)
  then have eq: "leadingZeroes w = LENGTH('a) - 1 - k"
    by (simp add: leadingZeroes_nonzero [OF assms(1)])
  with k show "leadingZeroes w < LENGTH('a)" "2 ^ (LENGTH('a) - 1 - leadingZeroes w) \<le> unat w"
    by simp_all
  have "LENGTH('a) - leadingZeroes w = Suc k" using eq k(1) by simp
  with k(3) show "unat w < 2 ^ (LENGTH('a) - leadingZeroes w)" by (simp del: power_Suc)
qed

lemma leadingZeroes_mask:
  "8 dvd LENGTH('a::len) \<Longrightarrow> n \<le> LENGTH('a) \<Longrightarrow> leadingZeroes (mask n :: 'a word) = LENGTH('a) - n"
proof (cases n)
  case (Suc k)
  assume d: "8 dvd LENGTH('a)" and n: "n \<le> LENGTH('a)"
  have "unat (mask n :: 'a word) = mask n"
    using n by (intro bit_eqI) (auto simp: bit_simps)
  then have u: "unat (mask n :: 'a word) = 2 ^ n - 1" by (simp add: mask_eq_exp_minus_1)
  have "(1::nat) \<le> 2 ^ k" by simp
  then show ?thesis
    using leadingZeroes_nonzero [OF d, of k "mask n"] Suc n unfolding u by simp
qed simp

lemma trailingZeroes_work:
  fixes w :: "'a::len word"
  assumes "\<And>n. n < t \<Longrightarrow> \<not> bit w n" "bit w t"
  shows "NOT w AND (w - 1) = mask t"
proof -
  let ?v = "w AND NOT (mask (Suc t))"
  have t: "t < LENGTH('a)" using assms(2) by (rule bit_imp_le_length)
  have w: "w = ?v + 2 ^ t"
  proof -
    have "w = ?v OR 2 ^ t"
      using assms t by (intro bit_word_eqI) (auto simp: bit_simps less_Suc_eq not_less, meson not_le)
    also have "\<dots> = ?v + 2 ^ t"
      by (rule disjunctive_add [symmetric]) (auto simp: bit_simps)
    finally show ?thesis .
  qed
  have "w - 1 = ?v + mask t"
    by (subst w) (simp add: mask_eq_exp_minus_1)
  also have "\<dots> = ?v OR mask t"
    by (rule disjunctive_add) (auto simp: bit_simps)
  finally show ?thesis
    using assms t by (intro bit_word_eqI) (auto simp: bit_simps less_Suc_eq not_less)
qed

lemma trailingZeroes_eq:
  fixes w :: "'a::len word"
  assumes "8 dvd LENGTH('a)" "\<And>n. n < t \<Longrightarrow> \<not> bit w n" "bit w t"
  shows "trailingZeroes w = t"
  using leadingZeroes_mask [OF assms(1), of t] bit_imp_le_length [OF assms(3)]
  by (simp add: trailingZeroes_def trailingZeroes_work [OF assms(2,3)])

lemma trailingZeroes_0: "8 dvd LENGTH('a::len) \<Longrightarrow> trailingZeroes (0 :: 'a word) = LENGTH('a)"
  using leadingZeroes_mask [where 'a = 'a, of "LENGTH('a)"] by (simp add: trailingZeroes_def)

lemma trailingZeroes_dvd:
  fixes w :: "'a::len word"
  assumes "8 dvd LENGTH('a)" "w \<noteq> 0"
  shows "\<exists>q. odd q \<and> unat w = 2 ^ trailingZeroes w * q"
proof -
  define t where "t = (LEAST n. bit w n)"
  have ex: "\<exists>n. bit w n" using \<open>w \<noteq> 0\<close> by (simp add: word_neq_0_iff_bit) blast
  have t: "bit w t" "\<And>n. n < t \<Longrightarrow> \<not> bit w n"
    unfolding t_def using ex by (auto intro: LeastI_ex dest: not_less_Least)
  then have eq: "trailingZeroes w = t" by (intro trailingZeroes_eq assms(1)) auto
  have "take_bit t (unat w) = 0"
    by (rule bit_eqI) (use t in \<open>auto simp: bit_simps\<close>)
  then have "2 ^ t dvd unat w" by (simp add: take_bit_eq_mod mod_eq_0_iff_dvd)
  then have "unat w = 2 ^ t * (unat w div 2 ^ t)" by (rule dvd_mult_div_cancel [symmetric])
  moreover have "odd (unat w div 2 ^ t)"
    using t(1) by (simp add: bit_unsigned_iff flip: bit_iff_odd)
  ultimately show ?thesis unfolding eq by blast
qed

lemma odd_pow2_factor_unique:
  assumes "2 ^ a * q = 2 ^ b * (r :: nat)" "odd q" "odd r"
  shows "a = b"
proof -
  have "\<not> a < b" if "2 ^ a * q = 2 ^ b * r" "odd q" for a b :: nat and q r :: nat
  proof
    assume "a < b"
    then obtain c where "b = a + Suc c" by (metis add_Suc_right less_imp_Suc_add)
    with that(1) have "q = 2 * (2 ^ c * r)" by (simp add: power_add)
    with that(2) show False by simp
  qed
  from this [OF assms(1,2)] this [OF assms(1) [symmetric] assms(3)] show ?thesis by linarith
qed

section \<open>Correctness of the bit routines\<close>

text \<open>
  \<open>trailingZeroes\<close> is the exponent of two in its argument, and the width for zero:
  a nonzero word is an odd multiple of \<open>2 ^ trailingZeroes w\<close>.
\<close>

lemma trailingZeroes_correct:
  fixes w :: u64
  shows "if w = 0 then trailingZeroes w = 64
         else \<exists>q. odd q \<and> unat w = 2 ^ trailingZeroes w * q"
  using trailingZeroes_dvd [of w] trailingZeroes_0 [where 'a = 64] by simp

lemma computePositivePowerOfTen_loop: "computePositivePowerOfTen_loop k b = b * 10 ^ k"
  by (induction k arbitrary: b) (simp_all add: ac_simps)

lemma unat_computePositivePowerOfTen:
  "k \<le> 19 \<Longrightarrow> unat (computePositivePowerOfTen k) = 10 ^ k"
proof -
  assume "k \<le> 19"
  then have "(10::nat) ^ k \<le> 10 ^ 19" by (rule power_increasing) simp
  then have "(10::nat) ^ k < 2 ^ 64" by (rule le_less_trans) simp
  moreover have "computePositivePowerOfTen k = of_nat (10 ^ k)"
    by (simp add: computePositivePowerOfTen_def computePositivePowerOfTen_loop)
  ultimately show ?thesis by (simp add: unat_of_nat del: of_nat_power)
qed

text \<open>
  \<open>isPositivePowerOfTen\<close>, which only compares its argument with ten to the power of its
  trailing zeroes, accepts exactly the powers of ten of a 64-bit word.
\<close>

lemma isPositivePowerOfTen_iff:
  "isPositivePowerOfTen v \<longleftrightarrow> (\<exists>k. k \<le> 19 \<and> unat v = 10 ^ k)"
proof
  assume "isPositivePowerOfTen v"
  then show "\<exists>k. k \<le> 19 \<and> unat v = 10 ^ k"
    by (auto simp: isPositivePowerOfTen_def Let_def intro!: exI [of _ "trailingZeroes v"]
        dest: unat_computePositivePowerOfTen)
next
  assume "\<exists>k. k \<le> 19 \<and> unat v = 10 ^ k"
  then obtain k where k: "k \<le> 19" "unat v = 10 ^ k" by blast
  then have "v \<noteq> 0" by auto
  with trailingZeroes_dvd [of v] obtain q where q: "odd q" "unat v = 2 ^ trailingZeroes v * q" by auto
  have "2 ^ trailingZeroes v * q = 2 ^ k * 5 ^ k"
    using q(2) k(2) by (simp flip: power_mult_distrib)
  then have "trailingZeroes v = k" by (rule odd_pow2_factor_unique) (use q(1) in simp_all)
  moreover have "v = computePositivePowerOfTen k"
    using k by (simp add: word_unat_eq_iff unat_computePositivePowerOfTen)
  ultimately show "isPositivePowerOfTen v" using k(1) by (simp add: isPositivePowerOfTen_def)
qed

lemma ceilingPowerOfTwo_bounds:
  assumes "0 < unat x" "unat x \<le> 2 ^ 31"
  shows "\<exists>k. k \<le> 31 \<and> unat (ceilingPowerOfTwo x) = 2 ^ k \<and> unat x \<le> 2 ^ k \<and> 2 ^ k < 2 * unat x"
proof (cases "unat x = 1")
  case True
  then have "x = 1" by (simp add: word_unat_eq_iff)
  then show ?thesis by (intro exI [of _ 0]) (simp add: ceilingPowerOfTwo_def)
next
  case False
  have u: "unat (x - 1) = unat x - 1" using assms(1) by (simp add: unat_minus_one unat_gt_0)
  have "x - 1 \<noteq> 0" using False by auto
  note lz = leadingZeroes_eqD [OF _ this, simplified]
  define k where "k = 32 - leadingZeroes (x - 1)"
  have kpos: "0 < k" "31 - leadingZeroes (x - 1) = k - 1" using lz(1) by (simp_all add: k_def)
  have "2 ^ (k - 1) \<le> unat x - 1" "unat x - 1 < 2 ^ k"
    using lz(2,3) unfolding u kpos(2) k_def by auto
  moreover have "(2::nat) ^ k = 2 * 2 ^ (k - 1)" using kpos(1) by (cases k) simp_all
  ultimately have b: "unat x \<le> 2 ^ k" "2 ^ k < 2 * unat x" using assms(1) by simp_all
  with assms(2) have "(2::nat) ^ k < 2 ^ 32" by simp
  then have "k \<le> 31" by (simp only: power_strict_increasing_iff)
  with b show ?thesis
    by (intro exI [of _ k]) (simp add: ceilingPowerOfTwo_def unat_2_power flip: k_def)
qed

text \<open>
  for a positive argument up to \<open>2 ^ 31\<close>, \<open>ceilingPowerOfTwo\<close> is the least power of two
  that is not smaller; this is the size the hash table's \<open>init\<close> rounds up to.
\<close>

lemma ceilingPowerOfTwo_correct:
  assumes "0 < unat x" "unat x \<le> 2 ^ 31"
  shows "\<exists>k. k \<le> 31 \<and> unat (ceilingPowerOfTwo x) = 2 ^ k \<and> unat x \<le> 2 ^ k \<and> 2 ^ k < 2 * unat x"
  using assms by (rule ceilingPowerOfTwo_bounds)

section \<open>The contiguous-mask test\<close>

lemma sign_bit_iff: "sint (w :: 'a::len word) < 0 \<longleftrightarrow> bit w (LENGTH('a) - 1)"
  by (simp add: sint_uint not_le bit_unsigned_iff flip: signed_take_bit_decr_length_iff)

lemma signed_drop_bit_sign:
  "signed_drop_bit (LENGTH('a::len) - Suc 0) (w :: 'a word) =
     (if bit w (LENGTH('a) - Suc 0) then - 1 else 0)"
  by (rule bit_word_eqI) (auto simp: bit_signed_drop_bit_iff le_less_trans less_Suc_eq_le not_le Suc_le_eq)

lemma plus_lowest_bit:
  fixes x :: "'a::len word"
  assumes "\<And>n. n < t \<Longrightarrow> \<not> bit x n" "bit x t"
  shows "(x OR (x - 1)) + 1 = x + 2 ^ t"
proof -
  have "bit (x OR (x - 1)) n = bit (x OR mask t) n" if n: "n < LENGTH('a)" for n
  proof (cases "bit x n")
    case False
    have "bit (NOT x AND (x - 1)) n = bit (mask t :: 'a word) n"
      by (simp only: trailingZeroes_work [OF assms])
    with False n show ?thesis by (simp add: bit_simps)
  qed (simp add: bit_simps)
  then have "x OR (x - 1) = x OR mask t" by (rule bit_word_eqI)
  also have "\<dots> = x + mask t"
    by (rule disjunctive_add [symmetric]) (use assms(1) in \<open>auto simp: bit_simps\<close>)
  finally show ?thesis by (simp add: mask_eq_exp_minus_1)
qed

text \<open>Adding the lowest set bit carries through the lowest run of ones, up to bit \<open>e\<close>.\<close>

lemma carry_through_run:
  fixes x :: "'a::len word"
  assumes low: "\<And>n. n < t \<Longrightarrow> \<not> bit x n" and run: "\<And>n. t \<le> n \<Longrightarrow> n < e \<Longrightarrow> bit x n"
    and e: "t < e" "e < LENGTH('a)" "\<not> bit x e"
  shows "(x + 2 ^ t) AND x = x AND NOT (mask e)"
proof -
  let ?h = "x AND NOT (mask e)" and ?r = "push_bit t (mask (e - t)) :: 'a word"
  have "x = ?h OR ?r"
    using low run e by (intro bit_word_eqI) (auto simp: bit_simps not_less)
  also have "\<dots> = ?h + ?r"
    by (rule disjunctive_add [symmetric]) (use e in \<open>auto simp: bit_simps\<close>)
  finally have x: "x = ?h + ?r" .
  have "?r = 2 ^ e - 2 ^ t"
    using e by (simp add: push_bit_eq_mult mask_eq_exp_minus_1 algebra_simps flip: power_add)
  then have "x + 2 ^ t = ?h + 2 ^ e" by (subst x) simp
  also have "\<dots> = ?h OR 2 ^ e"
    by (rule disjunctive_add) (use e in \<open>auto simp: bit_simps\<close>)
  finally show ?thesis
    using e by (intro bit_word_eqI) (auto simp: bit_simps)
qed

lemma contiguous_core:
  fixes x :: "'a::len word"
  assumes "\<not> bit x (LENGTH('a) - 1)"
  shows "((x OR (x - 1)) + 1) AND x = 0 \<longleftrightarrow> (\<exists>i j. x = push_bit i (mask j))"
    (is "?l \<longleftrightarrow> ?r")
proof (cases "x = 0")
  case True
  then show ?thesis by (auto intro: exI [of _ 0])
next
  case False
  then obtain n where "bit x n" by (auto simp: word_neq_0_iff_bit)
  define t where "t = (LEAST n. bit x n)"
  have t: "bit x t" "\<And>n. n < t \<Longrightarrow> \<not> bit x n"
    unfolding t_def using \<open>bit x n\<close> by (auto intro: LeastI dest: not_less_Least)
  have tl: "t < LENGTH('a) - 1"
    using t(1) assms bit_imp_le_length [OF t(1)] by (metis Suc_pred' len_gt_0 less_Suc_eq)
  define e where "e = (LEAST n. t < n \<and> \<not> bit x n)"
  have ex: "t < LENGTH('a) - 1 \<and> \<not> bit x (LENGTH('a) - 1)" using tl assms by simp
  have e: "t < e" "\<not> bit x e" "e < LENGTH('a)"
    using LeastI [of "\<lambda>n. t < n \<and> \<not> bit x n", OF ex] Least_le [of "\<lambda>n. t < n \<and> \<not> bit x n", OF ex]
      len_gt_0 [where 'a = 'a]
    by (auto simp: e_def simp del: len_gt_0)
  have run: "bit x n" if "t \<le> n" "n < e" for n
    using not_less_Least [of n "\<lambda>n. t < n \<and> \<not> bit x n"] that t(1)
    by (cases "n = t") (auto simp: e_def)
  have core: "((x OR (x - 1)) + 1) AND x = x AND NOT (mask e)"
    by (simp only: plus_lowest_bit [OF t(2,1)] carry_through_run [OF t(2) run e(1,3,2)])
  show ?thesis
  proof
    assume ?l
    then have hi: "\<not> bit x n" if "e \<le> n" for n
      using that core by (metis bit_0_eq bit_and_iff bit_mask_iff bit_not_iff bot_apply bot_bool_def linorder_not_less impossible_bit)
    have "x = push_bit t (mask (e - t))"
      using t run e hi by (intro bit_word_eqI) (auto simp: bit_simps not_less intro: ccontr)
    then show ?r by blast
  next
    assume ?r
    then obtain i j where x: "x = push_bit i (mask j)" by blast
    have bx: "bit x n \<longleftrightarrow> i \<le> n \<and> n < i + j \<and> n < LENGTH('a)" for n
      by (auto simp: x bit_simps)
    have "\<not> bit x n" if "e \<le> n" for n
      using that e t(1) by (auto simp: bx)
    then show ?l unfolding core by (intro bit_word_eqI) (auto simp: bit_simps not_less)
  qed
qed

lemma sign_bit_of_pred:
  fixes y :: "'a::len word"
  assumes "\<not> bit y (LENGTH('a) - 1)" "y \<noteq> 0"
  shows "\<not> bit (y - 1) (LENGTH('a) - 1)"
proof -
  obtain n where "bit y n" using assms(2) by (auto simp: word_neq_0_iff_bit)
  define t where "t = (LEAST n. bit y n)"
  have t: "bit y t" "\<And>n. n < t \<Longrightarrow> \<not> bit y n"
    unfolding t_def using \<open>bit y n\<close> by (auto intro: LeastI dest: not_less_Least)
  have "bit (NOT y AND (y - 1)) (LENGTH('a) - 1) = bit (mask t :: 'a word) (LENGTH('a) - 1)"
    by (simp only: trailingZeroes_work [OF t(2,1)])
  with assms(1) bit_imp_le_length [OF t(1)] show ?thesis by (auto simp: bit_simps)
qed

text \<open>A run of ones that reaches the sign bit is the complement of a run of low ones.\<close>

lemma run_with_sign:
  fixes w :: "'a::len word"
  assumes "w = push_bit i (mask j)" "bit w (LENGTH('a) - 1)"
  shows "NOT w = push_bit 0 (mask i)"
  using assms by (intro bit_word_eqI) (auto simp: bit_simps)

lemma run_or_complement:
  fixes w :: "'a::len word"
  shows "(\<exists>i j. (if bit w (LENGTH('a) - 1) then NOT w else w) = push_bit i (mask j)) \<longleftrightarrow>
         (\<exists>i j. w = push_bit i (mask j) \<or> w = NOT (push_bit i (mask j)))"
proof (cases "bit w (LENGTH('a) - 1)")
  case True
  have "w = NOT p \<longleftrightarrow> NOT w = p" for p :: "'a word" by auto
  with True run_with_sign [of w] show ?thesis by metis
next
  case False
  then have "bit (NOT w) (LENGTH('a) - 1)" by (simp add: bit_simps)
  moreover have "w = NOT p \<longleftrightarrow> NOT w = p" for p :: "'a word" by auto
  ultimately show ?thesis using False run_with_sign [of "NOT w"] by (metis bit.double_compl)
qed

text \<open>
  \<open>contiguousBits\<close> answers exactly the question its comment states: the set bits of the
  mask, or its clear bits, are one contiguous run (an empty run included).
\<close>

lemma contiguousBits_iff:
  fixes w :: "'a::len word"
  shows "contiguousBits w \<longleftrightarrow> (\<exists>i j. w = push_bit i (mask j) \<or> w = NOT (push_bit i (mask j)))"
proof -
  define x where "x = (if bit w (LENGTH('a) - 1) then NOT w else w)"
  define y where "y = ((x OR (x - 1)) + 1) AND x"
  have sx: "\<not> bit x (LENGTH('a) - 1)" by (simp add: x_def bit_simps)
  then have sy: "\<not> bit y (LENGTH('a) - 1)" by (simp add: y_def bit_simps)
  have "w XOR signed_drop_bit (LENGTH('a) - 1) w = x"
    by (simp add: x_def signed_drop_bit_sign)
  then have "contiguousBits w \<longleftrightarrow> bit (y - 1) (LENGTH('a) - 1)"
    using sy by (simp add: contiguousBits_def Let_def sign_bit_iff signed_drop_bit_sign flip: y_def)
  also have "\<dots> \<longleftrightarrow> y = 0"
    using sign_bit_of_pred [OF sy] by auto
  also have "\<dots> \<longleftrightarrow> (\<exists>i j. x = push_bit i (mask j))"
    unfolding y_def by (rule contiguous_core [OF sx])
  also have "\<dots> \<longleftrightarrow> (\<exists>i j. w = push_bit i (mask j) \<or> w = NOT (push_bit i (mask j)))"
    unfolding x_def by (rule run_or_complement)
  finally show ?thesis .
qed

section \<open>Decimal digits\<close>

lemma getPrecisionFromValue_loop_table:
  assumes "0 \<le> v" "v < 2 ^ 63"
  shows "v < 10 ^ nat (getPrecisionFromValue_loop v maxAbsoluteValueTable 0)"
    and "0 < v \<Longrightarrow> 10 ^ nat (getPrecisionFromValue_loop v maxAbsoluteValueTable 0 - 1) \<le> v"
    and "getPrecisionFromValue_loop v maxAbsoluteValueTable 0 \<in> {1..19}"
  using assms unfolding maxAbsoluteValueTable_def by simp_all

lemma getPrecisionFromValue_digits:
  assumes "- (2 ^ 63) \<le> v" "v < 2 ^ 63"
  shows "\<bar>v\<bar> < 10 ^ nat (getPrecisionFromValue v)"
    and "10 ^ nat (getPrecisionFromValue v - 1) \<le> max 1 \<bar>v\<bar>"
proof -
  have "\<bar>v\<bar> < 10 ^ nat (getPrecisionFromValue v) \<and>
      10 ^ nat (getPrecisionFromValue v - 1) \<le> max 1 \<bar>v\<bar>"
  proof (cases "v = - (2 ^ 63)")
    case True
    then show ?thesis by (simp add: getPrecisionFromValue_def)
  next
    case False
    then have "0 \<le> \<bar>v\<bar>" "\<bar>v\<bar> < 2 ^ 63" using assms by linarith+
    note l = getPrecisionFromValue_loop_table [OF this]
    have eq: "getPrecisionFromValue v = getPrecisionFromValue_loop \<bar>v\<bar> maxAbsoluteValueTable 0"
      using False by (simp add: getPrecisionFromValue_def abs_if)
    show ?thesis
    proof (cases "v = 0")
      case True
      then show ?thesis by (simp add: getPrecisionFromValue_def maxAbsoluteValueTable_def)
    next
      case False
      then show ?thesis using l unfolding eq by simp
    qed
  qed
  then show "\<bar>v\<bar> < 10 ^ nat (getPrecisionFromValue v)"
    "10 ^ nat (getPrecisionFromValue v - 1) \<le> max 1 \<bar>v\<bar>" by blast+
qed
end
