(* ===== verification/HashTab.thy ===== *)
theory HashTab
  imports Bits KeyedTable
begin

text \<open>
  The chained hash table \<open>TR_HashTab\<close> of \<open>compiler/infra/HashTab.hpp\<close> and \<open>HashTab.cpp\<close>: a closed area of
  \<open>_closedAreaSize\<close> buckets at the indices 1 to \<open>_closedAreaSize\<close>, an open area behind it from which
  colliding entries are allocated in order, and chains of indices through both, with 0 for the end of a chain.
  The virtual \<open>calculateHash\<close> is a parameter (its value depends on the key and on \<open>_closedAreaSize\<close>);
  \<open>isEqual\<close> is equality of keys. Indices and sizes are natural numbers, with the 32-bit wrap-around of
  \<open>_tableSize\<close> written out; a null or out-of-range access is \<open>None\<close>. The allocation kind, the memory object
  and the trace flag are left out.
\<close>

section \<open>Table, construction, lookup\<close>

record ('k, 'v) entry =
  ekey :: 'k
  edata :: 'v
  chain :: nat

record ('k, 'v) hashtab =
  tableSize :: nat
  nextFree :: nat
  bucketMask :: nat
  table :: "('k, 'v) entry option list option"
  closedAreaSize :: nat
  allowGrowth :: bool

definition kMinimumSize :: nat where
  "kMinimumSize = 16"

definition kDefaultSize :: nat where
  "kDefaultSize = 64"

definition init :: "nat \<Rightarrow> bool \<Rightarrow> ('k, 'v) hashtab" where
  "init newSize growth =
     (let c = unat (ceilingPowerOfTwo (of_nat newSize)); c = (if c < kMinimumSize then kMinimumSize else c);
          openAreaSize = c div 4; size = (c + openAreaSize) mod 2 ^ 32 in
      \<lparr>tableSize = size, nextFree = c + 1, bucketMask = c - 1, table = Some (replicate size None),
       closedAreaSize = c, allowGrowth = growth\<rparr>)"

text \<open>A slot of the table; \<open>None\<close> outside the array or when there is no array.\<close>

definition slot :: "('k, 'v) hashtab \<Rightarrow> nat \<Rightarrow> ('k, 'v) entry option option" where
  "slot T i = do { t \<leftarrow> table T; if i < length t then Some (t ! i) else None }"

text \<open>An entry reached through a pointer that must not be null.\<close>

definition entryAt :: "('k, 'v) hashtab \<Rightarrow> nat \<Rightarrow> ('k, 'v) entry option" where
  "entryAt T i = do { s \<leftarrow> slot T i; s }"

definition setSlot :: "nat \<Rightarrow> ('k, 'v) entry \<Rightarrow> ('k, 'v) hashtab \<Rightarrow> ('k, 'v) hashtab option" where
  "setSlot i e T = do { t \<leftarrow> table T; if i < length t then Some (T\<lparr>table := Some (t[i := Some e])\<rparr>) else None }"

definition bucketOf :: "(nat \<Rightarrow> 'k \<Rightarrow> nat) \<Rightarrow> ('k, 'v) hashtab \<Rightarrow> 'k \<Rightarrow> nat" where
  "bucketOf calculateHash T k = (calculateHash (closedAreaSize T) k AND bucketMask T) + 1"

partial_function (option) locateLoop :: "'k \<Rightarrow> ('k, 'v) hashtab \<Rightarrow> nat \<Rightarrow> (bool \<times> nat) option" where
  "locateLoop k T hashIndex = do {
     e \<leftarrow> entryAt T hashIndex;
     if ekey e = k then Some (True, hashIndex)
     else if chain e = 0 then Some (False, hashIndex)
     else locateLoop k T (chain e)
   }"

text \<open>\<open>locate\<close> returns whether the key is present and the value left in \<open>hashIndex\<close>.\<close>

definition locate :: "(nat \<Rightarrow> 'k \<Rightarrow> nat) \<Rightarrow> 'k \<Rightarrow> ('k, 'v) hashtab \<Rightarrow> (bool \<times> nat) option" where
  "locate calculateHash k T =
     (let hashIndex = bucketOf calculateHash T k in
      if table T = None then Some (False, hashIndex)
      else do {
        s \<leftarrow> slot T hashIndex;
        case s of None \<Rightarrow> Some (False, hashIndex) | Some _ \<Rightarrow> locateLoop k T hashIndex
      })"

definition getData :: "nat \<Rightarrow> ('k, 'v) hashtab \<Rightarrow> 'v option" where
  "getData i T = do { e \<leftarrow> entryAt T i; Some (edata e) }"

definition updateData :: "nat \<Rightarrow> 'v \<Rightarrow> ('k, 'v) hashtab \<Rightarrow> ('k, 'v) hashtab option" where
  "updateData i v T = do { e \<leftarrow> entryAt T i; setSlot i (e\<lparr>edata := v\<rparr>) T }"

definition replace :: "'k \<Rightarrow> nat \<Rightarrow> 'v \<Rightarrow> ('k, 'v) hashtab \<Rightarrow> ('k, 'v) hashtab option" where
  "replace k i v T = do { e \<leftarrow> entryAt T i; setSlot i \<lparr>ekey = k, edata = v, chain = chain e\<rparr> T }"

definition clear :: "('k, 'v) hashtab \<Rightarrow> ('k, 'v) hashtab" where
  "clear T = T\<lparr>table := map_option (\<lambda>t. replicate (tableSize T) None @ drop (tableSize T) t) (table T)\<rparr>"

definition reset :: "('k, 'v) hashtab \<Rightarrow> ('k, 'v) hashtab" where
  "reset T = T\<lparr>tableSize := 0, table := None\<rparr>"

section \<open>Adding an element\<close>

text \<open>The \<open>do\<close> loop that walks to the end of the chain and links the new entry there.\<close>

partial_function (option) chainLoop ::
  "'k \<Rightarrow> ('k, 'v) entry \<Rightarrow> ('k, 'v) hashtab \<Rightarrow> nat \<Rightarrow> (bool \<times> nat \<times> ('k, 'v) hashtab) option" where
  "chainLoop k entry T hashIndex = do {
     e \<leftarrow> entryAt T hashIndex;
     if chain e = 0 then do {
       let nextIndex = nextFree T;
       T1 \<leftarrow> setSlot hashIndex (e\<lparr>chain := nextIndex\<rparr>) (T\<lparr>nextFree := nextFree T + 1\<rparr>);
       T2 \<leftarrow> setSlot nextIndex entry T1;
       Some (True, nextIndex, T2)
     }
     else if ekey e \<noteq> k then chainLoop k entry T (chain e)
     else Some (False, hashIndex, T)
   }"

definition addHere :: "(nat \<Rightarrow> 'k \<Rightarrow> nat) \<Rightarrow> 'k \<Rightarrow> ('k, 'v) entry \<Rightarrow> ('k, 'v) hashtab
    \<Rightarrow> (bool \<times> nat \<times> ('k, 'v) hashtab) option" where
  "addHere calculateHash k entry0 T = do {
     (found, hashIndex) \<leftarrow> locate calculateHash k T;
     if found then Some (False, hashIndex, T)
     else do {
       let entry = entry0\<lparr>chain := 0\<rparr>;
       s \<leftarrow> slot T hashIndex;
       case s of
         None \<Rightarrow> do { T' \<leftarrow> setSlot hashIndex entry T; Some (True, hashIndex, T') }
       | Some _ \<Rightarrow> chainLoop k entry T hashIndex
     }
   }"

definition isFull :: "('k, 'v) hashtab \<Rightarrow> bool" where
  "isFull T \<longleftrightarrow> nextFree T = (tableSize T + 2 ^ 32 - 1) mod 2 ^ 32"

definition allEntries :: "('k, 'v) hashtab \<Rightarrow> ('k, 'v) entry list" where
  "allEntries T = (case table T of None \<Rightarrow> [] | Some t \<Rightarrow> List.map_filter (\<lambda>s. s) t)"

text \<open>
  \<open>addElement\<close> and \<open>growAndRehash\<close> call each other: rehashing may fill the new table's open area and grow
  again. The fuel bounds the depth of nested growths; every growth doubles the closed area, and 25 nested ones
  would take even the smallest table past what the 32-bit sizes can express.
\<close>

fun addElementFuel :: "nat \<Rightarrow> (nat \<Rightarrow> 'k \<Rightarrow> nat) \<Rightarrow> 'k \<Rightarrow> ('k, 'v) entry \<Rightarrow> ('k, 'v) hashtab
    \<Rightarrow> (bool \<times> nat \<times> ('k, 'v) hashtab) option" where
  "addElementFuel 0 h k entry T = (if isFull T then None else addHere h k entry T)"
| "addElementFuel (Suc n) h k entry T =
     (if isFull T then do {
        T1 \<leftarrow> foldM (\<lambda>e T'. map_option (\<lambda>(_, _, T''). T'') (addElementFuel n h (ekey e) e T'))
               (allEntries T) (init (closedAreaSize T * 5 div 4) True);
        addHere h k entry T1
      }
      else addHere h k entry T)"

definition addElement :: "(nat \<Rightarrow> 'k \<Rightarrow> nat) \<Rightarrow> 'k \<Rightarrow> ('k, 'v) entry \<Rightarrow> ('k, 'v) hashtab
    \<Rightarrow> (bool \<times> nat \<times> ('k, 'v) hashtab) option" where
  "addElement = addElementFuel 25"

definition add :: "(nat \<Rightarrow> 'k \<Rightarrow> nat) \<Rightarrow> 'k \<Rightarrow> 'v \<Rightarrow> ('k, 'v) hashtab \<Rightarrow> (bool \<times> ('k, 'v) hashtab) option" where
  "add h k v T = do {
     (added, _, T') \<leftarrow> addElement h k \<lparr>ekey = k, edata = v, chain = 0\<rparr> T;
     Some (added, T')
   }"

definition growAndRehash :: "(nat \<Rightarrow> 'k \<Rightarrow> nat) \<Rightarrow> nat \<Rightarrow> ('k, 'v) hashtab \<Rightarrow> ('k, 'v) hashtab option" where
  "growAndRehash h newSize T =
     foldM (\<lambda>e T'. map_option (\<lambda>(_, _, T''). T'') (addElement h (ekey e) e T')) (allEntries T) (init newSize True)"

definition growTo :: "(nat \<Rightarrow> 'k \<Rightarrow> nat) \<Rightarrow> nat \<Rightarrow> ('k, 'v) hashtab \<Rightarrow> ('k, 'v) hashtab option" where
  "growTo h newSize T = (if table T = None then Some (init newSize True) else growAndRehash h newSize T)"

section \<open>Hash functions and iteration\<close>

definition calculateHashPointer :: "nat \<Rightarrow> u64 \<Rightarrow> nat" where
  "calculateHashPointer c k = unat (drop_bit 2 k) mod c"

definition calculateHashInt :: "nat \<Rightarrow> u64 \<Rightarrow> nat" where
  "calculateHashInt c k = unat k mod c"

text \<open>Bernstein's string hash; \<open>char\<close> is signed, so each character is sign-extended.\<close>

fun stringHash :: "u64 \<Rightarrow> u8 list \<Rightarrow> u64" where
  "stringHash hash [] = hash"
| "stringHash hash (c # cs) = stringHash ((push_bit 5 hash + hash) + scast c) cs"

definition calculateHashString :: "nat \<Rightarrow> u8 list \<Rightarrow> nat" where
  "calculateHashString c k = unat (stringHash 5381 k) mod c"

text \<open>\<open>TR_HashTabIterator\<close>: \<open>getCurrent\<close> skips null slots.\<close>

definition atEnd :: "('k, 'v) hashtab \<Rightarrow> nat \<Rightarrow> bool" where
  "atEnd T cur \<longleftrightarrow> cur \<ge> tableSize T"

function getCurrent :: "('k, 'v) hashtab \<Rightarrow> nat \<Rightarrow> ('v option \<times> nat) option" where
  "getCurrent T cur =
     (if atEnd T cur then Some (None, cur)
      else case slot T cur of
          None \<Rightarrow> None
        | Some None \<Rightarrow> getCurrent T (cur + 1)
        | Some (Some e) \<Rightarrow> Some (Some (edata e), cur))"
  by pat_completeness auto
termination
  by (relation "measure (\<lambda>(T, cur). tableSize T - cur)") (auto simp: atEnd_def)

declare getCurrent.simps [simp del]

section \<open>Collisions\<close>

text \<open>How many keys do not find their bucket empty: what the open area has to hold.\<close>

definition collisions :: "('k \<Rightarrow> nat) \<Rightarrow> nat \<Rightarrow> 'k set \<Rightarrow> nat" where
  "collisions f c K = card K - card ((\<lambda>k. f k mod c) ` K)"

lemma collisions_insert:
  assumes "finite K" "k \<notin> K"
  shows "collisions f c (insert k K) =
    (if f k mod c \<in> (\<lambda>k. f k mod c) ` K then Suc (collisions f c K) else collisions f c K)"
  using assms card_image_le [of K "\<lambda>k. f k mod c"]
  by (auto simp: collisions_def insert_absorb Suc_diff_le)

lemma collisions_mono:
  assumes "finite L" "K \<subseteq> L"
  shows "collisions f c K \<le> collisions f c L"
proof -
  have "finite F \<Longrightarrow> collisions f c K \<le> collisions f c (K \<union> F)" for F
  proof (induction F rule: finite_induct)
    case (insert x F)
    have "finite (K \<union> F)" using assms insert.hyps finite_subset by auto
    with collisions_insert [of "K \<union> F" x f c] insert.IH show ?case
      by (cases "x \<in> K \<union> F") (auto simp: insert_absorb split: if_splits)
  qed simp
  from this [of "L - K"] assms show ?thesis by (simp add: Un_absorb1)
qed

lemma collisions_double:
  assumes "finite K"
  shows "collisions f (2 * c) K \<le> collisions f c K"
proof -
  have "(\<lambda>k. f k mod c) ` K = (\<lambda>x. x mod c) ` ((\<lambda>k. f k mod (2 * c)) ` K)"
    by (auto simp: image_image mod_mod_cancel)
  then have "card ((\<lambda>k. f k mod c) ` K) \<le> card ((\<lambda>k. f k mod (2 * c)) ` K)"
    using assms card_image_le [of "(\<lambda>k. f k mod (2 * c)) ` K"] by simp
  then show ?thesis by (simp add: collisions_def)
qed

section \<open>Chains and the invariant\<close>

definition modular :: "('k \<Rightarrow> nat) \<Rightarrow> nat \<Rightarrow> 'k \<Rightarrow> nat" where
  "modular f c k = f k mod c"

definition at :: "'a option list \<Rightarrow> nat \<Rightarrow> 'a option" where
  "at t i = (if i < length t then t ! i else None)"

fun chained :: "('k, 'v) entry option list \<Rightarrow> nat \<Rightarrow> nat list \<Rightarrow> bool" where
  "chained t i [] \<longleftrightarrow> i = 0"
| "chained t i (j # js) \<longleftrightarrow> i = j \<and> j \<noteq> 0 \<and> (\<exists>e. at t j = Some e \<and> chained t (chain e) js)"

definition tab :: "('k, 'v) hashtab \<Rightarrow> ('k, 'v) entry option list" where
  "tab T = (case table T of None \<Rightarrow> [] | Some t \<Rightarrow> t)"

definition bucket :: "('k \<Rightarrow> nat) \<Rightarrow> ('k, 'v) hashtab \<Rightarrow> 'k \<Rightarrow> nat" where
  "bucket f T k = f k mod closedAreaSize T + 1"

definition keys :: "('k, 'v) hashtab \<Rightarrow> 'k set" where
  "keys T = {k. \<exists>i e. at (tab T) i = Some e \<and> ekey e = k}"

definition sizes_ok :: "('k, 'v) hashtab \<Rightarrow> bool" where
  "sizes_ok T \<longleftrightarrow> (\<exists>p. 4 \<le> p \<and> p \<le> 31 \<and> closedAreaSize T = 2 ^ p) \<and> bucketMask T = closedAreaSize T - 1
     \<and> tableSize T = closedAreaSize T + closedAreaSize T div 4 \<and> table T \<noteq> None \<and> length (tab T) = tableSize T
     \<and> closedAreaSize T < nextFree T \<and> nextFree T < tableSize T"

definition ht_ok :: "('k \<Rightarrow> nat) \<Rightarrow> ('k, 'v) hashtab \<Rightarrow> bool" where
  "ht_ok f T \<longleftrightarrow> sizes_ok T
     \<and> at (tab T) 0 = None
     \<and> (\<forall>i > closedAreaSize T. at (tab T) i \<noteq> None \<longleftrightarrow> i < nextFree T)
     \<and> (\<forall>i e. at (tab T) i = Some e \<longrightarrow> at (tab T) (bucket f T (ekey e)) \<noteq> None)
     \<and> (\<forall>b. 1 \<le> b \<and> b \<le> closedAreaSize T \<and> at (tab T) b \<noteq> None \<longrightarrow>
          (\<exists>js. chained (tab T) b js \<and> distinct js
             \<and> set js = {i. \<exists>e. at (tab T) i = Some e \<and> bucket f T (ekey e) = b}))
     \<and> (\<forall>i j e e'. at (tab T) i = Some e \<and> at (tab T) j = Some e' \<and> ekey e = ekey e' \<longrightarrow> i = j)
     \<and> nextFree T = closedAreaSize T + 1 + collisions f (closedAreaSize T) (keys T)"

definition holds :: "('k, 'v) hashtab \<Rightarrow> 'k \<Rightarrow> 'v \<Rightarrow> bool" where
  "holds T k v \<longleftrightarrow> (\<exists>i e. at (tab T) i = Some e \<and> ekey e = k \<and> edata e = v)"

lemma slot_tab: "table T \<noteq> None \<Longrightarrow> slot T i = (if i < length (tab T) then Some (at (tab T) i) else None)"
  by (auto simp: slot_def tab_def at_def)

lemma entryAt_tab: "table T \<noteq> None \<Longrightarrow> entryAt T i = at (tab T) i"
  by (auto simp: entryAt_def slot_tab at_def)

lemma setSlot_tab: "table T \<noteq> None \<Longrightarrow> i < length (tab T) \<Longrightarrow> setSlot i e T = Some (T\<lparr>table := Some ((tab T)[i := Some e])\<rparr>)"
  by (auto simp: setSlot_def tab_def)

lemma tab_update [simp]: "tab (T\<lparr>table := Some t\<rparr>) = t" "tab (T\<lparr>nextFree := n\<rparr>) = tab T"
  by (auto simp: tab_def)

lemma at_update: "i < length t \<Longrightarrow> at (t[i := x]) j = (if j = i then x else at t j)"
  by (auto simp: at_def nth_list_update)

lemma at_length: "at t i = Some e \<Longrightarrow> i < length t"
  by (auto simp: at_def split: if_splits)

lemma bucketOf_modular: "sizes_ok T \<Longrightarrow> bucketOf (modular f) T k = bucket f T k"
proof -
  assume "sizes_ok T"
  then obtain p where p: "closedAreaSize T = 2 ^ p" "bucketMask T = 2 ^ p - 1" by (auto simp: sizes_ok_def)
  have "x AND (2 ^ p - 1) = x mod (2 ^ p)" for x :: nat
    using take_bit_eq_mask [of p x] by (simp add: take_bit_eq_mod mask_eq_exp_minus_1)
  with p show "bucketOf (modular f) T k = bucket f T k" by (simp add: bucketOf_def bucket_def modular_def)
qed

lemma bucket_bounds: "sizes_ok T \<Longrightarrow> 1 \<le> bucket f T k \<and> bucket f T k \<le> closedAreaSize T"
  by (auto simp: sizes_ok_def bucket_def Suc_le_eq)

lemma finite_keys: "finite (keys T)"
proof -
  have "keys T \<subseteq> (\<lambda>i. ekey (the (at (tab T) i))) ` {..<length (tab T)}"
  proof
    fix k assume "k \<in> keys T"
    then obtain i e where "at (tab T) i = Some e" "ekey e = k" by (auto simp: keys_def)
    then show "k \<in> (\<lambda>i. ekey (the (at (tab T) i))) ` {..<length (tab T)}"
      using at_length by (intro image_eqI [of _ _ i]) auto
  qed
  then show ?thesis by (rule finite_subset) simp
qed

lemma chained_distinct_from_0: "chained t i js \<Longrightarrow> 0 \<notin> set js"
  by (induction js arbitrary: i) auto

lemma locateLoop_correct:
  assumes "table T \<noteq> None" "chained (tab T) i js" "js \<noteq> []"
  shows "\<exists>r. locateLoop k T i = Some r \<and>
    (case r of (True, j) \<Rightarrow> j \<in> set js \<and> (\<exists>e. at (tab T) j = Some e \<and> ekey e = k)
     | (False, j) \<Rightarrow> j = last js \<and> (\<forall>j \<in> set js. \<forall>e. at (tab T) j = Some e \<longrightarrow> ekey e \<noteq> k))"
  using assms(2,3)
proof (induction js arbitrary: i)
  case (Cons j js)
  then obtain e where e: "i = j" "at (tab T) j = Some e" "chained (tab T) (chain e) js" by auto
  show ?case
  proof (cases "ekey e = k \<or> chain e = 0")
    case True
    have "js = []" if "chain e = 0" using e(3) that by (cases js) auto
    moreover have "locateLoop k T i = Some (ekey e = k, i)"
      using True e(1,2) by (subst locateLoop.simps) (auto simp: entryAt_tab assms(1))
    ultimately show ?thesis using True e(1,2) by (cases "ekey e = k") auto
  next
    case False
    then have "js \<noteq> []" using e(3) by (cases js) auto
    moreover have "locateLoop k T i = locateLoop k T (chain e)"
      using False e(1,2) by (subst locateLoop.simps) (simp add: entryAt_tab assms(1))
    ultimately show ?thesis using Cons.IH [OF e(3)] False e(1,2) by (auto split: bool.splits)
  qed
qed simp

lemma chained_cong: "(\<And>j. j \<in> set js \<Longrightarrow> at t' j = at t j) \<Longrightarrow> chained t' i js = chained t i js"
  by (induction js arbitrary: i) auto

lemma chained_extend:
  assumes "chained t i js" "js \<noteq> []" "distinct js" "nf \<notin> set js" "nf \<noteq> 0" "nf < length t" "at t (last js) = Some e" "chain new = 0"
  shows "chained (t[last js := Some (e\<lparr>chain := nf\<rparr>), nf := Some new]) i (js @ [nf])"
  using assms
proof (induction js arbitrary: i)
  case (Cons j js)
  have lt: "last (j # js) < length t" using Cons.prems(7) by (rule at_length)
  show ?case
  proof (cases "js = []")
    case True
    with Cons.prems lt show ?thesis by (auto simp: at_update)
  next
    case False
    then have l: "last (j # js) = last js" "last js \<in> set js" by auto
    obtain e' where e': "i = j" "j \<noteq> 0" "at t j = Some e'" "chained t (chain e') js" using Cons.prems(1) by auto
    have "j \<noteq> last js" "j \<noteq> nf" using Cons.prems(3,4) l(2) by auto
    then have "at (t[last js := Some (e\<lparr>chain := nf\<rparr>), nf := Some new]) j = Some e'"
      using e'(3) lt l(1) Cons.prems(6) by (simp add: at_update)
    with Cons.IH [OF e'(4) False] Cons.prems l e' show ?thesis by simp
  qed
qed simp

lemma chainLoop_end:
  assumes "table T \<noteq> None" "at (tab T) i = Some e" "chain e = 0" "nextFree T < length (tab T)" "i \<noteq> nextFree T"
  shows "chainLoop k new T i = Some (True, nextFree T,
    T\<lparr>nextFree := nextFree T + 1, table := Some ((tab T)[i := Some (e\<lparr>chain := nextFree T\<rparr>), nextFree T := Some new])\<rparr>)"
  using assms at_length [OF assms(2)]
  by (subst chainLoop.simps) (simp add: entryAt_tab setSlot_tab Let_def)

lemma chained_last: "chained t i js \<Longrightarrow> js \<noteq> [] \<Longrightarrow> \<exists>e. at t (last js) = Some e \<and> chain e = 0"
proof (induction js arbitrary: i)
  case (Cons j js)
  then show ?case by (cases js) auto
qed simp

lemma ht_okD:
  assumes "ht_ok f T"
  shows "sizes_ok T" "at (tab T) 0 = None"
    "\<And>i. closedAreaSize T < i \<Longrightarrow> at (tab T) i \<noteq> None \<longleftrightarrow> i < nextFree T"
    "\<And>i e. at (tab T) i = Some e \<Longrightarrow> at (tab T) (bucket f T (ekey e)) \<noteq> None"
    "\<And>b. 1 \<le> b \<Longrightarrow> b \<le> closedAreaSize T \<Longrightarrow> at (tab T) b \<noteq> None \<Longrightarrow>
      \<exists>js. chained (tab T) b js \<and> distinct js \<and> set js = {i. \<exists>e. at (tab T) i = Some e \<and> bucket f T (ekey e) = b}"
    "\<And>i j e e'. at (tab T) i = Some e \<Longrightarrow> at (tab T) j = Some e' \<Longrightarrow> ekey e = ekey e' \<Longrightarrow> i = j"
    "nextFree T = closedAreaSize T + 1 + collisions f (closedAreaSize T) (keys T)"
  using assms unfolding ht_ok_def by blast+

lemma sizes_okD:
  assumes "sizes_ok T"
  shows "table T \<noteq> None" "length (tab T) = tableSize T" "closedAreaSize T < nextFree T" "nextFree T < tableSize T"
    "closedAreaSize T < tableSize T" "tableSize T = closedAreaSize T + closedAreaSize T div 4" "16 \<le> closedAreaSize T"
proof -
  obtain p where p: "4 \<le> p" "closedAreaSize T = 2 ^ p" using assms by (auto simp: sizes_ok_def)
  show "16 \<le> closedAreaSize T" using power_increasing [OF p(1), of "2::nat"] p(2) by simp
qed (use assms in \<open>auto simp: sizes_ok_def\<close>)

text \<open>What \<open>locate\<close> answers on a well-formed table.\<close>

lemma locate_correct:
  assumes ok: "ht_ok f T"
  shows "\<exists>r. locate (modular f) k T = Some r \<and>
    (case r of (True, i) \<Rightarrow> \<exists>e. at (tab T) i = Some e \<and> ekey e = k
     | (False, i) \<Rightarrow> k \<notin> keys T \<and>
         (at (tab T) (bucket f T k) = None \<and> i = bucket f T k
          \<or> (\<exists>js. at (tab T) (bucket f T k) \<noteq> None \<and> chained (tab T) (bucket f T k) js \<and> distinct js \<and> js \<noteq> [] \<and> i = last js
             \<and> set js = {i. \<exists>e. at (tab T) i = Some e \<and> bucket f T (ekey e) = bucket f T k})))"
proof -
  note o = ht_okD [OF ok] and s = sizes_okD [OF ht_okD(1) [OF ok]]
  define b where "b = bucket f T k"
  have b: "1 \<le> b" "b \<le> closedAreaSize T" "b < length (tab T)"
    using bucket_bounds [OF o(1), of f k] s by (auto simp: b_def)
  have sl: "locate (modular f) k T =
     (case at (tab T) b of None \<Rightarrow> Some (False, b) | Some _ \<Rightarrow> locateLoop k T b)"
    unfolding locate_def bucketOf_modular [OF o(1)] Let_def using s(1) b(3) by (auto simp: slot_tab simp flip: b_def)
  show ?thesis
  proof (cases "at (tab T) b = None")
    case True
    have "k \<notin> keys T" using o(4) True by (fastforce simp: keys_def b_def)
    with True sl show ?thesis by (auto simp: b_def)
  next
    case False
    then obtain js where js: "chained (tab T) b js" "distinct js"
      "set js = {i. \<exists>e. at (tab T) i = Some e \<and> bucket f T (ekey e) = b}" using o(5) [OF b(1,2)] by blast
    have "js \<noteq> []" using js(1) b(1) by (cases js) auto
    from locateLoop_correct [OF s(1) js(1) this, of k] obtain r where r: "locateLoop k T b = Some r"
      "case r of (True, j) \<Rightarrow> j \<in> set js \<and> (\<exists>e. at (tab T) j = Some e \<and> ekey e = k)
       | (False, j) \<Rightarrow> j = last js \<and> (\<forall>j \<in> set js. \<forall>e. at (tab T) j = Some e \<longrightarrow> ekey e \<noteq> k)" by blast
    have "locate (modular f) k T = Some r" using sl False r(1) by auto
    moreover obtain fd j where "r = (fd, j)" by (cases r)
    ultimately show ?thesis
    proof (cases fd)
      case fTrue: True
      with r(2) \<open>r = (fd, j)\<close> \<open>locate (modular f) k T = Some r\<close> show ?thesis by auto
    next
      case fFalse: False
      have "k \<notin> keys T"
      proof
        assume "k \<in> keys T"
        then obtain i e where ie: "at (tab T) i = Some e" "ekey e = k" by (auto simp: keys_def)
        then have "i \<in> set js" by (auto simp: js(3) b_def)
        with r(2) \<open>r = (fd, j)\<close> fFalse ie show False by auto
      qed
      with r(2) \<open>r = (fd, j)\<close> fFalse \<open>locate (modular f) k T = Some r\<close> False js \<open>js \<noteq> []\<close> show ?thesis
        unfolding b_def by auto
    qed
  qed
qed



text \<open>The effect of a successful addition.\<close>

definition added :: "('k \<Rightarrow> nat) \<Rightarrow> 'k \<Rightarrow> 'v \<Rightarrow> ('k, 'v) hashtab \<Rightarrow> ('k, 'v) hashtab \<Rightarrow> bool" where
  "added f k v T T' \<longleftrightarrow> ht_ok f T' \<and> keys T' = insert k (keys T) \<and> (\<forall>q w. holds T' q w \<longleftrightarrow> holds T q w \<or> q = k \<and> w = v)"

lemma image_bucket:
  "f k mod closedAreaSize T \<in> (\<lambda>k. f k mod closedAreaSize T) ` keys T \<longleftrightarrow>
     (\<exists>i e. at (tab T) i = Some e \<and> bucket f T (ekey e) = bucket f T k)"
  by (simp add: keys_def bucket_def image_iff) metis

lemma keys_holds: "q \<in> keys T \<longleftrightarrow> (\<exists>v. holds T q v)"
  by (auto simp: keys_def holds_def)

lemma holds_added:
  assumes old: "\<And>i e''. at (tab T') i = Some e'' \<Longrightarrow> i \<noteq> n \<Longrightarrow> \<exists>e'. at (tab T) i = Some e' \<and> ekey e' = ekey e'' \<and> edata e' = edata e''"
    and fwd: "\<And>i e'. at (tab T) i = Some e' \<Longrightarrow> \<exists>e''. at (tab T') i = Some e'' \<and> ekey e'' = ekey e' \<and> edata e'' = edata e'"
    and new: "at (tab T') n = Some new"
  shows "holds T' q w \<longleftrightarrow> holds T q w \<or> q = ekey new \<and> w = edata new"
proof
  assume "holds T' q w"
  then obtain i e where i: "at (tab T') i = Some e" "ekey e = q" "edata e = w" by (auto simp: holds_def)
  show "holds T q w \<or> q = ekey new \<and> w = edata new"
  proof (cases "i = n")
    case True with i new show ?thesis by simp
  next
    case False with old [OF i(1)] i show ?thesis by (auto simp: holds_def)
  qed
next
  assume "holds T q w \<or> q = ekey new \<and> w = edata new"
  with fwd new show "holds T' q w" unfolding holds_def by blast
qed

lemma add_empty:
  assumes ok: "ht_ok f T" and k: "k \<notin> keys T" and b: "b = bucket f T k" "at (tab T) b = None"
    and new: "ekey new = k" "edata new = v" "chain new = 0"
  shows "added f k v T (T\<lparr>table := Some ((tab T)[b := Some new])\<rparr>)"
proof -
  define U where "U = T\<lparr>table := Some ((tab T)[b := Some new])\<rparr>"
  have U: "closedAreaSize U = closedAreaSize T" "nextFree U = nextFree T" "tableSize U = tableSize T" "bucketMask U = bucketMask T"
    "table U \<noteq> None" by (simp_all add: U_def)
  note o = ht_okD [OF ok] and s = sizes_okD [OF ht_okD(1) [OF ok]]
  have bb: "1 \<le> b" "b \<le> closedAreaSize T" "b < length (tab T)" using bucket_bounds [OF o(1), of f k] s b(1) by auto
  have at: "at (tab U) i = (if i = b then Some new else at (tab T) i)" for i using bb(3) by (simp add: at_update U_def)
  have bk: "bucket f U q = bucket f T q" for q by (simp add: bucket_def U)
  have none: "bucket f T (ekey e) \<noteq> b" if "at (tab T) i = Some e" for i e using o(4) [OF that] b(2) by auto
  have holds: "holds U q w \<longleftrightarrow> holds T q w \<or> q = k \<and> w = v" for q w
    using holds_added [of U b T new q w] at b(2) new by (metis option.distinct(1) option.inject)
  have keys: "keys U = insert k (keys T)" unfolding set_eq_iff insert_iff keys_holds holds by blast
  have "ht_ok f U" unfolding ht_ok_def
  proof (intro conjI allI impI)
    show "sizes_ok U" using o(1) U by (simp add: sizes_ok_def U_def)
    show "at (tab U) 0 = None" unfolding at using bb(1) o(2) by simp
    show "(at (tab U) i \<noteq> None) = (i < nextFree U)" if "closedAreaSize U < i" for i
      unfolding at using that bb(2) o(3) [of i] U by simp
    show "at (tab U) (bucket f U (ekey e)) \<noteq> None" if "at (tab U) i = Some e" for i e
      using that o(4) [of i e] b(1) new(1) unfolding at bk by (auto split: if_splits)
    show "i = j" if "at (tab U) i = Some e \<and> at (tab U) j = Some e' \<and> ekey e = ekey e'" for i j e e'
      using that o(6) [of i e j e'] k new(1) unfolding at by (auto simp: keys_def split: if_splits)
    show "nextFree U = closedAreaSize U + 1 + collisions f (closedAreaSize U) (keys U)"
      using o(7) collisions_insert [OF finite_keys k, of f "closedAreaSize T"] none b(1)
      unfolding keys U image_bucket by auto
    show "\<exists>js. chained (tab U) b' js \<and> distinct js \<and> set js = {i. \<exists>e. at (tab U) i = Some e \<and> bucket f U (ekey e) = b'}"
      if b': "1 \<le> b' \<and> b' \<le> closedAreaSize U \<and> at (tab U) b' \<noteq> None" for b'
    proof (cases "b' = b")
      case True
      have "{i. \<exists>e. at (tab U) i = Some e \<and> bucket f T (ekey e) = b} = {b}"
        unfolding at using none b(1) new(1) by auto
      moreover have "chained (tab U) b [b]" unfolding chained.simps at using bb(1) new(3) by simp
      ultimately show ?thesis using True by (intro exI [of _ "[b]"]) (simp add: bk)
    next
      case False
      obtain js where js: "chained (tab T) b' js" "distinct js"
        "set js = {i. \<exists>e. at (tab T) i = Some e \<and> bucket f T (ekey e) = b'}"
        using o(5) [of b'] b' False unfolding at U by auto
      have "b \<notin> set js" using js(3) b(2) by auto
      then have "chained (tab U) b' js = chained (tab T) b' js" by (intro chained_cong) (auto simp: at)
      moreover have "{i. \<exists>e. at (tab U) i = Some e \<and> bucket f U (ekey e) = b'} = set js"
        unfolding at bk js(3) using False b new(1) by auto
      ultimately show ?thesis using js(1,2) by auto
    qed
  qed
  with keys holds show ?thesis unfolding U_def [symmetric] added_def by blast
qed

lemma add_chain:
  assumes ok: "ht_ok f T" and k: "k \<notin> keys T" and room: "nextFree T + 1 < tableSize T" and b: "b = bucket f T k"
    and js: "chained (tab T) b js" "distinct js" "js \<noteq> []"
      "set js = {i. \<exists>e. at (tab T) i = Some e \<and> bucket f T (ekey e) = b}"
    and e: "at (tab T) (last js) = Some e"
    and new: "ekey new = k" "edata new = v" "chain new = 0"
  shows "added f k v T (T\<lparr>nextFree := nextFree T + 1,
    table := Some ((tab T)[last js := Some (e\<lparr>chain := nextFree T\<rparr>), nextFree T := Some new])\<rparr>)"
proof -
  define U where "U = T\<lparr>nextFree := nextFree T + 1, table := Some ((tab T)[last js := Some (e\<lparr>chain := nextFree T\<rparr>), nextFree T := Some new])\<rparr>"
  have U: "closedAreaSize U = closedAreaSize T" "nextFree U = nextFree T + 1" "tableSize U = tableSize T" "bucketMask U = bucketMask T"
    "table U \<noteq> None" by (simp_all add: U_def)
  note o = ht_okD [OF ok] and s = sizes_okD [OF ht_okD(1) [OF ok]]
  define nf l where nf: "nf = nextFree T" and l: "l = last js"
  have nf': "closedAreaSize T < nf" "nf < length (tab T)" "at (tab T) nf = None" "nf \<noteq> 0"
    using s o(3) [of nf] by (auto simp: nf)
  have ll: "l < length (tab T)" "l \<noteq> nf" "l \<in> set js" using e at_length [OF e] nf'(3) js(3) by (auto simp: l)
  have at: "at (tab U) i = (if i = nf then Some new else if i = l then Some (e\<lparr>chain := nf\<rparr>) else at (tab T) i)" for i
    using nf'(2) ll(1) by (simp add: at_update U_def flip: nf l)
  have bk: "bucket f U q = bucket f T q" for q by (simp add: bucket_def U)
  have bl: "bucket f T (ekey e) = b" using js(4) ll(3) e by (auto simp: l)
  have some: "at (tab U) i \<noteq> None" if "at (tab T) i \<noteq> None" for i using that unfolding at by auto
  have old: "\<exists>e'. at (tab T) i = Some e' \<and> ekey e' = ekey e'' \<and> edata e' = edata e''"
    if "at (tab U) i = Some e''" "i \<noteq> nf" for i e''
    using that e unfolding at l by (auto split: if_splits)
  have fwd: "\<exists>e''. at (tab U) i = Some e'' \<and> ekey e'' = ekey e' \<and> edata e'' = edata e'"
    if "at (tab T) i = Some e'" for i e'
    using that e nf'(3) unfolding at l by (cases "i = last js") (auto split: if_splits)
  have atnf: "at (tab U) nf = Some new" unfolding at by simp
  have holds: "holds U q w \<longleftrightarrow> holds T q w \<or> q = k \<and> w = v" for q w
    using holds_added [OF old fwd atnf, of q w] new by simp
  have keys: "keys U = insert k (keys T)" unfolding set_eq_iff insert_iff keys_holds holds by blast
  have bucketset: "{i. \<exists>e. at (tab U) i = Some e \<and> bucket f U (ekey e) = b'}
      = {i. \<exists>e. at (tab T) i = Some e \<and> bucket f T (ekey e) = b'} \<union> (if b' = b then {nf} else {})" for b'
  proof (rule set_eqI)
    fix i
    show "i \<in> {i. \<exists>e. at (tab U) i = Some e \<and> bucket f U (ekey e) = b'} \<longleftrightarrow>
      i \<in> {i. \<exists>e. at (tab T) i = Some e \<and> bucket f T (ekey e) = b'} \<union> (if b' = b then {nf} else {})"
      unfolding bk at using new(1) b bl e nf'(3) ll(2) by (auto simp: l split: if_splits)
  qed
  have "ht_ok f U" unfolding ht_ok_def
  proof (intro conjI allI impI)
    show "sizes_ok U" using o(1) room U s(2) by (auto simp: sizes_ok_def U_def)
    show "at (tab U) 0 = None" unfolding at using nf'(4) o(2) e l by (cases "last js = 0") auto
    show "(at (tab U) i \<noteq> None) = (i < nextFree U)" if "closedAreaSize U < i" for i
      unfolding at U using that [unfolded U] o(3) [of i] e by (auto simp: nf l)
    show "at (tab U) (bucket f U (ekey e')) \<noteq> None" if e': "at (tab U) i = Some e'" for i e'
    proof (cases "i = nf")
      case True
      have "at (tab T) b \<noteq> None" using o(4) [OF e] bl by simp
      with True e' atnf new(1) b some show ?thesis unfolding bk by auto
    next
      case False
      then show ?thesis using old [OF e' False] o(4) some unfolding bk by metis
    qed
    show "i = j" if ij: "at (tab U) i = Some e1 \<and> at (tab U) j = Some e2 \<and> ekey e1 = ekey e2" for i j e1 e2
    proof -
      have nk: "ekey e3 \<noteq> k" if "at (tab T) i' = Some e3" for i' e3 using k that by (auto simp: keys_def)
      have o': "\<exists>e3. at (tab T) i' = Some e3 \<and> ekey e3 = ekey e4" if "at (tab U) i' = Some e4" "i' \<noteq> nf" for i' e4
        using old [OF that] by blast
      have k': "ekey e4 = k" if "at (tab U) nf = Some e4" for e4 using that atnf new(1) by simp
      consider "i = nf" "j = nf" | "i = nf" "j \<noteq> nf" | "i \<noteq> nf" "j = nf" | "i \<noteq> nf" "j \<noteq> nf" by blast
      then show ?thesis
      proof cases
        case 2 then show ?thesis using o' [of j e2] k' [of e1] nk ij by metis
      next
        case 3 then show ?thesis using o' [of i e1] k' [of e2] nk ij by metis
      next
        case 4 then show ?thesis using o' [of i e1] o' [of j e2] o(6) ij by metis
      qed simp
    qed
    show "nextFree U = closedAreaSize U + 1 + collisions f (closedAreaSize U) (keys U)"
      using o(7) collisions_insert [OF finite_keys k, of f "closedAreaSize T"] e bl b
      unfolding keys U image_bucket by auto
    show "\<exists>js. chained (tab U) b' js \<and> distinct js \<and> set js = {i. \<exists>e. at (tab U) i = Some e \<and> bucket f U (ekey e) = b'}"
      if b': "1 \<le> b' \<and> b' \<le> closedAreaSize U \<and> at (tab U) b' \<noteq> None" for b'
    proof (cases "b' = b")
      case True
      have "nf \<notin> set js" using js(4) nf'(3) by auto
      with chained_extend [OF js(1,3,2) _ nf'(4,2) e new(3)] js True bucketset [of b]
      show ?thesis by (intro exI [of _ "js @ [nf]"]) (simp add: nf U_def)
    next
      case False
      obtain ks where ks: "chained (tab T) b' ks" "distinct ks"
        "set ks = {i. \<exists>e. at (tab T) i = Some e \<and> bucket f T (ekey e) = b'}"
        using o(5) [of b'] b' [unfolded U] nf'(1) e unfolding at by (auto simp: l split: if_splits)
      have "nf \<notin> set ks" "l \<notin> set ks" using ks(3) nf'(3) e bl False by (auto simp: l)
      then have "chained (tab U) b' ks = chained (tab T) b' ks" by (intro chained_cong) (auto simp: at)
      with ks bucketset [of b'] False show ?thesis by auto
    qed
  qed
  with keys holds show ?thesis unfolding U_def [symmetric] added_def by blast
qed

lemma addHere_correct:
  assumes ok: "ht_ok f T" and room: "nextFree T + 1 < tableSize T" and e: "ekey entry = k"
  shows "if k \<in> keys T
    then \<exists>i. addHere (modular f) k entry T = Some (False, i, T) \<and> (\<exists>e. at (tab T) i = Some e \<and> ekey e = k)
    else \<exists>i T'. addHere (modular f) k entry T = Some (True, i, T') \<and> added f k (edata entry) T T' \<and> closedAreaSize T' = closedAreaSize T
       \<and> tableSize T' = tableSize T"
proof -
  note o = ht_okD [OF ok] and s = sizes_okD [OF ht_okD(1) [OF ok]]
  let ?new = "entry\<lparr>chain := 0\<rparr>" and ?b = "bucket f T k"
  have new: "ekey ?new = k" "edata ?new = edata entry" "chain ?new = 0" using e by simp_all
  obtain r where r: "locate (modular f) k T = Some r"
    and cr: "case r of (True, i) \<Rightarrow> \<exists>e. at (tab T) i = Some e \<and> ekey e = k
     | (False, i) \<Rightarrow> k \<notin> keys T \<and> (at (tab T) ?b = None \<and> i = ?b
          \<or> (\<exists>js. at (tab T) ?b \<noteq> None \<and> chained (tab T) ?b js \<and> distinct js \<and> js \<noteq> [] \<and> i = last js
             \<and> set js = {i. \<exists>e. at (tab T) i = Some e \<and> bucket f T (ekey e) = ?b}))"
    using locate_correct [OF ok, of k] by (elim exE conjE) (rule that)
  obtain fd i where ri: "r = (fd, i)" by (cases r)
  note l = r [unfolded ri] and c = cr [unfolded ri]
  show ?thesis
  proof (cases fd)
    case True
    then have "k \<in> keys T" using c by (auto simp: keys_def)
    with True c l show ?thesis by (auto simp: addHere_def)
  next
    case False
    then have k: "k \<notin> keys T" using c by simp
    consider "at (tab T) ?b = None" "i = ?b"
      | js where "chained (tab T) ?b js" "distinct js" "js \<noteq> []" "i = last js"
         "set js = {i. \<exists>e. at (tab T) i = Some e \<and> bucket f T (ekey e) = ?b}"
      using c False by auto
    then show ?thesis
    proof cases
      case 1
      have b: "?b < length (tab T)" using bucket_bounds [OF o(1), of f k] s by auto
      have "addHere (modular f) k entry T = Some (True, ?b, T\<lparr>table := Some ((tab T)[?b := Some ?new])\<rparr>)"
        using l False 1 b s(1) by (simp add: addHere_def slot_tab setSlot_tab Let_def)
      with add_empty [OF ok k refl 1(1) new] k show ?thesis by auto
    next
      case 2
      obtain e' where e': "at (tab T) i = Some e'" "chain e' = 0" using chained_last [OF 2(1,3)] 2(4) by auto
      have nf: "nextFree T < length (tab T)" "at (tab T) (nextFree T) = None" using s o(3) [of "nextFree T"] by auto
      have "addHere (modular f) k entry T = chainLoop k ?new T i"
        using l False e'(1) at_length [OF e'(1)] s(1) by (simp add: addHere_def slot_tab Let_def)
      also have "\<dots> = Some (True, nextFree T, T\<lparr>nextFree := nextFree T + 1,
          table := Some ((tab T)[i := Some (e'\<lparr>chain := nextFree T\<rparr>), nextFree T := Some ?new])\<rparr>)"
        using nf e' by (intro chainLoop_end [OF s(1)]) auto
      finally show ?thesis
        using add_chain [OF ok k room refl 2(1,2,3,5) _ new, of e'] e'(1) 2(4) k by auto
    qed
  qed
qed

lemma isFull_iff:
  assumes "sizes_ok T"
  shows "isFull T \<longleftrightarrow> nextFree T = tableSize T - 1"
proof -
  obtain p where p: "p \<le> 31" "closedAreaSize T = 2 ^ p" "tableSize T = 2 ^ p + 2 ^ p div 4" using assms by (auto simp: sizes_ok_def)
  have "(2::nat) ^ p \<le> 2 ^ 31" using p(1) by (intro power_increasing) auto
  then have "tableSize T < 2 ^ 32" "0 < tableSize T" using p(3) by auto
  then have "(tableSize T + 2 ^ 32 - 1) mod 2 ^ 32 = tableSize T - 1"
    by (metis Nat.add_diff_assoc2 One_nat_def Suc_leI add.commute less_imp_diff_less mod_add_self2 mod_less)
  then show ?thesis by (simp add: isFull_def)
qed

lemma init_sizes:
  assumes "0 < n" "n \<le> 2 ^ 31"
  shows "\<exists>p. 4 \<le> p \<and> p \<le> 31 \<and> closedAreaSize (init n g) = 2 ^ p \<and> n \<le> 2 ^ p \<and> (8 < n \<longrightarrow> 2 ^ p < 2 * n)"
proof -
  have u: "unat (of_nat n :: u32) = n" using assms(2) by (simp add: unat_of_nat)
  obtain k where k: "k \<le> 31" "unat (ceilingPowerOfTwo (of_nat n)) = 2 ^ k" "n \<le> 2 ^ k" "2 ^ k < 2 * n"
    using ceilingPowerOfTwo_bounds [of "of_nat n"] assms u by auto
  show ?thesis
  proof (cases "(2::nat) ^ k < 16")
    case True
    with k show ?thesis by (intro exI [of _ 4]) (auto simp: init_def kMinimumSize_def Let_def)
  next
    case False
    have "4 \<le> k"
    proof (rule ccontr)
      assume "\<not> 4 \<le> k"
      then have "(2::nat) ^ k \<le> 2 ^ 3" by (intro power_increasing) auto
      with False show False by simp
    qed
    with k False show ?thesis by (intro exI [of _ k]) (auto simp: init_def kMinimumSize_def Let_def)
  qed
qed

lemma init_ok:
  assumes "0 < n" "n \<le> 2 ^ 31"
  shows "ht_ok f (init n g :: ('k, 'v) hashtab)" "keys (init n g :: ('k, 'v) hashtab) = {}" "holds (init n g :: ('k, 'v) hashtab) q w \<longleftrightarrow> False"
proof -
  let ?T = "init n g :: ('k, 'v) hashtab"
  obtain p where p: "4 \<le> p" "p \<le> 31" "closedAreaSize ?T = 2 ^ p" using init_sizes [OF assms, of g] by blast
  have "(2::nat) ^ p \<le> 2 ^ 31" "(2::nat) ^ 4 \<le> 2 ^ p" using power_increasing [OF p(2), of "2::nat"] power_increasing [OF p(1), of "2::nat"] by simp_all
  then have b: "(2::nat) ^ p \<le> 2147483648" "16 \<le> (2::nat) ^ p" by simp_all
  have f: "nextFree ?T = 2 ^ p + 1" "bucketMask ?T = 2 ^ p - 1" "table ?T = Some (replicate (2 ^ p + 2 ^ p div 4) None)"
    "tableSize ?T = 2 ^ p + 2 ^ p div 4"
    using p(3) b by (auto simp: init_def Let_def split: if_splits)
  have at: "at (tab ?T) i = None" for i by (simp add: tab_def f at_def)
  show k: "keys ?T = {}" by (simp add: keys_def at)
  show "holds ?T q w \<longleftrightarrow> False" by (simp add: holds_def at)
  have "sizes_ok ?T" using p b by (auto simp: sizes_ok_def f tab_def)
  then show "ht_ok f ?T" using p(3) by (simp add: ht_ok_def at k collisions_def f)
qed

lemma at_iff: "(\<exists>i. at t i = Some e) \<longleftrightarrow> Some e \<in> set t"
proof
  assume "\<exists>i. at t i = Some e"
  then obtain i where "i < length t" "t ! i = Some e" by (auto simp: at_def split: if_splits)
  then show "Some e \<in> set t" by (metis nth_mem)
qed (auto simp: at_def in_set_conv_nth)

lemma set_map_filter_id: "set (List.map_filter (\<lambda>s. s) t) = {e. Some e \<in> set t}"
proof (induction t)
  case (Cons x t)
  then show ?case by (cases x) (auto simp: map_filter_simps)
qed (simp add: map_filter_simps)

lemma set_allEntries: "set (allEntries T) = {e. \<exists>i. at (tab T) i = Some e}"
  unfolding at_iff by (auto simp: allEntries_def tab_def set_map_filter_id split: option.splits)

lemma distinct_map_filter:
  "(\<And>i j e e'. at t i = Some e \<Longrightarrow> at t j = Some e' \<Longrightarrow> g e = g e' \<Longrightarrow> i = j) \<Longrightarrow> distinct (map g (List.map_filter (\<lambda>s. s) t))"
proof (induction t)
  case (Cons x t)
  have "distinct (map g (List.map_filter (\<lambda>s. s) t))"
  proof (rule Cons.IH)
    fix i j e e' assume "at t i = Some e" "at t j = Some e'" "g e = g e'"
    then show "i = j" using Cons.prems [of "Suc i" e "Suc j" e'] by (auto simp: at_def split: if_splits)
  qed
  moreover have "g e \<notin> g ` set (List.map_filter (\<lambda>s. s) t)" if "x = Some e" for e
  proof
    assume "g e \<in> g ` set (List.map_filter (\<lambda>s. s) t)"
    then obtain i e' where "i < length t" "t ! i = Some e'" "g e = g e'" by (auto simp: map_filter_def in_set_conv_nth)
    then show False using Cons.prems [of 0 e "Suc i" e'] that by (auto simp: at_def)
  qed
  ultimately show ?case by (cases x) (auto simp: map_filter_simps)
qed (simp add: map_filter_simps)

lemma distinct_allEntries: "ht_ok f T \<Longrightarrow> distinct (map ekey (allEntries T))"
  using distinct_map_filter [of "tab T" ekey] ht_okD(6) [of f T] by (auto simp: allEntries_def tab_def split: option.splits)

lemma addElementFuel_not_full: "\<not> isFull T \<Longrightarrow> addElementFuel n h k entry T = addHere h k entry T"
  by (cases n) simp_all

lemma rehash_correct:
  assumes "ht_ok f T" "distinct (map ekey es)" "ekey ` set es \<inter> keys T = {}"
    and "collisions f (closedAreaSize T) (keys T \<union> ekey ` set es) + 2 < closedAreaSize T div 4"
  shows "\<exists>T'. foldM (\<lambda>e T'. map_option (\<lambda>(_, _, T''). T'') (addElementFuel n (modular f) (ekey e) e T')) es T = Some T'
    \<and> ht_ok f T' \<and> closedAreaSize T' = closedAreaSize T \<and> keys T' = keys T \<union> ekey ` set es
    \<and> (\<forall>q w. holds T' q w \<longleftrightarrow> holds T q w \<or> (\<exists>e \<in> set es. ekey e = q \<and> edata e = w))"
  using assms
proof (induction es arbitrary: T)
  case (Cons e es)
  note o = ht_okD [OF Cons.prems(1)] and s = sizes_okD [OF ht_okD(1) [OF Cons.prems(1)]]
  have "collisions f (closedAreaSize T) (keys T) \<le> collisions f (closedAreaSize T) (keys T \<union> ekey ` set (e # es))"
    by (rule collisions_mono) (auto simp: finite_keys)
  then have nf: "nextFree T + 1 < tableSize T" using Cons.prems(4) o(7) s(6) by linarith
  then have "\<not> isFull T" by (simp add: isFull_iff [OF o(1)])
  moreover have "ekey e \<notin> keys T" using Cons.prems(3) by auto
  ultimately obtain i T1 where T1: "addElementFuel n (modular f) (ekey e) e T = Some (True, i, T1)"
    "added f (ekey e) (edata e) T T1" "closedAreaSize T1 = closedAreaSize T"
    using addHere_correct [OF Cons.prems(1) nf refl, of e] addElementFuel_not_full [of T n "modular f" "ekey e" e] by auto
  note a = T1(2) [unfolded added_def]
  have "keys T1 \<union> ekey ` set es = keys T \<union> ekey ` set (e # es)" using a by auto
  with Cons.IH [of T1] a T1(3) Cons.prems obtain T' where T':
    "foldM (\<lambda>e T'. map_option (\<lambda>(_, _, T''). T'') (addElementFuel n (modular f) (ekey e) e T')) es T1 = Some T'"
    "ht_ok f T'" "closedAreaSize T' = closedAreaSize T1" "keys T' = keys T1 \<union> ekey ` set es"
    "\<forall>q w. holds T' q w \<longleftrightarrow> holds T1 q w \<or> (\<exists>e \<in> set es. ekey e = q \<and> edata e = w)" by auto
  with T1(1,3) a show ?case by (intro exI [of _ T']) auto
qed simp

lemma grown_size:
  assumes "ht_ok f T" "closedAreaSize T \<le> 2 ^ 30"
  shows "closedAreaSize (init (closedAreaSize T * 5 div 4) True :: ('c, 'd) hashtab) = 2 * closedAreaSize T"
    "0 < closedAreaSize T * 5 div 4" "closedAreaSize T * 5 div 4 \<le> 2 ^ 31"
proof -
  obtain p where p: "4 \<le> p" "closedAreaSize T = 2 ^ p" using ht_okD(1) [OF assms(1)] by (auto simp: sizes_ok_def)
  obtain r where r: "p = Suc (Suc r)" using p(1) by (cases p; cases "p - 1") auto
  let ?n = "closedAreaSize T * 5 div 4"
  have n: "?n = 5 * 2 ^ r" using p(2) r by simp
  have 16: "16 \<le> closedAreaSize T" by (rule sizes_okD(7) [OF ht_okD(1) [OF assms(1)]])
  show b: "0 < ?n" "?n \<le> 2 ^ 31" using assms(2) 16 by auto
  obtain q where q: "closedAreaSize (init ?n True :: ('c, 'd) hashtab) = 2 ^ q" "?n \<le> 2 ^ q" "8 < ?n \<longrightarrow> 2 ^ q < 2 * ?n"
    using init_sizes [OF b] by blast
  have "8 < ?n" using 16 by simp
  with q n have lt: "(2::nat) ^ q < 2 ^ Suc (Suc p)" "(2::nat) ^ p < 2 ^ q" using r by simp_all
  have "q < Suc (Suc p)" by (rule power_less_imp_less_exp [OF _ lt(1)]) simp
  moreover have "p < q" by (rule power_less_imp_less_exp [OF _ lt(2)]) simp
  ultimately have "q = Suc p" by simp
  then show "closedAreaSize (init ?n True :: ('c, 'd) hashtab) = 2 * closedAreaSize T" using q(1) p(2) by simp
qed

lemma addElementFuel_correct:
  assumes ok: "ht_ok f T" and small: "card (keys T) + 2 \<le> 2 ^ 28" and e: "ekey entry = k"
  shows "if k \<in> keys T
    then \<exists>i T'. addElementFuel (Suc n) (modular f) k entry T = Some (False, i, T') \<and> ht_ok f T' \<and> keys T' = keys T \<and> holds T' = holds T
    else \<exists>i T'. addElementFuel (Suc n) (modular f) k entry T = Some (True, i, T') \<and> added f k (edata entry) T T'"
proof (cases "isFull T")
  case False
  note o = ht_okD [OF ok] and s = sizes_okD [OF ht_okD(1) [OF ok]]
  have "nextFree T + 1 < tableSize T" using False s(4) by (simp add: isFull_iff [OF o(1)])
  from addHere_correct [OF ok this e] show ?thesis
    using False ok by (auto split: if_splits)
next
  case True
  note o = ht_okD [OF ok] and s = sizes_okD [OF ht_okD(1) [OF ok]]
  have full: "collisions f (closedAreaSize T) (keys T) + 2 = closedAreaSize T div 4"
    using True o(7) s(4,6) by (simp add: isFull_iff [OF o(1)])
  obtain p where p: "4 \<le> p" "closedAreaSize T = 2 ^ p" using o(1) by (auto simp: sizes_ok_def)
  have div4: "4 * (closedAreaSize T div 4) = closedAreaSize T"
    using p(1) unfolding p(2) by (cases p; cases "p - 1") auto
  have "collisions f (closedAreaSize T) (keys T) \<le> card (keys T)" by (simp add: collisions_def)
  then have le: "closedAreaSize T \<le> 2 ^ 30" using small full div4 by simp
  let ?T0 = "init (closedAreaSize T * 5 div 4) True :: ('a, 'b) hashtab"
  note g = grown_size [OF ok le]
  have i0: "ht_ok f ?T0" "keys ?T0 = {}" "\<not> holds ?T0 q w" for q w
    by (simp_all add: init_ok [OF g(2,3)])
  have ks: "ekey ` set (allEntries T) = keys T" by (auto simp: set_allEntries keys_def)
  have c2: "collisions f (2 * closedAreaSize T) (keys T) + 2 < 2 * closedAreaSize T div 4"
    using collisions_double [OF finite_keys, of f "closedAreaSize T" T] full s(7) div4 by linarith
  have c3: "closedAreaSize ?T0 = 2 * closedAreaSize T" by (rule g(1))
  obtain T1 where T1: "foldM (\<lambda>e T'. map_option (\<lambda>(_, _, T''). T'') (addElementFuel n (modular f) (ekey e) e T'))
      (allEntries T) ?T0 = Some T1" "ht_ok f T1" "closedAreaSize T1 = 2 * closedAreaSize T" "keys T1 = keys T"
    "\<forall>q w. holds T1 q w \<longleftrightarrow> (\<exists>e \<in> set (allEntries T). ekey e = q \<and> edata e = w)"
    using rehash_correct [OF i0(1) distinct_allEntries [OF ok], where n = n] c2 c3 ks i0(2,3) by auto
  have h1: "holds T1 = holds T" using T1(5) by (auto simp: fun_eq_iff set_allEntries holds_def)
  note o1 = ht_okD [OF T1(2)] and s1 = sizes_okD [OF ht_okD(1) [OF T1(2)]]
  have "nextFree T1 + 1 < tableSize T1" using o1(7) s1(6) c2 T1(3,4) by simp
  note a = addHere_correct [OF T1(2) this e]
  have "addElementFuel (Suc n) (modular f) k entry T = addHere (modular f) k entry T1" using True T1(1) by simp
  with a T1(2,4) h1 show ?thesis by (auto simp: added_def split: if_splits)
qed

section \<open>The table as a map\<close>

text \<open>What a client does to look a key up: \<open>locate\<close> and then \<open>getData\<close>.\<close>

definition lookup :: "(nat \<Rightarrow> 'k \<Rightarrow> nat) \<Rightarrow> ('k, 'v) hashtab \<Rightarrow> 'k \<Rightarrow> 'v option" where
  "lookup h T k = (case locate h k T of Some (True, i) \<Rightarrow> getData i T | _ \<Rightarrow> None)"

lemma lookup_iff:
  assumes ok: "ht_ok f T"
  shows "lookup (modular f) T k = Some v \<longleftrightarrow> holds T k v"
proof -
  note o = ht_okD [OF ok] and s = sizes_okD [OF ht_okD(1) [OF ok]]
  obtain fd i where l: "locate (modular f) k T = Some (fd, i)" "fd \<Longrightarrow> \<exists>e. at (tab T) i = Some e \<and> ekey e = k" "\<not> fd \<Longrightarrow> k \<notin> keys T"
    using locate_correct [OF ok, of k] by (auto split: bool.splits prod.splits)
  show ?thesis
  proof (cases fd)
    case True
    with l(2) obtain e where e: "at (tab T) i = Some e" "ekey e = k" by blast
    have "lookup (modular f) T k = Some (edata e)"
      using l(1) True e s(1) by (simp add: lookup_def getData_def entryAt_tab)
    moreover have "holds T k v \<longleftrightarrow> v = edata e"
      unfolding holds_def using e o(6) [OF e(1)] by (metis option.inject)
    ultimately show ?thesis by auto
  next
    case False
    then show ?thesis using l(1,3) by (auto simp: lookup_def keys_holds)
  qed
qed

lemma keys_lookup: "ht_ok f T \<Longrightarrow> k \<in> keys T \<longleftrightarrow> lookup (modular f) T k \<noteq> None"
  using keys_holds lookup_iff by (metis not_None_eq)

lemma lookup_eqI:
  assumes "ht_ok f T" "\<And>q w. holds T q w \<longleftrightarrow> m q = Some w"
  shows "lookup (modular f) T = m"
proof
  fix q
  show "lookup (modular f) T q = m q"
    using lookup_iff [OF assms(1), of q] assms(2) [of q] by (metis option.exhaust)
qed

lemma add_correct:
  assumes ok: "ht_ok f T" and small: "card (keys T) + 2 \<le> 2 ^ 28"
  shows "\<exists>T'. add (modular f) k v T = Some (lookup (modular f) T k = None, T') \<and> ht_ok f T' \<and> keys T' = insert k (keys T)
    \<and> lookup (modular f) T' = (if lookup (modular f) T k = None then (lookup (modular f) T)(k \<mapsto> v) else lookup (modular f) T)"
proof -
  let ?e = "\<lparr>ekey = k, edata = v, chain = 0\<rparr>"
  have "addElement (modular f) k ?e T = addElementFuel (Suc 24) (modular f) k ?e T" by (simp add: addElement_def)
  note c = addElementFuel_correct [OF ok small, of ?e k 24, folded this, simplified]
  show ?thesis
  proof (cases "k \<in> keys T")
    case True
    with c obtain i T' where T': "addElement (modular f) k ?e T = Some (False, i, T')" "ht_ok f T'" "keys T' = keys T" "holds T' = holds T"
      by auto
    have "lookup (modular f) T' = lookup (modular f) T"
      by (rule lookup_eqI [OF T'(2)]) (simp add: T'(4) lookup_iff [OF ok])
    with T' True keys_lookup [OF ok, of k] show ?thesis by (auto simp: add_def insert_absorb)
  next
    case False
    with c obtain i T' where T': "addElement (modular f) k ?e T = Some (True, i, T')" "added f k v T T'" by auto
    note a = T'(2) [unfolded added_def]
    have none: "lookup (modular f) T k = None" using False keys_lookup [OF ok] by blast
    have "holds T' q w \<longleftrightarrow> ((lookup (modular f) T)(k \<mapsto> v)) q = Some w" for q w
      using a none lookup_iff [OF ok, of q w] by auto
    then have "lookup (modular f) T' = (lookup (modular f) T)(k \<mapsto> v)" using a by (intro lookup_eqI) auto
    with T'(1) a none show ?thesis by (auto simp: add_def)
  qed
qed

interpretation hash: keyed_table "lookup (modular f)" "\<lambda>k v T. map_option snd (add (modular f) k v T)" "ht_ok f"
  "\<lambda>T n. card (keys T) + n + 1 \<le> 2 ^ 28" for f :: "'k \<Rightarrow> nat"
proof unfold_locales
  fix T :: "('k, 'v) hashtab" and n k v
  assume ok: "ht_ok f T" and room: "card (keys T) + Suc n + 1 \<le> 2 ^ 28"
  obtain T' where T': "add (modular f) k v T = Some (lookup (modular f) T k = None, T')" "ht_ok f T'" "keys T' = insert k (keys T)"
    "lookup (modular f) T' = (if lookup (modular f) T k = None then (lookup (modular f) T)(k \<mapsto> v) else lookup (modular f) T)"
    using add_correct [OF ok, of k v] room by auto
  have "card (keys T') \<le> Suc (card (keys T))" unfolding T'(3) by (simp add: card_insert_if finite_keys)
  with T' room show "\<exists>T'. map_option snd (add (modular f) k v T) = Some T' \<and> ht_ok f T' \<and> card (keys T') + n + 1 \<le> 2 ^ 28
      \<and> lookup (modular f) T' = (if lookup (modular f) T k = None then (lookup (modular f) T)(k \<mapsto> v) else lookup (modular f) T)"
    by auto
qed

section \<open>Properties\<close>

text \<open>
  C38: a table is a map from its first allocation on. Adding any list of up to \<open>2 ^ 28 - 1\<close> elements to a fresh
  table, growing and rehashing as often as that takes, always returns, without an access outside the table or
  through a null pointer, and afterwards \<open>locate\<close> followed by \<open>getData\<close> finds for each key the data of its first
  addition and nothing for any other key. The hash is any function reduced modulo \<open>_closedAreaSize\<close>, as in all
  the classes of the header.
\<close>

theorem hashtab_add_all:
  assumes "0 < n" "n \<le> 2 ^ 31" "length kvs + 1 \<le> 2 ^ 28"
  shows "\<exists>T. foldM (\<lambda>(k, v) T. map_option snd (add (modular f) k v T)) kvs (init n True) = Some T
    \<and> ht_ok f T \<and> (\<forall>q. lookup (modular f) T q = map_of kvs q)"
proof -
  let ?T0 = "init n True :: ('a, 'b) hashtab"
  have i: "ht_ok f ?T0" "keys ?T0 = {}" by (simp_all add: init_ok [OF assms(1,2)])
  have l0: "lookup (modular f) ?T0 = Map.empty"
    by (rule lookup_eqI [OF i(1)]) (simp add: init_ok [OF assms(1,2)])
  from hash.add_all [OF i(1), of kvs] obtain T where
    "foldM (\<lambda>(k, v) T. map_option snd (add (modular f) k v T)) kvs ?T0 = Some T" "ht_ok f T"
    "lookup (modular f) T = map_of kvs ++ Map.empty"
    unfolding l0 i(2) using assms(3) by auto
  then show ?thesis by auto
qed

theorem hashtab_add_all_witness:
  "\<exists>T. foldM (\<lambda>(k, v) T. map_option snd (add (modular unat) k v T)) [(12 :: u64, True), (28, False), (12, False)] (init 64 True) = Some T
    \<and> ht_ok unat T \<and> (\<forall>q. lookup (modular unat) T q = map_of [(12, True), (28, False), (12, False)] q)"
  by (rule hashtab_add_all) simp_all

text \<open>
  one addition to a well-formed table. \<open>add\<close> reports whether the key was absent, leaves an existing entry
  alone, and keeps the table well formed, including when the open area is exhausted and the table is grown and
  rehashed on the way.
\<close>

lemma hashtab_add:
  assumes "ht_ok f T" "card (keys T) + 2 \<le> 2 ^ 28"
  shows "\<exists>T'. add (modular f) k v T = Some (lookup (modular f) T k = None, T') \<and> ht_ok f T'
    \<and> (\<forall>q. lookup (modular f) T' q = (if q = k \<and> lookup (modular f) T k = None then Some v else lookup (modular f) T q))"
  using add_correct [OF assms, of k v] by auto

text \<open>
  The open area never overflows. In a well-formed table the number of used open slots is the number of
  colliding keys; rehashing into a table of twice the size cannot increase it, so after a growth there is again
  a free slot and growths never nest: a fuel of one is enough for \<open>addElement\<close>.
\<close>

lemma hashtab_growth_does_not_nest:
  assumes "ht_ok f T" "card (keys T) + 2 \<le> 2 ^ 28" "ekey entry = k"
  shows "\<exists>r. addElementFuel 1 (modular f) k entry T = Some r \<and> (case r of (b, i, T') \<Rightarrow> ht_ok f T' \<and> b = (k \<notin> keys T)
     \<and> nextFree T' = closedAreaSize T' + 1 + collisions f (closedAreaSize T') (keys T') \<and> nextFree T' < tableSize T')"
proof -
  note c = addElementFuel_correct [OF assms, of 0]
  obtain b i T' where r: "addElementFuel (Suc 0) (modular f) k entry T = Some (b, i, T')" "ht_ok f T'" "b = (k \<notin> keys T)"
    using c by (auto simp: added_def split: if_splits)
  have "nextFree T' < tableSize T'" by (rule sizes_okD(4) [OF ht_okD(1) [OF r(2)]])
  with r ht_okD(7) [OF r(2)] show ?thesis by simp
qed

end
