(* ===== verification/VPConstraint.thy ===== *)
theory VPConstraint
  imports Bits
begin

text \<open>
  The integer constraints of value propagation (\<open>compiler/optimizer/VPConstraint.{hpp,cpp}\<close>): constants,
  ranges and merged lists of them for 16-, 32- and 64-bit values, their creation, the bounds they report, the
  addition and subtraction of ranges with the overflow indication, and the comparisons \<open>mustBe...\<close>. The class
  hierarchy is one datatype: the \<open>as...Constraint\<close> downcasts are the partial function \<open>asConstraint\<close>. A result of
  type \<open>constraint option option\<close> is \<open>None\<close> where the C++ code runs into undefined behaviour (a null dereference or
  a signed overflow), and \<open>Some None\<close> where it returns \<open>NULL\<close>. The three classes of each kind have the same code
  at three widths, so an operation is written once over the data type, and the code of each class is an instance.
  Constraints are shared through a hash table and never change once created, so that a pointer comparison is
  an equality of constraints; the field \<open>_unsignedType\<close> is false in every constraint the classes create,
  and its branches are left out.
\<close>

section \<open>Data\<close>

datatype data_type = Int8 | Int16 | Int32 | Int64

datatype yesNoMaybe = TR_no | TR_yes | TR_maybe

fun bitsOf :: "data_type \<Rightarrow> nat" where
  "bitsOf Int8 = 8" | "bitsOf Int16 = 16" | "bitsOf Int32 = 32" | "bitsOf Int64 = 64"

definition getMinSigned :: "data_type \<Rightarrow> int" where
  "getMinSigned t = - (2 ^ (bitsOf t - 1))"

definition getMaxSigned :: "data_type \<Rightarrow> int" where
  "getMaxSigned t = 2 ^ (bitsOf t - 1) - 1"

definition getMaxUnsigned :: "data_type \<Rightarrow> int" where
  "getMaxUnsigned t = 2 ^ bitsOf t - 1"

text \<open>The conversion of an integer to the signed type of that width, and to the unsigned one.\<close>

definition castSigned :: "data_type \<Rightarrow> int \<Rightarrow> int" where
  "castSigned t v = signed_take_bit (bitsOf t - 1) v"

definition castUnsigned :: "data_type \<Rightarrow> int \<Rightarrow> int" where
  "castUnsigned t v = take_bit (bitsOf t) v"

datatype constraint =
    Const data_type int
  | Range data_type int int yesNoMaybe
  | Merged "constraint list"

fun asConstraint :: "data_type \<Rightarrow> constraint \<Rightarrow> constraint option" where
  "asConstraint t (Const t' v) = (if t' = t then Some (Const t' v) else None)"
| "asConstraint t (Range t' l h ov) = (if t' = t then Some (Range t' l h ov) else None)"
| "asConstraint t (Merged cs) = None"

fun asConst :: "data_type \<Rightarrow> constraint \<Rightarrow> int option" where
  "asConst t (Const t' v) = (if t' = t then Some v else None)"
| "asConst t c = None"

text \<open>The type of a merged constraint is read off the first element of its list.\<close>

definition mergedType :: "constraint list \<Rightarrow> data_type" where
  "mergedType cs = (case cs of [] \<Rightarrow> Int32
     | c # _ \<Rightarrow> if asConstraint Int16 c \<noteq> None then Int16 else if asConstraint Int64 c \<noteq> None then Int64 else Int32)"

fun asMerged :: "data_type \<Rightarrow> constraint \<Rightarrow> constraint list option" where
  "asMerged t (Merged cs) = (if mergedType cs = t then Some cs else None)"
| "asMerged t c = None"

fun low :: "constraint \<Rightarrow> int" where
  "low (Const t v) = v" | "low (Range t l h ov) = l" | "low (Merged cs) = 0"

fun high :: "constraint \<Rightarrow> int" where
  "high (Const t v) = v" | "high (Range t l h ov) = h" | "high (Merged cs) = 0"

fun canOverflow :: "constraint \<Rightarrow> yesNoMaybe" where
  "canOverflow (Const t v) = TR_no" | "canOverflow (Range t l h ov) = ov" | "canOverflow (Merged cs) = TR_maybe"

fun priority :: "constraint \<Rightarrow> nat" where
  "priority (Const t v) = (case t of Int16 \<Rightarrow> 14 | Int32 \<Rightarrow> 13 | _ \<Rightarrow> 12)"
| "priority (Range t l h ov) = (case t of Int16 \<Rightarrow> 14 | Int32 \<Rightarrow> 13 | _ \<Rightarrow> 12)"
| "priority (Merged cs) = 15"

section \<open>Creation\<close>

definition rangeCreate :: "data_type \<Rightarrow> int \<Rightarrow> int \<Rightarrow> yesNoMaybe \<Rightarrow> constraint option" where
  "rangeCreate t lo hi ov =
     (if lo = getMinSigned t \<and> hi = getMaxSigned t then None
      else if lo = hi then Some (Const t lo)
      else Some (Range t lo hi ov))"

definition shortRangeCreate :: "int \<Rightarrow> int \<Rightarrow> yesNoMaybe \<Rightarrow> constraint option" where
  "shortRangeCreate lo hi ov = rangeCreate Int16 lo hi ov"

definition intRangeCreate :: "int \<Rightarrow> int \<Rightarrow> yesNoMaybe \<Rightarrow> constraint option" where
  "intRangeCreate lo hi ov = rangeCreate Int32 lo hi ov"

definition longRangeCreate :: "int \<Rightarrow> int \<Rightarrow> bool \<Rightarrow> yesNoMaybe \<Rightarrow> constraint option" where
  "longRangeCreate lo hi powerOfTwo ov =
     (if lo = getMinSigned Int64 \<and> hi = getMaxSigned Int64 \<and> \<not> powerOfTwo then None
      else if lo = hi then Some (Const Int64 lo)
      else Some (Range Int64 lo hi ov))"

text \<open>The call of the width's range creation with the default arguments.\<close>

definition createRange :: "data_type \<Rightarrow> int \<Rightarrow> int \<Rightarrow> constraint option" where
  "createRange t lo hi = (case t of Int16 \<Rightarrow> shortRangeCreate lo hi TR_no
     | Int64 \<Rightarrow> longRangeCreate lo hi False TR_no | _ \<Rightarrow> intRangeCreate lo hi TR_no)"

text \<open>\<open>VPMergedConstraints::create\<close> of two constraints, and of a list; it dereferences its elements.\<close>

definition mergedCreate2 :: "constraint option \<Rightarrow> constraint option \<Rightarrow> constraint option option" where
  "mergedCreate2 first second = do { a \<leftarrow> first; b \<leftarrow> second; Some (Some (Merged [a, b])) }"

definition mergedCreate :: "constraint option list \<Rightarrow> constraint option option" where
  "mergedCreate cs = (if None \<in> set cs then None else Some (Some (Merged (map the cs))))"

definition createExclusion :: "data_type \<Rightarrow> int \<Rightarrow> constraint option option" where
  "createExclusion t v =
     (if v = getMinSigned t then Some (createRange t (v + 1) (getMaxSigned t))
      else if v = getMaxSigned t then Some (createRange t (getMinSigned t) (v - 1))
      else mergedCreate2 (createRange t (getMinSigned t) (v - 1)) (createRange t (v + 1) (getMaxSigned t)))"

definition shortCreateExclusion :: "int \<Rightarrow> constraint option option" where
  "shortCreateExclusion v = createExclusion Int16 v"

definition intCreateExclusion :: "int \<Rightarrow> constraint option option" where
  "intCreateExclusion v = createExclusion Int32 v"

definition longCreateExclusion :: "int \<Rightarrow> constraint option option" where
  "longCreateExclusion v = createExclusion Int64 v"

definition constrainRangeByPrecision :: "int \<Rightarrow> int \<Rightarrow> int \<Rightarrow> bool \<Rightarrow> int \<times> int" where
  "constrainRangeByPrecision lo hi precision isNonNegative =
     (let (lowResult, highResult) =
        (if precision \<ge> 1 then
           let highFromP = getMaxAbsValueForPrecision precision; lowFromP = highFromP * -1 in
           if highFromP \<noteq> getMaxSigned Int64 then (max lo lowFromP, min hi highFromP) else (lo, hi)
         else (lo, hi))
      in (if isNonNegative then 0 else lowResult, highResult))"

definition shortCreateWithPrecision :: "int \<Rightarrow> bool \<Rightarrow> constraint option" where
  "shortCreateWithPrecision precision isNonNegative =
     (let (lo, hi) = constrainRangeByPrecision (getMinSigned Int16) (getMaxSigned Int16) precision isNonNegative
      in shortRangeCreate (castSigned Int16 lo) (castSigned Int16 hi) TR_no)"

definition intCreateWithPrecision ::
    "data_type \<Rightarrow> int \<Rightarrow> yesNoMaybe \<Rightarrow> bool \<Rightarrow> constraint option" where
  "intCreateWithPrecision dt precision isUnsigned isNonNegative =
     (let byP = (\<lambda>l h. constrainRangeByPrecision l h precision isNonNegative);
          (lo, hi) = (if dt = Int32 then byP (getMinSigned Int32) (getMaxSigned Int32)
                      else (getMinSigned Int64, getMaxSigned Int64));
          (lo, hi) = (if isUnsigned = TR_no then
                        (if dt = Int8 then byP (getMinSigned Int8) (getMaxSigned Int8)
                         else if dt = Int16 then byP (getMinSigned Int16) (getMaxSigned Int16) else (lo, hi))
                      else if isUnsigned = TR_yes then
                        (if dt = Int8 then byP 0 (getMaxUnsigned Int8)
                         else if dt = Int16 then byP 0 (getMaxUnsigned Int16) else (lo, hi))
                      else
                        (if dt = Int8 then byP (getMinSigned Int8) (getMaxUnsigned Int8)
                         else if dt = Int16 then byP (getMinSigned Int16) (getMaxUnsigned Int16) else (lo, hi)))
      in intRangeCreate (castSigned Int32 lo) (castSigned Int32 hi) TR_no)"

section \<open>Bounds\<close>

text \<open>
  \<open>getLowShort\<close>, \<open>getLowInt\<close>, \<open>getLowLong\<close> and their counterparts are defined on every constraint: a constraint of
  another type reports the bounds of the type asked for, and a merged one asks the elements at the ends of its list.
\<close>

fun getLow :: "data_type \<Rightarrow> constraint \<Rightarrow> int option" where
  "getLow t (Const t' v) = Some (if t' = t then v else getMinSigned t)"
| "getLow t (Range t' l h ov) = Some (if t' = t then l else getMinSigned t)"
| "getLow t (Merged []) = None"
| "getLow t (Merged (c # cs)) = getLow t c"

fun getHigh :: "data_type \<Rightarrow> constraint \<Rightarrow> int option" where
  "getHigh t (Const t' v) = Some (if t' = t then v else getMaxSigned t)"
| "getHigh t (Range t' l h ov) = Some (if t' = t then h else getMaxSigned t)"
| "getHigh t (Merged []) = None"
| "getHigh t (Merged (c # cs)) =
     (if t = Int16 \<or> cs = [] then getHigh t c else getHigh t (Merged cs))"

definition getLowShort where "getLowShort = getLow Int16"
definition getLowInt where "getLowInt = getLow Int32"
definition getLowLong where "getLowLong = getLow Int64"
definition getHighShort where "getHighShort = getHigh Int16"
definition getHighInt where "getHighInt = getHigh Int32"
definition getHighLong where "getHighLong = getHigh Int64"

definition unsignedLowOf :: "data_type \<Rightarrow> int \<Rightarrow> int \<Rightarrow> int" where
  "unsignedLowOf t lo hi = (if lo XOR hi \<ge> 0 then castUnsigned t lo else 0)"

definition unsignedHighOf :: "data_type \<Rightarrow> int \<Rightarrow> int \<Rightarrow> int" where
  "unsignedHighOf t lo hi = (if lo XOR hi \<ge> 0 then castUnsigned t hi else getMaxUnsigned t)"

fun getUnsignedLow :: "data_type \<Rightarrow> constraint \<Rightarrow> int option" where
  "getUnsignedLow t (Merged []) = None"
| "getUnsignedLow t (Merged (c # cs)) = getUnsignedLow t c"
| "getUnsignedLow t c = do { lo \<leftarrow> getLow t c; hi \<leftarrow> getHigh t c; Some (unsignedLowOf t lo hi) }"

fun getUnsignedHigh :: "data_type \<Rightarrow> constraint \<Rightarrow> int option" where
  "getUnsignedHigh t (Merged []) = None"
| "getUnsignedHigh t (Merged (c # cs)) =
     (if t = Int16 then getUnsignedHigh t c
      else if cs \<noteq> [] then getUnsignedHigh t (Merged cs)
      else if t = Int32 then map_option (castUnsigned Int32) (getHigh t c)
      else getUnsignedHigh t c)"
| "getUnsignedHigh t c = do { lo \<leftarrow> getLow t c; hi \<leftarrow> getHigh t c; Some (unsignedHighOf t lo hi) }"

fun getPrecision :: "constraint \<Rightarrow> int" where
  "getPrecision (Const t v) = getPrecisionFromValue v"
| "getPrecision (Range t l h ov) = getPrecisionFromRange l h"
| "getPrecision (Merged cs) = 63"

section \<open>Addition and subtraction\<close>

definition addWithOverflow :: "data_type \<Rightarrow> int \<Rightarrow> int \<Rightarrow> int \<times> bool" where
  "addWithOverflow t a b =
     (let sum = castSigned t (castUnsigned Int64 (castUnsigned Int64 a + castUnsigned Int64 b))
      in (sum, a XOR b \<ge> 0 \<and> a XOR sum < 0))"

definition subWithOverflow :: "data_type \<Rightarrow> int \<Rightarrow> int \<Rightarrow> int \<times> bool" where
  "subWithOverflow t a b =
     (let diff = castSigned t (castUnsigned Int64 (castUnsigned Int64 a - castUnsigned Int64 b))
      in (diff, a XOR b < 0 \<and> a XOR diff < 0))"

text \<open>
  The range of a sum or difference from its bounds and their overflow indications. The \<open>create\<close> argument is the
  call that marks the range as overflowing or not.
\<close>

definition getRangeWith ::
    "(int \<Rightarrow> int \<Rightarrow> yesNoMaybe \<Rightarrow> constraint option) \<Rightarrow> data_type \<Rightarrow> int \<Rightarrow> int \<Rightarrow> bool \<Rightarrow> bool
     \<Rightarrow> constraint option option" where
  "getRangeWith create t lo hi lowCanOverflow highCanOverflow =
     (if lowCanOverflow \<and> highCanOverflow then
        if hi XOR lo < 0 then Some None else Some (create lo hi TR_yes)
      else if lowCanOverflow \<or> highCanOverflow then
        if hi \<ge> lo then Some None
        else mergedCreate2 (create (getMinSigned t) hi TR_yes) (create lo (getMaxSigned t) TR_yes)
      else Some (create lo hi TR_no))"

definition shortGetRange :: "int \<Rightarrow> int \<Rightarrow> bool \<Rightarrow> bool \<Rightarrow> constraint option option" where
  "shortGetRange = getRangeWith shortRangeCreate Int16"

definition intGetRange :: "int \<Rightarrow> int \<Rightarrow> bool \<Rightarrow> bool \<Rightarrow> constraint option option" where
  "intGetRange = getRangeWith intRangeCreate Int32"

text \<open>
  The 64-bit code passes the overflow indication in the position of the flag \<open>powerOfTwo\<close> of
  \<open>VPLongRange::create\<close>, whose own overflow argument keeps its default.
\<close>

definition longGetRange :: "int \<Rightarrow> int \<Rightarrow> bool \<Rightarrow> bool \<Rightarrow> constraint option option" where
  "longGetRange = getRangeWith (\<lambda>lo hi flag. longRangeCreate lo hi (flag \<noteq> TR_no) TR_no) Int64"

definition getRange :: "data_type \<Rightarrow> int \<Rightarrow> int \<Rightarrow> bool \<Rightarrow> bool \<Rightarrow> constraint option option" where
  "getRange t = (case t of Int16 \<Rightarrow> shortGetRange | Int64 \<Rightarrow> longGetRange | _ \<Rightarrow> intGetRange)"

definition addSimple :: "data_type \<Rightarrow> constraint \<Rightarrow> constraint \<Rightarrow> data_type \<Rightarrow> constraint option option" where
  "addSimple t this other dt =
     (case asConstraint t other of None \<Rightarrow> Some None
      | Some o' \<Rightarrow>
          if dt \<noteq> t then Some None
          else let (lo, lowOverflow) = addWithOverflow t (low this) (low o');
                   (hi, highOverflow) = addWithOverflow t (high this) (high o')
               in getRange t lo hi lowOverflow highOverflow)"

definition subtractSimple :: "data_type \<Rightarrow> constraint \<Rightarrow> constraint \<Rightarrow> data_type \<Rightarrow> constraint option option" where
  "subtractSimple t this other dt =
     (case asConstraint t other of None \<Rightarrow> Some None
      | Some o' \<Rightarrow>
          if dt \<noteq> t then Some None
          else let (lo, lowOverflow) = subWithOverflow t (low this) (high o');
                   (hi, highOverflow) = subWithOverflow t (high this) (low o')
               in getRange t lo hi lowOverflow highOverflow)"

definition shortAdd where "shortAdd = addSimple Int16"
definition intAdd where "intAdd = addSimple Int32"
definition longAdd where "longAdd = addSimple Int64"
definition shortSubtract where "shortSubtract = subtractSimple Int16"
definition intSubtract where "intSubtract = subtractSimple Int32"
definition longSubtract where "longSubtract = subtractSimple Int64"

text \<open>The virtual calls: which class the receiver belongs to selects the code.\<close>

fun simpleType :: "constraint \<Rightarrow> data_type option" where
  "simpleType (Const t v) = Some t" | "simpleType (Range t l h ov) = Some t" | "simpleType (Merged cs) = None"

definition addConstraints :: "constraint \<Rightarrow> constraint \<Rightarrow> data_type \<Rightarrow> constraint option option" where
  "addConstraints this other dt = (case simpleType this of
       Some Int16 \<Rightarrow> shortAdd this other dt | Some Int32 \<Rightarrow> intAdd this other dt
     | Some Int64 \<Rightarrow> longAdd this other dt | _ \<Rightarrow> Some None)"

definition subtractConstraints :: "constraint \<Rightarrow> constraint \<Rightarrow> data_type \<Rightarrow> constraint option option" where
  "subtractConstraints this other dt = (case simpleType this of
       Some Int16 \<Rightarrow> shortSubtract this other dt | Some Int32 \<Rightarrow> intSubtract this other dt
     | Some Int64 \<Rightarrow> longSubtract this other dt | _ \<Rightarrow> Some None)"

section \<open>Comparisons\<close>

fun mustBeEqual :: "constraint \<Rightarrow> constraint \<Rightarrow> bool" where
  "mustBeEqual (Const t v) other = (case asConst t other of None \<Rightarrow> False | Some w \<Rightarrow> w = v)"
| "mustBeEqual (Range t l h ov) other = False"
| "mustBeEqual (Merged cs) other = False"

fun simpleMustBeNotEqual :: "data_type \<Rightarrow> constraint \<Rightarrow> constraint \<Rightarrow> bool" where
  "simpleMustBeNotEqual t this (Merged cs) =
     (mergedType cs = t \<and> (\<forall>c \<in> set cs. simpleMustBeNotEqual t this c))"
| "simpleMustBeNotEqual t this other =
     (case asConstraint t other of Some o' \<Rightarrow> high this < low o' \<or> low this > high o' | None \<Rightarrow> False)"

definition shortMustBeNotEqual where "shortMustBeNotEqual = simpleMustBeNotEqual Int16"
definition intMustBeNotEqual where "intMustBeNotEqual = simpleMustBeNotEqual Int32"
definition longMustBeNotEqual where "longMustBeNotEqual = simpleMustBeNotEqual Int64"

fun mustBeNotEqual :: "constraint \<Rightarrow> constraint \<Rightarrow> bool" where
  "mustBeNotEqual (Merged cs) (Merged ds) = (\<forall>c \<in> set cs. mustBeNotEqual c (Merged ds))"
| "mustBeNotEqual (Merged cs) other = mustBeNotEqual other (Merged cs)"
| "mustBeNotEqual this other = (case simpleType this of
       Some Int16 \<Rightarrow> shortMustBeNotEqual this other | Some Int32 \<Rightarrow> intMustBeNotEqual this other
     | Some Int64 \<Rightarrow> longMustBeNotEqual this other | _ \<Rightarrow> False)"

definition compareHighLow :: "(int \<Rightarrow> int \<Rightarrow> bool) \<Rightarrow> data_type \<Rightarrow> constraint \<Rightarrow> constraint \<Rightarrow> bool option" where
  "compareHighLow r t this other = do { hi \<leftarrow> getHigh t this; lo \<leftarrow> getLow t other; Some (r hi lo) }"

definition mergedMustBeLessThan :: "constraint list \<Rightarrow> constraint \<Rightarrow> bool option" where
  "mergedMustBeLessThan cs other =
     (if mergedType cs = Int16 then compareHighLow (<) Int16 (Merged cs) other
      else if mergedType cs = Int64 then compareHighLow (<) Int64 (Merged cs) other
      else compareHighLow (<) Int32 (Merged cs) other)"

definition mergedMustBeLessThanOrEqual :: "constraint list \<Rightarrow> constraint \<Rightarrow> bool option" where
  "mergedMustBeLessThanOrEqual cs other =
     (if mergedType cs = Int64 then compareHighLow (\<le>) Int64 (Merged cs) other
      else compareHighLow (\<le>) Int32 (Merged cs) other)"

fun mustBeLessThan :: "constraint \<Rightarrow> constraint \<Rightarrow> bool option" where
  "mustBeLessThan (Merged cs) other = mergedMustBeLessThan cs other"
| "mustBeLessThan (Const t v) other = compareHighLow (<) t (Const t v) other"
| "mustBeLessThan (Range t l h ov) other = compareHighLow (<) t (Range t l h ov) other"

fun mustBeLessThanOrEqual :: "constraint \<Rightarrow> constraint \<Rightarrow> bool option" where
  "mustBeLessThanOrEqual (Merged cs) other = mergedMustBeLessThanOrEqual cs other"
| "mustBeLessThanOrEqual (Const t v) other = compareHighLow (\<le>) t (Const t v) other"
| "mustBeLessThanOrEqual (Range t l h ov) other = compareHighLow (\<le>) t (Range t l h ov) other"


section \<open>Machine arithmetic\<close>

definition half :: "data_type \<Rightarrow> int" where
  "half t = 2 ^ (bitsOf t - 1)"

lemma half_pos [simp]: "0 < half t" "half t \<noteq> 0"
  by (simp_all add: half_def)

lemma getMinSigned_half: "getMinSigned t = - half t"
  by (simp add: getMinSigned_def half_def)

lemma getMaxSigned_half: "getMaxSigned t = half t - 1"
  by (simp add: getMaxSigned_def half_def)

lemma power_bitsOf: "(2 :: int) ^ bitsOf t = 2 * half t"
  by (cases t) (simp_all add: half_def)

lemmas bound_defs = getMinSigned_half getMaxSigned_half

definition inType :: "data_type \<Rightarrow> int \<Rightarrow> bool" where
  "inType t v \<longleftrightarrow> getMinSigned t \<le> v \<and> v \<le> getMaxSigned t"

lemma castSigned_mod: "castSigned t v = (v + half t) mod (2 * half t) - half t"
  by (cases t) (simp_all add: castSigned_def half_def signed_take_bit_eq_take_bit_shift take_bit_eq_mod)

lemma castSigned_unique: "inType t w \<Longrightarrow> v = w + 2 * half t * k \<Longrightarrow> castSigned t v = w"
proof -
  assume w: "inType t w" and v: "v = w + 2 * half t * k"
  have "v + half t = (w + half t) + 2 * half t * k" using v by simp
  then have "(v + half t) mod (2 * half t) = (w + half t) mod (2 * half t)" by (simp only: mod_mult_self2)
  also have "\<dots> = w + half t" using w by (intro mod_pos_pos_trivial) (auto simp: inType_def bound_defs)
  finally show ?thesis by (simp add: castSigned_mod)
qed

lemma castSigned_id: "inType t v \<Longrightarrow> castSigned t v = v"
  by (rule castSigned_unique [where k = 0]) simp_all

lemma castSigned_above: "getMaxSigned t < v \<Longrightarrow> v < 3 * half t \<Longrightarrow> castSigned t v = v - 2 * half t"
  by (rule castSigned_unique [where k = 1]) (auto simp: inType_def bound_defs)

lemma castSigned_below: "v < getMinSigned t \<Longrightarrow> - 3 * half t \<le> v \<Longrightarrow> castSigned t v = v + 2 * half t"
  by (rule castSigned_unique [where k = "- 1"]) (auto simp: inType_def bound_defs)

lemma castSigned_inType: "inType t (castSigned t v)"
proof -
  have "0 \<le> (v + half t) mod (2 * half t)" "(v + half t) mod (2 * half t) < 2 * half t"
    by (simp_all add: pos_mod_bound)
  then show ?thesis by (simp add: castSigned_mod inType_def bound_defs)
qed

lemma bitsOf_le: "bitsOf t - 1 < 64" by (cases t) simp_all

lemma castSigned_castUnsigned: "castSigned t (castUnsigned Int64 v) = castSigned t v"
  using bitsOf_le [of t] by (simp add: castSigned_def castUnsigned_def signed_take_bit_take_bit)

lemma castUnsigned_add: "castUnsigned Int64 (castUnsigned Int64 a + castUnsigned Int64 b) = castUnsigned Int64 (a + b)"
  by (simp add: castUnsigned_def take_bit_add)

lemma castUnsigned_diff: "castUnsigned Int64 (castUnsigned Int64 a - castUnsigned Int64 b) = castUnsigned Int64 (a - b)"
  by (simp add: castUnsigned_def take_bit_diff)

lemma half_le: "half t \<le> half Int64"
  by (cases t) (simp_all add: half_def)

lemma addWithOverflow_correct:
  assumes "inType t a" "inType t b"
  shows "addWithOverflow t a b = (castSigned t (a + b), \<not> inType t (a + b))"
proof -
  consider "inType t (a + b)" | "getMaxSigned t < a + b" | "a + b < getMinSigned t"
    by (fastforce simp: inType_def)
  then have "(a XOR b \<ge> 0 \<and> a XOR castSigned t (a + b) < 0) = (\<not> inType t (a + b))"
  proof cases
    case 1
    then show ?thesis by (auto simp: castSigned_id)
  next
    case 2
    then have "castSigned t (a + b) = a + b - 2 * half t" using assms
      by (intro castSigned_above) (auto simp: inType_def bound_defs)
    with 2 assms show ?thesis by (auto simp: inType_def bound_defs)
  next
    case 3
    then have "castSigned t (a + b) = a + b + 2 * half t" using assms
      by (intro castSigned_below) (auto simp: inType_def bound_defs)
    with 3 assms show ?thesis by (auto simp: inType_def bound_defs)
  qed
  then show ?thesis by (simp add: addWithOverflow_def Let_def castUnsigned_add castSigned_castUnsigned)
qed

lemma subWithOverflow_correct:
  assumes "inType t a" "inType t b"
  shows "subWithOverflow t a b = (castSigned t (a - b), \<not> inType t (a - b))"
proof -
  consider "inType t (a - b)" | "getMaxSigned t < a - b" | "a - b < getMinSigned t"
    by (fastforce simp: inType_def)
  then have "(a XOR b < 0 \<and> a XOR castSigned t (a - b) < 0) = (\<not> inType t (a - b))"
  proof cases
    case 1
    then show ?thesis by (auto simp: castSigned_id)
  next
    case 2
    then have "castSigned t (a - b) = a - b - 2 * half t" using assms
      by (intro castSigned_above) (auto simp: inType_def bound_defs)
    with 2 assms show ?thesis by (auto simp: inType_def bound_defs)
  next
    case 3
    then have "castSigned t (a - b) = a - b + 2 * half t" using assms
      by (intro castSigned_below) (auto simp: inType_def bound_defs)
    with 3 assms show ?thesis by (auto simp: inType_def bound_defs)
  qed
  then show ?thesis by (simp add: subWithOverflow_def Let_def castUnsigned_diff castSigned_castUnsigned)
qed

section \<open>Meaning of a constraint\<close>

text \<open>
  The values a constraint admits, the constraints the classes create for a type, and the reading of a result
  that may be \<open>NULL\<close>: it admits every value of the type.
\<close>

fun gamma :: "constraint \<Rightarrow> int set" where
  "gamma (Const t v) = {v}"
| "gamma (Range t l h ov) = {l..h}"
| "gamma (Merged cs) = (\<Union>c \<in> set cs. gamma c)"

fun wfSimple :: "data_type \<Rightarrow> constraint \<Rightarrow> bool" where
  "wfSimple t (Const t' v) \<longleftrightarrow> t' = t \<and> t \<noteq> Int8 \<and> inType t v"
| "wfSimple t (Range t' l h ov) \<longleftrightarrow> t' = t \<and> t \<noteq> Int8 \<and> inType t l \<and> inType t h \<and> l < h
     \<and> (t \<noteq> Int64 \<longrightarrow> \<not> (l = getMinSigned t \<and> h = getMaxSigned t))"
| "wfSimple t (Merged cs) \<longleftrightarrow> False"

fun ordered :: "constraint list \<Rightarrow> bool" where
  "ordered [] = True"
| "ordered (c # cs) \<longleftrightarrow> (\<forall>d \<in> set cs. high c < low d) \<and> ordered cs"

fun wfc :: "data_type \<Rightarrow> constraint \<Rightarrow> bool" where
  "wfc t (Merged cs) \<longleftrightarrow> length cs \<ge> 2 \<and> (\<forall>c \<in> set cs. wfSimple t c) \<and> ordered cs"
| "wfc t c \<longleftrightarrow> wfSimple t c"

definition typeRange :: "data_type \<Rightarrow> int set" where
  "typeRange t = {getMinSigned t..getMaxSigned t}"

fun gammaOf :: "data_type \<Rightarrow> constraint option \<Rightarrow> int set" where
  "gammaOf t None = typeRange t"
| "gammaOf t (Some c) = gamma c"

lemma in_typeRange [simp]: "v \<in> typeRange t \<longleftrightarrow> inType t v"
  by (auto simp: typeRange_def inType_def)

lemma wfSimple_gamma: "wfSimple t c \<Longrightarrow> gamma c = {low c..high c}"
  by (cases c) auto

lemma wfSimple_bounds: "wfSimple t c \<Longrightarrow> inType t (low c) \<and> inType t (high c) \<and> low c \<le> high c"
  by (cases c) auto

lemma wfSimple_as: "wfSimple t c \<Longrightarrow> asConstraint s c = (if s = t then Some c else None)"
  by (cases c) auto

lemma wfSimple_type: "wfSimple t c \<Longrightarrow> simpleType c = Some t \<and> t \<noteq> Int8"
  by (cases c) auto

lemma wfSimple_wf [simp]: "wfSimple t c \<Longrightarrow> wfc t c"
  by (cases c) auto

lemma wfSimple_eqI: "wfSimple t c \<Longrightarrow> wfSimple t d \<Longrightarrow> low c = low d \<Longrightarrow> high c = high d \<Longrightarrow> gamma c = gamma d"
  by (simp add: wfSimple_gamma)

lemma wf_cases [consumes 1, case_names simple merged]:
  assumes "wfc t c"
  obtains "wfSimple t c" | cs where "c = Merged cs" "length cs \<ge> 2" "\<forall>c \<in> set cs. wfSimple t c" "ordered cs"
  using assms by (cases c) auto

lemma inType_range: "inType t a \<Longrightarrow> inType t b \<Longrightarrow> a \<le> v \<Longrightarrow> v \<le> b \<Longrightarrow> inType t v"
  by (auto simp: inType_def)

lemma wfSimple_gamma_inType: "wfSimple t c \<Longrightarrow> v \<in> gamma c \<Longrightarrow> inType t v"
  by (cases c) (auto intro: inType_range)

lemma wf_gamma_inType:
  assumes "wfc t c" "v \<in> gamma c" shows "inType t v"
  using assms(1)
proof (cases rule: wf_cases)
  case simple
  then show ?thesis using assms(2) by (rule wfSimple_gamma_inType)
next
  case (merged cs)
  then obtain d where "d \<in> set cs" "v \<in> gamma d" using assms(2) by auto
  then show ?thesis using merged(3) wfSimple_gamma_inType by blast
qed

lemma mergedType_wf: "wfc t (Merged cs) \<Longrightarrow> mergedType cs = t"
  by (cases cs) (cases t; auto simp: mergedType_def wfSimple_as dest: wfSimple_type)+

section \<open>Creation\<close>

lemma createRange_eq: "t \<noteq> Int8 \<Longrightarrow> createRange t lo hi = rangeCreate t lo hi TR_no"
  by (cases t) (auto simp: createRange_def shortRangeCreate_def intRangeCreate_def longRangeCreate_def rangeCreate_def)

lemma rangeCreate_cases:
  assumes "inType t lo" "inType t hi" "lo \<le> hi" "t \<noteq> Int8"
  obtains "lo = getMinSigned t" "hi = getMaxSigned t" "rangeCreate t lo hi ov = None"
  | c where "rangeCreate t lo hi ov = Some c" "wfSimple t c" "low c = lo" "high c = hi"
    "canOverflow c = (if lo = hi then TR_no else ov)" "\<not> (lo = getMinSigned t \<and> hi = getMaxSigned t)"
proof (cases "lo = getMinSigned t \<and> hi = getMaxSigned t")
  case True
  then show ?thesis using that(1) by (simp add: rangeCreate_def)
next
  case False
  show ?thesis
  proof (cases "lo = hi")
    case True
    then show ?thesis using that(2) [of "Const t lo"] False assms by (simp add: rangeCreate_def)
  next
    case neq: False
    then show ?thesis using that(2) [of "Range t lo hi ov"] False assms by (simp add: rangeCreate_def)
  qed
qed

lemma createRange_cases:
  assumes "inType t lo" "inType t hi" "lo \<le> hi" "t \<noteq> Int8"
  obtains "lo = getMinSigned t" "hi = getMaxSigned t" "createRange t lo hi = None"
  | c where "createRange t lo hi = Some c" "wfSimple t c" "low c = lo" "high c = hi" "canOverflow c = TR_no"
    "\<not> (lo = getMinSigned t \<and> hi = getMaxSigned t)"
proof (cases rule: rangeCreate_cases [OF assms, of TR_no])
  case 1
  then show ?thesis using that(1) assms(4) by (simp add: createRange_eq)
next
  case (2 c)
  then show ?thesis using that(2) [of c] assms(4) by (simp add: createRange_eq split: if_splits)
qed

lemma createRange_gamma:
  assumes "inType t lo" "inType t hi" "lo \<le> hi" "t \<noteq> Int8"
  shows "gammaOf t (createRange t lo hi) = {lo..hi}"
  by (rule createRange_cases [OF assms]) (simp_all add: wfSimple_gamma typeRange_def)

lemma createExclusion_correct:
  assumes "inType t v" "t \<noteq> Int8"
  shows "\<exists>c. createExclusion t v = Some (Some c) \<and> wfc t c \<and> gamma c = typeRange t - {v}"
proof -
  have b: "inType t (getMinSigned t)" "inType t (getMaxSigned t)" "getMinSigned t < getMaxSigned t"
    "getMinSigned t + 2 < getMaxSigned t" "getMinSigned t < 0"
    using assms(2) by (cases t; simp add: inType_def getMinSigned_def getMaxSigned_def)+
  consider "v = getMinSigned t" | "v = getMaxSigned t" "v \<noteq> getMinSigned t"
    | "getMinSigned t < v" "v < getMaxSigned t"
    using assms by (fastforce simp: inType_def)
  then show ?thesis
  proof cases
    case 1
    then have i: "inType t (v + 1)" using b by (auto simp: inType_def)
    obtain d where d: "createRange t (v + 1) (getMaxSigned t) = Some d" "wfSimple t d" "low d = v + 1" "high d = getMaxSigned t"
      using i 1 b assms(2) by (elim createRange_cases [of t "v + 1" "getMaxSigned t"]) auto
    have "createExclusion t v = Some (Some d)" using 1 d by (simp add: createExclusion_def)
    moreover have "gamma d = typeRange t - {v}" using d 1 by (auto simp: wfSimple_gamma typeRange_def)
    ultimately show ?thesis using d(2) by auto
  next
    case 2
    then have i: "inType t (v - 1)" using b by (auto simp: inType_def)
    obtain d where d: "createRange t (getMinSigned t) (v - 1) = Some d" "wfSimple t d" "low d = getMinSigned t" "high d = v - 1"
      using i 2 b assms(2) by (elim createRange_cases [of t "getMinSigned t" "v - 1"]) auto
    have "createExclusion t v = Some (Some d)" using 2 d by (simp add: createExclusion_def)
    moreover have "gamma d = typeRange t - {v}" using d 2 by (auto simp: wfSimple_gamma typeRange_def)
    ultimately show ?thesis using d(2) by auto
  next
    case 3
    then have i: "inType t (v - 1)" "inType t (v + 1)" by (auto simp: inType_def)
    obtain c where c: "createRange t (getMinSigned t) (v - 1) = Some c" "wfSimple t c" "low c = getMinSigned t" "high c = v - 1"
      using i 3 b assms(2) by (elim createRange_cases [of t "getMinSigned t" "v - 1"]) auto
    obtain d where d: "createRange t (v + 1) (getMaxSigned t) = Some d" "wfSimple t d" "low d = v + 1" "high d = getMaxSigned t"
      using i 3 b assms(2) by (elim createRange_cases [of t "v + 1" "getMaxSigned t"]) auto
    have "createExclusion t v = Some (Some (Merged [c, d]))" using 3 c d
      by (simp add: createExclusion_def mergedCreate2_def)
    moreover have "wfc t (Merged [c, d])" using c d by auto
    moreover have "gamma (Merged [c, d]) = typeRange t - {v}" using c d 3
      by (auto simp: wfSimple_gamma typeRange_def)
    ultimately show ?thesis by blast
  qed
qed


section \<open>Addition and subtraction\<close>

definition goodCreate :: "data_type \<Rightarrow> (int \<Rightarrow> int \<Rightarrow> yesNoMaybe \<Rightarrow> constraint option) \<Rightarrow> bool" where
  "goodCreate t create \<longleftrightarrow> (\<forall>lo hi ov. inType t lo \<longrightarrow> inType t hi \<longrightarrow> lo \<le> hi \<longrightarrow>
     (case create lo hi ov of None \<Rightarrow> lo = getMinSigned t \<and> hi = getMaxSigned t
      | Some c \<Rightarrow> wfSimple t c \<and> low c = lo \<and> high c = hi))"

lemma goodCreateD:
  assumes "goodCreate t create" "inType t lo" "inType t hi" "lo \<le> hi"
  shows "case create lo hi ov of None \<Rightarrow> lo = getMinSigned t \<and> hi = getMaxSigned t
      | Some c \<Rightarrow> wfSimple t c \<and> low c = lo \<and> high c = hi"
  using assms unfolding goodCreate_def by blast

lemma goodCreate_SomeE:
  assumes "goodCreate t create" "inType t lo" "inType t hi" "lo \<le> hi" "\<not> (lo = getMinSigned t \<and> hi = getMaxSigned t)"
  obtains c where "create lo hi ov = Some c" "wfSimple t c" "low c = lo" "high c = hi"
  using goodCreateD [OF assms(1-4), of ov] assms(5) by (auto split: option.splits)

lemma goodCreate_gamma:
  assumes "goodCreate t create" "inType t lo" "inType t hi" "lo \<le> hi"
  shows "gammaOf t (create lo hi ov) = {lo..hi}" "create lo hi ov = Some c \<Longrightarrow> wfSimple t c"
  using goodCreateD [OF assms, of ov]
  by (auto simp: typeRange_def wfSimple_gamma split: option.splits)

lemma goodCreate_range: "t \<noteq> Int8 \<Longrightarrow> goodCreate t (rangeCreate t)"
  unfolding goodCreate_def
proof (intro allI impI)
  fix lo hi ov assume *: "t \<noteq> Int8" "inType t lo" "inType t hi" "lo \<le> hi"
  show "case rangeCreate t lo hi ov of None \<Rightarrow> lo = getMinSigned t \<and> hi = getMaxSigned t
      | Some c \<Rightarrow> wfSimple t c \<and> low c = lo \<and> high c = hi"
    by (rule rangeCreate_cases [OF *(2-4,1), of ov]) simp_all
qed

lemma goodCreate_long: "goodCreate Int64 (\<lambda>lo hi flag. longRangeCreate lo hi (flag \<noteq> TR_no) TR_no)"
  by (simp add: goodCreate_def longRangeCreate_def)

lemma cast_image:
  assumes "\<And>v. L \<le> v \<Longrightarrow> v \<le> H \<Longrightarrow> castSigned t v = v + k"
  shows "castSigned t ` {L..H} = {L + k..H + k}"
proof -
  have "castSigned t ` {L..H} = (\<lambda>v. v + k) ` {L..H}" by (rule image_cong) (auto simp: assms)
  also have "\<dots> = {L + k..H + k}" by (simp add: image_add_atLeastAtMost')
  finally show ?thesis .
qed

lemma cast_image_id: "inType t L \<Longrightarrow> inType t H \<Longrightarrow> castSigned t ` {L..H} = {L..H}"
  using cast_image [of L H t 0] inType_range [of t L H] by (simp add: castSigned_id)

lemma cast_image_above: "getMaxSigned t < L \<Longrightarrow> H < 3 * half t \<Longrightarrow> castSigned t ` {L..H} = {L - 2 * half t..H - 2 * half t}"
  using cast_image [of L H t "- (2 * half t)"] by (simp add: castSigned_above)

lemma cast_image_below: "H < getMinSigned t \<Longrightarrow> - 3 * half t \<le> L \<Longrightarrow> castSigned t ` {L..H} = {L + 2 * half t..H + 2 * half t}"
  using cast_image [of L H t "2 * half t"] by (simp add: castSigned_below)

lemma atLeastAtMost_split: "L \<le> m \<Longrightarrow> m \<le> H \<Longrightarrow> {L..H} = {L..m} \<union> {m + 1..(H :: int)}"
  by auto

text \<open>
  The result for the true bounds \<open>L\<close> and \<open>H\<close>: it exists, is well formed, admits every wrapped value, and only
  those unless it is \<open>NULL\<close>.
\<close>

definition exactFor :: "data_type \<Rightarrow> constraint option option \<Rightarrow> int set \<Rightarrow> bool" where
  "exactFor t r S \<longleftrightarrow> (\<exists>c. r = Some c \<and> S \<subseteq> gammaOf t c \<and> (\<forall>d. c = Some d \<longrightarrow> wfc t d \<and> gamma d = S))"

lemma exactFor_NULL: "S \<subseteq> typeRange t \<Longrightarrow> exactFor t (Some None) S"
  by (simp add: exactFor_def)

lemma exactFor_create:
  assumes "goodCreate t create" "inType t lo" "inType t hi" "lo \<le> hi" "S = {lo..hi}"
  shows "exactFor t (Some (create lo hi ov)) S"
  unfolding exactFor_def using goodCreate_gamma [OF assms(1-4)] assms(5)
  by (metis dual_order.refl gammaOf.simps(2) wfSimple_wf)

lemma exactFor_merged:
  assumes "goodCreate t create" "inType t lo" "inType t hi" "hi < lo"
  shows "exactFor t (mergedCreate2 (create (getMinSigned t) hi TR_yes) (create lo (getMaxSigned t) TR_yes))
           ({getMinSigned t..hi} \<union> {lo..getMaxSigned t})"
proof -
  have b: "inType t (getMinSigned t)" "inType t (getMaxSigned t)" "getMinSigned t \<le> hi" "lo \<le> getMaxSigned t"
    using assms(2,3) by (auto simp: inType_def)
  have "hi \<noteq> getMaxSigned t" "lo \<noteq> getMinSigned t" using assms b by auto
  then obtain c d where c: "create (getMinSigned t) hi TR_yes = Some c" "wfSimple t c" "low c = getMinSigned t" "high c = hi"
    and d: "create lo (getMaxSigned t) TR_yes = Some d" "wfSimple t d" "low d = lo" "high d = getMaxSigned t"
    using goodCreate_SomeE [OF assms(1) b(1) assms(3) b(3), of TR_yes]
      goodCreate_SomeE [OF assms(1) assms(2) b(2,4), of TR_yes] by metis
  then show ?thesis using assms(4) by (simp add: exactFor_def mergedCreate2_def wfSimple_gamma)
qed

lemma castSigned_subset: "castSigned t ` S \<subseteq> typeRange t"
  by (auto simp: castSigned_inType)

lemma getRangeWith_one_side:
  assumes "goodCreate t create" "inType t lo" "inType t hi" "lc \<noteq> hc"
    and S: "S = {getMinSigned t..hi} \<union> {lo..getMaxSigned t}" "S \<subseteq> typeRange t"
  shows "exactFor t (getRangeWith create t lo hi lc hc) S"
  using exactFor_merged [OF assms(1-3)] exactFor_NULL [OF S(2)] assms(4) unfolding S(1)
  by (auto simp: getRangeWith_def)

lemma getRangeWith_same_side:
  assumes "goodCreate t create" "inType t lo" "inType t hi" "lo \<le> hi" "lc = hc"
    and "lc \<Longrightarrow> (lo < 0) = (hi < 0)"
  shows "exactFor t (getRangeWith create t lo hi lc hc) {lo..hi}"
  using exactFor_create [OF assms(1-4) refl] assms(5,6) by (auto simp: getRangeWith_def)

lemma getRangeWith_exact:
  assumes g: "goodCreate t create" and LH: "L \<le> H" "- 2 * half t \<le> L" "H < 2 * half t"
  shows "exactFor t (getRangeWith create t (castSigned t L) (castSigned t H) (\<not> inType t L) (\<not> inType t H)) (castSigned t ` {L..H})"
proof -
  note cI = castSigned_inType [of t L] castSigned_inType [of t H]
  have b: "inType t (getMinSigned t)" "inType t (getMaxSigned t)" by (auto simp: inType_def bound_defs half_def)
  have h: "0 < half t" by simp
  consider (no) "inType t L" "inType t H" | (above) "getMaxSigned t < L" | (below) "H < getMinSigned t"
    | (both) "L < getMinSigned t" "getMaxSigned t < H"
    | (hi) "inType t L" "getMaxSigned t < H" | (lo) "L < getMinSigned t" "inType t H"
    using LH by (fastforce simp: inType_def)
  then show ?thesis
  proof cases
    case no
    then show ?thesis using getRangeWith_same_side [OF g no LH(1)] by (simp add: castSigned_id cast_image_id)
  next
    case above
    then have "castSigned t L = L - 2 * half t" "castSigned t H = H - 2 * half t"
      "castSigned t ` {L..H} = {L - 2 * half t..H - 2 * half t}"
      using LH h by (auto intro!: castSigned_above cast_image_above)
    then show ?thesis using above LH getRangeWith_same_side [OF g cI, of "\<not> inType t L" "\<not> inType t H"]
      by (auto simp: inType_def bound_defs)
  next
    case below
    then have "castSigned t L = L + 2 * half t" "castSigned t H = H + 2 * half t"
      "castSigned t ` {L..H} = {L + 2 * half t..H + 2 * half t}"
      using LH h by (auto intro!: castSigned_below cast_image_below)
    then show ?thesis using below LH getRangeWith_same_side [OF g cI, of "\<not> inType t L" "\<not> inType t H"]
      by (auto simp: inType_def bound_defs)
  next
    case both
    have c: "castSigned t L = L + 2 * half t" "castSigned t H = H - 2 * half t"
      using LH both h by (auto intro!: castSigned_below castSigned_above)
    have "castSigned t H XOR castSigned t L < 0" "\<not> inType t L" "\<not> inType t H"
      using LH both unfolding c by (auto simp: bound_defs inType_def)
    then show ?thesis using exactFor_NULL [OF castSigned_subset] by (simp add: getRangeWith_def)
  next
    case hi
    have "{L..H} = {L..getMaxSigned t} \<union> {getMaxSigned t + 1..H}"
      using hi by (intro atLeastAtMost_split) (auto simp: inType_def)
    moreover have "castSigned t ` {getMaxSigned t + 1..H} = {getMinSigned t..H - 2 * half t}"
      using LH h cast_image_above [of t "getMaxSigned t + 1" H] by (simp add: bound_defs)
    moreover have "castSigned t H = H - 2 * half t" using LH hi h by (intro castSigned_above) auto
    ultimately have "castSigned t ` {L..H} = {getMinSigned t..castSigned t H} \<union> {castSigned t L..getMaxSigned t}"
      using cast_image_id [OF hi(1) b(2)] by (simp add: image_Un castSigned_id hi(1) Un_commute)
    then show ?thesis using hi by (intro getRangeWith_one_side [OF g cI] castSigned_subset) (auto simp: inType_def)
  next
    case lo
    have "{L..H} = {L..getMinSigned t - 1} \<union> {getMinSigned t..H}"
      using lo atLeastAtMost_split [of L "getMinSigned t - 1" H] by (auto simp: inType_def)
    moreover have "castSigned t ` {L..getMinSigned t - 1} = {L + 2 * half t..getMaxSigned t}"
      using LH h cast_image_below [of "getMinSigned t - 1" t L] by (simp add: bound_defs)
    moreover have "castSigned t L = L + 2 * half t" using LH lo h by (intro castSigned_below) auto
    ultimately have "castSigned t ` {L..H} = {getMinSigned t..castSigned t H} \<union> {castSigned t L..getMaxSigned t}"
      using cast_image_id [OF b(1) lo(2)] by (simp add: image_Un castSigned_id lo(2) Un_commute)
    then show ?thesis using lo by (intro getRangeWith_one_side [OF g cI] castSigned_subset) (auto simp: inType_def)
  qed
qed

text \<open>The sums and the differences of two intervals are intervals.\<close>

lemma interval_sums:
  assumes "a \<le> b" "c \<le> d"
  shows "(\<lambda>(x, y). x + y) ` ({a..b} \<times> {c..d}) = {a + c..b + (d :: int)}"
proof
  show "{a + c..b + d} \<subseteq> (\<lambda>(x, y). x + y) ` ({a..b} \<times> {c..d})"
  proof
    fix s assume "s \<in> {a + c..b + d}"
    then have "s = (\<lambda>(x, y). x + y) (if s - c \<le> b then (s - c, c) else (b, s - b))"
      "(if s - c \<le> b then (s - c, c) else (b, s - b)) \<in> {a..b} \<times> {c..d}" using assms by auto
    then show "s \<in> (\<lambda>(x, y). x + y) ` ({a..b} \<times> {c..d})" by (rule image_eqI)
  qed
qed auto

lemma interval_differences:
  assumes "a \<le> b" "c \<le> d"
  shows "(\<lambda>(x, y). x - y) ` ({a..b} \<times> {c..d}) = {a - d..b - (c :: int)}"
proof
  show "{a - d..b - c} \<subseteq> (\<lambda>(x, y). x - y) ` ({a..b} \<times> {c..d})"
  proof
    fix s assume "s \<in> {a - d..b - c}"
    then have "s = (\<lambda>(x, y). x - y) (if s + d \<le> b then (s + d, d) else (b, b - s))"
      "(if s + d \<le> b then (s + d, d) else (b, b - s)) \<in> {a..b} \<times> {c..d}" using assms by auto
    then show "s \<in> (\<lambda>(x, y). x - y) ` ({a..b} \<times> {c..d})" by (rule image_eqI)
  qed
qed auto

lemma getRange_exact:
  assumes "t \<noteq> Int8" "L \<le> H" "- 2 * half t \<le> L" "H < 2 * half t"
  shows "exactFor t (getRange t (castSigned t L) (castSigned t H) (\<not> inType t L) (\<not> inType t H)) (castSigned t ` {L..H})"
proof -
  have "rangeCreate Int16 = shortRangeCreate" "rangeCreate Int32 = intRangeCreate"
    by (auto simp: shortRangeCreate_def intRangeCreate_def fun_eq_iff)
  then show ?thesis
    using assms getRangeWith_exact [OF goodCreate_range [of t] assms(2-4)] getRangeWith_exact [OF goodCreate_long, of L H]
    by (cases t) (simp_all add: getRange_def shortGetRange_def intGetRange_def longGetRange_def)
qed

definition wrapped :: "data_type \<Rightarrow> (int \<Rightarrow> int \<Rightarrow> int) \<Rightarrow> constraint \<Rightarrow> constraint \<Rightarrow> int set" where
  "wrapped t f a b = (\<lambda>(x, y). castSigned t (f x y)) ` (gamma a \<times> gamma b)"

lemma wrapped_image: "wrapped t f a b = castSigned t ` (\<lambda>(x, y). f x y) ` (gamma a \<times> gamma b)"
  by (force simp: wrapped_def image_iff)

lemma addSimple_correct:
  assumes "wfSimple t a" "wfSimple t b"
  shows "exactFor t (addSimple t a b t) (wrapped t (+) a b)"
proof -
  note B = wfSimple_bounds [OF assms(1)] wfSimple_bounds [OF assms(2)]
  have "exactFor t (getRange t (castSigned t (low a + low b)) (castSigned t (high a + high b))
       (\<not> inType t (low a + low b)) (\<not> inType t (high a + high b))) (castSigned t ` {low a + low b..high a + high b})"
    using B wfSimple_type [OF assms(1)] by (intro getRange_exact) (auto simp: inType_def bound_defs)
  then show ?thesis using assms B
    by (simp add: addSimple_def wfSimple_as addWithOverflow_correct wrapped_image wfSimple_gamma interval_sums)
qed

lemma subtractSimple_correct:
  assumes "wfSimple t a" "wfSimple t b"
  shows "exactFor t (subtractSimple t a b t) (wrapped t (-) a b)"
proof -
  note B = wfSimple_bounds [OF assms(1)] wfSimple_bounds [OF assms(2)]
  have "exactFor t (getRange t (castSigned t (low a - high b)) (castSigned t (high a - low b))
       (\<not> inType t (low a - high b)) (\<not> inType t (high a - low b))) (castSigned t ` {low a - high b..high a - low b})"
    using B wfSimple_type [OF assms(1)] by (intro getRange_exact) (auto simp: inType_def bound_defs)
  then show ?thesis using assms B
    by (simp add: subtractSimple_def wfSimple_as subWithOverflow_correct wrapped_image wfSimple_gamma interval_differences)
qed

lemma addConstraints_simple: "wfSimple t a \<Longrightarrow> addConstraints a b dt = addSimple t a b dt"
  using wfSimple_type [of t a]
  by (cases t) (auto simp: addConstraints_def shortAdd_def intAdd_def longAdd_def)

lemma subtractConstraints_simple: "wfSimple t a \<Longrightarrow> subtractConstraints a b dt = subtractSimple t a b dt"
  using wfSimple_type [of t a]
  by (cases t) (auto simp: subtractConstraints_def shortSubtract_def intSubtract_def longSubtract_def)


text \<open>The overflow indication of a range at 16 and 32 bits: either every sum overflows or none does.\<close>

lemma getRangeWith_flag:
  assumes "L \<le> H" "- 2 * half t \<le> L" "H < 2 * half t"
    and r: "getRangeWith (rangeCreate t) t (castSigned t L) (castSigned t H) (\<not> inType t L) (\<not> inType t H) = Some (Some (Range t l h ov))"
  shows "(ov = TR_yes \<and> (\<forall>v \<in> {L..H}. \<not> inType t v)) \<or> (ov = TR_no \<and> (\<forall>v \<in> {L..H}. inType t v))"
proof -
  consider (no) "inType t L" "inType t H" | (above) "getMaxSigned t < L" | (below) "H < getMinSigned t"
    | (both) "L < getMinSigned t" "getMaxSigned t < H" | (one) "inType t L \<noteq> inType t H"
    using assms(1) by (fastforce simp: inType_def)
  then show ?thesis
  proof cases
    case no
    then have "ov = TR_no" using r by (simp add: getRangeWith_def rangeCreate_def split: if_splits)
    then show ?thesis using inType_range [OF no] by auto
  next
    case above
    then show ?thesis using r assms(1) by (auto simp: getRangeWith_def rangeCreate_def inType_def split: if_splits)
  next
    case below
    then show ?thesis using r assms(1) by (auto simp: getRangeWith_def rangeCreate_def inType_def split: if_splits)
  next
    case both
    have "castSigned t L = L + 2 * half t" "castSigned t H = H - 2 * half t"
      using assms both by (auto intro!: castSigned_below castSigned_above)
    then have "castSigned t H XOR castSigned t L < 0" using assms both by (auto simp: bound_defs)
    then show ?thesis using r both by (auto simp: getRangeWith_def inType_def)
  next
    case one
    then show ?thesis using r by (auto simp: getRangeWith_def mergedCreate2_def split: if_splits bind_splits)
  qed
qed

lemma getRange_narrow: "t = Int16 \<or> t = Int32 \<Longrightarrow> getRange t = getRangeWith (rangeCreate t) t"
  by (auto simp: getRange_def shortGetRange_def intGetRange_def shortRangeCreate_def intRangeCreate_def
      fun_eq_iff getRangeWith_def)

section \<open>Bounds reported by a constraint\<close>

lemma gamma_nonempty: "wfSimple t c \<Longrightarrow> low c \<in> gamma c \<and> high c \<in> gamma c"
  by (cases c) auto

lemma getLow_wfSimple: "wfSimple t c \<Longrightarrow> getLow t c = Some (low c)"
  by (cases c) auto

lemma getHigh_wfSimple: "wfSimple t c \<Longrightarrow> getHigh t c = Some (high c)"
  by (cases c) auto

lemma getLow_correct:
  assumes "wfc t c"
  shows "\<exists>l. getLow t c = Some l \<and> l \<in> gamma c \<and> (\<forall>x \<in> gamma c. l \<le> x)"
  using assms
proof (cases rule: wf_cases)
  case simple
  then show ?thesis using gamma_nonempty by (auto simp: getLow_wfSimple wfSimple_gamma)
next
  case (merged cs)
  then obtain d ds where cs: "cs = d # ds" by (cases cs) auto
  have d: "wfSimple t d" "\<forall>e \<in> set ds. wfSimple t e \<and> high d < low e" using merged cs by auto
  have "low d \<le> x" if "x \<in> gamma (Merged cs)" for x
    using that d wfSimple_bounds [OF d(1)] unfolding cs by (fastforce simp: wfSimple_gamma)
  then show ?thesis using d(1) gamma_nonempty merged(1) cs by (auto simp: getLow_wfSimple)
qed

lemma getHigh_ordered:
  assumes "cs \<noteq> []" "t \<noteq> Int16" "\<forall>c \<in> set cs. wfSimple t c" "ordered cs"
  shows "\<exists>h. getHigh t (Merged cs) = Some h \<and> h \<in> gamma (Merged cs) \<and> (\<forall>x \<in> gamma (Merged cs). x \<le> h)"
  using assms
proof (induction cs)
  case (Cons c cs)
  show ?case
  proof (cases "cs = []")
    case True
    then show ?thesis using Cons.prems gamma_nonempty [of t c] by (auto simp: getHigh_wfSimple wfSimple_gamma)
  next
    case False
    then obtain h where h: "getHigh t (Merged cs) = Some h" "h \<in> gamma (Merged cs)" "\<forall>x \<in> gamma (Merged cs). x \<le> h"
      using Cons by auto
    then obtain d where "d \<in> set cs" "h \<in> gamma d" by auto
    then have le: "high c < h" using Cons.prems wfSimple_gamma [of t d] by force
    have g: "x \<in> gamma (Merged (c # cs)) \<longleftrightarrow> low c \<le> x \<and> x \<le> high c \<or> x \<in> gamma (Merged cs)" for x
      using wfSimple_gamma [of t c] Cons.prems(3) by auto
    have "getHigh t (Merged (c # cs)) = Some h" using False Cons.prems(2) h(1) by simp
    moreover have "h \<in> gamma (Merged (c # cs))" using g h(2) by blast
    moreover have "x \<le> h" if "x \<in> gamma (Merged (c # cs))" for x
      using that g [of x] h(3) le by (auto simp del: gamma.simps)
    ultimately show ?thesis by blast
  qed
qed simp

lemma getHigh_correct:
  assumes "wfc t c" "t \<noteq> Int16 \<or> wfSimple t c"
  shows "\<exists>h. getHigh t c = Some h \<and> h \<in> gamma c \<and> (\<forall>x \<in> gamma c. x \<le> h)"
  using assms(1)
proof (cases rule: wf_cases)
  case simple
  then show ?thesis using gamma_nonempty by (auto simp: getHigh_wfSimple wfSimple_gamma)
next
  case (merged cs)
  then have "cs \<noteq> []" "t \<noteq> Int16" using assms(2) by auto
  then show ?thesis using getHigh_ordered [of cs t] merged by simp
qed

lemma castUnsigned_inType: "inType t v \<Longrightarrow> castUnsigned t v = (if v < 0 then v + 2 * half t else v)"
proof -
  assume v: "inType t v"
  have "castUnsigned t v = v mod (2 * half t)" by (simp add: castUnsigned_def take_bit_eq_mod power_bitsOf)
  also have "\<dots> = (if v < 0 then v + 2 * half t else v)"
  proof (cases "v < 0")
    case True
    then have "(v + 2 * half t) mod (2 * half t) = v + 2 * half t" using v
      by (intro mod_pos_pos_trivial) (auto simp: inType_def bound_defs)
    then show ?thesis using True by simp
  next
    case False
    then show ?thesis using v by (auto intro!: mod_pos_pos_trivial simp: inType_def bound_defs)
  qed
  finally show ?thesis .
qed

lemma unsigned_bounds_simple:
  assumes "wfSimple t c" "x \<in> gamma c"
  shows "\<exists>l h. getUnsignedLow t c = Some l \<and> getUnsignedHigh t c = Some h \<and> l \<le> castUnsigned t x \<and> castUnsigned t x \<le> h"
proof -
  have B: "inType t (low c)" "inType t (high c)" "inType t x" "low c \<le> x" "x \<le> high c"
    using assms wfSimple_bounds [OF assms(1)] wfSimple_gamma_inType [OF assms] by (auto simp: wfSimple_gamma)
  have "getUnsignedLow t c = Some (unsignedLowOf t (low c) (high c))" "getUnsignedHigh t c = Some (unsignedHighOf t (low c) (high c))"
    using assms(1) by (cases c; simp)+
  moreover have "unsignedLowOf t (low c) (high c) \<le> castUnsigned t x" "castUnsigned t x \<le> unsignedHighOf t (low c) (high c)"
    using B by (auto simp: unsignedLowOf_def unsignedHighOf_def castUnsigned_inType getMaxUnsigned_def power_bitsOf)
       (auto simp: inType_def bound_defs)
  ultimately show ?thesis by blast
qed

section \<open>Comparisons\<close>

lemma simpleMustBeNotEqual_simple:
  "wfSimple t a \<Longrightarrow> wfSimple t b \<Longrightarrow> simpleMustBeNotEqual t a b \<longleftrightarrow> gamma a \<inter> gamma b = {}"
  using wfSimple_bounds [of t a] wfSimple_bounds [of t b]
  by (cases b) (auto simp: wfSimple_gamma)

lemma simpleMustBeNotEqual_iff:
  assumes "wfSimple t a" "wfc t b"
  shows "simpleMustBeNotEqual t a b \<longleftrightarrow> gamma a \<inter> gamma b = {}"
  using assms(2)
proof (cases rule: wf_cases)
  case simple
  then show ?thesis using assms(1) by (rule simpleMustBeNotEqual_simple [rotated])
next
  case (merged cs)
  then show ?thesis using assms mergedType_wf [of t cs] simpleMustBeNotEqual_simple [OF assms(1)] by auto
qed

lemma mustBeNotEqual_simple: "wfSimple t a \<Longrightarrow> mustBeNotEqual a b = simpleMustBeNotEqual t a b"
  by (cases a; cases t)
     (auto simp: shortMustBeNotEqual_def intMustBeNotEqual_def longMustBeNotEqual_def)

lemma mustBeNotEqual_swap: "wfSimple t b \<Longrightarrow> mustBeNotEqual (Merged cs) b = mustBeNotEqual b (Merged cs)"
  by (cases b) simp_all

lemma mustBeNotEqual_correct:
  assumes "wfc t a" "wfc t b"
  shows "mustBeNotEqual a b \<longleftrightarrow> gamma a \<inter> gamma b = {}"
  using assms(1)
proof (cases rule: wf_cases)
  case simple
  then show ?thesis using assms(2) by (simp add: mustBeNotEqual_simple simpleMustBeNotEqual_iff)
next
  case a: (merged cs)
  show ?thesis using assms(2)
  proof (cases rule: wf_cases)
    case simple
    then show ?thesis using simpleMustBeNotEqual_iff [OF simple assms(1)] a(1)
      by (simp add: mustBeNotEqual_swap mustBeNotEqual_simple Int_commute)
  next
    case (merged ds)
    have "mustBeNotEqual c b \<longleftrightarrow> gamma c \<inter> gamma b = {}" if "c \<in> set cs" for c
      using that a(3) assms(2) mustBeNotEqual_simple simpleMustBeNotEqual_iff by metis
    then show ?thesis using a(1) merged(1) by auto
  qed
qed

lemma compareHighLow_less:
  assumes "wfc t a" "wfc t b" "t \<noteq> Int16 \<or> wfSimple t a"
  shows "compareHighLow (<) t a b = Some (\<forall>x \<in> gamma a. \<forall>y \<in> gamma b. x < y)"
    "compareHighLow (\<le>) t a b = Some (\<forall>x \<in> gamma a. \<forall>y \<in> gamma b. x \<le> y)"
proof -
  obtain h where h: "getHigh t a = Some h" "h \<in> gamma a" "\<forall>x \<in> gamma a. x \<le> h"
    using getHigh_correct assms(1,3) by blast
  obtain l where l: "getLow t b = Some l" "l \<in> gamma b" "\<forall>x \<in> gamma b. l \<le> x"
    using getLow_correct assms(2) by blast
  show "compareHighLow (<) t a b = Some (\<forall>x \<in> gamma a. \<forall>y \<in> gamma b. x < y)"
    using h l by (fastforce simp: compareHighLow_def)
  show "compareHighLow (\<le>) t a b = Some (\<forall>x \<in> gamma a. \<forall>y \<in> gamma b. x \<le> y)"
    using h l by (fastforce simp: compareHighLow_def)
qed

lemma mustBeLess_eq_compare:
  assumes "wfc t a" "t \<noteq> Int16 \<or> wfSimple t a"
  shows "mustBeLessThan a b = compareHighLow (<) t a b \<and> mustBeLessThanOrEqual a b = compareHighLow (\<le>) t a b"
  using assms(1)
proof (cases rule: wf_cases)
  case simple
  then show ?thesis by (cases a) auto
next
  case (merged cs)
  then show ?thesis using assms mergedType_wf [of t cs] wfSimple_type [of t "hd cs"]
    by (cases cs; cases t) (auto simp: mergedMustBeLessThan_def mergedMustBeLessThanOrEqual_def)
qed

end
