(* ===== verification/VPMerge.thy ===== *)
theory VPMerge
  imports VPConstraint
begin

text \<open>
  Merging of integer constraints (the logical or): \<open>VPConstraint::merge\<close>, the \<open>merge1\<close> of each class and the
  list merges of merged constraints, with the branches in which an int constraint meets a long one.
\<close>

section \<open>Merging two simple constraints\<close>

text \<open>\<open>getHigh()+1\<close>: a 16-bit bound is promoted to \<open>int\<close>, the others overflow at the maximum.\<close>

definition plus1 :: "data_type \<Rightarrow> int \<Rightarrow> int option" where
  "plus1 t v = (if t \<noteq> Int16 \<and> v = getMaxSigned t then None else Some (v + 1))"

function merge1Same :: "data_type \<Rightarrow> constraint \<Rightarrow> constraint \<Rightarrow> constraint option option" where
  "merge1Same t this other =
     (if low other < low this then merge1Same t other this
      else if high other \<le> high this then Some (Some this)
      else do { h1 \<leftarrow> plus1 t (high this);
        if low other \<le> h1 then
          if low this = getMinSigned t \<and> high other = getMaxSigned t then Some None
          else Some (createRange t (low this) (high other))
        else if t = Int16 then Some None
        else mergedCreate2 (Some this) (Some other) })"
  by pat_completeness auto
termination by (relation "measure (\<lambda>(t, a, b). if low b < low a then 1 else 0)") auto

declare merge1Same.simps [simp del]

text \<open>An int constraint with a long one: the branch for the address arithmetic of \<open>aladd\<close>.\<close>

definition intMergeLong :: "constraint \<Rightarrow> constraint \<Rightarrow> constraint option option" where
  "intMergeLong this otherLong =
     (if low otherLong < getMinSigned Int32 \<or> high otherLong > getMaxSigned Int32 then Some None
      else let lowVal = (if low otherLong < low this then low otherLong else low this);
               highVal = (if high otherLong \<le> high this then high this else high otherLong)
        in do { h1 \<leftarrow> plus1 Int32 (high this);
          if low otherLong \<le> h1 then
            if low this = getMinSigned Int32 \<and> high otherLong = getMaxSigned Int32 then Some None
            else Some (intRangeCreate (castSigned Int32 lowVal) (castSigned Int32 highVal) TR_no)
          else if low otherLong < low this then
            mergedCreate2 (intRangeCreate (castSigned Int32 (low otherLong)) (castSigned Int32 (high otherLong)) TR_no) (Some this)
          else
            mergedCreate2 (Some this) (intRangeCreate (castSigned Int32 (low otherLong)) (castSigned Int32 (high otherLong)) TR_no) })"

definition shortMerge1 :: "constraint \<Rightarrow> constraint \<Rightarrow> constraint option option" where
  "shortMerge1 this other = (case asConstraint Int16 other of
       Some otherShort \<Rightarrow> merge1Same Int16 this otherShort | None \<Rightarrow> Some None)"

definition intMerge1 :: "constraint \<Rightarrow> constraint \<Rightarrow> constraint option option" where
  "intMerge1 this other = (case asConstraint Int32 other of
       Some otherInt \<Rightarrow> merge1Same Int32 this otherInt
     | None \<Rightarrow> (case asConstraint Int64 other of
         Some otherLong \<Rightarrow> intMergeLong this otherLong | None \<Rightarrow> Some None))"

text \<open>In the branch for an int constraint the long code dereferences \<open>otherLong\<close>, which is null there.\<close>

definition longMerge1 :: "constraint \<Rightarrow> constraint \<Rightarrow> constraint option option" where
  "longMerge1 this other = (case asConstraint Int64 other of
       Some otherLong \<Rightarrow> merge1Same Int64 this otherLong
     | None \<Rightarrow> (case asConstraint Int32 other of Some otherInt \<Rightarrow> None | None \<Rightarrow> Some None))"

definition simpleMerge1 :: "constraint \<Rightarrow> constraint \<Rightarrow> constraint option option" where
  "simpleMerge1 this other = (case simpleType this of
       Some Int16 \<Rightarrow> shortMerge1 this other | Some Int32 \<Rightarrow> intMerge1 this other
     | Some Int64 \<Rightarrow> longMerge1 this other | _ \<Rightarrow> Some None)"

text \<open>
  \<open>VPConstraint::merge\<close>, over the \<open>merge1\<close> that its virtual call selects. Whether the two pointers are the same is
  an argument: the constraints that are not lists are shared, so that it is their equality.
\<close>

definition mergeVia :: "(constraint \<Rightarrow> constraint \<Rightarrow> constraint option option) \<Rightarrow> bool \<Rightarrow> constraint \<Rightarrow> constraint
    \<Rightarrow> constraint option option" where
  "mergeVia merge1 samePointer this other =
     (if samePointer then Some (Some this)
      else if priority other > priority this then merge1 other this
      else merge1 this other)"

definition simpleMerge :: "constraint \<Rightarrow> constraint \<Rightarrow> constraint option option" where
  "simpleMerge this other = mergeVia simpleMerge1 (this = other) this other"

section \<open>Merging lists\<close>

definition advance :: "data_type \<Rightarrow> constraint list \<Rightarrow> constraint option \<times> constraint list" where
  "advance t next = (case next of [] \<Rightarrow> (None, []) | c # cs \<Rightarrow> (asConstraint t c, cs))"

text \<open>
  The result list is kept as the reversed part that ends at \<open>lastResultEntry\<close> and the part after it.
  \<open>addMerged\<close> puts the next constraint in: it is merged into the last entry when they touch.
\<close>

definition addMerged :: "data_type \<Rightarrow> constraint \<Rightarrow> constraint list \<times> constraint list
    \<Rightarrow> (constraint list \<times> constraint list) option option" where
  "addMerged t x res = (case res of
       ([], suf) \<Rightarrow> Some (Some ([x], suf))
     | (l # ps, suf) \<Rightarrow> (case asConstraint t l of
         Some lastResult \<Rightarrow>
           if high lastResult = getMaxSigned t \<or> low x \<le> high lastResult + 1 then
             do { m \<leftarrow> simpleMerge lastResult x; Some (map_option (\<lambda>c. (c # ps, suf)) m) }
           else Some (Some (x # l # ps, suf))
       | None \<Rightarrow> Some (Some ([x], rev (l # ps) @ suf))))"

definition finishList :: "constraint option list \<Rightarrow> constraint option option" where
  "finishList cs = (case cs of [] \<Rightarrow> None | [c] \<Rightarrow> Some c | _ \<Rightarrow> mergedCreate cs)"

text \<open>
  The loop of the list merges: while one of the two lists has a current constraint, the one with the lower
  bound is put into the result and its list advances; a merge that yields \<open>NULL\<close> ends the loop with \<open>NULL\<close>.
  The loops differ in the steps that put a constraint of each list into the result.
\<close>

function listMergeLoop :: "data_type \<Rightarrow> data_type \<Rightarrow> (constraint \<Rightarrow> 's \<Rightarrow> 's option option) \<Rightarrow> (constraint \<Rightarrow> 's \<Rightarrow> 's option option)
    \<Rightarrow> constraint option \<Rightarrow> constraint list \<Rightarrow> constraint option \<Rightarrow> constraint list \<Rightarrow> 's \<Rightarrow> 's option option" where
  "listMergeLoop t u addCur addOther cur next otherCur otherNext res =
     (if cur = None \<and> otherCur = None then Some (Some res)
      else if cur \<noteq> None \<and> (otherCur = None \<or> low (the cur) \<le> low (the otherCur)) then
        do { r \<leftarrow> addCur (the cur) res;
          case r of None \<Rightarrow> Some None
          | Some res' \<Rightarrow>
              listMergeLoop t u addCur addOther (fst (advance t next)) (snd (advance t next)) otherCur otherNext res' }
      else
        do { r \<leftarrow> addOther (the otherCur) res;
          case r of None \<Rightarrow> Some None
          | Some res' \<Rightarrow>
              listMergeLoop t u addCur addOther cur next (fst (advance u otherNext)) (snd (advance u otherNext)) res' })"
  by pat_completeness auto
termination
  by (relation "measure (\<lambda>(t, u, f, g, cur, next, ocur, onext, res).
        length next + length onext + (if cur = None then 0 else 1) + (if ocur = None then 0 else 1))")
     (auto simp: advance_def split: list.splits)

declare listMergeLoop.simps [simp del]

definition mergeLoop :: "data_type \<Rightarrow> constraint option \<Rightarrow> constraint list \<Rightarrow> constraint option \<Rightarrow> constraint list
    \<Rightarrow> constraint option option" where
  "mergeLoop t cur next otherCur otherNext =
     do { r \<leftarrow> listMergeLoop t t (addMerged t) (addMerged t) cur next otherCur otherNext ([], []);
       case r of None \<Rightarrow> Some None | Some res \<Rightarrow> finishList (map Some (rev (fst res) @ snd res)) }"

definition sameTypeMerge :: "data_type \<Rightarrow> constraint list \<Rightarrow> constraint \<Rightarrow> constraint list \<Rightarrow> constraint option option" where
  "sameTypeMerge t cs otherCur otherNext = (case cs of [] \<Rightarrow> None
     | c # next \<Rightarrow> mergeLoop t (asConstraint t c) next (Some otherCur) otherNext)"

definition shortMerge :: "constraint list \<Rightarrow> constraint \<Rightarrow> constraint list \<Rightarrow> constraint option option" where
  "shortMerge cs other otherNext = (case asConstraint Int16 other of
       Some otherCur \<Rightarrow> sameTypeMerge Int16 cs otherCur otherNext | None \<Rightarrow> if cs = [] then None else Some None)"

text \<open>The list loops in which the other list holds constraints of the other width.\<close>

definition addIntToInts :: "constraint \<Rightarrow> constraint option list \<Rightarrow> constraint option list option option" where
  "addIntToInts x pre = (case pre of [] \<Rightarrow> Some (Some [Some x])
     | l # ps \<Rightarrow> do { l0 \<leftarrow> l; lastResult \<leftarrow> asConstraint Int32 l0;
         if high lastResult = getMaxSigned Int32 \<or> low x \<le> high lastResult + 1 then
           do { m \<leftarrow> simpleMerge lastResult x; Some (map_option (\<lambda>c. Some c # ps) m) }
         else Some (Some (Some x # l # ps)) })"

definition addLongToInts :: "constraint \<Rightarrow> constraint option list \<Rightarrow> constraint option list option option" where
  "addLongToInts x pre =
     (let wraps = (low x < getMinSigned Int32 \<or> high x > getMaxSigned Int32);
          asInt = intRangeCreate (castSigned Int32 (low x)) (castSigned Int32 (high x)) TR_no
      in case pre of [] \<Rightarrow> if wraps then Some None else Some (Some [asInt])
     | l # ps \<Rightarrow> do { l0 \<leftarrow> l; lastResult \<leftarrow> asConstraint Int32 l0;
         if high lastResult = getMaxSigned Int32 \<or> low x \<le> high lastResult + 1 then
           do { m \<leftarrow> simpleMerge lastResult x; Some (map_option (\<lambda>c. Some c # ps) m) }
         else if wraps then Some None else Some (Some (asInt # l # ps)) })"

definition intLongMergeLoop :: "constraint option \<Rightarrow> constraint list \<Rightarrow> constraint option \<Rightarrow> constraint list
    \<Rightarrow> constraint option option" where
  "intLongMergeLoop cur next otherCur otherNext =
     do { r \<leftarrow> listMergeLoop Int32 Int64 addIntToInts addLongToInts cur next otherCur otherNext [];
       case r of None \<Rightarrow> Some None | Some pre \<Rightarrow> finishList (rev pre) }"

definition intMerge :: "constraint list \<Rightarrow> constraint \<Rightarrow> constraint list \<Rightarrow> constraint option option" where
  "intMerge cs other otherNext = (case asConstraint Int32 other of
       Some otherCur \<Rightarrow> sameTypeMerge Int32 cs otherCur otherNext
     | None \<Rightarrow> (case cs of [] \<Rightarrow> None | c # next \<Rightarrow>
         (case asConstraint Int64 other of
           Some otherCur \<Rightarrow> intLongMergeLoop (asConstraint Int32 c) next (Some otherCur) otherNext
         | None \<Rightarrow> Some None)))"

definition addLongToLongs :: "constraint \<Rightarrow> constraint option list \<Rightarrow> constraint option list option option" where
  "addLongToLongs x pre = (case pre of [] \<Rightarrow> Some (Some [Some x])
     | l # ps \<Rightarrow> do { l0 \<leftarrow> l; lastResult \<leftarrow> asConstraint Int64 l0;
         if high lastResult = getMaxSigned Int64 \<or> low x \<le> high lastResult + 1 then
           do { m \<leftarrow> simpleMerge lastResult x; Some (map_option (\<lambda>c. Some c # ps) m) }
         else Some (Some (Some x # l # ps)) })"

definition addIntToLongs :: "constraint \<Rightarrow> constraint option list \<Rightarrow> constraint option list option option" where
  "addIntToLongs x pre =
     (let asLong = longRangeCreate (low x) (high x) False TR_no
      in case pre of [] \<Rightarrow> Some (Some [asLong])
     | l # ps \<Rightarrow> do { l0 \<leftarrow> l; lastResult \<leftarrow> asConstraint Int64 l0;
         if high lastResult = getMaxSigned Int64 \<or> low x \<le> high lastResult + 1 then
           do { x' \<leftarrow> asLong; m \<leftarrow> simpleMerge lastResult x'; Some (map_option (\<lambda>c. Some c # ps) m) }
         else Some (Some (asLong # l # ps)) })"

definition longIntMergeLoop :: "constraint option \<Rightarrow> constraint list \<Rightarrow> constraint option \<Rightarrow> constraint list
    \<Rightarrow> constraint option option" where
  "longIntMergeLoop cur next otherCur otherNext =
     do { r \<leftarrow> listMergeLoop Int64 Int32 addLongToLongs addIntToLongs cur next otherCur otherNext [];
       case r of None \<Rightarrow> Some None | Some pre \<Rightarrow> finishList (rev pre) }"

definition longMerge :: "constraint list \<Rightarrow> constraint \<Rightarrow> constraint list \<Rightarrow> constraint option option" where
  "longMerge cs other otherNext = (case asConstraint Int64 other of
       Some otherCur \<Rightarrow> sameTypeMerge Int64 cs otherCur otherNext
     | None \<Rightarrow> (case cs of [] \<Rightarrow> None | c # next \<Rightarrow>
         (case asConstraint Int32 other of
           Some otherCur \<Rightarrow> longIntMergeLoop (asConstraint Int64 c) next (Some otherCur) otherNext
         | None \<Rightarrow> Some None)))"

text \<open>The other operand as its first constraint and the rest of its list.\<close>

definition otherList :: "constraint \<Rightarrow> (constraint \<times> constraint list) option" where
  "otherList other = (case other of Merged [] \<Rightarrow> None | Merged (c # cs) \<Rightarrow> Some (c, cs) | c \<Rightarrow> Some (c, []))"

definition mergedMerge1 :: "constraint list \<Rightarrow> constraint \<Rightarrow> constraint option option" where
  "mergedMerge1 cs other = do { (otherCur, otherNext) \<leftarrow> otherList other;
     case mergedType cs of Int16 \<Rightarrow> shortMerge cs otherCur otherNext | Int32 \<Rightarrow> intMerge cs otherCur otherNext
     | Int64 \<Rightarrow> longMerge cs otherCur otherNext | Int8 \<Rightarrow> Some None }"

definition merge1 :: "constraint \<Rightarrow> constraint \<Rightarrow> constraint option option" where
  "merge1 this other = (case this of Merged cs \<Rightarrow> mergedMerge1 cs other | _ \<Rightarrow> simpleMerge1 this other)"

definition merge :: "bool \<Rightarrow> constraint \<Rightarrow> constraint \<Rightarrow> constraint option option" where
  "merge = mergeVia merge1"

section \<open>Two simple constraints\<close>

lemma createRange_wf_cases:
  assumes "wfSimple t a" "wfSimple t b" "low a \<le> high b"
  obtains "createRange t (low a) (high b) = None" "low a = getMinSigned t" "high b = getMaxSigned t"
  | c where "createRange t (low a) (high b) = Some c" "wfSimple t c" "low c = low a" "high c = high b"
proof -
  have "inType t (low a)" "inType t (high b)" "t \<noteq> Int8"
    using wfSimple_bounds [OF assms(1)] wfSimple_bounds [OF assms(2)] wfSimple_type [OF assms(1)] by auto
  then show ?thesis using that assms(3) by (elim createRange_cases [of t "low a" "high b"]) auto
qed

lemma simpleMerge1_same: "wfSimple t a \<Longrightarrow> wfSimple t b \<Longrightarrow> simpleMerge1 a b = merge1Same t a b"
  using wfSimple_type [of t a]
  by (cases t) (auto simp: simpleMerge1_def shortMerge1_def intMerge1_def longMerge1_def wfSimple_as)

lemma priority_same: "wfSimple t a \<Longrightarrow> wfSimple t b \<Longrightarrow> priority a = priority b"
  by (cases a; cases b) auto

text \<open>Constraints that overlap or touch merge into the interval they span, or vanish when it is the whole type.\<close>

lemma merge_touching:
  assumes "wfSimple t a" "wfSimple t b" "low a \<le> low b" "high a = getMaxSigned t \<or> low b \<le> high a + 1"
  shows "(simpleMerge a b = Some None \<and> low a = getMinSigned t \<and> max (high a) (high b) = getMaxSigned t)
    \<or> (\<exists>c. simpleMerge a b = Some (Some c) \<and> wfSimple t c \<and> low c = low a \<and> high c = max (high a) (high b))"
proof (cases "high b \<le> high a")
  case True
  then show ?thesis using assms simpleMerge1_same [OF assms(1,2)] priority_same [OF assms(1,2)]
    by (simp add: simpleMerge_def mergeVia_def merge1Same.simps [of t a b] max_absorb1)
next
  case False
  then have "a \<noteq> b" "plus1 t (high a) = Some (high a + 1)" "low b \<le> high a + 1" "low a \<le> high b"
    using assms wfSimple_bounds [OF assms(1)] wfSimple_bounds [OF assms(2)] by (auto simp: plus1_def inType_def)
  then have *: "simpleMerge a b =
      (if low a = getMinSigned t \<and> high b = getMaxSigned t then Some None else Some (createRange t (low a) (high b)))"
    using False assms(3) simpleMerge1_same [OF assms(1,2)] priority_same [OF assms(1,2)]
    by (simp add: simpleMerge_def mergeVia_def merge1Same.simps [of t a b])
  show ?thesis
    by (rule createRange_wf_cases [OF assms(1,2) \<open>low a \<le> high b\<close>]) (use * False in \<open>auto simp: max_absorb2\<close>)
qed

definition mergedExactly :: "data_type \<Rightarrow> int set \<Rightarrow> constraint option option \<Rightarrow> bool" where
  "mergedExactly t S r \<longleftrightarrow> (\<exists>c. r = Some c \<and>
     (case c of None \<Rightarrow> typeRange t \<subseteq> S | Some d \<Rightarrow> wfc t d \<and> gamma d = S))"

lemma merge1Same_correct:
  assumes "wfSimple t a" "wfSimple t b" "low a \<le> low b"
  shows "mergedExactly t (gamma a \<union> gamma b) (merge1Same t a b) \<or> t = Int16 \<and> merge1Same t a b = Some None"
proof (cases "high b \<le> high a")
  case True
  then show ?thesis using assms
    by (simp add: merge1Same.simps [of t a b] mergedExactly_def wfSimple_gamma) auto
next
  case False
  then have p: "plus1 t (high a) = Some (high a + 1)" "low a \<le> high b"
    using assms wfSimple_bounds [OF assms(1)] wfSimple_bounds [OF assms(2)] by (auto simp: plus1_def inType_def)
  show ?thesis
  proof (cases "low b \<le> high a + 1")
    case True
    have U: "gamma a \<union> gamma b = {low a..high b}" using assms True False wfSimple_bounds [OF assms(1)]
      by (auto simp: wfSimple_gamma)
    have *: "merge1Same t a b = (if low a = getMinSigned t \<and> high b = getMaxSigned t then Some None
        else Some (createRange t (low a) (high b)))"
      using False True p assms(3) by (simp add: merge1Same.simps [of t a b])
    show ?thesis unfolding U
      by (rule createRange_wf_cases [OF assms(1,2) p(2)])
         (use * in \<open>auto simp: mergedExactly_def wfSimple_gamma typeRange_def\<close>)
  next
    case neq: False
    then show ?thesis using False p assms
      by (auto simp: merge1Same.simps [of t a b] mergedExactly_def mergedCreate2_def)
  qed
qed

lemma merge1Same_swap: "low b < low a \<Longrightarrow> merge1Same t a b = merge1Same t b a"
  by (simp add: merge1Same.simps [of t a b])

lemma merge1Same_any:
  assumes "wfSimple t a" "wfSimple t b"
  shows "mergedExactly t (gamma a \<union> gamma b) (merge1Same t a b) \<or> t = Int16 \<and> merge1Same t a b = Some None"
  using merge1Same_correct [OF assms] merge1Same_correct [OF assms(2,1)] merge1Same_swap [of b a t]
  by (cases "low b < low a") (auto simp: Un_commute)

section \<open>The list loop\<close>

text \<open>
  What the steps of a list merge promise: \<open>inv b S res\<close> says that the result so far admits exactly the set \<open>S\<close>
  and that its last entry starts at most at \<open>b\<close>; a step either extends the set by the new constraint, or gives up
  because the set \<open>enough\<close> is reached.
\<close>

locale merge_steps =
  fixes t u :: data_type and addCur addOther :: "constraint \<Rightarrow> 's \<Rightarrow> 's option option"
    and okCur okOther :: "constraint \<Rightarrow> bool"
    and inv :: "int \<Rightarrow> int set \<Rightarrow> 's \<Rightarrow> bool" and enough :: "int set \<Rightarrow> bool"
  assumes okCur: "okCur x \<Longrightarrow> asConstraint t x = Some x \<and> low x \<le> high x"
    and okOther: "okOther x \<Longrightarrow> asConstraint u x = Some x \<and> low x \<le> high x"
    and addCur: "okCur x \<Longrightarrow> inv b S res \<Longrightarrow> b \<le> low x \<Longrightarrow>
      addCur x res = Some None \<and> enough (S \<union> gamma x)
      \<or> (\<exists>res'. addCur x res = Some (Some res') \<and> inv (low x) (S \<union> gamma x) res')"
    and addOther: "okOther x \<Longrightarrow> inv b S res \<Longrightarrow> b \<le> low x \<Longrightarrow>
      addOther x res = Some None \<and> enough (S \<union> gamma x)
      \<or> (\<exists>res'. addOther x res = Some (Some res') \<and> inv (low x) (S \<union> gamma x) res')"
    and enough_mono: "enough S \<Longrightarrow> S \<subseteq> T \<Longrightarrow> enough T"
begin

definition finished :: "int set \<Rightarrow> 's option option \<Rightarrow> bool" where
  "finished S r \<longleftrightarrow> r = Some None \<and> enough S \<or> (\<exists>res b. r = Some (Some res) \<and> inv b S res)"

lemma finished_step:
  assumes "r = Some None \<and> enough S \<or> (\<exists>res'. r = Some (Some res') \<and> inv b S res')"
    and "S \<subseteq> T" "\<And>res'. inv b S res' \<Longrightarrow> finished T (f res')"
  shows "finished T (r \<bind> (\<lambda>r. case r of None \<Rightarrow> Some None | Some res' \<Rightarrow> f res'))"
  using assms(1)
proof (elim disjE exE conjE)
  assume "r = Some None" "enough S"
  then show ?thesis using enough_mono [OF _ assms(2)] by (simp add: finished_def)
next
  fix res' assume "r = Some (Some res')" "inv b S res'"
  then show ?thesis using assms(3) by simp
qed

text \<open>The loop on what is left of the two lists, and its three cases.\<close>

definition run :: "constraint list \<Rightarrow> constraint list \<Rightarrow> 's \<Rightarrow> 's option option" where
  "run xs ys = listMergeLoop t u addCur addOther (fst (advance t xs)) (snd (advance t xs)) (fst (advance u ys)) (snd (advance u ys))"

lemma run_Nil: "run [] [] res = Some (Some res)"
  by (simp add: run_def advance_def listMergeLoop.simps)

lemma run_cur:
  assumes "okCur x" "\<forall>y \<in> set ys. okOther y" "ys = [] \<or> low x \<le> low (hd ys)"
  shows "run (x # xs) ys res = addCur x res \<bind> (\<lambda>r. case r of None \<Rightarrow> Some None | Some res' \<Rightarrow> run xs ys res')"
  using assms okCur [of x] okOther [of "hd ys"] unfolding run_def
  by (subst listMergeLoop.simps) (cases ys; auto simp: advance_def)

lemma run_other:
  assumes "okOther y" "\<forall>x \<in> set xs. okCur x" "xs = [] \<or> low y < low (hd xs)"
  shows "run xs (y # ys) res = addOther y res \<bind> (\<lambda>r. case r of None \<Rightarrow> Some None | Some res' \<Rightarrow> run xs ys res')"
  using assms okOther [of y] okCur [of "hd xs"] unfolding run_def
  by (subst listMergeLoop.simps) (cases xs; auto simp: advance_def)

lemma ordered_head_le:
  "ordered (x # xs) \<Longrightarrow> low x \<le> high x \<Longrightarrow> z \<in> set (x # xs) \<Longrightarrow> low x \<le> low z"
  by fastforce

lemma run_correct:
  assumes "\<forall>x \<in> set xs. okCur x" "\<forall>y \<in> set ys. okOther y" "ordered xs" "ordered ys"
    and "\<forall>x \<in> set xs \<union> set ys. b \<le> low x" "inv b S res"
  shows "finished (S \<union> gamma (Merged xs) \<union> gamma (Merged ys)) (run xs ys res)"
  using assms
proof (induction "length xs + length ys" arbitrary: xs ys b S res rule: less_induct)
  case less
  consider (none) "xs = []" "ys = []" | (cur) x xs' where "xs = x # xs'" "ys = [] \<or> low x \<le> low (hd ys)"
    | (other) y ys' where "ys = y # ys'" "xs = [] \<or> low y < low (hd xs)"
    by (cases xs; cases ys; cases "low (hd xs) \<le> low (hd ys)") (auto simp: not_le)
  then show ?case
  proof cases
    case none
    then show ?thesis using less.prems(6) by (auto simp: finished_def run_Nil)
  next
    case cur
    have ok: "okCur x" using less.prems(1) cur(1) by simp
    have le: "\<forall>z \<in> set xs' \<union> set ys. low x \<le> low z"
      using cur less.prems(2-4) okCur [OF ok] okOther [of "hd ys"] ordered_head_le [of x xs'] ordered_head_le [of "hd ys" "tl ys"]
      by (cases ys) fastforce+
    have "finished (S \<union> gamma x \<union> gamma (Merged xs') \<union> gamma (Merged ys)) (run xs' ys res')"
      if "inv (low x) (S \<union> gamma x) res'" for res'
      using less.prems cur(1) le that by (intro less.hyps) auto
    then have "finished (S \<union> gamma (Merged xs) \<union> gamma (Merged ys)) (run xs' ys res')"
      if "inv (low x) (S \<union> gamma x) res'" for res'
      using that cur(1) by (simp add: Un_assoc)
    then show ?thesis unfolding cur(1) run_cur [OF ok less.prems(2) cur(2)]
      using less.prems(5,6) cur(1) by (intro finished_step [OF addCur [OF ok less.prems(6)]]) auto
  next
    case other
    have ok: "okOther y" using less.prems(2) other(1) by simp
    have le: "\<forall>z \<in> set xs \<union> set ys'. low y \<le> low z"
      using other less.prems(1,3,4) okOther [OF ok] okCur [of "hd xs"] ordered_head_le [of y ys'] ordered_head_le [of "hd xs" "tl xs"]
      by (cases xs) fastforce+
    have "finished (S \<union> gamma y \<union> gamma (Merged xs) \<union> gamma (Merged ys')) (run xs ys' res')"
      if "inv (low y) (S \<union> gamma y) res'" for res'
      using less.prems other(1) le that by (intro less.hyps) auto
    then have "finished (S \<union> gamma (Merged xs) \<union> gamma (Merged ys)) (run xs ys' res')"
      if "inv (low y) (S \<union> gamma y) res'" for res'
      using that other(1) by (simp add: Un_ac)
    then show ?thesis unfolding other(1) run_other [OF ok less.prems(1) other(2)]
      using less.prems(5,6) other(1) by (intro finished_step [OF addOther [OF ok less.prems(6)]]) auto
  qed
qed

end


section \<open>Lists of one type\<close>

lemma wfSimple_same: "wfSimple t c \<Longrightarrow> asConstraint t c = Some c"
  by (simp add: wfSimple_as)

fun descending :: "constraint list \<Rightarrow> bool" where
  "descending [] = True"
| "descending (p # ps) \<longleftrightarrow> (\<forall>q \<in> set ps. high q < low p) \<and> descending ps"

lemma ordered_append: "ordered (xs @ ys) \<longleftrightarrow> ordered xs \<and> ordered ys \<and> (\<forall>x \<in> set xs. \<forall>y \<in> set ys. high x < low y)"
  by (induction xs) auto

lemma descending_rev: "descending ps \<Longrightarrow> ordered (rev ps)"
  by (induction ps) (auto simp: ordered_append)

definition resultInv :: "data_type \<Rightarrow> int \<Rightarrow> int set \<Rightarrow> constraint list \<Rightarrow> bool" where
  "resultInv t b S pre \<longleftrightarrow> (\<forall>p \<in> set pre. wfSimple t p) \<and> descending pre \<and> (\<forall>p \<in> set pre. low p \<le> b) \<and> S = gamma (Merged pre)"

lemma resultInv_new:
  assumes "resultInv t b S pre" "wfSimple t x" "b \<le> low x" "\<forall>p \<in> set pre. high p < low x"
  shows "resultInv t (low x) (S \<union> gamma x) (x # pre)"
  using assms by (auto simp: resultInv_def)

lemma resultInv_merge:
  assumes "resultInv t b S (l # ps)" "wfSimple t x" "b \<le> low x" "wfSimple t c" "low c = low l" "high c = max (high l) (high x)"
    and "high l = getMaxSigned t \<or> low x \<le> high l + 1"
  shows "resultInv t (low x) (S \<union> gamma x) (c # ps)"
proof -
  have l: "wfSimple t l" "low l \<le> low x" using assms(1,3) by (auto simp: resultInv_def)
  have "gamma c = gamma l \<union> gamma x"
    using assms(4-7) l wfSimple_bounds [OF l(1)] wfSimple_bounds [OF assms(2)] assms(2)
    by (auto simp: wfSimple_gamma inType_def)
  then show ?thesis using assms l by (auto simp: resultInv_def)
qed

lemma merge_touching_full:
  assumes "resultInv t b S (l # ps)" "wfSimple t x" "low l = getMinSigned t" "max (high l) (high x) = getMaxSigned t"
    and "high l = getMaxSigned t \<or> low x \<le> high l + 1" "b \<le> low x"
  shows "typeRange t \<subseteq> S \<union> gamma x"
proof -
  have l: "wfSimple t l" "gamma l \<subseteq> S" using assms(1) by (auto simp: resultInv_def)
  then have "{low l..high l} \<union> {low x..high x} \<subseteq> S \<union> gamma x" using assms(2) by (auto simp: wfSimple_gamma)
  moreover have "typeRange t \<subseteq> {low l..high l} \<union> {low x..high x}" using assms(3-5) by (auto simp: inType_def)
  ultimately show ?thesis by blast
qed

text \<open>The step that all list merges share: the next constraint joins the last entry, or goes after it.\<close>

lemma resultInv_step:
  assumes I: "resultInv t b S (l # ps)" and x: "wfSimple t x" "b \<le> low x"
  shows "if high l = getMaxSigned t \<or> low x \<le> high l + 1
    then simpleMerge l x = Some None \<and> typeRange t \<subseteq> S \<union> gamma x
      \<or> (\<exists>c. simpleMerge l x = Some (Some c) \<and> resultInv t (low x) (S \<union> gamma x) (c # ps))
    else resultInv t (low x) (S \<union> gamma x) (x # l # ps)"
proof -
  have l: "wfSimple t l" "low l \<le> low x" using I x(2) by (auto simp: resultInv_def)
  show ?thesis
  proof (cases "high l = getMaxSigned t \<or> low x \<le> high l + 1")
    case True
    then show ?thesis
      using merge_touching [OF l(1) x(1) l(2) True] merge_touching_full [OF I x(1) _ _ True x(2)] resultInv_merge [OF I x _ _ _ True]
      by auto
  next
    case False
    have "high p < low x" if "p \<in> set (l # ps)" for p
    proof (cases "p = l")
      case True
      then show ?thesis using False by auto
    next
      case neq: False
      then have "high p < low l" using I that by (auto simp: resultInv_def)
      then show ?thesis using l(2) by simp
    qed
    then show ?thesis using False resultInv_new [OF I x] by auto
  qed
qed

definition sameInv :: "data_type \<Rightarrow> int \<Rightarrow> int set \<Rightarrow> constraint list \<times> constraint list \<Rightarrow> bool" where
  "sameInv t b S res \<longleftrightarrow> resultInv t b S (fst res) \<and> snd res = []"

lemma resultInv_Nil: "resultInv t b S [] \<longleftrightarrow> S = {}"
  by (simp add: resultInv_def)

lemma addMerged_step:
  assumes "wfSimple t x" "sameInv t b S res" "b \<le> low x"
  shows "addMerged t x res = Some None \<and> typeRange t \<subseteq> S \<union> gamma x
    \<or> (\<exists>res'. addMerged t x res = Some (Some res') \<and> sameInv t (low x) (S \<union> gamma x) res')"
proof (cases "fst res")
  case Nil
  then have "S = {}" "res = ([], [])" using assms(2) by (auto simp: sameInv_def resultInv_Nil prod_eq_iff)
  moreover have "resultInv t (low x) (gamma x) [x]" using assms(1) by (simp add: resultInv_def)
  ultimately show ?thesis by (simp add: addMerged_def sameInv_def)
next
  case (Cons l ps)
  then have r: "res = (l # ps, [])" "resultInv t b S (l # ps)" using assms(2) by (auto simp: sameInv_def prod_eq_iff)
  then have "asConstraint t l = Some l" using wfSimple_same [of t l] by (simp add: resultInv_def)
  then show ?thesis using resultInv_step [OF r(2) assms(1,3)] r(1)
    by (auto simp: addMerged_def sameInv_def split: if_splits)
qed

lemma finishList_correct:
  assumes "resultInv t b S pre" "pre \<noteq> []"
  shows "mergedExactly t S (finishList (map Some (rev pre)))"
proof -
  have I: "\<forall>p \<in> set (rev pre). wfSimple t p" "ordered (rev pre)" "S = gamma (Merged (rev pre))"
    using assms descending_rev by (auto simp: resultInv_def)
  obtain x xs where x: "rev pre = x # xs" using assms(2) by (cases "rev pre") auto
  show ?thesis using I unfolding x
    by (cases xs) (auto simp: finishList_def mergedExactly_def mergedCreate_def comp_def)
qed

interpretation same: merge_steps t t "addMerged t" "addMerged t" "wfSimple t" "wfSimple t" "sameInv t" "\<lambda>S. typeRange t \<subseteq> S" for t
  by unfold_locales (use wfSimple_same wfSimple_bounds addMerged_step in blast)+

lemma mergeLoop_correct:
  assumes "\<forall>x \<in> set xs. wfSimple t x" "\<forall>y \<in> set ys. wfSimple t y" "ordered xs" "ordered ys" "xs \<noteq> []"
  shows "mergedExactly t (gamma (Merged xs) \<union> gamma (Merged ys))
    (mergeLoop t (fst (advance t xs)) (snd (advance t xs)) (fst (advance t ys)) (snd (advance t ys)))"
proof -
  have ne: "gamma (Merged xs) \<noteq> {}" using assms(1,5) gamma_nonempty [of t "hd xs"] by (cases xs) auto
  have "\<forall>x \<in> set xs \<union> set ys. getMinSigned t \<le> low x" using assms(1,2) wfSimple_bounds by (auto simp: inType_def)
  then have "same.finished t ({} \<union> gamma (Merged xs) \<union> gamma (Merged ys)) (same.run t xs ys ([], []))"
    using assms by (intro same.run_correct [where b = "getMinSigned t"]) (auto simp: sameInv_def resultInv_Nil)
  then show ?thesis unfolding same.finished_def
  proof (elim disjE exE conjE)
    fix res b assume r: "same.run t xs ys ([], []) = Some (Some res)" "sameInv t b ({} \<union> gamma (Merged xs) \<union> gamma (Merged ys)) res"
    then have "resultInv t b (gamma (Merged xs) \<union> gamma (Merged ys)) (fst res)" "snd res = []" by (simp_all add: sameInv_def)
    moreover from this ne have "fst res \<noteq> []" by (auto simp: resultInv_def)
    ultimately show ?thesis using finishList_correct r(1) by (simp add: mergeLoop_def same.run_def)
  qed (auto simp: mergeLoop_def same.run_def mergedExactly_def)
qed

lemma sameTypeMerge_correct:
  assumes "wfc t (Merged cs)" "wfc t b" "otherList b = Some (otherCur, otherNext)"
  shows "asConstraint t otherCur = Some otherCur"
    "mergedExactly t (gamma (Merged cs) \<union> gamma b) (sameTypeMerge t cs otherCur otherNext)"
proof -
  have ys: "\<forall>y \<in> set (otherCur # otherNext). wfSimple t y" "ordered (otherCur # otherNext)" "gamma b = gamma (Merged (otherCur # otherNext))"
    using assms(2,3) by (cases b; auto simp: otherList_def split: list.splits)+
  then show *: "asConstraint t otherCur = Some otherCur" using wfSimple_same by simp
  obtain c next' where cs: "cs = c # next'" using assms(1) by (cases cs) auto
  have "mergedExactly t (gamma (Merged cs) \<union> gamma (Merged (otherCur # otherNext)))
    (mergeLoop t (fst (advance t cs)) (snd (advance t cs)) (fst (advance t (otherCur # otherNext))) (snd (advance t (otherCur # otherNext))))"
    using assms(1) ys cs by (intro mergeLoop_correct) auto
  then show "mergedExactly t (gamma (Merged cs) \<union> gamma b) (sameTypeMerge t cs otherCur otherNext)"
    unfolding ys(3) using * cs by (simp add: sameTypeMerge_def advance_def)
qed

lemma otherList_wf: "wfc t b \<Longrightarrow> \<exists>c cs. otherList b = Some (c, cs)"
  by (cases b) (auto simp: otherList_def split: list.splits)

lemma mergedMerge1_correct:
  assumes "wfc t (Merged cs)" "wfc t b"
  shows "mergedExactly t (gamma (Merged cs) \<union> gamma b) (mergedMerge1 cs b)"
proof -
  obtain c ds where o: "otherList b = Some (c, ds)" using otherList_wf [OF assms(2)] by blast
  note * = sameTypeMerge_correct [OF assms o]
  have t: "mergedType cs = t" "t \<noteq> Int8"
    using mergedType_wf [OF assms(1)] assms(1) wfSimple_type [of t "hd cs"] by (cases cs; auto)+
  show ?thesis using t * o
    by (cases t) (auto simp: mergedMerge1_def shortMerge_def intMerge_def longMerge_def)
qed

lemma merge1_simple: "wfSimple t a \<Longrightarrow> merge1 a b = simpleMerge1 a b"
  by (cases a) (auto simp: merge1_def)

lemma priority_wfSimple: "wfSimple t a \<Longrightarrow> priority a < 15"
  by (cases a) (auto split: data_type.splits)

lemma merge_correct:
  assumes "wfc t a" "wfc t b" "same \<longrightarrow> a = b"
  shows "mergedExactly t (gamma a \<union> gamma b) (merge same a b)
    \<or> t = Int16 \<and> merge same a b = Some None \<and> wfSimple t a \<and> wfSimple t b"
proof (cases same)
  case True
  then show ?thesis using assms by (simp add: merge_def mergeVia_def mergedExactly_def)
next
  case False
  from assms(1) show ?thesis
  proof (cases rule: wf_cases)
    case a: simple
    from assms(2) show ?thesis
    proof (cases rule: wf_cases)
      case simple
      then have "merge same a b = merge1Same t a b"
        using False a simpleMerge1_same [OF a simple] priority_same [OF a simple] merge1_simple [OF a]
        by (simp add: merge_def mergeVia_def)
      then show ?thesis using a simple merge1Same_any [OF a simple] by auto
    next
      case (merged ds)
      then have "merge same a b = mergedMerge1 ds a" using False priority_wfSimple [OF a]
        by (simp add: merge_def mergeVia_def merge1_def)
      then show ?thesis using mergedMerge1_correct [of t ds a] assms merged(1) by (simp add: Un_commute)
    qed
  next
    case (merged cs)
    then have "merge same a b = mergedMerge1 cs b" using False
      by (cases b) (auto simp: merge_def mergeVia_def merge1_def split: data_type.splits)
    then show ?thesis using mergedMerge1_correct [of t cs b] assms merged(1) by simp
  qed
qed

section \<open>An int constraint and a long one\<close>

definition nullableInv :: "data_type \<Rightarrow> int \<Rightarrow> int set \<Rightarrow> constraint option list \<Rightarrow> bool" where
  "nullableInv t b S pre \<longleftrightarrow> (\<exists>ps. pre = map Some ps \<and> resultInv t b S ps)"

lemma nullableInv_cases:
  assumes "nullableInv t b S pre"
  obtains "pre = []" "S = {}" | l ps where "pre = Some l # map Some ps" "resultInv t b S (l # ps)" "asConstraint t l = Some l"
proof -
  obtain qs where q: "pre = map Some qs" "resultInv t b S qs" using assms by (auto simp: nullableInv_def)
  show ?thesis
  proof (cases qs)
    case Nil
    then show ?thesis using that(1) q by (simp add: resultInv_Nil)
  next
    case (Cons l ps)
    then show ?thesis using that(2) [of l ps] q wfSimple_same [of t l] by (simp add: resultInv_def)
  qed
qed

lemma nullableInv_I: "resultInv t b S ps \<Longrightarrow> nullableInv t b S (map Some ps)"
  by (auto simp: nullableInv_def)

lemma resultInv_single: "wfSimple t x \<Longrightarrow> resultInv t (low x) (gamma x) [x]"
  by (simp add: resultInv_def)

lemma finishList_nullable:
  assumes "nullableInv t b S pre" "S \<noteq> {}" shows "mergedExactly t S (finishList (rev pre))"
proof -
  obtain ps where "pre = map Some ps" "resultInv t b S ps" using assms(1) by (auto simp: nullableInv_def)
  moreover from this assms(2) have "ps \<noteq> []" by (auto simp: resultInv_def)
  ultimately show ?thesis using finishList_correct [of t b S ps] by (simp add: rev_map)
qed

text \<open>A long list with ints: an int range is a long range, and never the whole type.\<close>

lemma intAsLong:
  assumes "wfSimple Int32 x"
  obtains c where "longRangeCreate (low x) (high x) False TR_no = Some c" "wfSimple Int64 c" "low c = low x" "high c = high x"
    "gamma c = gamma x"
proof -
  have "inType Int64 (low x)" "inType Int64 (high x)" "low x \<le> high x" "low x \<noteq> getMinSigned Int64"
    using wfSimple_bounds [OF assms] by (auto simp: inType_def getMinSigned_def getMaxSigned_def)
  then show ?thesis using that createRange_cases [of Int64 "low x" "high x"] assms
    by (auto simp: createRange_def wfSimple_gamma)
qed

lemma addLongToLongs_step:
  assumes "wfSimple Int64 x" "nullableInv Int64 b S pre" "b \<le> low x"
  shows "addLongToLongs x pre = Some None \<and> typeRange Int64 \<subseteq> S \<union> gamma x
    \<or> (\<exists>pre'. addLongToLongs x pre = Some (Some pre') \<and> nullableInv Int64 (low x) (S \<union> gamma x) pre')"
  using assms(2)
proof (cases rule: nullableInv_cases)
  case 1
  then show ?thesis using nullableInv_I [OF resultInv_single [OF assms(1)]] by (simp add: addLongToLongs_def)
next
  case (2 l ps)
  then show ?thesis using resultInv_step [OF 2(2) assms(1,3)] nullableInv_I [of Int64 _ _ "_ # _"]
    by (fastforce simp: addLongToLongs_def split: if_splits)
qed

lemma addIntToLongs_step:
  assumes "wfSimple Int32 x" "nullableInv Int64 b S pre" "b \<le> low x"
  shows "addIntToLongs x pre = Some None \<and> typeRange Int64 \<subseteq> S \<union> gamma x
    \<or> (\<exists>pre'. addIntToLongs x pre = Some (Some pre') \<and> nullableInv Int64 (low x) (S \<union> gamma x) pre')"
proof -
  obtain c where c: "longRangeCreate (low x) (high x) False TR_no = Some c" "wfSimple Int64 c" "low c = low x"
    "high c = high x" "gamma c = gamma x" by (rule intAsLong [OF assms(1)])
  then have "addIntToLongs x pre = addLongToLongs c pre"
    by (cases pre) (simp_all add: addIntToLongs_def addLongToLongs_def Let_def cong: if_cong)
  then show ?thesis using addLongToLongs_step [OF c(2) assms(2)] assms(3) c by simp
qed

interpretation longInt: merge_steps Int64 Int32 addLongToLongs addIntToLongs "wfSimple Int64" "wfSimple Int32"
  "nullableInv Int64" "\<lambda>S. typeRange Int64 \<subseteq> S"
  by unfold_locales (use wfSimple_same wfSimple_bounds addLongToLongs_step addIntToLongs_step in blast)+

lemma nullableInv_Nil: "nullableInv t b {} []"
  by (auto simp: nullableInv_def resultInv_Nil)

lemma longIntMergeLoop_correct:
  assumes "\<forall>x \<in> set xs. wfSimple Int64 x" "\<forall>y \<in> set ys. wfSimple Int32 y" "ordered xs" "ordered ys" "xs \<noteq> []"
  shows "mergedExactly Int64 (gamma (Merged xs) \<union> gamma (Merged ys))
    (longIntMergeLoop (fst (advance Int64 xs)) (snd (advance Int64 xs)) (fst (advance Int32 ys)) (snd (advance Int32 ys)))"
proof -
  have ne: "gamma (Merged xs) \<noteq> {}" using assms(1,5) gamma_nonempty [of Int64 "hd xs"] by (cases xs) auto
  have "\<forall>x \<in> set xs \<union> set ys. getMinSigned Int64 \<le> low x"
    using assms(1,2) wfSimple_bounds by (fastforce simp: inType_def getMinSigned_def)
  then have "longInt.finished ({} \<union> gamma (Merged xs) \<union> gamma (Merged ys)) (longInt.run xs ys [])"
    using assms by (intro longInt.run_correct [where b = "getMinSigned Int64"] nullableInv_Nil) auto
  then show ?thesis unfolding longInt.finished_def
  proof (elim disjE exE conjE)
    fix pre b assume r: "longInt.run xs ys [] = Some (Some pre)" "nullableInv Int64 b ({} \<union> gamma (Merged xs) \<union> gamma (Merged ys)) pre"
    then show ?thesis using finishList_nullable [OF r(2)] ne r(1) by (simp add: longIntMergeLoop_def longInt.run_def)
  qed (auto simp: longIntMergeLoop_def longInt.run_def mergedExactly_def)
qed

text \<open>
  An int list with longs. The code adds one to a 32-bit bound and builds 32-bit ranges from long ones; both go
  right when \<open>INT_MAX\<close> is in none of the constraints.
\<close>

abbreviation intMax :: int where "intMax \<equiv> getMaxSigned Int32"

definition below :: "data_type \<Rightarrow> constraint \<Rightarrow> bool" where
  "below t x \<longleftrightarrow> wfSimple t x \<and> intMax \<notin> gamma x"

definition belowInv :: "int \<Rightarrow> int set \<Rightarrow> constraint option list \<Rightarrow> bool" where
  "belowInv b S pre \<longleftrightarrow> nullableInv Int32 b S pre \<and> intMax \<notin> S"

lemma longAsInt:
  assumes "below Int64 x" "\<not> (low x < getMinSigned Int32 \<or> high x > intMax)"
  obtains c where "intRangeCreate (castSigned Int32 (low x)) (castSigned Int32 (high x)) TR_no = Some c"
    "wfSimple Int32 c" "low c = low x" "high c = high x" "gamma c = gamma x"
proof -
  have w: "wfSimple Int64 x" "intMax \<notin> gamma x" using assms(1) by (auto simp: below_def)
  have b: "inType Int32 (low x)" "inType Int32 (high x)" "low x \<le> high x" "high x \<noteq> intMax"
    using assms(2) wfSimple_bounds [OF w(1)] gamma_nonempty [OF w(1)] w(2) by (auto simp: inType_def)
  obtain c where c: "createRange Int32 (low x) (high x) = Some c" "wfSimple Int32 c" "low c = low x" "high c = high x"
    by (rule createRange_cases [OF b(1-3)]) (use b(4) in simp_all)
  then show ?thesis using that b w(1) by (simp add: createRange_def castSigned_id wfSimple_gamma)
qed

lemma intMergeLong_touching:
  assumes "wfSimple Int32 l" "intMax \<notin> gamma l" "below Int64 x" "low l \<le> low x" "low x \<le> high l + 1"
  shows "intMergeLong l x = Some None
    \<or> (\<exists>c. intMergeLong l x = Some (Some c) \<and> wfSimple Int32 c \<and> low c = low l \<and> high c = max (high l) (high x))"
proof (cases "low x < getMinSigned Int32 \<or> high x > intMax")
  case True
  then show ?thesis by (auto simp: intMergeLong_def)
next
  case False
  have l: "inType Int32 (low l)" "inType Int32 (high l)" "low l \<le> high l" "high l \<noteq> intMax"
    using assms(2) wfSimple_bounds [OF assms(1)] gamma_nonempty [OF assms(1)] by auto
  have x: "low x \<le> high x" "high x \<noteq> intMax"
    using assms(3) wfSimple_bounds [of Int64 x] gamma_nonempty [of Int64 x] by (auto simp: below_def)
  define h where "h = max (high l) (high x)"
  have h: "inType Int32 h" "low l \<le> h" "h \<noteq> intMax" using False l x by (auto simp: h_def inType_def max_def)
  have "intMergeLong l x = Some (createRange Int32 (low l) h)"
    using False assms(4,5) l x h castSigned_id [OF l(1)] castSigned_id [OF h(1)]
    by (auto simp: intMergeLong_def plus1_def Let_def createRange_def h_def max_def)
  then show ?thesis using createRange_cases [OF l(1) h(1,2)] h(3) unfolding h_def by auto
qed

lemma mergeVia_intLong: "wfSimple Int32 l \<Longrightarrow> wfSimple Int64 x \<Longrightarrow> simpleMerge l x = intMergeLong l x"
  by (cases l; cases x) (auto simp: simpleMerge_def mergeVia_def simpleMerge1_def intMerge1_def)

lemma addIntToInts_step:
  assumes "below Int32 x" "belowInv b S pre" "b \<le> low x"
  shows "addIntToInts x pre = Some None
    \<or> (\<exists>pre'. addIntToInts x pre = Some (Some pre') \<and> belowInv (low x) (S \<union> gamma x) pre')"
proof -
  have x: "wfSimple Int32 x" "intMax \<notin> S \<union> gamma x" and "nullableInv Int32 b S pre"
    using assms by (auto simp: below_def belowInv_def)
  from this(3) show ?thesis
  proof (cases rule: nullableInv_cases)
    case 1
    then show ?thesis using nullableInv_I [OF resultInv_single [OF x(1)]] x by (simp add: addIntToInts_def belowInv_def)
  next
    case (2 l ps)
    then show ?thesis using resultInv_step [OF 2(2) x(1) assms(3)] nullableInv_I [of Int32 _ _ "_ # _"] x(2)
      by (fastforce simp: addIntToInts_def belowInv_def split: if_splits)
  qed
qed

lemma addLongToInts_wraps:
  assumes "wfSimple Int64 x" "nullableInv Int32 b S pre" "low x < getMinSigned Int32 \<or> high x > intMax"
  shows "addLongToInts x pre = Some None"
  using assms(2)
proof (cases rule: nullableInv_cases)
  case (2 l ps)
  then have "wfSimple Int32 l" by (simp add: resultInv_def)
  then show ?thesis using 2 assms by (auto simp: addLongToInts_def mergeVia_intLong intMergeLong_def)
qed (use assms(3) in \<open>auto simp: addLongToInts_def\<close>)

lemma addLongToInts_entry:
  assumes I: "resultInv Int32 b S (l # ps)" "intMax \<notin> S" and x: "below Int64 x" "b \<le> low x"
    and fits: "\<not> (low x < getMinSigned Int32 \<or> high x > intMax)"
    and c: "intRangeCreate (castSigned Int32 (low x)) (castSigned Int32 (high x)) TR_no = Some c"
      "wfSimple Int32 c" "low c = low x" "high c = high x" "gamma c = gamma x"
  shows "addLongToInts x (map Some (l # ps)) = Some None
    \<or> (\<exists>qs. addLongToInts x (map Some (l # ps)) = Some (Some (map Some qs)) \<and> resultInv Int32 (low x) (S \<union> gamma x) qs)"
proof -
  have l: "wfSimple Int32 l" "low l \<le> low x" "gamma l \<subseteq> S" using I(1) x(2) by (auto simp: resultInv_def)
  then have hl: "high l \<noteq> intMax" "intMax \<notin> gamma l" using gamma_nonempty [OF l(1)] I(2) by auto
  note as = wfSimple_same [OF l(1)]
  show ?thesis
  proof (cases "low x \<le> high l + 1")
    case True
    have "addLongToInts x (map Some (l # ps)) = intMergeLong l x \<bind> (\<lambda>m. Some (map_option (\<lambda>c. Some c # map Some ps) m))"
      using True hl mergeVia_intLong [OF l(1)] x(1) as by (simp add: addLongToInts_def Let_def below_def)
    moreover have "resultInv Int32 (low c) (S \<union> gamma c) (d # ps)"
      if "wfSimple Int32 d" "low d = low l" "high d = max (high l) (high x)" for d
      by (rule resultInv_merge [OF I(1) c(2)]) (use that x(2) c(3,4) True in simp_all)
    ultimately show ?thesis
      using intMergeLong_touching [OF l(1) hl(2) x(1) l(2) True] c(3,5)
      by (elim disjE exE conjE) (auto intro!: exI [of _ "_ # ps"])
  next
    case False
    then have "addLongToInts x (map Some (l # ps)) = Some (Some (map Some (c # l # ps)))"
      using fits hl c as by (simp add: addLongToInts_def)
    moreover have "resultInv Int32 (low c) (S \<union> gamma c) (c # l # ps)"
      using resultInv_step [OF I(1) c(2)] x(2) c(3) hl False by simp
    ultimately show ?thesis unfolding c(3,5) by blast
  qed
qed

lemma addLongToInts_step:
  assumes "below Int64 x" "belowInv b S pre" "b \<le> low x"
  shows "addLongToInts x pre = Some None
    \<or> (\<exists>pre'. addLongToInts x pre = Some (Some pre') \<and> belowInv (low x) (S \<union> gamma x) pre')"
proof -
  have x: "wfSimple Int64 x" "intMax \<notin> S \<union> gamma x" and n: "nullableInv Int32 b S pre"
    using assms by (auto simp: below_def belowInv_def)
  show ?thesis
  proof (cases "low x < getMinSigned Int32 \<or> high x > intMax")
    case True
    then show ?thesis using addLongToInts_wraps [OF x(1) n] by blast
  next
    case False
    obtain c where c: "intRangeCreate (castSigned Int32 (low x)) (castSigned Int32 (high x)) TR_no = Some c"
      "wfSimple Int32 c" "low c = low x" "high c = high x" "gamma c = gamma x" by (rule longAsInt [OF assms(1) False])
    from n show ?thesis
    proof (cases rule: nullableInv_cases)
      case 1
      then show ?thesis using nullableInv_I [OF resultInv_single [OF c(2)]] x c False
        by (simp add: addLongToInts_def belowInv_def)
    next
      case (2 l ps)
      have "intMax \<notin> S" using x(2) by simp
      from addLongToInts_entry [OF 2(2) this assms(1,3) False c] show ?thesis
        using 2(1) nullableInv_I x(2) by (auto simp: belowInv_def)
    qed
  qed
qed

interpretation intLong: merge_steps Int32 Int64 addIntToInts addLongToInts "below Int32" "below Int64" belowInv "\<lambda>S. True"
  by unfold_locales (use wfSimple_same wfSimple_bounds below_def addIntToInts_step addLongToInts_step in blast)+


text \<open>The outcome of a merge of mixed widths: \<open>NULL\<close>, or a constraint that admits what both admit.\<close>

definition covers :: "int set \<Rightarrow> constraint option option \<Rightarrow> bool" where
  "covers S r \<longleftrightarrow> (\<exists>c. r = Some c \<and> (\<forall>d. c = Some d \<longrightarrow> (wfc Int32 d \<or> wfc Int64 d) \<and> S \<subseteq> gamma d))"

lemma covers_exactly: "mergedExactly t S r \<Longrightarrow> t = Int32 \<or> t = Int64 \<Longrightarrow> covers S r"
  by (auto simp: mergedExactly_def covers_def)

lemma covers_NULL: "covers S (Some None)"
  by (simp add: covers_def)

lemma intLongMergeLoop_covers:
  assumes "\<forall>x \<in> set xs. below Int32 x" "\<forall>y \<in> set ys. below Int64 y" "ordered xs" "ordered ys" "xs \<noteq> []"
  shows "covers (gamma (Merged xs) \<union> gamma (Merged ys))
    (intLongMergeLoop (fst (advance Int32 xs)) (snd (advance Int32 xs)) (fst (advance Int64 ys)) (snd (advance Int64 ys)))"
proof -
  have ne: "gamma (Merged xs) \<noteq> {}" using assms(1,5) gamma_nonempty [of Int32 "hd xs"] by (cases xs) (auto simp: below_def)
  have "\<forall>x \<in> set xs \<union> set ys. getMinSigned Int64 \<le> low x"
    using assms(1,2) wfSimple_bounds by (fastforce simp: below_def inType_def getMinSigned_def)
  moreover have "belowInv (getMinSigned Int64) {} []" by (simp add: belowInv_def nullableInv_Nil)
  ultimately have "intLong.finished ({} \<union> gamma (Merged xs) \<union> gamma (Merged ys)) (intLong.run xs ys [])"
    using assms by (intro intLong.run_correct [where b = "getMinSigned Int64"]) auto
  then show ?thesis unfolding intLong.finished_def
  proof (elim disjE exE conjE)
    fix pre b assume r: "intLong.run xs ys [] = Some (Some pre)" "belowInv b ({} \<union> gamma (Merged xs) \<union> gamma (Merged ys)) pre"
    then have "mergedExactly Int32 (gamma (Merged xs) \<union> gamma (Merged ys)) (finishList (rev pre))"
      using ne by (intro finishList_nullable [where b = b]) (auto simp: belowInv_def)
    then show ?thesis using covers_exactly r(1) by (simp add: intLongMergeLoop_def intLong.run_def)
  qed (auto simp: intLongMergeLoop_def intLong.run_def covers_NULL)
qed

lemma otherList_elements:
  assumes "wfc t b" "otherList b = Some (c, cs)"
  shows "\<forall>y \<in> set (c # cs). wfSimple t y" "ordered (c # cs)" "gamma b = gamma (Merged (c # cs))"
  using assms by (cases b; auto simp: otherList_def split: list.splits)+

lemma mergedMerge1_intLong:
  assumes "wfc Int32 (Merged cs)" "wfc Int64 b" "intMax \<notin> gamma (Merged cs) \<union> gamma b"
  shows "covers (gamma (Merged cs) \<union> gamma b) (mergedMerge1 cs b)"
proof -
  obtain d ds where o: "otherList b = Some (d, ds)" using otherList_wf [OF assms(2)] by blast
  note e = otherList_elements [OF assms(2) o]
  obtain c next' where cs: "cs = c # next'" using assms(1) by (cases cs) auto
  have "covers (gamma (Merged cs) \<union> gamma (Merged (d # ds)))
    (intLongMergeLoop (fst (advance Int32 cs)) (snd (advance Int32 cs)) (fst (advance Int64 (d # ds))) (snd (advance Int64 (d # ds))))"
    using assms e cs by (intro intLongMergeLoop_covers) (auto simp: below_def)
  moreover have "asConstraint Int32 d = None" "asConstraint Int64 d = Some d" using e(1) wfSimple_as [of Int64 d] by auto
  ultimately show ?thesis unfolding e(3)
    using mergedType_wf [OF assms(1)] cs o by (simp add: mergedMerge1_def intMerge_def advance_def)
qed

lemma mergedMerge1_longInt:
  assumes "wfc Int64 (Merged cs)" "wfc Int32 b"
  shows "covers (gamma (Merged cs) \<union> gamma b) (mergedMerge1 cs b)"
proof -
  obtain d ds where o: "otherList b = Some (d, ds)" using otherList_wf [OF assms(2)] by blast
  note e = otherList_elements [OF assms(2) o]
  obtain c next' where cs: "cs = c # next'" using assms(1) by (cases cs) auto
  have "mergedExactly Int64 (gamma (Merged cs) \<union> gamma (Merged (d # ds)))
    (longIntMergeLoop (fst (advance Int64 cs)) (snd (advance Int64 cs)) (fst (advance Int32 (d # ds))) (snd (advance Int32 (d # ds))))"
    using assms e cs by (intro longIntMergeLoop_correct) auto
  moreover have "asConstraint Int64 d = None" "asConstraint Int32 d = Some d" using e(1) wfSimple_as [of Int32 d] by auto
  ultimately show ?thesis unfolding e(3)
    using mergedType_wf [OF assms(1)] cs o covers_exactly by (simp add: mergedMerge1_def longMerge_def advance_def)
qed

lemma intMergeLong_covers:
  assumes "below Int32 a" "below Int64 b"
  shows "covers (gamma a \<union> gamma b) (intMergeLong a b)"
proof (cases "low b < getMinSigned Int32 \<or> high b > intMax")
  case True
  then show ?thesis by (auto simp: intMergeLong_def covers_NULL)
next
  case False
  have w: "wfSimple Int32 a" "wfSimple Int64 b" using assms by (auto simp: below_def)
  obtain c where c: "intRangeCreate (castSigned Int32 (low b)) (castSigned Int32 (high b)) TR_no = Some c"
    "wfSimple Int32 c" "low c = low b" "high c = high b" "gamma c = gamma b" by (rule longAsInt [OF assms(2) False])
  note bounds = wfSimple_bounds [OF w(1)] wfSimple_bounds [OF c(2)]
  have h: "high a \<noteq> intMax" "high b \<noteq> intMax"
    using assms gamma_nonempty [OF w(1)] gamma_nonempty [OF w(2)] by (auto simp: below_def)
  define l m where "l = min (low a) (low b)" and "m = max (high a) (high b)"
  have lm: "inType Int32 l" "inType Int32 m" "l \<le> m" "m \<noteq> intMax" using bounds c h by (auto simp: l_def m_def min_def max_def)
  show ?thesis
  proof (cases "low b \<le> high a + 1")
    case True
    have *: "intMergeLong a b = Some (createRange Int32 l m)"
      using False True h castSigned_id [OF lm(1)] castSigned_id [OF lm(2)]
      by (auto simp: intMergeLong_def plus1_def Let_def createRange_def l_def m_def min_def max_def)
    show ?thesis unfolding *
      by (rule createRange_cases [OF lm(1-3)])
         (use lm(4) w in \<open>auto simp: covers_def wfSimple_gamma l_def m_def\<close>)
  next
    case neq: False
    then have "intMergeLong a b = Some (Some (Merged [a, c]))"
      using False h bounds c(1) by (auto simp: intMergeLong_def plus1_def mergedCreate2_def)
    then show ?thesis using w c neq by (auto simp: covers_def)
  qed
qed

lemma merge_intLong:
  assumes "wfc Int32 a" "wfc Int64 b" "intMax \<notin> gamma a \<union> gamma b"
  shows "covers (gamma a \<union> gamma b) (merge False a b)" "covers (gamma a \<union> gamma b) (merge False b a)"
proof -
  have "covers (gamma a \<union> gamma b) (merge False a b) \<and> covers (gamma a \<union> gamma b) (merge False b a)"
    using assms(1)
  proof (cases rule: wf_cases)
    case a: simple
    from assms(2) show ?thesis
    proof (cases rule: wf_cases)
      case simple
      then have "merge False a b = intMergeLong a b" "merge False b a = intMergeLong a b" using a
        by (cases a; cases b; auto simp: merge_def mergeVia_def merge1_def simpleMerge1_def intMerge1_def)+
      then show ?thesis using intMergeLong_covers [of a b] a simple assms(3) by (simp add: below_def)
    next
      case (merged ds)
      then have "merge False a b = mergedMerge1 ds a" "merge False b a = mergedMerge1 ds a" using priority_wfSimple [OF a]
        by (auto simp: merge_def mergeVia_def merge1_def)
      then show ?thesis using mergedMerge1_longInt [of ds a] assms merged(1) by (simp add: Un_commute)
    qed
  next
    case (merged cs)
    then have ab: "merge False a b = mergedMerge1 cs b" 
      by (cases b) (auto simp: merge_def mergeVia_def merge1_def split: data_type.splits)
    have "merge False b a = (case b of Merged ds \<Rightarrow> mergedMerge1 ds a | _ \<Rightarrow> mergedMerge1 cs b)" using merged(1)
      by (cases b) (auto simp: merge_def mergeVia_def merge1_def split: data_type.splits)
    then show ?thesis using ab mergedMerge1_intLong [of cs b] mergedMerge1_longInt [of _ a] assms merged(1)
      by (cases b) (simp_all add: Un_commute)
  qed
  then show "covers (gamma a \<union> gamma b) (merge False a b)" "covers (gamma a \<union> gamma b) (merge False b a)" by auto
qed

end
