(* ===== verification/VPIntersect.thy ===== *)
theory VPIntersect
  imports VPMerge
begin

text \<open>
  Intersection of integer constraints (the logical and): \<open>VPConstraint::intersect\<close>, the \<open>intersect1\<close> of each
  class and the list intersections of merged constraints, with the branches in which the widths differ.
\<close>

section \<open>Two simple constraints\<close>

text \<open>
  The calls \<open>otherInt->intersect(this)\<close> are made with two different constraints of the same class, so that
  \<open>intersect\<close> continues with \<open>intersect1\<close> of the same receiver.
\<close>

function intersect1Same :: "data_type \<Rightarrow> constraint \<Rightarrow> constraint \<Rightarrow> constraint option" where
  "intersect1Same t this other =
     (if low other < low this then intersect1Same t other this
      else if high other \<le> high this then Some other
      else if low other \<le> high this then createRange t (low other) (high this)
      else None)"
  by pat_completeness auto
termination by (relation "measure (\<lambda>(t, a, b). if low b < low a then 1 else 0)") auto

declare intersect1Same.simps [simp del]

definition overlapLow :: "constraint \<Rightarrow> constraint \<Rightarrow> int" where
  "overlapLow this other = (if low other < low this then low this else low other)"

definition overlapHigh :: "constraint \<Rightarrow> constraint \<Rightarrow> int" where
  "overlapHigh this other = (if high other \<le> high this then high other else high this)"

definition shortIntersect1 :: "constraint \<Rightarrow> constraint \<Rightarrow> constraint option" where
  "shortIntersect1 this other = (case asConstraint Int16 other of
       Some otherShort \<Rightarrow> intersect1Same Int16 this otherShort
     | None \<Rightarrow> (case asConstraint Int32 other of
         Some otherInt \<Rightarrow> shortRangeCreate (castSigned Int16 (overlapLow this otherInt)) (castSigned Int16 (overlapHigh this otherInt)) TR_no
       | None \<Rightarrow> (case asConstraint Int64 other of
           Some otherLong \<Rightarrow> shortRangeCreate (castSigned Int16 (overlapLow this otherLong)) (castSigned Int16 (overlapHigh this otherLong)) TR_no
         | None \<Rightarrow> None)))"

definition intIntersect1 :: "constraint \<Rightarrow> constraint \<Rightarrow> constraint option" where
  "intIntersect1 this other = (case asConstraint Int32 other of
       Some otherInt \<Rightarrow> intersect1Same Int32 this otherInt
     | None \<Rightarrow> (case asConstraint Int64 other of
         Some otherLong \<Rightarrow>
           longRangeCreate (castSigned Int32 (overlapLow this otherLong)) (castSigned Int32 (overlapHigh this otherLong)) False TR_no
       | None \<Rightarrow> None))"

definition longIntersect1 :: "constraint \<Rightarrow> constraint \<Rightarrow> constraint option" where
  "longIntersect1 this other = (case asConstraint Int64 other of
       Some otherLong \<Rightarrow> intersect1Same Int64 this otherLong
     | None \<Rightarrow> (case asConstraint Int32 other of
         Some otherInt \<Rightarrow>
           if low otherInt < low this then intIntersect1 otherInt this
           else if high otherInt \<le> high this then longRangeCreate (low this) (high otherInt) False TR_no
           else if low otherInt \<le> high this then
             if high this > getMaxSigned Int32 then longRangeCreate (low otherInt) (getMaxSigned Int32) False TR_no
             else longRangeCreate (low otherInt) (high this) False TR_no
           else None
       | None \<Rightarrow> None))"

definition simpleIntersect1 :: "constraint \<Rightarrow> constraint \<Rightarrow> constraint option" where
  "simpleIntersect1 this other = (case simpleType this of
       Some Int16 \<Rightarrow> shortIntersect1 this other | Some Int32 \<Rightarrow> intIntersect1 this other
     | Some Int64 \<Rightarrow> longIntersect1 this other | _ \<Rightarrow> None)"

section \<open>Intersecting lists\<close>

text \<open>
  The loop of the list intersections. The lists of one type, an int list with longs and a long list with ints
  differ in the type of the ranges they build, in the conversions, and in that the int code reloads the two current
  ranges at the start of each iteration.
\<close>

datatype intersection_kind = SameType data_type | IntWithLong | LongWithInt

fun curType :: "intersection_kind \<Rightarrow> data_type" where
  "curType (SameType t) = t" | "curType IntWithLong = Int32" | "curType LongWithInt = Int64"

fun otherType :: "intersection_kind \<Rightarrow> data_type" where
  "otherType (SameType t) = t" | "otherType IntWithLong = Int64" | "otherType LongWithInt = Int32"

definition resultBound :: "intersection_kind \<Rightarrow> int \<Rightarrow> int" where
  "resultBound k v = (if k = IntWithLong then castSigned Int32 v else v)"

definition otherLowAfter :: "intersection_kind \<Rightarrow> int \<Rightarrow> int" where
  "otherLowAfter k v = (if k = LongWithInt then castSigned Int32 v else v)"

record intersection =
  cur :: constraint
  curLow :: int
  curNext :: "constraint list"
  other :: constraint
  otherLow :: int
  otherNext :: "constraint list"
  result :: "constraint option list"

definition skipCur :: "intersection_kind \<Rightarrow> intersection \<Rightarrow> intersection option option" where
  "skipCur k s = (case curNext s of [] \<Rightarrow> Some None
     | c # cs \<Rightarrow> do { c' \<leftarrow> asConstraint (curType k) c; Some (Some (s\<lparr>cur := c', curNext := cs, curLow := low c'\<rparr>)) })"

definition skipOther :: "intersection_kind \<Rightarrow> intersection \<Rightarrow> intersection option option" where
  "skipOther k s = (case otherNext s of [] \<Rightarrow> Some None
     | c # cs \<Rightarrow> do { c' \<leftarrow> asConstraint (otherType k) c; Some (Some (s\<lparr>other := c', otherNext := cs, otherLow := low c'\<rparr>)) })"

definition reload :: "intersection_kind \<Rightarrow> intersection \<Rightarrow> intersection" where
  "reload k s = (if k = IntWithLong then s\<lparr>curLow := low (cur s), otherLow := low (other s)\<rparr> else s)"

text \<open>The end of an iteration: \<open>Inl\<close> where it breaks out of the loop with the result, \<open>Inr\<close> where it goes on.\<close>

definition skip :: "intersection_kind \<Rightarrow> bool \<Rightarrow> bool \<Rightarrow> intersection \<Rightarrow> (constraint option list + intersection) option" where
  "skip k sc so s =
     do { r \<leftarrow> (if sc then skipCur k s else Some (Some s));
       case r of None \<Rightarrow> Some (Inl (result s))
       | Some s1 \<Rightarrow>
           do { r' \<leftarrow> (if so then skipOther k s1 else Some (Some s1));
             case r' of None \<Rightarrow> Some (Inl (result s)) | Some s2 \<Rightarrow> Some (Inr (reload k s2)) } }"

definition intersectStep :: "intersection_kind \<Rightarrow> intersection \<Rightarrow> (constraint option list + intersection) option" where
  "intersectStep k s =
     (let curHigh = high (cur s); otherHigh = high (other s) in
      if curHigh < otherLow s then skip k True False s
      else if otherHigh < curLow s then skip k False True s
      else
        let resultLow = resultBound k (if curLow s > otherLow s then curLow s else otherLow s);
            resultHigh = resultBound k (if curHigh < otherHigh then curHigh else otherHigh);
            s' = s\<lparr>result := createRange (curType k) resultLow resultHigh # result s\<rparr>
        in if resultHigh = getMaxSigned (curType k) then Some (Inl (result s'))
           else let cl = resultHigh + 1; ol = otherLowAfter k (resultHigh + 1)
                in skip k (cl > curHigh) (ol > otherHigh) (s'\<lparr>curLow := cl, otherLow := ol\<rparr>))"

partial_function (option) intersectLoop :: "intersection_kind \<Rightarrow> intersection \<Rightarrow> constraint option list option" where
  "intersectLoop k s = do { r \<leftarrow> intersectStep k s; case r of Inl res \<Rightarrow> Some res | Inr s' \<Rightarrow> intersectLoop k s' }"

definition finishIntersect :: "constraint option list \<Rightarrow> constraint option option" where
  "finishIntersect res = (case rev res of [] \<Rightarrow> Some None | [c] \<Rightarrow> Some c | cs \<Rightarrow> mergedCreate cs)"

definition startIntersect :: "intersection_kind \<Rightarrow> constraint \<Rightarrow> constraint list \<Rightarrow> constraint \<Rightarrow> constraint list
    \<Rightarrow> constraint option option" where
  "startIntersect k c next' o' onext = do { res \<leftarrow> intersectLoop k
      \<lparr>cur = c, curLow = low c, curNext = next', other = o', otherLow = low o', otherNext = onext, result = []\<rparr>;
      finishIntersect res }"

definition sameTypeIntersect :: "data_type \<Rightarrow> constraint list \<Rightarrow> constraint \<Rightarrow> constraint list \<Rightarrow> constraint option option" where
  "sameTypeIntersect t cs otherCur onext = (case cs of [] \<Rightarrow> None
     | c # next' \<Rightarrow> do { c' \<leftarrow> asConstraint t c; startIntersect (SameType t) c' next' otherCur onext })"

definition shortIntersect :: "constraint list \<Rightarrow> constraint \<Rightarrow> constraint list \<Rightarrow> constraint option option" where
  "shortIntersect cs other' onext = (case asConstraint Int16 other' of
       Some otherCur \<Rightarrow> sameTypeIntersect Int16 cs otherCur onext | None \<Rightarrow> if cs = [] then None else Some None)"

definition intIntersectLong :: "constraint \<Rightarrow> constraint list \<Rightarrow> constraint \<Rightarrow> constraint list \<Rightarrow> constraint option option" where
  "intIntersectLong c next' otherCur onext = startIntersect IntWithLong c next' otherCur onext"

definition longIntersectInt :: "constraint \<Rightarrow> constraint list \<Rightarrow> constraint \<Rightarrow> constraint list \<Rightarrow> constraint option option" where
  "longIntersectInt c next' otherCur onext = startIntersect LongWithInt c next' otherCur onext"

definition intIntersect :: "constraint list \<Rightarrow> constraint \<Rightarrow> constraint list \<Rightarrow> constraint option option" where
  "intIntersect cs other' onext = (case asConstraint Int32 other' of
       Some otherCur \<Rightarrow> sameTypeIntersect Int32 cs otherCur onext
     | None \<Rightarrow> (case cs of [] \<Rightarrow> None | c # next' \<Rightarrow>
         (case (asConstraint Int32 c, asConstraint Int64 other') of
           (Some c', Some otherCur) \<Rightarrow> intIntersectLong c' next' otherCur onext
         | _ \<Rightarrow> Some None)))"

definition longIntersect :: "constraint list \<Rightarrow> constraint \<Rightarrow> constraint list \<Rightarrow> constraint option option" where
  "longIntersect cs other' onext = (case asConstraint Int64 other' of
       Some otherCur \<Rightarrow> sameTypeIntersect Int64 cs otherCur onext
     | None \<Rightarrow> (case cs of [] \<Rightarrow> None | c # next' \<Rightarrow>
         (case asConstraint Int32 other' of
           Some otherCur \<Rightarrow> do { c' \<leftarrow> asConstraint Int64 c; longIntersectInt c' next' otherCur onext }
         | None \<Rightarrow> Some None)))"

definition mergedIntersect1 :: "constraint list \<Rightarrow> constraint \<Rightarrow> constraint option option" where
  "mergedIntersect1 cs other' = do { (otherCur, onext) \<leftarrow> otherList other';
     case mergedType cs of Int16 \<Rightarrow> shortIntersect cs otherCur onext | Int32 \<Rightarrow> intIntersect cs otherCur onext
     | Int64 \<Rightarrow> longIntersect cs otherCur onext | Int8 \<Rightarrow> Some None }"

definition intersect1 :: "constraint \<Rightarrow> constraint \<Rightarrow> constraint option option" where
  "intersect1 this other' = (case this of Merged cs \<Rightarrow> mergedIntersect1 cs other' | _ \<Rightarrow> Some (simpleIntersect1 this other'))"

text \<open>
  \<open>VPConstraint::intersect\<close>: with a null operand it records a failed intersection in the value propagation's
  flag, which is the second component of the result.
\<close>

definition intersect :: "bool \<Rightarrow> constraint \<Rightarrow> constraint option \<Rightarrow> bool \<Rightarrow> (constraint option \<times> bool) option" where
  "intersect samePointer this other' failed = (case other' of
       None \<Rightarrow> Some (None, True)
     | Some o' \<Rightarrow>
         if samePointer then Some (Some this, failed)
         else do { r \<leftarrow> (if priority o' > priority this then intersect1 o' this else intersect1 this o'); Some (r, failed) })"

section \<open>Correctness of the simple intersections\<close>

text \<open>\<open>NULL\<close> stands for the empty intersection.\<close>

definition meetsExactly :: "data_type \<Rightarrow> int set \<Rightarrow> constraint option \<Rightarrow> bool" where
  "meetsExactly t S c \<longleftrightarrow> (case c of None \<Rightarrow> S = {} | Some d \<Rightarrow> wfc t d \<and> gamma d = S)"

lemma intersect1Same_ordered:
  assumes "wfSimple t a" "wfSimple t b" "low a \<le> low b"
  shows "meetsExactly t (gamma a \<inter> gamma b) (intersect1Same t a b)"
proof -
  note B = wfSimple_bounds [OF assms(1)] wfSimple_bounds [OF assms(2)]
  consider "high b \<le> high a" | "high a < high b" "low b \<le> high a" | "high a < low b" by linarith
  then show ?thesis
  proof cases
    case 1
    then show ?thesis using assms by (auto simp: intersect1Same.simps [of t a b] meetsExactly_def wfSimple_gamma)
  next
    case 2
    then have e: "intersect1Same t a b = createRange t (low b) (high a)"
      using assms(3) by (simp add: intersect1Same.simps [of t a b])
    have n: "high a \<noteq> getMaxSigned t" using 2 B by (auto simp: inType_def)
    have g: "gamma a \<inter> gamma b = {low b..high a}" using assms 2 by (auto simp: wfSimple_gamma)
    show ?thesis unfolding e g
      by (rule createRange_wf_cases [OF assms(2,1) 2(2)]) (use n in \<open>auto simp: meetsExactly_def wfSimple_gamma\<close>)
  next
    case 3
    then show ?thesis using assms B by (auto simp: intersect1Same.simps [of t a b] meetsExactly_def wfSimple_gamma)
  qed
qed

lemma intersect1Same_correct:
  assumes "wfSimple t a" "wfSimple t b"
  shows "meetsExactly t (gamma a \<inter> gamma b) (intersect1Same t a b)"
proof (cases "low b < low a")
  case True
  then have "intersect1Same t a b = intersect1Same t b a" by (simp add: intersect1Same.simps [of t a b])
  then show ?thesis using intersect1Same_ordered [OF assms(2,1)] True by (simp add: Int_commute)
qed (use intersect1Same_ordered [OF assms] in simp)

lemma simpleIntersect1_same: "wfSimple t a \<Longrightarrow> wfSimple t b \<Longrightarrow> simpleIntersect1 a b = intersect1Same t a b"
  using wfSimple_type [of t a]
  by (cases t) (auto simp: simpleIntersect1_def shortIntersect1_def intIntersect1_def longIntersect1_def wfSimple_as)

section \<open>Correctness of the list loop\<close>

definition remaining :: "intersection \<Rightarrow> int set" where
  "remaining s = ({curLow s..high (cur s)} \<union> gamma (Merged (curNext s))) \<inter> ({otherLow s..high (other s)} \<union> gamma (Merged (otherNext s)))"

definition proper :: "data_type \<Rightarrow> constraint \<Rightarrow> bool" where
  "proper t c \<longleftrightarrow> wfSimple t c \<and> \<not> (low c = getMinSigned t \<and> high c = getMaxSigned t)"

definition validState :: "intersection_kind \<Rightarrow> intersection \<Rightarrow> bool" where
  "validState k s \<longleftrightarrow>
     (\<forall>c \<in> set (cur s # curNext s). proper (curType k) c) \<and> ordered (cur s # curNext s)
     \<and> (\<forall>c \<in> set (other s # otherNext s). wfSimple (otherType k) c) \<and> ordered (other s # otherNext s)
     \<and> low (cur s) \<le> curLow s \<and> curLow s \<le> high (cur s) \<and> otherLow s \<le> high (other s)
     \<and> (k = IntWithLong \<longrightarrow> curLow s = low (cur s) \<and> otherLow s = low (other s))
     \<and> (k = LongWithInt \<longrightarrow> getMinSigned Int32 \<le> otherLow s)"

definition found :: "intersection_kind \<Rightarrow> int set \<Rightarrow> constraint option list \<Rightarrow> bool" where
  "found k S res \<longleftrightarrow> (\<exists>ps. res = map Some ps \<and> (\<forall>p \<in> set ps. wfSimple (curType k) p) \<and> descending ps \<and> S = gamma (Merged ps))"

definition progress :: "intersection_kind \<Rightarrow> int set \<Rightarrow> intersection \<Rightarrow> bool" where
  "progress k S s \<longleftrightarrow> validState k s \<and> (\<exists>R. found k R (result s) \<and> S = R \<union> remaining s \<and> (\<forall>p \<in> R. \<forall>v \<in> remaining s. p < v))"

lemma ordered_above: "ordered (c # cs) \<Longrightarrow> \<forall>d \<in> set cs. wfSimple t d \<Longrightarrow> v \<in> gamma (Merged cs) \<Longrightarrow> high c < v"
  by (fastforce simp: wfSimple_gamma)

lemma gamma_Cons: "wfSimple t c \<Longrightarrow> gamma (Merged (c # cs)) = {low c..high c} \<union> gamma (Merged cs)"
  using wfSimple_gamma [of t c] by simp

lemma overlap_split:
  assumes "\<forall>x \<in> X. ch < x" "\<forall>y \<in> Y. oh < (y :: int)" "r = min ch oh" "l = max cl ol"
  shows "({cl..ch} \<union> X) \<inter> ({ol..oh} \<union> Y) = {l..r} \<union> (({cl..ch} \<union> X) \<inter> ({ol..oh} \<union> Y) \<inter> {r<..})"
    "({cl..ch} \<union> X) \<inter> ({ol..oh} \<union> Y) \<inter> {..r} = {l..r}"
  using assms by fastforce+

text \<open>What the end of an iteration looks for, from the ranges that are not skipped.\<close>

definition wanted :: "intersection_kind \<Rightarrow> bool \<Rightarrow> bool \<Rightarrow> intersection \<Rightarrow> int set" where
  "wanted k sc so s = (let s' = reload k s in
     ((if sc then {} else {curLow s'..high (cur s)}) \<union> gamma (Merged (curNext s)))
     \<inter> ((if so then {} else {otherLow s'..high (other s)}) \<union> gamma (Merged (otherNext s))))"

definition listsOk :: "intersection_kind \<Rightarrow> intersection \<Rightarrow> bool" where
  "listsOk k s \<longleftrightarrow> (\<forall>c \<in> set (cur s # curNext s). proper (curType k) c) \<and> ordered (cur s # curNext s)
     \<and> (\<forall>c \<in> set (other s # otherNext s). wfSimple (otherType k) c) \<and> ordered (other s # otherNext s)"

lemma validState_iff: "validState k s \<longleftrightarrow> listsOk k s \<and> low (cur s) \<le> curLow s \<and> curLow s \<le> high (cur s)
    \<and> otherLow s \<le> high (other s) \<and> (k = IntWithLong \<longrightarrow> curLow s = low (cur s) \<and> otherLow s = low (other s))
    \<and> (k = LongWithInt \<longrightarrow> getMinSigned Int32 \<le> otherLow s)"
  by (auto simp: validState_def listsOk_def)

definition workLeft :: "intersection \<Rightarrow> nat" where
  "workLeft s = 2 * (length (curNext s) + length (otherNext s)) + (if high (other s) < curLow s then 0 else 1)"

lemma skipCur_cases:
  assumes "listsOk k s"
  obtains "curNext s = []" "skipCur k s = Some None"
  | c cs where "curNext s = c # cs" "skipCur k s = Some (Some (s\<lparr>cur := c, curNext := cs, curLow := low c\<rparr>))"
    "wfSimple (curType k) c" "low c \<le> high c"
proof (cases "curNext s")
  case Nil
  then show ?thesis using that(1) by (simp add: skipCur_def)
next
  case (Cons c cs)
  then have "wfSimple (curType k) c" using assms by (simp add: listsOk_def proper_def)
  then show ?thesis using that(2) [OF Cons] Cons wfSimple_same wfSimple_bounds by (simp add: skipCur_def)
qed

lemma skipOther_cases:
  assumes "listsOk k s"
  obtains "otherNext s = []" "skipOther k s = Some None"
  | c cs where "otherNext s = c # cs" "skipOther k s = Some (Some (s\<lparr>other := c, otherNext := cs, otherLow := low c\<rparr>))"
    "wfSimple (otherType k) c" "low c \<le> high c"
proof (cases "otherNext s")
  case Nil
  then show ?thesis using that(1) by (simp add: skipOther_def)
next
  case (Cons c cs)
  then have "wfSimple (otherType k) c" using assms by (simp add: listsOk_def)
  then show ?thesis using that(2) [OF Cons] Cons wfSimple_same wfSimple_bounds by (simp add: skipOther_def)
qed

lemma reload_simps [simp]:
  "cur (reload k s) = cur s" "curNext (reload k s) = curNext s" "other (reload k s) = other s"
  "otherNext (reload k s) = otherNext s" "result (reload k s) = result s"
  by (simp_all add: reload_def)

text \<open>Skipping the current range of the first list, of the second, of both, or of neither.\<close>

lemma skip_neither:
  assumes "listsOk k s" "low (cur s) \<le> curLow s" "curLow s \<le> high (cur s)" "otherLow s \<le> high (other s)"
    and "k = LongWithInt \<longrightarrow> getMinSigned Int32 \<le> otherLow s"
  shows "skip k False False s = Some (Inr (reload k s)) \<and> validState k (reload k s) \<and> remaining (reload k s) = wanted k False False s"
proof -
  have "low (cur s) \<le> high (cur s)" "low (other s) \<le> high (other s)"
    using assms(1) wfSimple_bounds by (auto simp: listsOk_def proper_def)
  then show ?thesis using assms
    by (simp add: skip_def wanted_def remaining_def validState_iff) (auto simp: reload_def listsOk_def)
qed

lemma skip_cur:
  assumes "listsOk k s" "otherLow s \<le> high (other s)" "k = LongWithInt \<longrightarrow> getMinSigned Int32 \<le> otherLow s"
  shows "skip k True False s = Some (Inl (result s)) \<and> wanted k True False s = {}
    \<or> (\<exists>s'. skip k True False s = Some (Inr s') \<and> validState k s' \<and> remaining s' = wanted k True False s
         \<and> result s' = result s \<and> workLeft s' < 2 * (length (curNext s) + length (otherNext s)))"
  using assms(1)
proof (cases rule: skipCur_cases)
  case 1
  then show ?thesis by (simp add: skip_def wanted_def Let_def)
next
  case (2 c cs)
  have o: "low (other s) \<le> high (other s)" using assms(1) wfSimple_bounds by (auto simp: listsOk_def)
  let ?s = "reload k (s\<lparr>cur := c, curNext := cs, curLow := low c\<rparr>)"
  have "validState k ?s" using assms 2 o by (auto simp: validState_iff listsOk_def reload_def)
  moreover have "remaining ?s = wanted k True False s"
    using 2 gamma_Cons [OF 2(3), of cs] by (auto simp: remaining_def wanted_def Let_def reload_def)
  moreover have "workLeft ?s < 2 * (length (curNext s) + length (otherNext s))" using 2(1) by (simp add: workLeft_def)
  ultimately show ?thesis using 2(2) by (simp add: skip_def)
qed

lemma skip_other:
  assumes "listsOk k s" "low (cur s) \<le> curLow s" "curLow s \<le> high (cur s)"
  shows "skip k False True s = Some (Inl (result s)) \<and> wanted k False True s = {}
    \<or> (\<exists>s'. skip k False True s = Some (Inr s') \<and> validState k s' \<and> remaining s' = wanted k False True s
         \<and> result s' = result s \<and> workLeft s' < 2 * (length (curNext s) + length (otherNext s)))"
  using assms(1)
proof (cases rule: skipOther_cases)
  case 1
  then show ?thesis by (simp add: skip_def wanted_def Let_def)
next
  case (2 c cs)
  have o: "low (cur s) \<le> high (cur s)" using assms(1) wfSimple_bounds by (auto simp: listsOk_def proper_def)
  have m: "k = LongWithInt \<longrightarrow> getMinSigned Int32 \<le> low c" using wfSimple_bounds [OF 2(3)] by (auto simp: inType_def)
  let ?s = "reload k (s\<lparr>other := c, otherNext := cs, otherLow := low c\<rparr>)"
  have "validState k ?s" using assms 2 o m by (auto simp: validState_iff listsOk_def reload_def)
  moreover have "remaining ?s = wanted k False True s"
    using 2 gamma_Cons [OF 2(3), of cs] by (auto simp: remaining_def wanted_def Let_def reload_def)
  moreover have "workLeft ?s < 2 * (length (curNext s) + length (otherNext s))" using 2(1) by (simp add: workLeft_def)
  ultimately show ?thesis using 2(2) by (simp add: skip_def)
qed

lemma skip_both:
  assumes "listsOk k s"
  shows "skip k True True s = Some (Inl (result s)) \<and> wanted k True True s = {}
    \<or> (\<exists>s'. skip k True True s = Some (Inr s') \<and> validState k s' \<and> remaining s' = wanted k True True s
         \<and> result s' = result s \<and> workLeft s' < 2 * (length (curNext s) + length (otherNext s)))"
  using assms(1)
proof (cases rule: skipCur_cases)
  case 1
  then show ?thesis by (simp add: skip_def wanted_def Let_def)
next
  case (2 c cs)
  define s1 where "s1 = s\<lparr>cur := c, curNext := cs, curLow := low c\<rparr>"
  have l: "listsOk k s1" using assms 2(1) by (simp add: listsOk_def s1_def)
  have "skip k True True s = skip k False True s1" using 2(2) by (simp add: skip_def s1_def)
  moreover have "wanted k True True s = wanted k False True s1"
    using gamma_Cons [OF 2(3), of cs] 2(1) by (auto simp: wanted_def Let_def s1_def reload_def)
  moreover have "result s1 = result s" "length (curNext s1) + length (otherNext s1) < length (curNext s) + length (otherNext s)"
    using 2(1) by (simp_all add: s1_def)
  moreover note skip_other [OF l]
  ultimately show ?thesis using 2(4) by (auto simp: s1_def)
qed

text \<open>The outcome of an iteration: the loop ends with what was to be found, or goes on with less to do.\<close>

definition goesOn :: "intersection_kind \<Rightarrow> int set \<Rightarrow> nat \<Rightarrow> (constraint option list + intersection) option \<Rightarrow> bool" where
  "goesOn k S n r \<longleftrightarrow> (\<exists>res. r = Some (Inl res) \<and> found k S res) \<or> (\<exists>s'. r = Some (Inr s') \<and> progress k S s' \<and> workLeft s' < n)"

lemma skip_goesOn:
  assumes "listsOk k s" "found k R (result s)" "\<forall>p \<in> R. \<forall>v \<in> wanted k sc so s. p < v" "sc \<or> so"
    and "\<not> sc \<Longrightarrow> low (cur s) \<le> curLow s \<and> curLow s \<le> high (cur s)" "\<not> so \<Longrightarrow> otherLow s \<le> high (other s) \<and> (k = LongWithInt \<longrightarrow> getMinSigned Int32 \<le> otherLow s)"
    and "S = R \<union> wanted k sc so s" "2 * (length (curNext s) + length (otherNext s)) \<le> n"
  shows "goesOn k S n (skip k sc so s)"
proof -
  have "skip k sc so s = Some (Inl (result s)) \<and> wanted k sc so s = {}
    \<or> (\<exists>s'. skip k sc so s = Some (Inr s') \<and> validState k s' \<and> remaining s' = wanted k sc so s
         \<and> result s' = result s \<and> workLeft s' < 2 * (length (curNext s) + length (otherNext s)))"
    using skip_cur [OF assms(1)] skip_other [OF assms(1)] skip_both [OF assms(1)] assms(4-6) by (cases sc; cases so) auto
  then show ?thesis
  proof (elim disjE exE conjE)
    assume "skip k sc so s = Some (Inl (result s))" "wanted k sc so s = {}"
    then show ?thesis using assms(2,7) by (simp add: goesOn_def)
  next
    fix s' assume s': "skip k sc so s = Some (Inr s')" "validState k s'" "remaining s' = wanted k sc so s" "result s' = result s"
      "workLeft s' < 2 * (length (curNext s) + length (otherNext s))"
    then have "progress k S s'" unfolding progress_def using assms(2,3,7) by (intro conjI exI [of _ R]) auto
    then show ?thesis using s' assms(8) by (simp add: goesOn_def)
  qed
qed

lemma found_add:
  assumes "found k R res" "wfSimple (curType k) c" "\<forall>p \<in> R. p < low c"
  shows "found k (R \<union> {low c..high c}) (Some c # res)"
proof -
  obtain ps where ps: "res = map Some ps" "\<forall>p \<in> set ps. wfSimple (curType k) p" "descending ps" "R = gamma (Merged ps)"
    using assms(1) by (auto simp: found_def)
  have "\<forall>q \<in> set ps. high q < low c" using ps assms(3) gamma_nonempty by fastforce
  then have "descending (c # ps)" using ps(3) by simp
  then show ?thesis unfolding found_def using ps assms(2) wfSimple_gamma [OF assms(2)]
    by (intro exI [of _ "c # ps"]) auto
qed

lemma listsOk_above:
  assumes "listsOk k s"
  shows "\<forall>v \<in> gamma (Merged (curNext s)). high (cur s) < v" "\<forall>v \<in> gamma (Merged (otherNext s)). high (other s) < v"
proof -
  have c: "ordered (cur s # curNext s)" "\<forall>d \<in> set (curNext s). wfSimple (curType k) d"
    and o: "ordered (other s # otherNext s)" "\<forall>d \<in> set (otherNext s). wfSimple (otherType k) d"
    using assms by (auto simp: listsOk_def proper_def)
  show "\<forall>v \<in> gamma (Merged (curNext s)). high (cur s) < v" using ordered_above [OF c] by blast
  show "\<forall>v \<in> gamma (Merged (otherNext s)). high (other s) < v" using ordered_above [OF o] by blast
qed

lemma size_ge: "2 * (length (curNext s) + length (otherNext s)) \<le> workLeft s"
  by (simp add: workLeft_def)

lemma step_disjoint:
  assumes "progress k S s" "high (cur s) < otherLow s \<or> high (other s) < curLow s"
  shows "goesOn k S (workLeft s) (intersectStep k s)"
proof -
  have v: "listsOk k s" "low (cur s) \<le> curLow s" "curLow s \<le> high (cur s)" "otherLow s \<le> high (other s)" and
    r: "k = IntWithLong \<Longrightarrow> curLow s = low (cur s) \<and> otherLow s = low (other s)" and
    m: "k = LongWithInt \<longrightarrow> getMinSigned Int32 \<le> otherLow s"
    using assms(1) by (auto simp: progress_def validState_iff)
  have rl: "curLow (reload k s) = curLow s" "otherLow (reload k s) = otherLow s" using r by (auto simp: reload_def)
  obtain R where R: "found k R (result s)" "S = R \<union> remaining s" "\<forall>p \<in> R. \<forall>v \<in> remaining s. p < v"
    using assms(1) by (auto simp: progress_def)
  note above = listsOk_above [OF v(1)]
  show ?thesis
  proof (cases "high (cur s) < otherLow s")
    case True
    have "remaining s = wanted k True False s" using True above v(3,4) rl
      by (simp add: remaining_def wanted_def Let_def) fastforce
    then show ?thesis using skip_goesOn [OF v(1) R(1), of True False] R v m True size_ge
      by (simp add: intersectStep_def Let_def)
  next
    case False
    then have o: "high (other s) < curLow s" using assms(2) by simp
    have "remaining s = wanted k False True s" using o above v(3,4) rl
      by (simp add: remaining_def wanted_def Let_def) fastforce
    then show ?thesis using skip_goesOn [OF v(1) R(1), of False True] R v m False o size_ge
      by (simp add: intersectStep_def Let_def)
  qed
qed

lemma wanted_set:
  fixes r :: int
  assumes "\<forall>x \<in> X. ch < x" "\<forall>y \<in> Y. oh < y" "r = min ch oh" "cl \<le> r" "ol \<le> r" "cl' \<le> r + 1" "ol' \<le> r + 1"
  shows "((if r = ch then {} else {cl'..ch}) \<union> X) \<inter> ((if r = oh then {} else {ol'..oh}) \<union> Y)
    = ({cl..ch} \<union> X) \<inter> ({ol..oh} \<union> Y) \<inter> {r<..}"
proof (cases "ch = oh")
  case True
  then show ?thesis using assms by fastforce
next
  case False
  then show ?thesis using assms by (cases "ch < oh") fastforce+
qed

text \<open>An iteration whose current ranges overlap: what it adds, and what is left above it.\<close>

definition overlapTop :: "intersection \<Rightarrow> int" where
  "overlapTop s = min (high (cur s)) (high (other s))"

definition left :: "intersection \<Rightarrow> int set" where
  "left s = remaining s \<inter> {overlapTop s<..}"

definition afterOverlap :: "intersection_kind \<Rightarrow> constraint \<Rightarrow> intersection \<Rightarrow> intersection" where
  "afterOverlap k c s = s\<lparr>result := Some c # result s, curLow := overlapTop s + 1, otherLow := otherLowAfter k (overlapTop s + 1)\<rparr>"

lemma overlap_step:
  assumes "validState k s" "\<not> high (cur s) < otherLow s" "\<not> high (other s) < curLow s"
  obtains c where "wfSimple (curType k) c" "low c = max (curLow s) (otherLow s)" "high c = overlapTop s" "low c \<le> overlapTop s"
    "intersectStep k s = (if overlapTop s = getMaxSigned (curType k) then Some (Inl (Some c # result s))
       else skip k (overlapTop s + 1 > high (cur s)) (otherLowAfter k (overlapTop s + 1) > high (other s)) (afterOverlap k c s))"
proof -
  define l where "l = max (curLow s) (otherLow s)"
  have p: "proper (curType k) (cur s)" and b: "low (cur s) \<le> curLow s" "curLow s \<le> high (cur s)" "otherLow s \<le> high (other s)"
    using assms(1) by (auto simp: validState_iff listsOk_def)
  then have w: "wfSimple (curType k) (cur s)" by (simp add: proper_def)
  note wb = wfSimple_bounds [OF w] wfSimple_type [OF w]
  have l: "l \<le> overlapTop s" "low (cur s) \<le> l" "overlapTop s \<le> high (cur s)" using assms(2,3) b by (auto simp: l_def overlapTop_def)
  then have i: "inType (curType k) l" "inType (curType k) (overlapTop s)" using wb by (auto simp: inType_def)
  have nf: "\<not> (l = getMinSigned (curType k) \<and> overlapTop s = getMaxSigned (curType k))"
    using p l wb by (auto simp: proper_def inType_def)
  obtain c where c: "createRange (curType k) l (overlapTop s) = Some c" "wfSimple (curType k) c" "low c = l" "high c = overlapTop s"
    by (rule createRange_cases [OF i l(1)]) (use wb nf in auto)
  have "resultBound k l = l" "resultBound k (overlapTop s) = overlapTop s"
    using i by (auto simp: resultBound_def castSigned_id)
  moreover have "(if curLow s > otherLow s then curLow s else otherLow s) = l"
    "(if high (cur s) < high (other s) then high (cur s) else high (other s)) = overlapTop s"
    by (auto simp: l_def overlapTop_def)
  ultimately have "intersectStep k s = (if overlapTop s = getMaxSigned (curType k) then Some (Inl (Some c # result s))
       else skip k (overlapTop s + 1 > high (cur s)) (otherLowAfter k (overlapTop s + 1) > high (other s)) (afterOverlap k c s))"
    using assms(2,3) c(1) by (auto simp: intersectStep_def Let_def afterOverlap_def)
  then show ?thesis using that c l(1) by (simp add: l_def)
qed

lemma remaining_split:
  assumes "listsOk k s"
  shows "remaining s = {max (curLow s) (otherLow s)..overlapTop s} \<union> left s"
  unfolding left_def remaining_def
  by (rule overlap_split(1) [OF listsOk_above [OF assms]]) (simp_all add: overlapTop_def)

lemma remaining_inType:
  assumes "validState k s" "v \<in> remaining s"
  shows "inType (curType k) v"
proof -
  have l: "\<forall>c \<in> set (cur s # curNext s). wfSimple (curType k) c" and b: "low (cur s) \<le> curLow s"
    using assms(1) by (auto simp: validState_iff listsOk_def proper_def)
  have "v \<in> gamma (Merged (cur s # curNext s))"
    using assms(2) b l gamma_Cons [of "curType k" "cur s"] by (auto simp: remaining_def)
  then show ?thesis using l wfSimple_gamma_inType by auto
qed

lemma wanted_after:
  assumes "validState k s" "max (curLow s) (otherLow s) \<le> overlapTop s" "otherLowAfter k (overlapTop s + 1) = overlapTop s + 1"
  shows "wanted k (overlapTop s + 1 > high (cur s)) (otherLowAfter k (overlapTop s + 1) > high (other s)) (afterOverlap k c s) = left s"
proof -
  have v: "listsOk k s" and r: "k = IntWithLong \<Longrightarrow> curLow s = low (cur s) \<and> otherLow s = low (other s)"
    using assms(1) by (auto simp: validState_iff)
  have t: "overlapTop s + 1 > high (cur s) \<longleftrightarrow> overlapTop s = high (cur s)" "overlapTop s + 1 > high (other s) \<longleftrightarrow> overlapTop s = high (other s)"
    by (auto simp: overlapTop_def)
  define s' where "s' = reload k (afterOverlap k c s)"
  have s': "curLow s' \<le> overlapTop s + 1" "otherLow s' \<le> overlapTop s + 1"
    using assms(2,3) r by (auto simp: s'_def reload_def afterOverlap_def)
  have "wanted k (overlapTop s + 1 > high (cur s)) (otherLowAfter k (overlapTop s + 1) > high (other s)) (afterOverlap k c s)
    = ((if overlapTop s = high (cur s) then {} else {curLow s'..high (cur s)}) \<union> gamma (Merged (curNext s)))
      \<inter> ((if overlapTop s = high (other s) then {} else {otherLow s'..high (other s)}) \<union> gamma (Merged (otherNext s)))"
    unfolding wanted_def assms(3) t s'_def [symmetric] by (simp add: afterOverlap_def)
  also have "\<dots> = left s" unfolding left_def remaining_def
    using assms(2) s' by (intro wanted_set [OF listsOk_above [OF v]]) (auto simp: overlapTop_def)
  finally show ?thesis .
qed

text \<open>
  The long code with an int list narrows the new lower bound to 32 bits. It changes only above \<open>INT_MAX\<close>, where
  nothing is left to find.
\<close>

lemma narrowed:
  assumes "validState k s" "max (curLow s) (otherLow s) \<le> overlapTop s" "otherLowAfter k (overlapTop s + 1) \<noteq> overlapTop s + 1"
  shows "k = LongWithInt" "overlapTop s = intMax" "high (other s) = intMax" "otherLowAfter k (overlapTop s + 1) = getMinSigned Int32"
    "gamma (Merged (otherNext s)) = {}"
proof -
  show k: "k = LongWithInt" using assms(3) by (auto simp: otherLowAfter_def split: if_splits)
  have o: "\<forall>c \<in> set (other s # otherNext s). wfSimple Int32 c" "getMinSigned Int32 \<le> otherLow s" and l: "listsOk k s"
    using assms(1) k by (auto simp: validState_iff listsOk_def)
  have ho: "inType Int32 (high (other s))" using o wfSimple_bounds [of Int32 "other s"] by auto
  have "\<not> inType Int32 (overlapTop s + 1)" using assms(3) castSigned_id k by (auto simp: otherLowAfter_def)
  then show t: "overlapTop s = intMax" "high (other s) = intMax"
    using ho o(2) assms(2) by (auto simp: inType_def overlapTop_def)
  show "otherLowAfter k (overlapTop s + 1) = getMinSigned Int32"
    unfolding t k using castSigned_above [of Int32 "intMax + 1"] by (simp add: otherLowAfter_def bound_defs)
  have False if "v \<in> gamma (Merged (otherNext s))" for v
  proof -
    have "inType Int32 v" using that o(1) wfSimple_gamma_inType by auto
    moreover have "high (other s) < v" using listsOk_above(2) [OF l] that by blast
    ultimately show False using t(2) by (simp add: inType_def)
  qed
  then show "gamma (Merged (otherNext s)) = {}" by blast
qed

text \<open>What is known after the overlap has been added to the result.\<close>

lemma overlap_found:
  assumes "progress k S s" "wfSimple (curType k) c" "low c = max (curLow s) (otherLow s)" "high c = overlapTop s" "low c \<le> overlapTop s"
  obtains R where "found k R (Some c # result s)" "S = R \<union> left s" "\<forall>p \<in> R. \<forall>v \<in> left s. p < v"
proof -
  have l: "listsOk k s" using assms(1) by (auto simp: progress_def validState_iff)
  obtain R where R: "found k R (result s)" "S = R \<union> remaining s" "\<forall>p \<in> R. \<forall>v \<in> remaining s. p < v"
    using assms(1) by (auto simp: progress_def)
  have split: "remaining s = {low c..high c} \<union> left s" unfolding assms(3,4) by (rule remaining_split [OF l])
  have "found k (R \<union> {low c..high c}) (Some c # result s)"
    by (rule found_add [OF R(1) assms(2)]) (use R(3) split assms(4,5) in simp)
  moreover have "S = (R \<union> {low c..high c}) \<union> left s" using R(2) split by blast
  moreover have "\<forall>p \<in> R \<union> {low c..high c}. \<forall>v \<in> left s. p < v"
  proof (intro ballI)
    fix p v assume p: "p \<in> R \<union> {low c..high c}" and v: "v \<in> left s"
    then have "v \<in> remaining s" "high c < v" using assms(4) by (simp_all add: left_def)
    then show "p < v" using R(3) p by auto
  qed
  ultimately show ?thesis using that by blast
qed

lemma afterOverlap_simps [simp]:
  "listsOk k (afterOverlap k' c s) = listsOk k s" "result (afterOverlap k' c s) = Some c # result s"
  "curNext (afterOverlap k' c s) = curNext s" "otherNext (afterOverlap k' c s) = otherNext s"
  "cur (afterOverlap k' c s) = cur s" "other (afterOverlap k' c s) = other s" "curLow (afterOverlap k' c s) = overlapTop s + 1"
  "otherLow (afterOverlap k' c s) = otherLowAfter k' (overlapTop s + 1)"
  by (simp_all add: afterOverlap_def listsOk_def)

lemma step_overlap_normal:
  assumes v: "validState k s" and t: "max (curLow s) (otherLow s) \<le> overlapTop s"
    and n: "otherLowAfter k (overlapTop s + 1) = overlapTop s + 1"
    and R: "found k R (Some c # result s)" "S = R \<union> left s" "\<forall>p \<in> R. \<forall>v \<in> left s. p < v"
  shows "goesOn k S (workLeft s)
    (skip k (overlapTop s + 1 > high (cur s)) (otherLowAfter k (overlapTop s + 1) > high (other s)) (afterOverlap k c s))"
proof (rule skip_goesOn)
  note w = wanted_after [OF v t n, of c]
  show "listsOk k (afterOverlap k c s)" using v by (simp add: validState_iff)
  show "found k R (result (afterOverlap k c s))" using R(1) by simp
  show "S = R \<union> wanted k (overlapTop s + 1 > high (cur s)) (otherLowAfter k (overlapTop s + 1) > high (other s)) (afterOverlap k c s)"
    unfolding w by (rule R(2))
  show "\<forall>p \<in> R. \<forall>v \<in> wanted k (overlapTop s + 1 > high (cur s)) (otherLowAfter k (overlapTop s + 1) > high (other s)) (afterOverlap k c s). p < v"
    unfolding w by (rule R(3))
  show "overlapTop s + 1 > high (cur s) \<or> otherLowAfter k (overlapTop s + 1) > high (other s)"
    unfolding n by (auto simp: overlapTop_def)
  show "2 * (length (curNext (afterOverlap k c s)) + length (otherNext (afterOverlap k c s))) \<le> workLeft s"
    using size_ge by simp
qed (use v t n in \<open>auto simp: validState_iff\<close>)

lemma step_overlap_narrowed:
  assumes v: "validState k s" and t: "max (curLow s) (otherLow s) \<le> overlapTop s" "\<not> high (other s) < curLow s"
    and n: "otherLowAfter k (overlapTop s + 1) \<noteq> overlapTop s + 1"
    and R: "found k R (Some c # result s)" "S = R \<union> left s"
  shows "goesOn k S (workLeft s)
    (skip k (overlapTop s + 1 > high (cur s)) (otherLowAfter k (overlapTop s + 1) > high (other s)) (afterOverlap k c s))"
proof -
  note N = narrowed [OF v t(1) n]
  have l: "listsOk k s" "low (cur s) \<le> curLow s" using v by (auto simp: validState_iff)
  have "left s = {}" using N(2,3) unfolding left_def remaining_def N(5) by auto
  then have S: "S = R" using R(2) by simp
  have so: "\<not> otherLowAfter k (overlapTop s + 1) > high (other s)" unfolding N(4,3) by (simp add: bound_defs half_def)
  have W: "wanted k (overlapTop s + 1 > high (cur s)) False (afterOverlap k c s) = {}"
  proof -
    have "\<forall>x \<in> gamma (Merged (curNext s)). intMax < x"
      using listsOk_above(1) [OF l(1)] N(2) by (fastforce simp: overlapTop_def)
    then show ?thesis using N(1-3) unfolding wanted_def Let_def reload_def
      by (auto simp: N(5) simp del: gamma.simps)
  qed
  show ?thesis
  proof (cases "overlapTop s + 1 > high (cur s)")
    case True
    show ?thesis unfolding S
      by (rule skip_goesOn [where R = R]) (use R(1) W so True l N(3,4) size_ge in \<open>auto simp: bound_defs half_def\<close>)
  next
    case False
    have "otherLow (afterOverlap k c s) \<le> high (other (afterOverlap k c s))"
      "k = LongWithInt \<longrightarrow> getMinSigned Int32 \<le> otherLow (afterOverlap k c s)"
      using N(4) by (simp_all add: N(1,3)) (simp add: bound_defs half_def)
    then have "skip k False False (afterOverlap k c s) = Some (Inr (reload k (afterOverlap k c s)))
        \<and> validState k (reload k (afterOverlap k c s)) \<and> remaining (reload k (afterOverlap k c s)) = {}"
      using skip_neither [of k "afterOverlap k c s"] l False W t(1) by simp
    moreover have "workLeft (reload k (afterOverlap k c s)) < workLeft s"
      using N(1-3) t(2) by (simp add: workLeft_def reload_def)
    ultimately show ?thesis using False so R(1) S by (simp add: goesOn_def progress_def)
  qed
qed

lemma step_overlap:
  assumes "progress k S s" "\<not> high (cur s) < otherLow s" "\<not> high (other s) < curLow s"
  shows "goesOn k S (workLeft s) (intersectStep k s)"
proof -
  have v: "validState k s" using assms(1) by (simp add: progress_def)
  obtain c where c: "wfSimple (curType k) c" "low c = max (curLow s) (otherLow s)" "high c = overlapTop s" "low c \<le> overlapTop s"
    and step: "intersectStep k s = (if overlapTop s = getMaxSigned (curType k) then Some (Inl (Some c # result s))
       else skip k (overlapTop s + 1 > high (cur s)) (otherLowAfter k (overlapTop s + 1) > high (other s)) (afterOverlap k c s))"
    by (rule overlap_step [OF v assms(2,3)])
  obtain R where R: "found k R (Some c # result s)" "S = R \<union> left s" "\<forall>p \<in> R. \<forall>v \<in> left s. p < v"
    by (rule overlap_found [OF assms(1) c])
  show ?thesis
  proof (cases "overlapTop s = getMaxSigned (curType k)")
    case True
    have "left s = {}" using remaining_inType [OF v] True by (fastforce simp: left_def inType_def)
    then show ?thesis using R step True by (simp add: goesOn_def)
  next
    case False
    then show ?thesis
      using step_overlap_normal [OF v c(4) [unfolded c(2)] _ R] step_overlap_narrowed [OF v c(4) [unfolded c(2)] assms(3) _ R(1,2)] step
      by (cases "otherLowAfter k (overlapTop s + 1) = overlapTop s + 1") simp_all
  qed
qed

lemma intersectLoop_correct:
  assumes "progress k S s"
  shows "\<exists>res. intersectLoop k s = Some res \<and> found k S res"
  using assms
proof (induction "workLeft s" arbitrary: s rule: less_induct)
  case less
  have "goesOn k S (workLeft s) (intersectStep k s)"
    using step_disjoint [OF less.prems] step_overlap [OF less.prems] by blast
  then show ?case unfolding goesOn_def
  proof (elim disjE exE conjE)
    fix res assume "intersectStep k s = Some (Inl res)" "found k S res"
    then show ?thesis by (subst intersectLoop.simps) simp
  next
    fix s' assume s': "intersectStep k s = Some (Inr s')" "progress k S s'" "workLeft s' < workLeft s"
    then show ?thesis using less.hyps [OF s'(3,2)] by (subst intersectLoop.simps) simp
  qed
qed

section \<open>Correctness of the list intersections\<close>

definition meets :: "data_type \<Rightarrow> int set \<Rightarrow> constraint option option \<Rightarrow> bool" where
  "meets t S r \<longleftrightarrow> (\<exists>c. r = Some c \<and> meetsExactly t S c)"

lemma finishIntersect_correct:
  assumes "found k S res" shows "meets (curType k) S (finishIntersect res)"
proof -
  obtain ps where ps: "res = map Some ps" "\<forall>p \<in> set ps. wfSimple (curType k) p" "descending ps" "S = gamma (Merged ps)"
    using assms by (auto simp: found_def)
  then have I: "\<forall>p \<in> set (rev ps). wfSimple (curType k) p" "ordered (rev ps)" "S = gamma (Merged (rev ps))"
    using descending_rev by auto
  consider "rev ps = []" | x where "rev ps = [x]" | x y zs where "rev ps = x # y # zs" by (cases "rev ps" rule: remdups_adj.cases) auto
  then show ?thesis
  proof cases
    case 1
    then show ?thesis using I(3) ps(1) by (simp add: finishIntersect_def meets_def meetsExactly_def)
  next
    case (2 x)
    then show ?thesis using I ps(1) by (auto simp: finishIntersect_def meets_def meetsExactly_def rev_map)
  next
    case (3 x y zs)
    then show ?thesis using I ps(1)
      by (auto simp: finishIntersect_def meets_def meetsExactly_def rev_map mergedCreate_def comp_def)
  qed
qed

lemma merged_proper:
  assumes "wfc t (Merged cs)" "c \<in> set cs" shows "proper t c"
proof -
  have w: "\<forall>c \<in> set cs. wfSimple t c" and o: "ordered cs" and n: "length cs \<ge> 2" using assms(1) by auto
  have False if f: "low c = getMinSigned t" "high c = getMaxSigned t"
  proof -
    obtain xs ys where cs: "cs = xs @ c # ys" using assms(2) by (meson split_list)
    then obtain d where d: "d \<in> set xs \<union> set ys" using n by (cases xs; cases ys) auto
    then have "wfSimple t d" using w cs by auto
    note wd = wfSimple_bounds [OF this]
    have "high d < low c \<or> high c < low d" using o d cs by (auto simp: ordered_append)
    then show False using f wd by (auto simp: inType_def)
  qed
  then show ?thesis using w assms(2) by (auto simp: proper_def)
qed

lemma startIntersect_correct:
  assumes "wfc (curType k) (Merged (c # cs))" "\<forall>y \<in> set (d # ds). wfSimple (otherType k) y" "ordered (d # ds)"
  shows "meets (curType k) (gamma (Merged (c # cs)) \<inter> gamma (Merged (d # ds))) (startIntersect k c cs d ds)"
proof -
  define s where "s = \<lparr>cur = c, curLow = low c, curNext = cs, other = d, otherLow = low d, otherNext = ds, result = []\<rparr>"
  have p: "\<forall>x \<in> set (c # cs). proper (curType k) x" "ordered (c # cs)" using assms(1) merged_proper by (blast, simp)
  then have w: "wfSimple (curType k) c" "wfSimple (otherType k) d" using assms(2) by (auto simp: proper_def)
  note b = wfSimple_bounds [OF w(1)] wfSimple_bounds [OF w(2)]
  have "validState k s" using p assms b by (auto simp: validState_def s_def inType_def)
  moreover have "remaining s = gamma (Merged (c # cs)) \<inter> gamma (Merged (d # ds))"
    unfolding gamma_Cons [OF w(1)] gamma_Cons [OF w(2)] by (simp add: remaining_def s_def)
  moreover have "found k {} []" by (simp add: found_def)
  ultimately have "progress k (gamma (Merged (c # cs)) \<inter> gamma (Merged (d # ds))) s"
    unfolding progress_def by (intro conjI exI [of _ "{}"]) (simp_all add: s_def)
  then obtain res where "intersectLoop k s = Some res" "found k (gamma (Merged (c # cs)) \<inter> gamma (Merged (d # ds))) res"
    using intersectLoop_correct by blast
  then show ?thesis using finishIntersect_correct by (simp add: startIntersect_def s_def [symmetric])
qed

text \<open>A merged constraint with any constraint of the same type, or of the other of the types int and long.\<close>

lemma mergedIntersect1_correct:
  assumes "wfc t (Merged cs)" "wfc u b" "u = t \<or> {t, u} = {Int32, Int64}"
  shows "meets t (gamma (Merged cs) \<inter> gamma b) (mergedIntersect1 cs b)"
proof -
  obtain d ds where o: "otherList b = Some (d, ds)" using otherList_wf [OF assms(2)] by blast
  note e = otherList_elements [OF assms(2) o]
  have d: "asConstraint v d = (if v = u then Some d else None)" for v using e(1) by (simp add: wfSimple_as)
  obtain c next' where cs: "cs = c # next'" using assms(1) by (cases cs) auto
  have "wfSimple t c" using assms(1) cs by simp
  then have c: "asConstraint t c = Some c" "t \<noteq> Int8" using wfSimple_type by (auto simp: wfSimple_same)
  define k where "k = (if u = t then SameType t else if t = Int32 then IntWithLong else LongWithInt)"
  have k: "curType k = t" "otherType k = u" using assms(3) by (auto simp: k_def)
  have "mergedIntersect1 cs b = startIntersect k c next' d ds"
    using mergedType_wf [OF assms(1)] o d c assms(3) unfolding k_def cs
    by (cases t; cases u) (auto simp: mergedIntersect1_def shortIntersect_def intIntersect_def longIntersect_def sameTypeIntersect_def
        intIntersectLong_def longIntersectInt_def)
  then show ?thesis using startIntersect_correct [of k c next' d ds] assms(1) e k cs by simp
qed

lemma intersect_correct:
  assumes "wfc t a" "wfc t b" "same \<longrightarrow> a = b"
  shows "\<exists>c. intersect same a (Some b) failed = Some (c, failed) \<and> meetsExactly t (gamma a \<inter> gamma b) c"
proof (cases same)
  case True
  then show ?thesis using assms by (simp add: intersect_def meetsExactly_def)
next
  case False
  from assms(1) show ?thesis
  proof (cases rule: wf_cases)
    case a: simple
    from assms(2) show ?thesis
    proof (cases rule: wf_cases)
      case simple
      then have "intersect same a (Some b) failed = Some (intersect1Same t a b, failed)"
        using False simpleIntersect1_same [OF a simple] priority_same [OF a simple] a
        by (cases a) (auto simp: intersect_def intersect1_def)
      then show ?thesis using intersect1Same_correct [OF a simple] by simp
    next
      case (merged ds)
      then show ?thesis using mergedIntersect1_correct [of t ds t a] assms False priority_wfSimple [OF a]
        by (auto simp: intersect_def intersect1_def meets_def Int_commute)
    qed
  next
    case (merged cs)
    then have "priority b \<le> priority a" using assms(2) by (cases b) (auto split: data_type.splits)
    then show ?thesis using mergedIntersect1_correct [of t cs t b] assms False merged(1)
      by (auto simp: intersect_def intersect1_def meets_def)
  qed
qed

end
