(* ===== verification/ValueConstraints.thy ===== *)
theory ValueConstraints
  imports VPIntersect
begin

text \<open>
  The properties of the integer constraints of value propagation: merging, intersecting, adding and subtracting
  them is exact on the sets of values they admit, the comparisons decide the relation of those sets, and
  the cases in which the code falls short of this are recorded as evaluated facts.
\<close>

section \<open>Merging\<close>

text \<open>
  C1: Merging two constraints of one type, shared objects or not, always returns; the result is a well-formed constraint that admits
  exactly the values that one of the two admits, or \<open>NULL\<close> when these are all the values of the type. The one
  exception are two 16-bit constraints that are not lists, for which disjoint ranges are generalised to \<open>NULL\<close>.
\<close>

theorem merge_is_union:
  assumes "wfc t a" "wfc t b" "same \<longrightarrow> a = b"
  shows "\<exists>c. merge same a b = Some c \<and> (case c of
       Some d \<Rightarrow> wfc t d \<and> gamma d = gamma a \<union> gamma b
     | None \<Rightarrow> gamma a \<union> gamma b = typeRange t \<or> t = Int16 \<and> wfSimple t a \<and> wfSimple t b)"
proof -
  have sub: "gamma a \<union> gamma b \<subseteq> typeRange t" using wf_gamma_inType [OF assms(1)] wf_gamma_inType [OF assms(2)] by auto
  from merge_correct [OF assms] show ?thesis unfolding mergedExactly_def
  proof (elim disjE exE conjE)
    fix c assume "merge same a b = Some c"
      "case c of None \<Rightarrow> typeRange t \<subseteq> gamma a \<union> gamma b | Some d \<Rightarrow> wfc t d \<and> gamma d = gamma a \<union> gamma b"
    then show ?thesis using sub by (intro exI [of _ c]) (simp add: subset_antisym split: option.splits)
  qed simp
qed

theorem merge_is_union_witness:
  "\<exists>c. merge False (Merged [Range Int32 1 5 TR_no, Range Int32 10 12 TR_no]) (Range Int32 6 8 TR_no) = Some c \<and> (case c of
       Some d \<Rightarrow> wfc Int32 d \<and> gamma d = gamma (Merged [Range Int32 1 5 TR_no, Range Int32 10 12 TR_no]) \<union> gamma (Range Int32 6 8 TR_no)
     | None \<Rightarrow> gamma (Merged [Range Int32 1 5 TR_no, Range Int32 10 12 TR_no]) \<union> gamma (Range Int32 6 8 TR_no) = typeRange Int32
        \<or> Int32 = Int16 \<and> wfSimple Int32 (Merged [Range Int32 1 5 TR_no, Range Int32 10 12 TR_no]) \<and> wfSimple Int32 (Range Int32 6 8 TR_no))"
  by (rule merge_is_union) (simp_all add: inType_def getMinSigned_def getMaxSigned_def)

text \<open>
  C9: Merging an int constraint with a long one, in either order and for single constraints or lists, returns
  \<open>NULL\<close> or a well-formed constraint that admits every value of both, as long as neither of them admits \<open>INT_MAX\<close>.
\<close>

theorem merge_int_long_covers:
  assumes "wfc Int32 a" "wfc Int64 b" "getMaxSigned Int32 \<notin> gamma a \<union> gamma b"
  shows "\<exists>c c'. merge False a b = Some c \<and> merge False b a = Some c'
    \<and> (\<forall>d. Some d \<in> {c, c'} \<longrightarrow> (wfc Int32 d \<or> wfc Int64 d) \<and> gamma a \<union> gamma b \<subseteq> gamma d)"
  using merge_intLong [OF assms] by (auto simp: covers_def)

theorem merge_int_long_covers_witness:
  "\<exists>c c'. merge False (Const Int32 3) (Range Int64 7 9 TR_no) = Some c \<and> merge False (Range Int64 7 9 TR_no) (Const Int32 3) = Some c'
    \<and> (\<forall>d. Some d \<in> {c, c'} \<longrightarrow> (wfc Int32 d \<or> wfc Int64 d) \<and> gamma (Const Int32 3) \<union> gamma (Range Int64 7 9 TR_no) \<subseteq> gamma d)"
  by (rule merge_int_long_covers) (simp_all add: inType_def getMinSigned_def getMaxSigned_def)

section \<open>Intersection\<close>

text \<open>
  C2: Intersecting two constraints of one type always returns, leaves the failure flag alone, and gives a
  well-formed constraint that admits exactly the values both admit, or \<open>NULL\<close> exactly when there are none.
\<close>

theorem intersect_is_intersection:
  assumes "wfc t a" "wfc t b" "same \<longrightarrow> a = b"
  shows "\<exists>c. intersect same a (Some b) failed = Some (c, failed) \<and> (case c of
       Some d \<Rightarrow> wfc t d \<and> gamma d = gamma a \<inter> gamma b | None \<Rightarrow> gamma a \<inter> gamma b = {})"
  using intersect_correct [OF assms, of failed] by (simp add: meetsExactly_def)

theorem intersect_is_intersection_witness:
  "\<exists>c. intersect False (Merged [Range Int16 1 5 TR_no, Range Int16 10 12 TR_no]) (Some (Range Int16 4 11 TR_no)) False = Some (c, False)
    \<and> (case c of Some d \<Rightarrow> wfc Int16 d \<and>
         gamma d = gamma (Merged [Range Int16 1 5 TR_no, Range Int16 10 12 TR_no]) \<inter> gamma (Range Int16 4 11 TR_no)
       | None \<Rightarrow> gamma (Merged [Range Int16 1 5 TR_no, Range Int16 10 12 TR_no]) \<inter> gamma (Range Int16 4 11 TR_no) = {})"
  by (rule intersect_is_intersection) (simp_all add: inType_def getMinSigned_def getMaxSigned_def)

text \<open>
  C8: The list intersections that mix int and long constraints end and are exact as well, although the long code
  narrows a 64-bit bound to 32 bits on the way; the result has the type of the list that is intersected.
\<close>

theorem list_intersection_int_long:
  assumes "wfc t (Merged cs)" "wfc u b" "{t, u} = {Int32, Int64}"
  shows "\<exists>c. mergedIntersect1 cs b = Some c \<and> (case c of
       Some d \<Rightarrow> wfc t d \<and> gamma d = gamma (Merged cs) \<inter> gamma b | None \<Rightarrow> gamma (Merged cs) \<inter> gamma b = {})"
  using mergedIntersect1_correct [OF assms(1,2) disjI2, OF assms(3)] unfolding meets_def meetsExactly_def .

theorem list_intersection_int_long_witness:
  "\<exists>c. mergedIntersect1 [Range Int64 1 5 TR_no, Range Int64 10 (2 ^ 40) TR_no] (Range Int32 3 (2 ^ 31 - 1) TR_no) = Some c
    \<and> (case c of Some d \<Rightarrow> wfc Int64 d \<and>
         gamma d = gamma (Merged [Range Int64 1 5 TR_no, Range Int64 10 (2 ^ 40) TR_no]) \<inter> gamma (Range Int32 3 (2 ^ 31 - 1) TR_no)
       | None \<Rightarrow> gamma (Merged [Range Int64 1 5 TR_no, Range Int64 10 (2 ^ 40) TR_no]) \<inter> gamma (Range Int32 3 (2 ^ 31 - 1) TR_no) = {})"
  by (rule list_intersection_int_long) (auto simp: inType_def getMinSigned_def getMaxSigned_def)

section \<open>Arithmetic\<close>

text \<open>
  C3: The sum and the difference of two single constraints of one type exist, contain every wrapped sum or
  difference of admitted values, and when they are not \<open>NULL\<close> they are well formed and contain nothing else.
\<close>

theorem add_subtract_exact:
  assumes "wfSimple t a" "wfSimple t b"
  shows "\<exists>c d. addConstraints a b t = Some c \<and> subtractConstraints a b t = Some d
    \<and> wrapped t (+) a b \<subseteq> gammaOf t c \<and> wrapped t (-) a b \<subseteq> gammaOf t d
    \<and> (\<forall>e. c = Some e \<longrightarrow> wfc t e \<and> gamma e = wrapped t (+) a b) \<and> (\<forall>e. d = Some e \<longrightarrow> wfc t e \<and> gamma e = wrapped t (-) a b)"
  using addSimple_correct [OF assms] subtractSimple_correct [OF assms]
  by (auto simp: exactFor_def addConstraints_simple [OF assms(1)] subtractConstraints_simple [OF assms(1)])

theorem add_subtract_exact_witness:
  "\<exists>c d. addConstraints (Range Int16 32000 32767 TR_no) (Range Int16 1 9 TR_no) Int16 = Some c
    \<and> subtractConstraints (Range Int16 32000 32767 TR_no) (Range Int16 1 9 TR_no) Int16 = Some d
    \<and> wrapped Int16 (+) (Range Int16 32000 32767 TR_no) (Range Int16 1 9 TR_no) \<subseteq> gammaOf Int16 c
    \<and> wrapped Int16 (-) (Range Int16 32000 32767 TR_no) (Range Int16 1 9 TR_no) \<subseteq> gammaOf Int16 d
    \<and> (\<forall>e. c = Some e \<longrightarrow> wfc Int16 e \<and> gamma e = wrapped Int16 (+) (Range Int16 32000 32767 TR_no) (Range Int16 1 9 TR_no))
    \<and> (\<forall>e. d = Some e \<longrightarrow> wfc Int16 e \<and> gamma e = wrapped Int16 (-) (Range Int16 32000 32767 TR_no) (Range Int16 1 9 TR_no))"
  by (rule add_subtract_exact) (simp_all add: inType_def getMinSigned_def getMaxSigned_def)

text \<open>
  C4: When the sum of two 16- or 32-bit constraints is a range, its overflow indication is right for all of it:
  marked \<open>TR_yes\<close>, every sum of admitted values overflows; otherwise it is \<open>TR_no\<close> and none does.
\<close>

theorem overflow_indication:
  assumes "wfSimple t a" "wfSimple t b" "t = Int16 \<or> t = Int32" "addConstraints a b t = Some (Some (Range t l h ov))"
  shows "(ov = TR_yes \<and> (\<forall>x \<in> gamma a. \<forall>y \<in> gamma b. \<not> inType t (x + y)))
    \<or> (ov = TR_no \<and> (\<forall>x \<in> gamma a. \<forall>y \<in> gamma b. inType t (x + y)))"
proof -
  note B = wfSimple_bounds [OF assms(1)] wfSimple_bounds [OF assms(2)]
  have "getRangeWith (rangeCreate t) t (castSigned t (low a + low b)) (castSigned t (high a + high b))
      (\<not> inType t (low a + low b)) (\<not> inType t (high a + high b)) = Some (Some (Range t l h ov))"
    using assms(4) B wfSimple_same [OF assms(2)]
    by (simp add: addConstraints_simple [OF assms(1)] addSimple_def addWithOverflow_correct getRange_narrow [OF assms(3)])
  from getRangeWith_flag [OF _ _ _ this] B
  have "(ov = TR_yes \<and> (\<forall>v \<in> {low a + low b..high a + high b}. \<not> inType t v))
      \<or> (ov = TR_no \<and> (\<forall>v \<in> {low a + low b..high a + high b}. inType t v))"
    by (simp add: inType_def bound_defs)
  then show ?thesis using assms(1,2) by (auto simp: wfSimple_gamma)
qed

theorem overflow_indication_witness:
  "(TR_yes = TR_yes \<and> (\<forall>x \<in> gamma (Range Int16 32760 32767 TR_no). \<forall>y \<in> gamma (Const Int16 100). \<not> inType Int16 (x + y)))
    \<or> (TR_yes = TR_no \<and> (\<forall>x \<in> gamma (Range Int16 32760 32767 TR_no). \<forall>y \<in> gamma (Const Int16 100). inType Int16 (x + y)))"
  by (rule overflow_indication [where l = "- 32676" and h = "- 32669"])
     (simp_all add: inType_def getMinSigned_def getMaxSigned_def, code_simp)

text \<open>
  The 64-bit addition loses that indication: when all sums of two constraints are above, or all are below the longs,
  the result is a range that is marked as one that cannot overflow.
\<close>

lemma long_overflow_indication_lost:
  assumes "wfSimple Int64 a" "wfSimple Int64 b" "low a + low b < high a + high b"
    and "getMaxSigned Int64 < low a + low b \<or> high a + high b < getMinSigned Int64"
  shows "\<exists>l h. addConstraints a b Int64 = Some (Some (Range Int64 l h TR_no)) \<and>
    (\<forall>x \<in> gamma a. \<forall>y \<in> gamma b. \<not> inType Int64 (x + y))"
proof -
  let ?L = "low a + low b" and ?H = "high a + high b"
  let ?l = "castSigned Int64 ?L" and ?h = "castSigned Int64 ?H"
  note B = wfSimple_bounds [OF assms(1)] wfSimple_bounds [OF assms(2)]
  have bounds: "- 2 * half Int64 \<le> ?L" "?H \<le> 2 * half Int64 - 2" using B by (auto simp: inType_def bound_defs)
  have h: "0 < half Int64" by simp
  have c: "?l < ?h \<and> (?l < 0 \<longleftrightarrow> ?h < 0) \<and> \<not> inType Int64 ?L \<and> \<not> inType Int64 ?H"
  proof (cases "getMaxSigned Int64 < ?L")
    case True
    have "?l = ?L - 2 * half Int64" "?h = ?H - 2 * half Int64"
      using True assms(3) bounds h by (auto intro!: castSigned_above)
    then show ?thesis using True assms(3) bounds h by (auto simp: inType_def bound_defs)
  next
    case False
    then have H: "?H < getMinSigned Int64" using assms(4) by simp
    have "?l = ?L + 2 * half Int64" "?h = ?H + 2 * half Int64"
      using H assms(3) bounds h by (auto intro!: castSigned_below)
    then show ?thesis using H assms(3) bounds h by (auto simp: inType_def bound_defs)
  qed
  then have "\<not> ?h XOR ?l < 0" by (auto simp: not_less)
  then have "addConstraints a b Int64 = Some (Some (Range Int64 ?l ?h TR_no))"
    using c B wfSimple_same [OF assms(2)]
    by (simp add: addConstraints_simple [OF assms(1)] addSimple_def addWithOverflow_correct getRange_def longGetRange_def
      getRangeWith_def longRangeCreate_def)
  moreover have "\<forall>x \<in> gamma a. \<forall>y \<in> gamma b. \<not> inType Int64 (x + y)"
    using assms(1,2,4) by (fastforce simp: wfSimple_gamma inType_def)
  ultimately show ?thesis by blast
qed

section \<open>Comparisons and bounds\<close>

text \<open>
  C5: \<open>mustBeNotEqual\<close> decides whether two constraints of one type have no common value; \<open>mustBeLessThan\<close> and
  \<open>mustBeLessThanOrEqual\<close> decide whether every value of the first is below, or not above, every value of the
  second, for every receiver but a list of 16-bit constraints.
\<close>

theorem comparisons_decide:
  assumes "wfc t a" "wfc t b" "t \<noteq> Int16 \<or> wfSimple t a"
  shows "(mustBeNotEqual a b \<longleftrightarrow> gamma a \<inter> gamma b = {})
    \<and> mustBeLessThan a b = Some (\<forall>x \<in> gamma a. \<forall>y \<in> gamma b. x < y)
    \<and> mustBeLessThanOrEqual a b = Some (\<forall>x \<in> gamma a. \<forall>y \<in> gamma b. x \<le> y)"
  using mustBeNotEqual_correct [OF assms(1,2)] mustBeLess_eq_compare [OF assms(1,3), of b] compareHighLow_less [OF assms] by simp

theorem comparisons_decide_witness:
  "(mustBeNotEqual (Merged [Const Int32 1, Const Int32 5]) (Range Int32 2 4 TR_no)
      \<longleftrightarrow> gamma (Merged [Const Int32 1, Const Int32 5]) \<inter> gamma (Range Int32 2 4 TR_no) = {})
    \<and> mustBeLessThan (Merged [Const Int32 1, Const Int32 5]) (Range Int32 2 4 TR_no)
      = Some (\<forall>x \<in> gamma (Merged [Const Int32 1, Const Int32 5]). \<forall>y \<in> gamma (Range Int32 2 4 TR_no). x < y)
    \<and> mustBeLessThanOrEqual (Merged [Const Int32 1, Const Int32 5]) (Range Int32 2 4 TR_no)
      = Some (\<forall>x \<in> gamma (Merged [Const Int32 1, Const Int32 5]). \<forall>y \<in> gamma (Range Int32 2 4 TR_no). x \<le> y)"
  by (rule comparisons_decide [where t = Int32]) (simp_all add: inType_def getMinSigned_def getMaxSigned_def)

text \<open>
  A list of 16-bit constraints reports the upper bound of its first element as its own. So \<open>mustBeLessThan\<close> compares
  that bound, where the relation holds if it holds for the last element; in between it claims too much.
\<close>

lemma merged_short_comparison_wrong:
  assumes "wfc Int16 (Merged (c # cs))" "wfSimple Int16 b"
  shows "mustBeLessThan (Merged (c # cs)) b = Some (high c < low b) \<and>
    ((\<forall>x \<in> gamma (Merged (c # cs)). \<forall>y \<in> gamma b. x < y) \<longleftrightarrow> high (last cs) < low b)"
proof -
  have cs: "cs \<noteq> []" "wfSimple Int16 c" "ordered (c # cs)" "\<forall>d\<in>set cs. wfSimple Int16 d" using assms(1) by auto
  have less: "mustBeLessThan (Merged (c # cs)) b = Some (high c < low b)"
    using mergedType_wf [OF assms(1)] getHigh_wfSimple [OF cs(2)] getLow_wfSimple [OF assms(2)]
    by (simp add: mergedMustBeLessThan_def compareHighLow_def)
  have "high d \<le> high (last cs)" if "d \<in> set (c # cs)" for d
    using cs(1,3,4) wfSimple_bounds [OF cs(2)] that
  proof (induction cs arbitrary: c d)
    case (Cons e es)
    show ?case
    proof (cases "es = []")
      case True
      then show ?thesis using Cons.prems wfSimple_bounds [of Int16 e] by auto
    next
      case False
      have "high x \<le> high (last es)" if "x \<in> set (e # es)" for x
        using Cons.IH [of e x] False Cons.prems wfSimple_bounds [of Int16 e] that by auto
      moreover have "high c < high e" using Cons.prems wfSimple_bounds [of Int16 e] by auto
      ultimately show ?thesis using False Cons.prems(5) by fastforce
    qed
  qed simp
  then have le: "x \<le> high (last cs)" if "x \<in> gamma (Merged (c # cs))" for x
    using that cs(2,4) by (fastforce simp: wfSimple_gamma)
  have l: "wfSimple Int16 (last cs)" using cs(1,4) by simp
  have "high (last cs) \<in> gamma (last cs)" using wfSimple_bounds [OF l] by (simp add: wfSimple_gamma [OF l])
  then have "high (last cs) \<in> gamma (Merged (c # cs))" using cs(1) by (auto intro!: bexI [of _ "last cs"])
  moreover have low_least: "low b \<le> y" if "y \<in> gamma b" for y using that by (simp add: wfSimple_gamma [OF assms(2)])
  moreover have "low b \<in> gamma b" using wfSimple_bounds [OF assms(2)] by (simp add: wfSimple_gamma [OF assms(2)])
  ultimately have "(\<forall>x \<in> gamma (Merged (c # cs)). \<forall>y \<in> gamma b. x < y) \<longleftrightarrow> high (last cs) < low b"
    using le low_least by (meson le_less_trans less_le_trans)
  with less show ?thesis by blast
qed

text \<open>
  C11: The unsigned bounds of a single constraint enclose the unsigned reading of every value it admits.
\<close>

theorem unsigned_bounds_enclose:
  assumes "wfSimple t c" "x \<in> gamma c"
  shows "\<exists>l h. getUnsignedLow t c = Some l \<and> getUnsignedHigh t c = Some h \<and> l \<le> castUnsigned t x \<and> castUnsigned t x \<le> h"
  using assms by (rule unsigned_bounds_simple)

theorem unsigned_bounds_enclose_witness:
  "\<exists>l h. getUnsignedLow Int32 (Range Int32 (- 3) 4 TR_no) = Some l \<and> getUnsignedHigh Int32 (Range Int32 (- 3) 4 TR_no) = Some h
    \<and> l \<le> castUnsigned Int32 (- 2) \<and> castUnsigned Int32 (- 2) \<le> h"
  by (rule unsigned_bounds_enclose) (simp_all add: inType_def getMinSigned_def getMaxSigned_def)

text \<open>For a list that crosses zero the reported unsigned lower bound exceeds values of the list.\<close>

theorem merged_unsigned_bounds_wrong:
  "wfc Int32 (Merged [Const Int32 (- 5), Const Int32 2])
   \<and> getUnsignedLow Int32 (Merged [Const Int32 (- 5), Const Int32 2]) = Some (2 ^ 32 - 5)
   \<and> getUnsignedHigh Int32 (Merged [Const Int32 (- 5), Const Int32 2]) = Some 2"
proof (intro conjI)
  show "getUnsignedLow Int32 (Merged [Const Int32 (- 5), Const Int32 2]) = Some (2 ^ 32 - 5)" by code_simp
  show "getUnsignedHigh Int32 (Merged [Const Int32 (- 5), Const Int32 2]) = Some 2" by code_simp
qed (simp add: inType_def getMinSigned_def getMaxSigned_def)

text \<open>
  C10: Excluding a value gives, at each of the three widths, a well-formed constraint that admits every other value
  of the type and not that one.
\<close>

theorem exclusion_exact:
  assumes "inType t v" "t \<noteq> Int8"
  shows "\<exists>c. createExclusion t v = Some (Some c) \<and> wfc t c \<and> gamma c = typeRange t - {v}"
  using assms by (rule createExclusion_correct)

theorem exclusion_exact_witness:
  "\<exists>c. createExclusion Int16 (- 32768) = Some (Some c) \<and> wfc Int16 c \<and> gamma c = typeRange Int16 - {- 32768}"
  by (rule exclusion_exact) (simp_all add: inType_def getMinSigned_def getMaxSigned_def)

section \<open>Where mixed widths go wrong\<close>

text \<open>Merging an int range up to \<open>INT_MAX\<close> with a long one computes \<open>INT_MAX + 1\<close> in 32 bits.\<close>

theorem int_long_merge_overflows:
  "merge False (Range Int32 5 (getMaxSigned Int32) TR_no) (Range Int64 10 20 TR_no) = None"
  by code_simp

text \<open>
  Merging a list of ints with the long range of all ints puts a null constraint into the result and
  then calls a method on it.
\<close>

theorem int_list_long_merge_null:
  "merge False (Merged [Const Int32 1, Const Int32 5]) (Range Int64 (getMinSigned Int32) (getMaxSigned Int32) TR_no) = None"
  by code_simp

text \<open>Intersecting an int and a long constraint that have no common value gives a range whose bounds are crossed.\<close>

theorem int_long_intersection_inverted:
  "intersect False (Range Int32 0 10 TR_no) (Some (Range Int64 20 30 TR_no)) False = Some (Some (Range Int64 20 10 TR_no), False)"
  by code_simp

end
