(* ===== verification/ConstraintTable.thy ===== *)
theory ConstraintTable
  imports VPConstraint
begin

text \<open>
  The table through which value propagation shares its constraints (\<open>_constraintsHashTable\<close>, \<open>addConstraint\<close> and the
  \<open>create\<close> functions of the integer constraint classes). A pointer is the index of an object in allocation order;
  the list of a merged constraint holds pointers. The address of an object, which the hash of a merged constraint
  is computed from, is the parameter \<open>addr\<close>.
\<close>

section \<open>State\<close>

datatype object =
    ConstObject data_type int
  | RangeObject data_type int int yesNoMaybe
  | MergedObject "nat list"

record constraint_table =
  objects :: "object list"
  buckets :: "nat \<Rightarrow> nat list"
  constantZero :: nat

definition VP_HASH_TABLE_SIZE :: int where
  "VP_HASH_TABLE_SIZE = 251"

text \<open>The allocation of the table in the constructor of the value propagation, with the cached constant zero.\<close>

definition emptyTable :: constraint_table where
  "emptyTable = \<lparr>objects = [ConstObject Int32 0], buckets = (\<lambda>_. []), constantZero = 0\<rparr>"

definition addConstraint :: "nat \<Rightarrow> nat \<Rightarrow> constraint_table \<Rightarrow> constraint_table" where
  "addConstraint p hash tab = tab\<lparr>buckets := (buckets tab)(hash := p # buckets tab hash)\<rparr>"

text \<open>The walk along a chain for an object that passes the test, and the creation of one when there is none.\<close>

definition lookupChain :: "(object \<Rightarrow> bool) \<Rightarrow> nat \<Rightarrow> constraint_table \<Rightarrow> nat option" where
  "lookupChain test hash tab = find (\<lambda>p. test (objects tab ! p)) (buckets tab hash)"

definition allocate :: "object \<Rightarrow> nat \<Rightarrow> constraint_table \<Rightarrow> nat \<times> constraint_table" where
  "allocate obj hash tab =
     (let p = length (objects tab) in (p, addConstraint p hash (tab\<lparr>objects := objects tab @ [obj]\<rparr>)))"

definition findOrCreate :: "object \<Rightarrow> nat \<Rightarrow> constraint_table \<Rightarrow> nat \<times> constraint_table" where
  "findOrCreate obj hash tab = (case lookupChain (\<lambda>x. x = obj) hash tab of
       Some p \<Rightarrow> (p, tab) | None \<Rightarrow> allocate obj hash tab)"

section \<open>Hashes and creation\<close>

definition bucketOf32 :: "int \<Rightarrow> nat" where
  "bucketOf32 h = nat (take_bit 32 h mod VP_HASH_TABLE_SIZE)"

definition shortConstCreate :: "int \<Rightarrow> constraint_table \<Rightarrow> nat \<times> constraint_table" where
  "shortConstCreate v = findOrCreate (ConstObject Int16 v) (bucketOf32 v)"

definition intConstCreate :: "int \<Rightarrow> constraint_table \<Rightarrow> nat \<times> constraint_table" where
  "intConstCreate v tab = (if v = 0 then (constantZero tab, tab) else findOrCreate (ConstObject Int32 v) (bucketOf32 v) tab)"

definition longConstCreate :: "int \<Rightarrow> constraint_table \<Rightarrow> nat \<times> constraint_table" where
  "longConstCreate v = findOrCreate (ConstObject Int64 v) (bucketOf32 (drop_bit 32 v + v))"

definition constCreate :: "data_type \<Rightarrow> int \<Rightarrow> constraint_table \<Rightarrow> nat \<times> constraint_table" where
  "constCreate t v = (case t of Int16 \<Rightarrow> shortConstCreate v | Int64 \<Rightarrow> longConstCreate v | _ \<Rightarrow> intConstCreate v)"

definition rangeHash :: "data_type \<Rightarrow> int \<Rightarrow> int \<Rightarrow> nat" where
  "rangeHash t lo hi = (case t of Int16 \<Rightarrow> bucketOf32 (push_bit 8 lo + hi)
     | Int64 \<Rightarrow> bucketOf32 (lo + hi) | _ \<Rightarrow> bucketOf32 (push_bit 16 lo + hi))"

definition rangeObjectCreate :: "data_type \<Rightarrow> int \<Rightarrow> int \<Rightarrow> bool \<Rightarrow> yesNoMaybe \<Rightarrow> constraint_table
    \<Rightarrow> nat option \<times> constraint_table" where
  "rangeObjectCreate t lo hi powerOfTwo ov tab =
     (if lo = getMinSigned t \<and> hi = getMaxSigned t \<and> \<not> (t = Int64 \<and> powerOfTwo) then (None, tab)
      else apfst Some (if lo = hi then constCreate t lo tab
                       else findOrCreate (RangeObject t lo hi ov) (rangeHash t lo hi) tab))"

definition mergedCreatePair :: "(nat \<Rightarrow> int) \<Rightarrow> nat \<Rightarrow> nat \<Rightarrow> constraint_table \<Rightarrow> nat \<times> constraint_table" where
  "mergedCreatePair addr first second =
     findOrCreate (MergedObject [first, second]) (nat ((drop_bit 2 (addr first) + drop_bit 2 (addr second)) mod VP_HASH_TABLE_SIZE))"

definition mergedCreateList :: "(nat \<Rightarrow> int) \<Rightarrow> nat list \<Rightarrow> constraint_table \<Rightarrow> nat \<times> constraint_table" where
  "mergedCreateList addr ps = findOrCreate (MergedObject ps) (bucketOf32 (sum_list (map (\<lambda>p. drop_bit 2 (addr p)) ps)))"

section \<open>A history of creations\<close>

datatype request =
    ConstRequest data_type int
  | RangeRequest data_type int int bool yesNoMaybe
  | PairRequest nat nat
  | ListRequest "nat list"

definition serve :: "(nat \<Rightarrow> int) \<Rightarrow> request \<Rightarrow> constraint_table \<Rightarrow> nat option \<times> constraint_table" where
  "serve addr r tab = (case r of
       ConstRequest t v \<Rightarrow> apfst Some (constCreate t v tab)
     | RangeRequest t lo hi pw ov \<Rightarrow> rangeObjectCreate t lo hi pw ov tab
     | PairRequest p q \<Rightarrow> apfst Some (mergedCreatePair addr p q tab)
     | ListRequest ps \<Rightarrow> apfst Some (mergedCreateList addr ps tab))"

definition serveAll :: "(nat \<Rightarrow> int) \<Rightarrow> request list \<Rightarrow> constraint_table \<Rightarrow> constraint_table" where
  "serveAll addr rs tab = fold (\<lambda>r. snd \<circ> serve addr r) rs tab"

section \<open>Sharing\<close>

fun isSimple :: "object \<Rightarrow> bool" where
  "isSimple (MergedObject ps) = False" | "isSimple obj = True"

text \<open>The chain an object that is not a list belongs to.\<close>

fun hashOf :: "object \<Rightarrow> nat" where
  "hashOf (ConstObject t v) = (if t = Int64 then bucketOf32 (drop_bit 32 v + v) else bucketOf32 v)"
| "hashOf (RangeObject t lo hi ov) = rangeHash t lo hi"
| "hashOf (MergedObject ps) = 0"

definition cached :: "object \<Rightarrow> bool" where
  "cached obj \<longleftrightarrow> obj = ConstObject Int32 0 \<or> obj = ConstObject Int8 0"

definition sharing :: "constraint_table \<Rightarrow> bool" where
  "sharing tab \<longleftrightarrow>
     (\<forall>h. \<forall>p \<in> set (buckets tab h). p < length (objects tab))
     \<and> constantZero tab < length (objects tab) \<and> objects tab ! constantZero tab = ConstObject Int32 0
     \<and> (\<forall>p < length (objects tab). isSimple (objects tab ! p) \<longrightarrow> \<not> cached (objects tab ! p) \<longrightarrow>
          p \<in> set (buckets tab (hashOf (objects tab ! p))))
     \<and> (\<forall>p < length (objects tab). \<forall>q < length (objects tab).
          isSimple (objects tab ! p) \<longrightarrow> objects tab ! p = objects tab ! q \<longrightarrow> p = q)"

text \<open>What a creation promises: the object asked for, and all earlier objects unchanged.\<close>

definition created :: "object \<Rightarrow> constraint_table \<Rightarrow> nat \<times> constraint_table \<Rightarrow> bool" where
  "created obj tab r \<longleftrightarrow> sharing (snd r) \<and> fst r < length (objects (snd r)) \<and> objects (snd r) ! fst r = obj
     \<and> (\<exists>new. objects (snd r) = objects tab @ new)"

lemma sharing_empty: "sharing emptyTable"
  by (simp add: sharing_def emptyTable_def cached_def)

lemma lookupChain_Some:
  assumes "sharing tab" "lookupChain (\<lambda>x. x = obj) hash tab = Some p"
  shows "p < length (objects tab)" "objects tab ! p = obj"
proof -
  have "p \<in> set (buckets tab hash)" "objects tab ! p = obj"
    using assms(2) by (auto simp: lookupChain_def find_Some_iff in_set_conv_nth)
  then show "p < length (objects tab)" "objects tab ! p = obj" using assms(1) by (auto simp: sharing_def)
qed

lemma lookupChain_None:
  assumes "sharing tab" "isSimple obj" "\<not> cached obj" "lookupChain (\<lambda>x. x = obj) (hashOf obj) tab = None" "p < length (objects tab)"
  shows "objects tab ! p \<noteq> obj"
proof
  assume "objects tab ! p = obj"
  then have "p \<in> set (buckets tab (hashOf obj))" using assms(1-3,5) unfolding sharing_def by blast
  then show False using assms(4) \<open>objects tab ! p = obj\<close> by (auto simp: lookupChain_def find_None_iff)
qed

lemma allocate_created:
  assumes sh: "sharing tab" and new: "isSimple obj \<Longrightarrow> hash = hashOf obj \<and> \<not> cached obj \<and> obj \<notin> set (objects tab)"
  shows "created obj tab (allocate obj hash tab)"
proof -
  define tab' where "tab' = snd (allocate obj hash tab)"
  have o: "objects tab' = objects tab @ [obj]" and b: "buckets tab' = (buckets tab)(hash := length (objects tab) # buckets tab hash)"
    and z: "constantZero tab' = constantZero tab"
    by (simp_all add: tab'_def allocate_def addConstraint_def Let_def)
  have "sharing tab'" unfolding sharing_def
  proof (intro conjI allI impI ballI)
    fix h p assume "p \<in> set (buckets tab' h)"
    then show "p < length (objects tab')" using sh unfolding b o sharing_def by (auto split: if_splits simp: less_Suc_eq)
  next
    show "constantZero tab' < length (objects tab')" "objects tab' ! constantZero tab' = ConstObject Int32 0"
      using sh unfolding z o sharing_def by (auto simp: nth_append)
  next
    fix p assume p: "p < length (objects tab')" "isSimple (objects tab' ! p)" "\<not> cached (objects tab' ! p)"
    show "p \<in> set (buckets tab' (hashOf (objects tab' ! p)))"
    proof (cases "p < length (objects tab)")
      case True
      then have "objects tab' ! p = objects tab ! p" by (simp add: o nth_append)
      moreover from this True p sh have "p \<in> set (buckets tab (hashOf (objects tab ! p)))" by (simp add: sharing_def)
      ultimately show ?thesis by (auto simp: b)
    next
      case False
      then have "p = length (objects tab)" "objects tab' ! p = obj" using p(1) by (auto simp: o nth_append)
      then show ?thesis using new p(2) by (simp add: b)
    qed
  next
    fix p q assume "p < length (objects tab')" "q < length (objects tab')" "isSimple (objects tab' ! p)" "objects tab' ! p = objects tab' ! q"
    then show "p = q" using sh new unfolding o sharing_def
      by (auto simp: nth_append less_Suc_eq in_set_conv_nth split: if_splits)
  qed
  then show ?thesis using o by (auto simp: created_def tab'_def [symmetric]) (simp_all add: allocate_def Let_def)
qed

lemma findOrCreate_created:
  assumes "sharing tab" "isSimple obj \<Longrightarrow> hash = hashOf obj \<and> \<not> cached obj"
  shows "created obj tab (findOrCreate obj hash tab)"
proof (cases "lookupChain (\<lambda>x. x = obj) hash tab")
  case None
  have "created obj tab (allocate obj hash tab)"
  proof (rule allocate_created [OF assms(1)])
    assume s: "isSimple obj"
    have "obj \<notin> set (objects tab)"
      using lookupChain_None [OF assms(1) s] assms(2) [OF s] None by (auto simp: in_set_conv_nth)
    then show "hash = hashOf obj \<and> \<not> cached obj \<and> obj \<notin> set (objects tab)" using assms(2) [OF s] by simp
  qed
  then show ?thesis using None by (simp add: findOrCreate_def)
next
  case (Some p)
  then show ?thesis using lookupChain_Some [OF assms(1) Some] assms(1) by (simp add: findOrCreate_def created_def)
qed

lemma constCreate_created:
  assumes "sharing tab" "t \<noteq> Int8"
  shows "created (ConstObject t v) tab (constCreate t v tab)"
proof (cases "t = Int32 \<and> v = 0")
  case True
  then show ?thesis using assms(1) by (auto simp: constCreate_def intConstCreate_def created_def sharing_def)
next
  case False
  have "constCreate t v tab = findOrCreate (ConstObject t v) (hashOf (ConstObject t v)) tab"
    using False assms(2) by (cases t) (auto simp: constCreate_def intConstCreate_def shortConstCreate_def longConstCreate_def)
  then show ?thesis using findOrCreate_created [OF assms(1)] False assms(2) by (simp add: cached_def)
qed

fun denote :: "object \<Rightarrow> constraint option" where
  "denote (ConstObject t v) = Some (Const t v)"
| "denote (RangeObject t lo hi ov) = Some (Range t lo hi ov)"
| "denote (MergedObject ps) = None"

text \<open>The range creation through the table builds the constraint of the creation functions without one.\<close>

definition rangeResult :: "data_type \<Rightarrow> int \<Rightarrow> int \<Rightarrow> bool \<Rightarrow> yesNoMaybe \<Rightarrow> constraint option" where
  "rangeResult t lo hi pw ov = (if t = Int64 then longRangeCreate lo hi pw ov else rangeCreate t lo hi ov)"

lemma rangeObjectCreate_refines:
  assumes "sharing tab" "t \<noteq> Int8" "rangeObjectCreate t lo hi pw ov tab = (r, tab')"
  shows "sharing tab' \<and> (\<exists>new. objects tab' = objects tab @ new) \<and> (case rangeResult t lo hi pw ov of
      None \<Rightarrow> r = None | Some c \<Rightarrow> (\<exists>p < length (objects tab'). r = Some p \<and> denote (objects tab' ! p) = Some c))"
proof (cases "lo = getMinSigned t \<and> hi = getMaxSigned t \<and> \<not> (t = Int64 \<and> pw)")
  case True
  then show ?thesis using assms by (auto simp: rangeObjectCreate_def rangeResult_def rangeCreate_def longRangeCreate_def)
next
  case False
  define obj where "obj = (if lo = hi then ConstObject t lo else RangeObject t lo hi ov)"
  have "created obj tab (if lo = hi then constCreate t lo tab else findOrCreate (RangeObject t lo hi ov) (rangeHash t lo hi) tab)"
    using constCreate_created [OF assms(1,2)] findOrCreate_created [OF assms(1), of "RangeObject t lo hi ov"]
    by (simp add: obj_def cached_def)
  moreover have "(r, tab') = apfst Some (if lo = hi then constCreate t lo tab else findOrCreate (RangeObject t lo hi ov) (rangeHash t lo hi) tab)"
    using assms(3) False by (auto simp: rangeObjectCreate_def)
  moreover have "rangeResult t lo hi pw ov = denote obj"
    using False by (auto simp: rangeResult_def rangeCreate_def longRangeCreate_def obj_def)
  ultimately show ?thesis by (cases "lo = hi") (auto simp: created_def apfst_def map_prod_def obj_def split: prod.splits)
qed

fun typed :: "request \<Rightarrow> bool" where
  "typed (ConstRequest t v) = (t \<noteq> Int8)" | "typed (RangeRequest t lo hi pw ov) = (t \<noteq> Int8)"
| "typed (PairRequest p q) = True" | "typed (ListRequest ps) = True"

lemma serve_sharing:
  assumes "sharing tab" "typed r" shows "sharing (snd (serve addr r tab))"
proof (cases r)
  case (ConstRequest t v)
  then show ?thesis using constCreate_created [OF assms(1)] assms(2) by (simp add: serve_def created_def)
next
  case (RangeRequest t lo hi pw ov)
  then show ?thesis
    using rangeObjectCreate_refines [OF assms(1), of t lo hi pw ov "fst (rangeObjectCreate t lo hi pw ov tab)"] assms(2)
    by (simp add: serve_def)
next
  case (PairRequest p q)
  then show ?thesis using findOrCreate_created [OF assms(1), of "MergedObject [p, q]"]
    by (simp add: serve_def mergedCreatePair_def created_def)
next
  case (ListRequest ps)
  then show ?thesis using findOrCreate_created [OF assms(1), of "MergedObject ps"]
    by (simp add: serve_def mergedCreateList_def created_def)
qed

lemma serveAll_sharing: "\<forall>r \<in> set rs. typed r \<Longrightarrow> sharing tab \<Longrightarrow> sharing (serveAll addr rs tab)"
  by (induction rs arbitrary: tab) (auto simp: serveAll_def serve_sharing)

text \<open>
  C6: Whatever constants, ranges and lists have been created, the table holds one object per constant and per
  range: two pointers to such objects are the same pointer when the objects are equal. This is what the pointer
  comparisons of \<open>merge\<close> and \<open>intersect\<close> rely on.
\<close>

theorem simple_constraints_shared:
  assumes "\<forall>r \<in> set rs. typed r" "tab = serveAll addr rs emptyTable"
    and "p < length (objects tab)" "q < length (objects tab)" "isSimple (objects tab ! p)"
  shows "objects tab ! p = objects tab ! q \<longleftrightarrow> p = q"
  using serveAll_sharing [OF assms(1) sharing_empty, of addr] assms(2-5) unfolding sharing_def by blast

theorem simple_constraints_shared_witness:
  "objects (serveAll int [ConstRequest Int16 7] emptyTable) ! 1 = objects (serveAll int [ConstRequest Int16 7] emptyTable) ! 0 \<longleftrightarrow> (1 :: nat) = 0"
proof (rule simple_constraints_shared [where rs = "[ConstRequest Int16 7]" and addr = int])
  have o: "objects (serveAll int [ConstRequest Int16 7] emptyTable) = [ConstObject Int32 0, ConstObject Int16 7]"
    by (simp add: serveAll_def serve_def constCreate_def shortConstCreate_def findOrCreate_def lookupChain_def emptyTable_def
        allocate_def addConstraint_def Let_def)
  show "1 < length (objects (serveAll int [ConstRequest Int16 7] emptyTable))"
    "0 < length (objects (serveAll int [ConstRequest Int16 7] emptyTable))"
    "isSimple (objects (serveAll int [ConstRequest Int16 7] emptyTable) ! 1)"
    unfolding o by simp_all
qed simp_all

text \<open>
  C7: Creating a range through the table keeps every earlier object and the sharing, and yields a pointer to the
  constraint that the range creation without a table describes: \<open>NULL\<close> for the whole type, a constant for equal
  bounds, the range with its overflow indication otherwise.
\<close>

theorem table_creation_refines:
  assumes "sharing tab" "t \<noteq> Int8" "rangeObjectCreate t lo hi pw ov tab = (r, tab')"
  shows "sharing tab' \<and> (\<exists>new. objects tab' = objects tab @ new) \<and> (case rangeResult t lo hi pw ov of
      None \<Rightarrow> r = None | Some c \<Rightarrow> (\<exists>p < length (objects tab'). r = Some p \<and> denote (objects tab' ! p) = Some c))"
  using assms by (rule rangeObjectCreate_refines)

theorem table_creation_refines_witness:
  "sharing (snd (rangeObjectCreate Int32 3 8 False TR_no emptyTable))
   \<and> (\<exists>new. objects (snd (rangeObjectCreate Int32 3 8 False TR_no emptyTable)) = objects emptyTable @ new)
   \<and> (case rangeResult Int32 3 8 False TR_no of None \<Rightarrow> fst (rangeObjectCreate Int32 3 8 False TR_no emptyTable) = None
      | Some c \<Rightarrow> (\<exists>p < length (objects (snd (rangeObjectCreate Int32 3 8 False TR_no emptyTable))).
          fst (rangeObjectCreate Int32 3 8 False TR_no emptyTable) = Some p
          \<and> denote (objects (snd (rangeObjectCreate Int32 3 8 False TR_no emptyTable)) ! p) = Some c))"
  by (rule table_creation_refines) (simp_all add: sharing_empty)

text \<open>
  Lists are not shared in this sense: the two ways of creating one hash it differently, one of them after
  cutting the sum of the addresses to 32 bits, so that the same list is created twice.
\<close>

theorem merged_constraints_duplicated:
  "let addr = (\<lambda>p. 2 ^ 34 + 4 * int p);
       tab = serveAll addr [ConstRequest Int32 1, ConstRequest Int32 5, PairRequest 1 2, ListRequest [1, 2]] emptyTable
   in objects tab = [ConstObject Int32 0, ConstObject Int32 1, ConstObject Int32 5, MergedObject [1, 2], MergedObject [1, 2]]"
  by code_simp

end
