(* ===== verification/SimpleRegex.thy ===== *)
theory SimpleRegex
  imports NJ_Prelude
begin

text \<open>
  The filters that select methods and options by name (\<open>compiler/infra/SimpleRegex.{hpp,cpp}\<close>, with the character
  functions of \<open>compiler/ras/IgnoreLocale.cpp\<close>): the parser of a filter and the matcher. A C string is the list of its
  characters; a pointer into it is the rest of the list, whose first character is the terminator when it is empty. A
  result is \<open>None\<close> where the code reads behind the terminator or indexes outside the bit map, which it does
  for a negative \<open>char\<close>. Character counts are natural numbers: a filter is shorter than their C types can count.
\<close>

section \<open>Data\<close>

text \<open>
  A component is a string, a run of wild cards with its count (twice the number of \<open>?\<close>, plus one for a \<open>*\<close>), or a
  set of characters as a bit map of eight words, 32 bits of each in use.
\<close>

datatype component =
    SimpleString string
  | Wildcards nat
  | CharAlternatives "u64 list"

datatype simple = Simple (componentOf: component) (remainderOf: "simple option") (fixedRight: nat)

datatype regex = Regex simple "regex option"

record simple_regex =
  regexOf :: regex
  negate :: bool
  regexStr :: string
  regexStrLen :: nat

definition NUL :: char where "NUL = CHR 0x00"

definition ch0 :: "string \<Rightarrow> char" where
  "ch0 s = (case s of [] \<Rightarrow> NUL | c # _ \<Rightarrow> c)"

text \<open>\<open>s[1]\<close> and \<open>s[2]\<close>, which the code reads only behind a character that is not the terminator.\<close>

definition ch1 :: "string \<Rightarrow> char" where "ch1 s = ch0 (tl s)"

definition ch2 :: "string \<Rightarrow> char" where "ch2 s = ch0 (tl (tl s))"

section \<open>Bit maps\<close>

text \<open>The value of a (signed) \<open>char\<close> as an index.\<close>

definition charIndex :: "char \<Rightarrow> int" where
  "charIndex c = (let n = of_char c :: int in if n \<ge> 128 then n - 256 else n)"

definition BWORD :: "int \<Rightarrow> int" where "BWORD i = drop_bit 5 i"

definition BBIT :: "int \<Rightarrow> nat" where "BBIT i = nat (i AND 31)"

definition emptyMap :: "u64 list" where "emptyMap = replicate 8 0"

definition mapSet :: "int \<Rightarrow> u64 list \<Rightarrow> u64 list option" where
  "mapSet i bm = do { w \<leftarrow> rd bm (BWORD i); wr bm (BWORD i) (w OR push_bit (BBIT i) 1) }"

definition mapTest :: "u64 list \<Rightarrow> int \<Rightarrow> bool option" where
  "mapTest bm i = do { w \<leftarrow> rd bm (BWORD i); Some (w AND push_bit (BBIT i) 1 \<noteq> 0) }"

definition mapSetRange :: "int \<Rightarrow> int \<Rightarrow> u64 list \<Rightarrow> u64 list option" where
  "mapSetRange lo hi bm = foldM mapSet [lo..hi] bm"

section \<open>Parsing\<close>

datatype alternates = AltNo | AltYes | AltMaybe

text \<open>Whether a \<open>]\<close> follows before the end of the filter; escaped characters are skipped.\<close>

fun closesBracket :: "string \<Rightarrow> bool" where
  "closesBracket [] = False"
| "closesBracket (c # s) =
     (if c = CHR ''}'' then False
      else if c = CHR '']'' then True
      else if c = CHR 0x5C \<and> s \<noteq> [] then closesBracket (tl s)
      else closesBracket s)"

definition decideAlternates :: "string \<Rightarrow> alternates \<Rightarrow> alternates" where
  "decideAlternates s allow =
     (if ch0 s = CHR ''['' \<and> allow = AltMaybe then
        if ch1 s = CHR ''^'' then AltYes else if closesBracket s then AltYes else AltNo
      else allow)"

text \<open>The characters and character ranges between the brackets.\<close>

function alternativesLoop :: "string \<Rightarrow> u64 list \<Rightarrow> (u64 list \<times> string) option" where
  "alternativesLoop s bm =
     (if ch0 s = CHR '']'' \<or> ch0 s = CHR ''}'' \<or> s = [] then Some (bm, s)
      else
        let s1 = (if ch0 s = CHR 0x5C \<and> tl s \<noteq> [] then tl s else s);
            isRange = (ch1 s1 = CHR ''-'' \<and> ch2 s1 \<noteq> CHR '']'' \<and> tl (tl s1) \<noteq> []);
            lo = charIndex (ch0 s1);
            s2 = (if isRange then
                    let s' = tl (tl s1) in
                    if ch0 s' = CHR 0x5C \<and> ch1 s' \<noteq> CHR '']'' \<and> tl s' \<noteq> [] then tl s' else s'
                  else s1);
            hi = charIndex (ch0 s2)
        in do { bm' \<leftarrow> mapSetRange (min lo hi) (max lo hi) bm; alternativesLoop (tl s2) bm' })"
  by pat_completeness auto
termination
  by (relation "measure (\<lambda>(s, bm). length s)") (auto simp: Let_def simp flip: length_greater_0_conv)

declare alternativesLoop.simps [simp del]

text \<open>The run of wild cards.\<close>

fun wildcardsLoop :: "string \<Rightarrow> nat \<Rightarrow> nat \<times> string" where
  "wildcardsLoop [] counts = (counts, [])"
| "wildcardsLoop (c # s) counts =
     (if c = CHR ''?'' then wildcardsLoop s (counts + 2)
      else if c = CHR ''*'' then wildcardsLoop s (counts OR 1)
      else (counts, c # s))"

text \<open>
  The ordinary characters: first the size of the component is counted, a pair of an escape and its character
  as two, then the characters are copied without the escapes.
\<close>

definition endsString :: "alternates \<Rightarrow> char \<Rightarrow> bool" where
  "endsString allow c \<longleftrightarrow> c = CHR ''*'' \<or> c = CHR ''?'' \<or> c = CHR '','' \<or> c = CHR ''|'' \<or> c = CHR ''}''
     \<or> (c = CHR ''['' \<and> allow \<noteq> AltNo)"

fun countString :: "alternates \<Rightarrow> string \<Rightarrow> nat" where
  "countString allow [] = 0"
| "countString allow (c # s) =
     (if endsString allow c then 0
      else if c = CHR 0x5C \<and> s \<noteq> [] then 2 + countString allow (tl s)
      else 1 + countString allow s)"

fun copyString :: "alternates \<Rightarrow> string \<Rightarrow> string \<times> string" where
  "copyString allow [] = ([], [])"
| "copyString allow (c # s) =
     (if endsString allow c then ([], c # s)
      else if c = CHR 0x5C \<and> s \<noteq> [] then apfst (Cons (hd s)) (copyString allow (tl s))
      else apfst (Cons c) (copyString allow s))"

definition isSeparator :: "char \<Rightarrow> bool" where
  "isSeparator c \<longleftrightarrow> c = CHR '','' \<or> c = CHR ''|''"

text \<open>
  One component of a simple pattern: \<open>None\<close> outside where the code goes wrong, \<open>None\<close> inside for a missing bracket,
  otherwise the component, what follows it and the decision about brackets.
\<close>

definition parseComponent :: "string \<Rightarrow> alternates \<Rightarrow> (component \<times> string \<times> alternates) option option" where
  "parseComponent s allow0 =
     (let allow = decideAlternates s allow0 in
      if ch0 s = CHR ''['' \<and> allow = AltYes then
        let s1 = tl s; invert = (ch0 s1 = CHR ''^''); s2 = (if invert then tl s1 else s1)
        in do { (bm, s3) \<leftarrow> alternativesLoop s2 emptyMap;
             if ch0 s3 \<noteq> CHR '']'' then Some None
             else Some (Some (CharAlternatives (if invert then map NOT bm else bm), tl s3, allow)) }
      else if ch0 s = CHR ''?'' \<or> ch0 s = CHR ''*'' then
        let (counts, s') = wildcardsLoop s 0 in Some (Some (Wildcards counts, s', allow))
      else let (str, s') = copyString allow s in Some (Some (SimpleString str, s', allow)))"

definition componentWidth :: "component \<Rightarrow> nat" where
  "componentWidth c = (case c of SimpleString str \<Rightarrow> length str | Wildcards counts \<Rightarrow> drop_bit 1 counts | CharAlternatives bm \<Rightarrow> 1)"

definition hasStar :: "component \<Rightarrow> bool" where
  "hasStar c = (case c of Wildcards counts \<Rightarrow> counts AND 1 \<noteq> 0 | _ \<Rightarrow> False)"

definition fixedCharsRight :: "simple option \<Rightarrow> nat" where
  "fixedCharsRight r = (case r of None \<Rightarrow> 0
     | Some m \<Rightarrow> if hasStar (componentOf m) \<or> fixedRight m = 0 \<and> remainderOf m \<noteq> None then 0 else fixedRight m + componentWidth (componentOf m))"

lemma length_alternativesLoop: "alternativesLoop s bm = Some (bm', s') \<Longrightarrow> length s' \<le> length s"
proof (induction s bm arbitrary: bm' s' rule: alternativesLoop.induct)
  case (1 s bm)
  show ?case
    using 1 by (subst (asm) (2) alternativesLoop.simps) (force simp: Let_def split: if_splits bind_splits)
qed

lemma length_wildcardsLoop: "length (snd (wildcardsLoop s counts)) \<le> length s"
  by (induction s counts rule: wildcardsLoop.induct) auto

lemma length_copyString: "length (snd (copyString allow s)) \<le> length s"
  by (induction allow s rule: copyString.induct) auto

lemma copyString_shorter: "s \<noteq> [] \<Longrightarrow> \<not> endsString allow (ch0 s) \<Longrightarrow> length (snd (copyString allow s)) < length s"
proof (cases s)
  case (Cons c s')
  assume "\<not> endsString allow (ch0 s)"
  then show ?thesis using Cons length_copyString [of allow s'] length_copyString [of allow "tl s'"]
    by (cases s') (auto simp: ch0_def less_Suc_eq_le)
qed simp

lemma wildcardsLoop_shorter:
  "ch0 s = CHR ''?'' \<or> ch0 s = CHR ''*'' \<Longrightarrow> length (snd (wildcardsLoop s counts)) < length s"
  using length_wildcardsLoop [of "tl s"] by (cases s) (auto simp: ch0_def NUL_def less_Suc_eq_le)

definition startsComponent :: "string \<Rightarrow> bool" where
  "startsComponent s \<longleftrightarrow> s \<noteq> [] \<and> \<not> isSeparator (ch0 s) \<and> ch0 s \<noteq> CHR ''}''"

lemma startsComponent_not_ends:
  assumes "startsComponent s" "\<not> (ch0 s = CHR ''['' \<and> decideAlternates s allow = AltYes)" "\<not> (ch0 s = CHR ''?'' \<or> ch0 s = CHR ''*'')"
  shows "\<not> endsString (decideAlternates s allow) (ch0 s)"
  using assms by (cases "decideAlternates s allow")
    (auto simp: startsComponent_def isSeparator_def endsString_def decideAlternates_def split: if_splits)

lemma parseComponent_shorter:
  assumes "startsComponent s" "parseComponent s allow = Some (Some (c, s', allow'))"
  shows "length s' < length s"
proof -
  have ne: "s \<noteq> []" using assms(1) by (simp add: startsComponent_def)
  consider (alt) "ch0 s = CHR ''['' \<and> decideAlternates s allow = AltYes"
    | (wild) "\<not> (ch0 s = CHR ''['' \<and> decideAlternates s allow = AltYes)" "ch0 s = CHR ''?'' \<or> ch0 s = CHR ''*''"
    | (str) "\<not> (ch0 s = CHR ''['' \<and> decideAlternates s allow = AltYes)" "\<not> (ch0 s = CHR ''?'' \<or> ch0 s = CHR ''*'')" by blast
  then show ?thesis
  proof cases
    case alt
    then obtain bm s2 s3 where "alternativesLoop s2 emptyMap = Some (bm, s3)" "s2 = tl s \<or> s2 = tl (tl s)" "s' = tl s3"
      using assms(2) by (auto simp: parseComponent_def Let_def split: bind_splits if_splits)
    moreover from this length_alternativesLoop have "length s3 \<le> length s2" by blast
    ultimately show ?thesis using ne by (cases s) (auto simp: less_Suc_eq_le)
  next
    case wild
    then show ?thesis using assms(2) wildcardsLoop_shorter [OF wild(2), of 0]
      by (auto simp: parseComponent_def Let_def split: prod.splits)
  next
    case str
    then show ?thesis using assms(2) copyString_shorter [OF ne startsComponent_not_ends [OF assms(1) str]]
      by (auto simp: parseComponent_def Let_def split: prod.splits)
  qed
qed

text \<open>
  A simple pattern: a null pattern where nothing is left of it; the flag \<open>foundError\<close> for a bracket that is not
  closed, with the position where its component starts.
\<close>

function processSimple :: "string \<Rightarrow> alternates \<Rightarrow> (simple option \<times> string \<times> bool) option" where
  "processSimple s allow =
     (if \<not> startsComponent s then Some (None, s, False)
      else case parseComponent s allow of
        None \<Rightarrow> None
      | Some None \<Rightarrow> Some (None, s, True)
      | Some (Some (c, s', allow')) \<Rightarrow>
          (case processSimple s' allow' of
             None \<Rightarrow> None
           | Some (remainder, s'', foundError) \<Rightarrow>
               if foundError then Some (None, s'', True)
               else Some (Some (Simple c remainder (fixedCharsRight remainder)), s'', False)))"
  by pat_completeness auto
termination by (relation "measure (\<lambda>(s, allow). length s)") (auto simp: parseComponent_shorter)

declare processSimple.simps [simp del]

text \<open>The cases of a call that starts a component and succeeds.\<close>

lemma processSimple_cases:
  assumes "processSimple s allow = Some (m, s', err)"
  obtains (stop) "\<not> startsComponent s" "m = None" "s' = s" "\<not> err"
  | (bracket) "startsComponent s" "parseComponent s allow = Some None" "m = None" "s' = s" "err"
  | (step) c s1 allow' remainder err' where "startsComponent s" "parseComponent s allow = Some (Some (c, s1, allow'))"
    "processSimple s1 allow' = Some (remainder, s', err')" "err = err'"
    "m = (if err' then None else Some (Simple c remainder (fixedCharsRight remainder)))"
  using assms by (subst (asm) processSimple.simps) (auto split: if_splits option.splits prod.splits)

lemma length_processSimple:
  "processSimple s allow = Some (m, s', err) \<Longrightarrow> length s' \<le> length s \<and> (m \<noteq> None \<longrightarrow> length s' < length s)"
proof (induction "length s" arbitrary: s allow m s' err rule: less_induct)
  case less
  from less.prems show ?case
  proof (cases rule: processSimple_cases)
    case (step c s1 allow' remainder err')
    have "length s1 < length s" by (rule parseComponent_shorter [OF step(1,2)])
    then show ?thesis using less.hyps [OF _ step(3)] by simp
  qed simp_all
qed

function processRegex :: "string \<Rightarrow> (regex option \<times> string \<times> bool) option" where
  "processRegex s0 =
     (let s = dropWhile isSeparator s0 in
      if s = [] \<or> ch0 s = CHR ''}'' then Some (None, s, False)
      else case processSimple s AltMaybe of
        None \<Rightarrow> None
      | Some (simple', s', foundError) \<Rightarrow>
          if foundError then Some (None, s', True)
          else (case simple' of None \<Rightarrow> None
            | Some m \<Rightarrow>
                (case processRegex s' of
                   None \<Rightarrow> None
                 | Some (remainder, s'', foundError') \<Rightarrow>
                     if foundError' then Some (None, s'', True)
                     else Some (Some (Regex m remainder), s'', False))))"
  by pat_completeness auto
termination
proof (relation "measure length")
  fix s0 s simple' s' foundError m p q
  assume "s = dropWhile isSeparator s0" "processSimple s AltMaybe = Some p" "(simple', q) = p" "(s', foundError) = q" "simple' = Some m"
  then have "length s' < length s" "length s \<le> length s0"
    using length_processSimple [of s AltMaybe simple' s' foundError] by (auto simp: length_dropWhile_le)
  then show "(s', s0) \<in> measure length" by simp
qed simp

declare processRegex.simps [simp del]

text \<open>\<open>SimpleRegex::create\<close>: the result and the advanced string pointer; \<open>None\<close> as the string is a null pointer.\<close>

definition create :: "string option \<Rightarrow> (simple_regex option \<times> string option) option" where
  "create s0 = (case s0 of None \<Rightarrow> Some (None, None)
     | Some orig \<Rightarrow>
         if ch0 orig \<noteq> CHR ''{'' then Some (None, Some orig)
         else let s1 = tl orig; neg = (ch0 s1 = CHR ''^''); s2 = (if neg then tl s1 else s1)
           in do { (r, s, foundError) \<leftarrow> processRegex s2;
                case r of None \<Rightarrow> Some (None, Some s)
                | Some re \<Rightarrow>
                    if ch0 s \<noteq> CHR ''}'' \<or> foundError then Some (None, Some s)
                    else Some (Some \<lparr>regexOf = re, negate = neg, regexStr = orig, regexStrLen = length orig - length (tl s)\<rparr>,
                               Some (tl s)) })"

section \<open>Matching\<close>

text \<open>
  The character functions of the C library in the current locale, and whether the environment variable
  \<open>TR_ProcessOptionsWithLocale\<close> is set, which makes the functions for ASCII use them.
\<close>

record c_locale =
  c_tolower :: "char \<Rightarrow> char"
  c_toupper :: "char \<Rightarrow> char"
  processWithLocale :: bool

definition tolower_ignore_locale :: "c_locale \<Rightarrow> char \<Rightarrow> char" where
  "tolower_ignore_locale lc c =
     (if processWithLocale lc then c_tolower lc c
      else if 65 \<le> charIndex c \<and> charIndex c \<le> 90 then char_of (charIndex c - 65 + 97) else c)"

definition toupper_ignore_locale :: "c_locale \<Rightarrow> char \<Rightarrow> char" where
  "toupper_ignore_locale lc c =
     (if processWithLocale lc then c_toupper lc c
      else if 97 \<le> charIndex c \<and> charIndex c \<le> 122 then char_of (charIndex c - 97 + 65) else c)"

text \<open>
  How characters are compared, from the arguments \<open>isCaseSensitive\<close> and \<open>useLocale\<close> that the matching functions pass on:
  with their case, or through a lower-case and an upper-case function.
\<close>

record char_case =
  caseSensitive :: bool
  lower :: "char \<Rightarrow> char"
  upper :: "char \<Rightarrow> char"

definition charCase :: "c_locale \<Rightarrow> bool \<Rightarrow> bool \<Rightarrow> char_case" where
  "charCase lc isCaseSensitive useLocale =
     \<lparr>caseSensitive = isCaseSensitive,
      lower = (if useLocale then c_tolower lc else tolower_ignore_locale lc),
      upper = (if useLocale then c_toupper lc else toupper_ignore_locale lc)\<rparr>"

definition sameChar :: "char_case \<Rightarrow> char \<Rightarrow> char \<Rightarrow> bool" where
  "sameChar cc a b \<longleftrightarrow> (if caseSensitive cc then a = b else lower cc a = lower cc b)"

text \<open>The comparison of a string component: \<open>Some None\<close> for a mismatch, otherwise what follows the string.\<close>

fun matchString :: "char_case \<Rightarrow> string \<Rightarrow> string \<Rightarrow> string option option" where
  "matchString cc [] s = Some (Some s)"
| "matchString cc (c # str) s =
     (if \<not> sameChar cc (ch0 s) c then Some None
      else case s of [] \<Rightarrow> None | _ # s' \<Rightarrow> matchString cc str s')"

definition inAlternatives :: "char_case \<Rightarrow> u64 list \<Rightarrow> char \<Rightarrow> bool option" where
  "inAlternatives cc bm c =
     do { present \<leftarrow> mapTest bm (charIndex c);
       if \<not> caseSensitive cc \<and> \<not> present then
         do { l \<leftarrow> mapTest bm (charIndex (lower cc c));
           if l then Some True else mapTest bm (charIndex (upper cc c)) }
       else Some present }"

text \<open>
  The loop behind a \<open>*\<close> for which the length of the remainder is not known: the remainder is tried at each
  position before the terminator. On an empty string the loop condition reads behind the terminator.
\<close>

fun tryEach :: "(string \<Rightarrow> bool option) \<Rightarrow> string \<Rightarrow> bool option" where
  "tryEach f [] = do { b \<leftarrow> f []; if b then Some True else None }"
| "tryEach f (c # s) = do { b \<leftarrow> f (c # s); if b then Some True else if s = [] then Some False else tryEach f s }"

fun matchSimple :: "char_case \<Rightarrow> simple \<Rightarrow> string \<Rightarrow> bool option"
  and matchesRemainder :: "char_case \<Rightarrow> simple option \<Rightarrow> string \<Rightarrow> bool option" where
  "matchSimple cc (Simple (SimpleString str) remainder fcr) s =
     do { r \<leftarrow> matchString cc str s; case r of None \<Rightarrow> Some False | Some s' \<Rightarrow> matchesRemainder cc remainder s' }"
| "matchSimple cc (Simple (Wildcards counts) remainder fcr) s =
     (if length s < drop_bit 1 counts then Some False
      else let s' = drop (drop_bit 1 counts) s in
        if counts AND 1 = 0 then matchesRemainder cc remainder s'
        else if fcr \<noteq> 0 \<or> remainder = None then
          if length s' \<ge> fcr then matchesRemainder cc remainder (drop (length s' - fcr) s') else Some False
        else tryEach (\<lambda>u. matchesRemainder cc remainder u) s')"
| "matchSimple cc (Simple (CharAlternatives bm) remainder fcr) s =
     do { present \<leftarrow> inAlternatives cc bm (ch0 s);
       if present then (case s of [] \<Rightarrow> None | _ # s' \<Rightarrow> matchesRemainder cc remainder s') else Some False }"
| "matchesRemainder cc None s = Some (s = [])"
| "matchesRemainder cc (Some m) s = matchSimple cc m s"

fun matchRegex :: "char_case \<Rightarrow> regex \<Rightarrow> string \<Rightarrow> bool option" where
  "matchRegex cc (Regex m remainder) s =
     do { rc \<leftarrow> matchSimple cc m s;
       if rc then Some True else (case remainder of None \<Rightarrow> Some False | Some r \<Rightarrow> matchRegex cc r s) }"

definition matchFilter :: "char_case \<Rightarrow> simple_regex \<Rightarrow> string \<Rightarrow> bool option" where
  "matchFilter cc r s = do { result \<leftarrow> matchRegex cc (regexOf r) s; Some (if negate r then \<not> result else result) }"

text \<open>
  The functions the compiler calls: for a name, for a number, whose decimal digits are compared, for a method,
  whose signature the front end supplies, and for a name without regard to the locale.
\<close>

definition matchName :: "c_locale \<Rightarrow> simple_regex \<Rightarrow> string \<Rightarrow> bool \<Rightarrow> bool option" where
  "matchName lc r s isCaseSensitive = matchFilter (charCase lc isCaseSensitive True) r s"

fun decimalDigits :: "nat \<Rightarrow> string" where
  "decimalDigits n = (if n < 10 then [char_of (48 + n)] else decimalDigits (n div 10) @ [char_of (48 + n mod 10)])"

declare decimalDigits.simps [simp del]

definition decimal :: "int \<Rightarrow> string" where
  "decimal i = (if i < 0 then CHR ''-'' # decimalDigits (nat (- i)) else decimalDigits (nat i))"

definition matchNumber :: "c_locale \<Rightarrow> simple_regex \<Rightarrow> 32 word \<Rightarrow> bool \<Rightarrow> bool option" where
  "matchNumber lc r i isCaseSensitive =
     (let s = decimal (sint i) in
      if length s + 1 \<le> 20 then matchFilter (charCase lc isCaseSensitive True) r s else None)"

definition matchMethod :: "c_locale \<Rightarrow> simple_regex \<Rightarrow> ('m \<Rightarrow> string) \<Rightarrow> 'm \<Rightarrow> bool \<Rightarrow> bool option" where
  "matchMethod lc r signature feMethod isCaseSensitive =
     matchFilter (charCase lc isCaseSensitive True) r (signature feMethod)"

definition matchIgnoringLocale :: "c_locale \<Rightarrow> simple_regex \<Rightarrow> string \<Rightarrow> bool \<Rightarrow> bool option" where
  "matchIgnoringLocale lc r s isCaseSensitive = matchFilter (charCase lc isCaseSensitive False) r s"

section \<open>Printing\<close>

text \<open>What \<open>print\<close> writes to the log. Characters are tested at their unsigned values.\<close>

definition printComponent :: "component \<Rightarrow> string option" where
  "printComponent c = (case c of
     Wildcards counts \<Rightarrow>
       Some (replicate (length [i \<leftarrow> [2..int counts]. even i]) (CHR ''?'') @ (if counts AND 1 \<noteq> 0 then ''*'' else []))
   | CharAlternatives bm \<Rightarrow>
       do { nul \<leftarrow> mapTest bm 0;
         cs \<leftarrow> foldM (\<lambda>i out. do { b \<leftarrow> mapTest bm i; Some (if b \<noteq> nul then out @ [char_of i] else out) }) [1..255] [];
         Some (''['' @ (if nul then ''^'' else []) @ cs @ '']'') }
   | SimpleString str \<Rightarrow> Some str)"

fun printSimple :: "simple \<Rightarrow> string option" and printSimpleRest :: "simple option \<Rightarrow> string option" where
  "printSimple (Simple c remainder fcr) = do { a \<leftarrow> printComponent c; b \<leftarrow> printSimpleRest remainder; Some (a @ b) }"
| "printSimpleRest None = Some []"
| "printSimpleRest (Some m) = printSimple m"

fun printRegex :: "regex \<Rightarrow> string option" where
  "printRegex (Regex m remainder) =
     do { a \<leftarrow> printSimple m;
       case remainder of None \<Rightarrow> Some a | Some r \<Rightarrow> do { b \<leftarrow> printRegex r; Some (a @ ''|'' @ b) } }"

definition printFilter :: "simple_regex \<Rightarrow> bool \<Rightarrow> string option" where
  "printFilter r neg = do { a \<leftarrow> printRegex (regexOf r); Some (''{'' @ (if neg \<noteq> negate r then ''^'' else []) @ a @ ''}'') }"

end
