(* ===== verification/RegexLang.thy ===== *)
theory RegexLang
  imports SimpleRegex "HOL-Library.Sublist"
begin

text \<open>
  The language of a filter and the correctness of its matcher and parser. The matcher works on C strings and
  reads behind their end for some patterns; the lemmas show that a result it returns is right, that it
  finds every string of the language, and for which patterns it always returns.
\<close>

section \<open>Characters\<close>

definition ascii :: "char \<Rightarrow> bool" where
  "ascii c \<longleftrightarrow> 0 \<le> charIndex c"

definition asciiString :: "string \<Rightarrow> bool" where
  "asciiString s = list_all (\<lambda>c. c \<noteq> NUL \<and> ascii c) s"

text \<open>
  What the matcher relies on in the character functions: they keep the terminator apart and map ASCII characters
  to ASCII characters.
\<close>

locale char_cases =
  fixes cc :: char_case
  assumes lower_NUL: "lower cc NUL = NUL"
    and upper_NUL: "upper cc NUL = NUL"
    and lower_not_NUL: "ascii c \<Longrightarrow> c \<noteq> NUL \<Longrightarrow> lower cc c \<noteq> NUL"
    and ascii_lower: "ascii c \<Longrightarrow> ascii (lower cc c)"
    and ascii_upper: "ascii c \<Longrightarrow> ascii (upper cc c)"

lemma ascii_NUL [simp]: "ascii NUL"
  by (simp add: ascii_def NUL_def charIndex_def)

lemma charIndex_NUL: "charIndex NUL = 0"
  by (simp add: NUL_def charIndex_def)

lemma charIndex_less: "charIndex c < 128"
  using of_char_mod_256 [where ?'a = int, of c] pos_mod_bound [of 256 "of_char c :: int"] by (auto simp: charIndex_def Let_def)

lemma asciiString_Cons [simp]: "asciiString (c # s) \<longleftrightarrow> c \<noteq> NUL \<and> ascii c \<and> asciiString s"
  by (simp add: asciiString_def)

lemma asciiString_Nil [simp]: "asciiString []"
  by (simp add: asciiString_def)

lemma asciiString_append [simp]: "asciiString (s @ t) \<longleftrightarrow> asciiString s \<and> asciiString t"
  by (simp add: asciiString_def)

lemma asciiString_drop: "asciiString s \<Longrightarrow> asciiString (drop n s)"
  by (metis append_take_drop_id asciiString_append)

lemma asciiString_take: "asciiString s \<Longrightarrow> asciiString (take n s)"
  by (metis append_take_drop_id asciiString_append)

lemma ascii_ch0 [simp]: "asciiString s \<Longrightarrow> ascii (ch0 s)"
  by (cases s) (simp_all add: ch0_def)

lemma ch0_NUL_iff: "asciiString s \<Longrightarrow> ch0 s = NUL \<longleftrightarrow> s = []"
  by (cases s) (simp_all add: ch0_def)

lemma BWORD_less: "0 \<le> i \<Longrightarrow> i < 256 \<Longrightarrow> 0 \<le> BWORD i \<and> BWORD i < 8"
  by (auto simp: BWORD_def drop_bit_eq_div)

lemma mapTest_total: "length bm = 8 \<Longrightarrow> 0 \<le> i \<Longrightarrow> i < 256 \<Longrightarrow> \<exists>b. mapTest bm i = Some b"
  using BWORD_less [of i] by (simp add: mapTest_def array_simps)

lemma mapTest_ascii: "length bm = 8 \<Longrightarrow> ascii c \<Longrightarrow> \<exists>b. mapTest bm (charIndex c) = Some b"
  using mapTest_total [of bm "charIndex c"] charIndex_less [of c] by (simp add: ascii_def)

section \<open>The language\<close>

text \<open>The characters of a bit map, and of a class where case may not matter.\<close>

definition classSet :: "u64 list \<Rightarrow> int set" where
  "classSet bm = {i. mapTest bm i = Some True}"

definition inClass :: "char_case \<Rightarrow> u64 list \<Rightarrow> char \<Rightarrow> bool" where
  "inClass cc bm c \<longleftrightarrow> charIndex c \<in> classSet bm \<or>
     \<not> caseSensitive cc \<and> (charIndex (lower cc c) \<in> classSet bm \<or> charIndex (upper cc c) \<in> classSet bm)"

definition componentLang :: "char_case \<Rightarrow> component \<Rightarrow> string set" where
  "componentLang cc c = (case c of
     SimpleString str \<Rightarrow> {u. list_all2 (sameChar cc) u str}
   | Wildcards counts \<Rightarrow> {u. if odd counts then counts div 2 \<le> length u else length u = counts div 2}
   | CharAlternatives bm \<Rightarrow> {[x] | x. inClass cc bm x})"

definition conc :: "string set \<Rightarrow> string set \<Rightarrow> string set" where
  "conc A B = {u @ v | u v. u \<in> A \<and> v \<in> B}"

fun simpleLang :: "char_case \<Rightarrow> simple \<Rightarrow> string set" and restLang :: "char_case \<Rightarrow> simple option \<Rightarrow> string set" where
  "simpleLang cc (Simple c remainder fcr) = conc (componentLang cc c) (restLang cc remainder)"
| "restLang cc None = {[]}"
| "restLang cc (Some m) = simpleLang cc m"

fun regexLang :: "char_case \<Rightarrow> regex \<Rightarrow> string set" where
  "regexLang cc (Regex m remainder) = simpleLang cc m \<union> (case remainder of None \<Rightarrow> {} | Some r \<Rightarrow> regexLang cc r)"

definition filterLang :: "char_case \<Rightarrow> simple_regex \<Rightarrow> string set" where
  "filterLang cc r = (if negate r then - regexLang cc (regexOf r) else regexLang cc (regexOf r))"

text \<open>
  What the parser guarantees of a pattern: no component is empty, wild cards do not follow each other, and the
  number of fixed characters to the right is the one the parser computes.
\<close>

definition isWild :: "component \<Rightarrow> bool" where
  "isWild c = (case c of Wildcards _ \<Rightarrow> True | _ \<Rightarrow> False)"

definition wfComponent :: "component \<Rightarrow> bool" where
  "wfComponent c = (case c of SimpleString str \<Rightarrow> str \<noteq> [] \<and> asciiString str
     | Wildcards counts \<Rightarrow> counts \<noteq> 0 | CharAlternatives bm \<Rightarrow> length bm = 8)"

fun wfPattern :: "simple \<Rightarrow> bool" and wfRest :: "simple option \<Rightarrow> bool" where
  "wfPattern (Simple c remainder fcr) \<longleftrightarrow> wfComponent c \<and> wfRest remainder \<and> fcr = fixedCharsRight remainder
     \<and> (isWild c \<longrightarrow> (case remainder of None \<Rightarrow> True | Some m \<Rightarrow> \<not> isWild (componentOf m)))"
| "wfRest None = True"
| "wfRest (Some m) = wfPattern m"

fun wfRegex :: "regex \<Rightarrow> bool" where
  "wfRegex (Regex m remainder) \<longleftrightarrow> wfPattern m \<and> (case remainder of None \<Rightarrow> True | Some r \<Rightarrow> wfRegex r)"

text \<open>Patterns without a star have one length.\<close>

fun starFree :: "simple \<Rightarrow> bool" and starFreeRest :: "simple option \<Rightarrow> bool" where
  "starFree (Simple c remainder fcr) \<longleftrightarrow> \<not> hasStar c \<and> starFreeRest remainder"
| "starFreeRest None = True"
| "starFreeRest (Some m) = starFree m"

fun widthRest :: "simple option \<Rightarrow> nat" and width :: "simple \<Rightarrow> nat" where
  "width (Simple c remainder fcr) = componentWidth c + widthRest remainder"
| "widthRest None = 0"
| "widthRest (Some m) = width m"

text \<open>
  Patterns for which the matcher stays within every string: a class does not contain the terminator, as an inverted
  class does, and no star follows another.
\<close>

fun safeSimple :: "simple \<Rightarrow> bool" and safeRest :: "simple option \<Rightarrow> bool" where
  "safeSimple (Simple c remainder fcr) \<longleftrightarrow>
     (case c of CharAlternatives bm \<Rightarrow> mapTest bm 0 = Some False | _ \<Rightarrow> True) \<and>
     (hasStar c \<longrightarrow> starFreeRest remainder) \<and> safeRest remainder"
| "safeRest None = True"
| "safeRest (Some m) = safeSimple m"

fun safeRegex :: "regex \<Rightarrow> bool" where
  "safeRegex (Regex m remainder) \<longleftrightarrow> safeSimple m \<and> (case remainder of None \<Rightarrow> True | Some r \<Rightarrow> safeRegex r)"

lemma hasStar_Wildcards [simp]: "hasStar (Wildcards counts) \<longleftrightarrow> odd counts"
  by (simp add: hasStar_def and_one_eq odd_iff_mod_2_eq_one)

lemma counts_and_1: "(counts :: nat) AND 1 = 0 \<longleftrightarrow> even counts"
  by (simp add: and_one_eq even_iff_mod_2_eq_zero)

lemma drop_bit_1: "drop_bit 1 (counts :: nat) = counts div 2"
  by (simp add: drop_bit_eq_div)

lemma componentWidth_pos: "wfComponent c \<Longrightarrow> \<not> hasStar c \<Longrightarrow> 0 < componentWidth c"
  by (cases c) (auto simp: wfComponent_def componentWidth_def drop_bit_eq_div elim!: evenE)

lemma fixedCharsRight_width:
  "wfRest r \<Longrightarrow> fixedCharsRight r = (if starFreeRest r then widthRest r else 0)"
proof (induction r rule: option.induct)
  case (Some m)
  then show ?case
  proof (induction m)
    case (Simple c r f)
    show ?case
    proof (cases r)
      case None
      then show ?thesis using Simple.prems by (simp add: fixedCharsRight_def)
    next
      case (Some m')
      then have IH: "fixedCharsRight r = (if starFree m' then width m' else 0)" using Simple by simp
      moreover have "starFree m' \<Longrightarrow> 0 < width m'" using Simple.prems Some
        by (cases m') (auto simp: componentWidth_pos)
      ultimately show ?thesis using Simple.prems Some by (auto simp: fixedCharsRight_def)
    qed
  qed
qed (simp add: fixedCharsRight_def)

lemma componentLang_length:
  "\<not> hasStar c \<Longrightarrow> u \<in> componentLang cc c \<Longrightarrow> length u = componentWidth c"
  by (cases c) (auto simp: componentLang_def componentWidth_def drop_bit_eq_div list_all2_lengthD)

lemma simpleLang_length: "starFree m \<Longrightarrow> u \<in> simpleLang cc m \<Longrightarrow> length u = width m"
proof (induction m arbitrary: u)
  case (Simple c r f)
  then show ?case by (cases r) (auto simp: conc_def componentLang_length)
qed

lemma restLang_length: "starFreeRest r \<Longrightarrow> u \<in> restLang cc r \<Longrightarrow> length u = widthRest r"
  by (cases r) (auto simp: simpleLang_length)

lemma simpleLang_nonempty:
  assumes "wfPattern m" "\<not> isWild (componentOf m)" "u \<in> simpleLang cc m"
  shows "u \<noteq> []"
  using assms by (cases m; cases "componentOf m") (auto simp: conc_def componentLang_def isWild_def wfComponent_def)

text \<open>Membership, component by component.\<close>

lemma conc_take_drop: "take i u \<in> A \<Longrightarrow> drop i u \<in> B \<Longrightarrow> u \<in> conc A B"
  by (metis (mono_tags, lifting) append_take_drop_id conc_def mem_Collect_eq)

lemma simpleLang_string:
  "u \<in> simpleLang cc (Simple (SimpleString str) r f) \<longleftrightarrow>
     length str \<le> length u \<and> list_all2 (sameChar cc) (take (length str) u) str \<and> drop (length str) u \<in> restLang cc r"
  (is "_ \<longleftrightarrow> ?rhs")
proof
  assume "u \<in> simpleLang cc (Simple (SimpleString str) r f)"
  then obtain p q where "u = p @ q" "list_all2 (sameChar cc) p str" "q \<in> restLang cc r"
    by (auto simp: conc_def componentLang_def)
  moreover from this have "length p = length str" by (simp add: list_all2_lengthD)
  ultimately show ?rhs by simp
next
  assume ?rhs
  then show "u \<in> simpleLang cc (Simple (SimpleString str) r f)"
    by (auto simp: componentLang_def intro: conc_take_drop [of "length str"])
qed

lemma simpleLang_star:
  assumes "odd counts"
  shows "u \<in> simpleLang cc (Simple (Wildcards counts) r f) \<longleftrightarrow> (\<exists>i. counts div 2 \<le> i \<and> i \<le> length u \<and> drop i u \<in> restLang cc r)"
  (is "_ \<longleftrightarrow> ?rhs")
proof
  assume "u \<in> simpleLang cc (Simple (Wildcards counts) r f)"
  then obtain p q where "u = p @ q" "counts div 2 \<le> length p" "q \<in> restLang cc r"
    using assms by (auto simp: conc_def componentLang_def)
  then show ?rhs by (intro exI [of _ "length p"]) simp
next
  assume ?rhs
  then show "u \<in> simpleLang cc (Simple (Wildcards counts) r f)"
    using assms by (auto simp: componentLang_def intro: conc_take_drop)
qed

lemma simpleLang_any:
  assumes "even counts"
  shows "u \<in> simpleLang cc (Simple (Wildcards counts) r f) \<longleftrightarrow> counts div 2 \<le> length u \<and> drop (counts div 2) u \<in> restLang cc r"
  (is "_ \<longleftrightarrow> ?rhs")
proof
  assume ?rhs
  then show "u \<in> simpleLang cc (Simple (Wildcards counts) r f)"
    using assms by (auto simp: componentLang_def intro: conc_take_drop [of "counts div 2"])
qed (use assms in \<open>auto simp: conc_def componentLang_def\<close>)

lemma simpleLang_alternatives:
  "u \<in> simpleLang cc (Simple (CharAlternatives bm) r f) \<longleftrightarrow>
     u \<noteq> [] \<and> inClass cc bm (hd u) \<and> tl u \<in> restLang cc r"
  (is "_ \<longleftrightarrow> ?rhs")
proof
  assume ?rhs
  then show "u \<in> simpleLang cc (Simple (CharAlternatives bm) r f)"
    by (cases u) (auto simp: componentLang_def intro: conc_take_drop [of 1])
qed (auto simp: conc_def componentLang_def)

lemmas simpleLang_iff = simpleLang_string simpleLang_star simpleLang_any simpleLang_alternatives

declare simpleLang.simps [simp del]

section \<open>The loops of the matcher\<close>

lemma tryEach_True: "tryEach f s = Some True \<Longrightarrow> \<exists>i\<le>length s. f (drop i s) = Some True"
proof (induction f s rule: tryEach.induct)
  case (2 f c s)
  show ?case
  proof (cases "f (c # s) = Some True")
    case True
    then show ?thesis by (intro exI [of _ 0]) simp
  next
    case False
    then have "tryEach f s = Some True" "f (c # s) = Some False" "s \<noteq> []"
      using 2(2) by (auto split: bind_splits if_splits)
    then obtain i where "i \<le> length s" "f (drop i s) = Some True" using 2(1) by blast
    then show ?thesis by (intro exI [of _ "Suc i"]) simp
  qed
qed (auto split: bind_splits if_splits)

lemma tryEach_False: "tryEach f s = Some False \<Longrightarrow> i < length s \<Longrightarrow> f (drop i s) = Some False"
proof (induction f s arbitrary: i rule: tryEach.induct)
  case (2 f c s)
  then show ?case by (cases i) (auto split: bind_splits if_splits)
qed simp

lemma tryEach_finds:
  "i < length s \<or> s = [] \<and> i = 0 \<Longrightarrow> (\<And>j. j < i \<Longrightarrow> f (drop j s) \<noteq> None) \<Longrightarrow> f (drop i s) = Some True
   \<Longrightarrow> tryEach f s = Some True"
proof (induction f s arbitrary: i rule: tryEach.induct)
  case (2 f c s)
  show ?case
  proof (cases i)
    case 0
    then show ?thesis using 2 by simp
  next
    case (Suc i')
    then obtain b where b: "f (c # s) = Some b" using 2(3) [of 0] by auto
    have "\<not> b \<Longrightarrow> tryEach f s = Some True"
    proof (rule 2(1) [OF b])
      show "f (drop j s) \<noteq> None" if "j < i'" for j using 2(3) [of "Suc j"] Suc that by simp
    qed (use 2(2,4) Suc in auto)
    then show ?thesis using b 2(2) Suc by auto
  qed
qed simp

lemma drop_split_end: "n \<le> length p + i \<Longrightarrow> drop (length p + i - n) (drop n (p @ v)) = drop i v"
  by (simp only: drop_drop le_add_diff_inverse2) simp

lemma drop_split:
  assumes "i \<le> length v" "n \<le> length p + i"
  shows "drop n (p @ v) = take (length p + i - n) (drop n (p @ v)) @ drop i v"
  using drop_split_end [OF assms(2), of v] by (metis append_take_drop_id)

context char_cases
begin

lemma sameChar_NUL: "ascii c \<Longrightarrow> c \<noteq> NUL \<Longrightarrow> \<not> sameChar cc NUL c"
  using lower_not_NUL [of c] lower_NUL by (auto simp: sameChar_def)

lemma matchString_eq:
  "asciiString str \<Longrightarrow> matchString cc str s =
     Some (if length str \<le> length s \<and> list_all2 (sameChar cc) (take (length str) s) str then Some (drop (length str) s) else None)"
proof (induction str arbitrary: s)
  case (Cons c str)
  then show ?case by (cases s) (auto simp: ch0_def sameChar_NUL)
qed simp

lemma inAlternatives_eq: "length bm = 8 \<Longrightarrow> ascii c \<Longrightarrow> inAlternatives cc bm c = Some (inClass cc bm c)"
  using mapTest_ascii [of bm c] mapTest_ascii [of bm "lower cc c"] mapTest_ascii [of bm "upper cc c"]
  by (auto simp: inAlternatives_def inClass_def classSet_def ascii_lower ascii_upper)

text \<open>Behind a star of which the remainder has one length, its place in the string is determined.\<close>

lemma star_fixed_iff:
  assumes "starFreeRest r" "f = widthRest r" "k \<le> length s"
  shows "(\<exists>i. k \<le> i \<and> i \<le> length s \<and> drop i s \<in> restLang cc r) \<longleftrightarrow> f \<le> length s - k \<and> drop (length s - f) s \<in> restLang cc r"
proof
  assume "\<exists>i. k \<le> i \<and> i \<le> length s \<and> drop i s \<in> restLang cc r"
  then obtain i where i: "k \<le> i" "i \<le> length s" "drop i s \<in> restLang cc r" by blast
  from restLang_length [OF assms(1) i(3)] have f: "f = length s - i" using assms(2) by simp
  then have "i = length s - f" using i(2) by simp
  then show "f \<le> length s - k \<and> drop (length s - f) s \<in> restLang cc r" using i(1,3) f by (simp add: diff_le_mono2)
next
  assume "f \<le> length s - k \<and> drop (length s - f) s \<in> restLang cc r"
  then show "\<exists>i. k \<le> i \<and> i \<le> length s \<and> drop i s \<in> restLang cc r"
    using assms(3) by (intro exI [of _ "length s - f"]) auto
qed

lemma matchSimple_Wildcards:
  "matchSimple cc (Simple (Wildcards counts) r f) s =
     (if length s < counts div 2 then Some False
      else if even counts then matchesRemainder cc r (drop (counts div 2) s)
      else if f \<noteq> 0 \<or> r = None then
        if f \<le> length s - counts div 2 then matchesRemainder cc r (drop (length s - f) s) else Some False
      else tryEach (matchesRemainder cc r) (drop (counts div 2) s))"
  by (simp only: matchSimple.simps(2) drop_bit_1 counts_and_1 Let_def drop_drop length_drop) (simp add: add.commute)

lemma matchesRemainder_Some: "matchesRemainder cc (Some m) = matchSimple cc m"
  by (rule ext) simp

lemmas match_simps = matchSimple.simps(1,3) matchSimple_Wildcards

declare matchSimple.simps [simp del]

text \<open>The two ways to match what follows a star.\<close>

lemma matchSimple_star:
  assumes "wfPattern (Simple (Wildcards counts) r f)" "odd counts" "counts div 2 \<le> length s"
  obtains (fixed) "starFreeRest r" "f = widthRest r"
    "matchSimple cc (Simple (Wildcards counts) r f) s =
       (if f \<le> length s - counts div 2 then matchesRemainder cc r (drop (length s - f) s) else Some False)"
  | (search) m' where "r = Some m'" "\<not> starFree m'" "wfPattern m'" "\<not> isWild (componentOf m')"
    "matchSimple cc (Simple (Wildcards counts) r f) s = tryEach (matchSimple cc m') (drop (counts div 2) s)"
proof (cases "f \<noteq> 0 \<or> r = None")
  case True
  then have "starFreeRest r" "f = widthRest r"
    using assms(1) fixedCharsRight_width [of r] by (auto split: if_splits)
  then show ?thesis using fixed True assms(2,3)
    by (auto simp: matchSimple_Wildcards)
next
  case False
  then obtain m' where "r = Some m'" by blast
  moreover from this assms(1) have "wfPattern m'" "\<not> isWild (componentOf m')" by (auto simp: isWild_def)
  moreover from this have "starFree m' \<Longrightarrow> 0 < width m'" by (cases m') (auto simp: componentWidth_pos)
  ultimately show ?thesis using search False assms fixedCharsRight_width [of r]
    by (auto simp: matchSimple_Wildcards matchesRemainder_Some split: if_splits)
qed

lemma matchSimple_star_sound:
  assumes IH: "\<And>u b. asciiString u \<Longrightarrow> matchesRemainder cc r u = Some b \<Longrightarrow> b \<longleftrightarrow> u \<in> restLang cc r"
    and wf: "wfPattern (Simple (Wildcards counts) r f)" and star: "odd counts" and s: "asciiString s"
    and k: "counts div 2 \<le> length s" and m: "matchSimple cc (Simple (Wildcards counts) r f) s = Some b"
  shows "b \<longleftrightarrow> s \<in> simpleLang cc (Simple (Wildcards counts) r f)"
  using wf star k
proof (cases rule: matchSimple_star)
  case fixed
  then show ?thesis using m IH [OF asciiString_drop [OF s]] star star_fixed_iff [OF fixed(1,2) k]
    by (auto simp: simpleLang_star split: if_splits)
next
  case (search m')
  let ?s = "drop (counts div 2) s"
  have IH': "b \<longleftrightarrow> drop i ?s \<in> restLang cc r" if "matchSimple cc m' (drop i ?s) = Some b" for i b
    using that IH [of "drop i ?s"] s search(1) by (simp add: asciiString_drop del: drop_drop)
  have tried: "tryEach (matchSimple cc m') ?s = Some b" using m search by simp
  show ?thesis
  proof (cases b)
    case True
    then have "tryEach (matchSimple cc m') ?s = Some True" using tried by simp
    from tryEach_True [OF this] obtain i where i: "i \<le> length ?s" "matchSimple cc m' (drop i ?s) = Some True" by blast
    then have "drop i ?s \<in> restLang cc r" using IH' [OF i(2)] by blast
    then have "drop (i + counts div 2) s \<in> restLang cc r" by simp
    moreover have "i + counts div 2 \<le> length s" using i(1) k by simp
    ultimately have "s \<in> simpleLang cc (Simple (Wildcards counts) r f)" using star by (subst simpleLang_star) (auto intro: le_add2)
    then show ?thesis using True by simp
  next
    case False
    then have no: "tryEach (matchSimple cc m') ?s = Some False" using tried by simp
    have "drop i ?s \<notin> restLang cc r" if "i \<le> length ?s" for i
    proof (cases "i < length ?s")
      case True
      then show ?thesis using IH' [OF tryEach_False [OF no]] by blast
    qed (use search simpleLang_nonempty [OF search(3,4)] that in auto)
    then have "drop j s \<notin> restLang cc r" if "counts div 2 \<le> j" "j \<le> length s" for j
      using that by (metis add.commute diff_le_mono drop_drop le_add_diff_inverse length_drop)
    then show ?thesis using False star by (auto simp: simpleLang_star)
  qed
qed

text \<open>A result of the matcher is right.\<close>

lemma matchSimple_sound:
  "wfPattern m \<Longrightarrow> asciiString s \<Longrightarrow> matchSimple cc m s = Some b \<Longrightarrow> b \<longleftrightarrow> s \<in> simpleLang cc m"
proof (induction m arbitrary: s b)
  case (Simple c r f)
  have IH: "b' \<longleftrightarrow> u \<in> restLang cc r" if "asciiString u" "matchesRemainder cc r u = Some b'" for u b'
    using Simple.IH Simple.prems(1) that by (cases r) auto
  have f: "f = (if starFreeRest r then widthRest r else 0)"
    using Simple.prems(1) by (simp add: fixedCharsRight_width)
  show ?case
  proof (cases c)
    case (SimpleString str)
    then have "asciiString str" using Simple.prems(1) by (simp add: wfComponent_def)
    from matchString_eq [OF this, of s] Simple.prems SimpleString show ?thesis
      using IH [OF asciiString_drop] by (auto simp: match_simps simpleLang_string split: if_splits)
  next
    case (Wildcards counts)
    show ?thesis
    proof (cases "odd counts")
      case False
      then show ?thesis using Simple.prems(2,3) Wildcards IH [OF asciiString_drop]
        by (auto simp: match_simps simpleLang_any split: if_splits)
    next
      case True
      show ?thesis
      proof (cases "counts div 2 \<le> length s")
        case k: True
        show ?thesis using matchSimple_star_sound [OF IH _ True _ k] Simple.prems Wildcards by simp
      qed (use Simple.prems(3) Wildcards True in \<open>auto simp: match_simps simpleLang_star\<close>)
    qed
  next
    case (CharAlternatives bm)
    then have "inAlternatives cc bm (ch0 s) = Some (inClass cc bm (ch0 s))"
      using Simple.prems(1,2) inAlternatives_eq by (simp add: wfComponent_def)
    then show ?thesis using Simple.prems(2,3) IH CharAlternatives
      by (cases s) (auto simp: match_simps simpleLang_alternatives ch0_def split: bind_splits if_splits)
  qed
qed

text \<open>
  The matcher returns on every string of the language, and also on a longer string that ends with one where the
  length is not determined: these are the strings on which the search behind a star calls it.
\<close>

lemma matchSimple_star_returns:
  assumes IH: "\<And>p v. asciiString (p @ v) \<Longrightarrow> v \<in> restLang cc r \<Longrightarrow> p = [] \<or> r = None \<or> \<not> starFreeRest r \<Longrightarrow> matchesRemainder cc r (p @ v) \<noteq> None"
    and wf: "wfPattern (Simple (Wildcards counts) r f)" and star: "odd counts" and u: "asciiString (p @ v)"
    and v: "v \<in> simpleLang cc (Simple (Wildcards counts) r f)"
  shows "matchSimple cc (Simple (Wildcards counts) r f) (p @ v) \<noteq> None"
proof -
  obtain i where i: "counts div 2 \<le> i" "i \<le> length v" "drop i v \<in> restLang cc r" using v star by (auto simp: simpleLang_star)
  then have k: "counts div 2 \<le> length (p @ v)" by simp
  have end_ok: "matchesRemainder cc r (drop i v) \<noteq> None" using IH [of "[]" "drop i v"] i(3) u by (simp add: asciiString_drop)
  from wf star k show ?thesis
  proof (cases rule: matchSimple_star)
    case fixed
    then have "f = length v - i" using restLang_length [OF fixed(1) i(3)] by simp
    then show ?thesis using fixed(3) end_ok i(2) by auto
  next
    case (search m')
    let ?s = "drop (counts div 2) (p @ v)" and ?j = "length p + i - counts div 2"
    have at: "drop ?j ?s = drop i v" by (rule drop_split_end) (use i(1) in simp)
    have "drop i v \<noteq> []" using simpleLang_nonempty [OF search(3,4)] i(3) search(1) by fastforce
    then have "?j < length ?s" using i by auto
    moreover have "matchSimple cc m' (drop n ?s) \<noteq> None" if "n < ?j" for n
      using IH [of "take (length p + i - (counts div 2 + n)) (drop (counts div 2 + n) (p @ v))" "drop i v"]
        drop_split [of i v "counts div 2 + n" p] i(2,3) that search(1,2) u
      by (simp add: asciiString_drop asciiString_take add.commute del: drop_append take_append)
    moreover have "matchSimple cc m' (drop ?j ?s) = Some True"
      using matchSimple_sound [OF search(3)] end_ok i(3) search(1) u unfolding at by (auto simp: asciiString_drop)
    ultimately have "tryEach (matchSimple cc m') ?s = Some True" by (intro tryEach_finds) blast+
    then show ?thesis using search(5) by simp
  qed
qed

lemma matchSimple_returns:
  "wfPattern m \<Longrightarrow> asciiString (p @ v) \<Longrightarrow> v \<in> simpleLang cc m \<Longrightarrow> p = [] \<or> \<not> starFree m \<Longrightarrow> matchSimple cc m (p @ v) \<noteq> None"
proof (induction m arbitrary: p v)
  case (Simple c r f)
  have IH: "matchesRemainder cc r (p @ v) \<noteq> None"
    if "asciiString (p @ v)" "v \<in> restLang cc r" "p = [] \<or> r = None \<or> \<not> starFreeRest r" for p v
    using Simple.IH Simple.prems(1) that by (cases r) auto
  have next_ok: "matchesRemainder cc r (drop n (p @ v)) \<noteq> None"
    if "n \<le> length v" "drop n v \<in> restLang cc r" "\<not> hasStar c" for n
    using IH [of "take (length p) (drop n (p @ v))" "drop n v"] drop_split [of n v n p] that Simple.prems(2,4)
    by (auto simp: asciiString_drop asciiString_take simp del: drop_append take_append)
  show ?case
  proof (cases c)
    case (SimpleString str)
    then have "asciiString str" using Simple.prems(1) by (simp add: wfComponent_def)
    from matchString_eq [OF this, of "p @ v"] next_ok [of "length str"] Simple.prems(3) SimpleString show ?thesis
      by (auto simp: match_simps simpleLang_string hasStar_def)
  next
    case (Wildcards counts)
    show ?thesis
    proof (cases "odd counts")
      case True
      then show ?thesis using matchSimple_star_returns [OF IH] Simple.prems Wildcards by blast
    next
      case False
      then show ?thesis using next_ok [of "counts div 2"] Simple.prems(3) Wildcards
        by (simp add: match_simps simpleLang_any)
    qed
  next
    case (CharAlternatives bm)
    then obtain x w where "p @ v = x # w" using Simple.prems(3) by (cases "p @ v") (auto simp: simpleLang_alternatives)
    moreover have "inAlternatives cc bm x = Some (inClass cc bm x)"
      using inAlternatives_eq Simple.prems(1,2) CharAlternatives calculation by (simp add: wfComponent_def)
    moreover have "1 \<le> length v" "drop 1 v \<in> restLang cc r"
      using Simple.prems(3) CharAlternatives by (cases v; simp add: simpleLang_alternatives)+
    ultimately show ?thesis using next_ok [of 1] CharAlternatives
      by (auto simp: match_simps ch0_def hasStar_def simp del: drop_append)
  qed
qed

lemma matchSimple_iff:
  assumes "wfPattern m" "asciiString s"
  shows "matchSimple cc m s = Some True \<longleftrightarrow> s \<in> simpleLang cc m"
  using matchSimple_returns [OF assms(1), of "[]" s] matchSimple_sound [OF assms] assms(2) by auto

lemma inAlternatives_NUL: "mapTest bm 0 = Some False \<Longrightarrow> inAlternatives cc bm NUL = Some False"
  by (simp add: inAlternatives_def lower_NUL upper_NUL charIndex_NUL)

text \<open>The matcher returns on every string for a pattern with at most one star and no inverted class.\<close>

lemma matchSimple_total:
  "wfPattern m \<Longrightarrow> safeSimple m \<Longrightarrow> asciiString s \<Longrightarrow> matchSimple cc m s \<noteq> None"
proof (induction m arbitrary: s)
  case (Simple c r f)
  have IH: "matchesRemainder cc r u \<noteq> None" if "asciiString u" for u
    using Simple.IH Simple.prems(1,2) that by (cases r) auto
  show ?case
  proof (cases c)
    case (SimpleString str)
    then have "asciiString str" using Simple.prems(1) by (simp add: wfComponent_def)
    from matchString_eq [OF this, of s] IH [OF asciiString_drop] Simple.prems(3) SimpleString show ?thesis
      by (auto simp: match_simps)
  next
    case (Wildcards counts)
    show ?thesis
    proof (cases "odd counts \<and> counts div 2 \<le> length s")
      case True
      then have "odd counts" "counts div 2 \<le> length s" by simp_all
      with Simple.prems(1) [unfolded Wildcards] show ?thesis
        using True Simple.prems(2,3) Wildcards IH [OF asciiString_drop [OF Simple.prems(3)]]
        by (cases rule: matchSimple_star) auto
    next
      case False
      then show ?thesis using Wildcards IH [OF asciiString_drop [OF Simple.prems(3)]] by (auto simp: match_simps)
    qed
  next
    case (CharAlternatives bm)
    then obtain b where b: "inAlternatives cc bm (ch0 s) = Some b"
      using inAlternatives_eq [of bm "ch0 s"] Simple.prems(1,3) by (auto simp: wfComponent_def)
    show ?thesis
    proof (cases s)
      case Nil
      then show ?thesis using b CharAlternatives Simple.prems(2) inAlternatives_NUL by (simp add: match_simps ch0_def)
    next
      case (Cons x w)
      then show ?thesis using b CharAlternatives IH [of w] Simple.prems(3) by (auto simp: match_simps)
    qed
  qed
qed

lemma matchRegex_sound:
  "wfRegex r \<Longrightarrow> asciiString s \<Longrightarrow> matchRegex cc r s = Some b \<Longrightarrow> b \<longleftrightarrow> s \<in> regexLang cc r"
proof (induction r arbitrary: b)
  case (Regex m r')
  then obtain rc where rc: "matchSimple cc m s = Some rc" by (auto split: bind_splits)
  then have m: "rc \<longleftrightarrow> s \<in> simpleLang cc m" using Regex.prems matchSimple_sound by simp
  show ?case
  proof (cases r')
    case (Some r'')
    then have "matchRegex cc r'' s = Some b \<Longrightarrow> b \<longleftrightarrow> s \<in> regexLang cc r''" using Regex.IH [of r'' b] Regex.prems by simp
    then show ?thesis using Some Regex.prems(3) rc m by (cases rc) auto
  qed (use Regex.prems(3) rc m in auto)
qed

lemma matchRegex_total:
  "wfRegex r \<Longrightarrow> safeRegex r \<Longrightarrow> asciiString s \<Longrightarrow> matchRegex cc r s \<noteq> None"
proof (induction r)
  case (Regex m r')
  then obtain rc where "matchSimple cc m s = Some rc" using matchSimple_total [of m s] by auto
  then show ?case using Regex by (cases r') auto
qed

lemma matchFilter_sound:
  "wfRegex (regexOf r) \<Longrightarrow> asciiString s \<Longrightarrow> matchFilter cc r s = Some b \<Longrightarrow> b \<longleftrightarrow> s \<in> filterLang cc r"
  using matchRegex_sound by (auto simp: matchFilter_def filterLang_def split: bind_splits)

lemma matchFilter_decides:
  assumes "wfRegex (regexOf r)" "safeRegex (regexOf r)" "asciiString s"
  shows "matchFilter cc r s = Some (s \<in> filterLang cc r)"
proof -
  obtain b where "matchFilter cc r s = Some b"
    using matchRegex_total [OF assms] by (auto simp: matchFilter_def)
  with matchFilter_sound [OF assms(1,3)] show ?thesis by auto
qed

end

section \<open>Bit maps as sets of characters\<close>

lemma mapTest_eq: "length bm = 8 \<Longrightarrow> 0 \<le> i \<Longrightarrow> i < 256 \<Longrightarrow> mapTest bm i = Some (bit (bm ! nat (BWORD i)) (BBIT i))"
  using BWORD_less [of i] by (simp add: mapTest_def array_simps push_bit_eq_mult and_exp_eq_0_iff_not_bit)

lemma BBIT_mod: "BBIT i = nat (i mod 32)"
  using take_bit_eq_mask [of 5 i] by (simp add: BBIT_def take_bit_eq_mod mask_eq_exp_minus_1)

lemma BWORD_BBIT: "0 \<le> i \<Longrightarrow> i = 32 * BWORD i + int (BBIT i) \<and> BBIT i < 32"
  by (simp add: BWORD_def BBIT_mod drop_bit_eq_div nat_less_iff)

lemma classSet_bounds: "length bm = 8 \<Longrightarrow> classSet bm \<subseteq> {0..<256}"
  by (auto simp: classSet_def mapTest_def rd_def BWORD_def drop_bit_eq_div split: bind_splits if_splits)

lemma classSet_iff: "length bm = 8 \<Longrightarrow> i \<in> classSet bm \<longleftrightarrow> 0 \<le> i \<and> i < 256 \<and> bit (bm ! nat (BWORD i)) (BBIT i)"
  using classSet_bounds [of bm] mapTest_eq [of bm i] by (auto simp: classSet_def)

lemma classSet_mapSet:
  assumes "length bm = 8" "0 \<le> i" "i < 256"
  shows "\<exists>bm'. mapSet i bm = Some bm' \<and> length bm' = 8 \<and> classSet bm' = insert i (classSet bm)"
proof -
  let ?bm = "bm[nat (BWORD i) := bm ! nat (BWORD i) OR push_bit (BBIT i) 1]"
  have w: "0 \<le> BWORD i \<and> BWORD i < 8" using BWORD_less assms by simp
  have "j \<in> classSet ?bm \<longleftrightarrow> j \<in> insert i (classSet bm)" for j
  proof (cases "0 \<le> j \<and> j < 256")
    case True
    then have "j = i \<longleftrightarrow> BWORD j = BWORD i \<and> BBIT j = BBIT i" using BWORD_BBIT [of i] BWORD_BBIT [of j] assms by auto
    moreover have "0 \<le> BWORD j \<and> BWORD j < 8" using True BWORD_less by simp
    ultimately show ?thesis using True w assms BWORD_BBIT [of i]
      by (auto simp: classSet_iff nth_list_update bit_or_iff push_bit_eq_mult bit_exp_iff possible_bit_word eq_nat_nat_iff split: if_splits)
  qed (use assms in \<open>auto simp: classSet_iff\<close>)
  then show ?thesis using w assms by (auto simp: mapSet_def array_simps)
qed

lemma classSet_mapSetRange:
  "length bm = 8 \<Longrightarrow> 0 \<le> lo \<Longrightarrow> hi < 256 \<Longrightarrow>
   \<exists>bm'. mapSetRange lo hi bm = Some bm' \<and> length bm' = 8 \<and> classSet bm' = classSet bm \<union> {lo..hi}"
proof (induction "nat (hi - lo + 1)" arbitrary: lo bm)
  case 0
  then show ?case by (simp add: mapSetRange_def)
next
  case (Suc n)
  then have le: "lo \<le> hi" by simp
  obtain bm1 where bm1: "mapSet lo bm = Some bm1" "length bm1 = 8" "classSet bm1 = insert lo (classSet bm)"
    using classSet_mapSet [of bm lo] Suc.prems le by auto
  have "n = nat (hi - (lo + 1) + 1)" using Suc.hyps(2) by simp
  from Suc.hyps(1) [OF this bm1(2)] Suc.prems obtain bm' where
    "mapSetRange (lo + 1) hi bm1 = Some bm'" "length bm' = 8" "classSet bm' = classSet bm1 \<union> {lo + 1..hi}" by auto
  moreover have "{lo..hi} = insert lo {lo + 1..hi}" using le by auto
  ultimately show ?case using bm1 le by (auto simp: mapSetRange_def upto_rec1)
qed

lemma classSet_invert: "length bm = 8 \<Longrightarrow> classSet (map NOT bm) = {0..<256} - classSet bm"
  using BWORD_less BWORD_BBIT by (fastforce simp: classSet_iff bit_not_iff)

lemma classSet_emptyMap: "classSet emptyMap = {}"
  using BWORD_less by (fastforce simp: classSet_iff emptyMap_def)

section \<open>The parser\<close>

lemma asciiString_suffix: "suffix s' s \<Longrightarrow> asciiString s \<Longrightarrow> asciiString s'"
  by (auto simp: suffix_def)

lemma charIndex_pos: "ascii c \<Longrightarrow> c \<noteq> NUL \<Longrightarrow> 0 < charIndex c"
proof -
  assume "ascii c" "c \<noteq> NUL"
  then have "of_char c \<noteq> (of_char NUL :: int)" by (simp only: of_char_eq_iff not_False_eq_True)
  moreover have "0 \<le> (of_char c :: int)" "(of_char c :: int) < 256" using of_char_mod_256 [where ?'a = int, of c]
    pos_mod_bound [of 256 "of_char c :: int"] pos_mod_sign [of 256 "of_char c :: int"] by auto
  ultimately show "0 < charIndex c" using \<open>ascii c\<close> by (auto simp: ascii_def charIndex_def Let_def NUL_def)
qed

lemma ch0_pos: "asciiString s \<Longrightarrow> s \<noteq> [] \<Longrightarrow> 0 < charIndex (ch0 s)"
  by (cases s) (auto simp: ch0_def charIndex_pos)

text \<open>A bit map under construction: eight words, the bit of the terminator clear.\<close>

definition mapOk :: "u64 list \<Rightarrow> bool" where
  "mapOk bm \<longleftrightarrow> length bm = 8 \<and> mapTest bm 0 = Some False"

lemma mapOk_iff: "mapOk bm \<longleftrightarrow> length bm = 8 \<and> 0 \<notin> classSet bm"
  using mapTest_total [of bm 0] by (auto simp: mapOk_def classSet_def)

lemma mapOk_emptyMap: "mapOk emptyMap"
  by (simp add: mapOk_iff classSet_emptyMap) (simp add: emptyMap_def)

lemma mapSetRange_ok:
  "0 < lo \<Longrightarrow> hi < 128 \<Longrightarrow> mapOk bm \<Longrightarrow> \<exists>bm'. mapSetRange lo hi bm = Some bm' \<and> mapOk bm'"
  using classSet_mapSetRange [of bm lo hi] by (auto simp: mapOk_iff)

lemma mapSetRange_chars:
  assumes "asciiString s" "s \<noteq> []" "asciiString s'" "s' \<noteq> []" "mapOk bm"
  shows "\<exists>bm'. mapSetRange (min (charIndex (ch0 s)) (charIndex (ch0 s'))) (max (charIndex (ch0 s)) (charIndex (ch0 s'))) bm = Some bm' \<and> mapOk bm'"
  by (rule mapSetRange_ok) (use assms ch0_pos charIndex_less in auto)

text \<open>The characters between the brackets of an ASCII filter are entered into the map; the loop stops at a suffix.\<close>

lemma alternativesLoop_ok:
  "asciiString s \<Longrightarrow> mapOk bm \<Longrightarrow> \<exists>bm' s'. alternativesLoop s bm = Some (bm', s') \<and> mapOk bm' \<and> suffix s' s"
proof (induction s bm rule: alternativesLoop.induct)
  case (1 s bm)
  show ?case
  proof (cases "ch0 s = CHR '']'' \<or> ch0 s = CHR ''}'' \<or> s = []")
    case True
    then show ?thesis using 1(3) by (subst alternativesLoop.simps) simp
  next
    case False
    define s1 where "s1 = (if ch0 s = CHR 0x5C \<and> tl s \<noteq> [] then tl s else s)"
    define isRange where "isRange \<longleftrightarrow> ch1 s1 = CHR ''-'' \<and> ch2 s1 \<noteq> CHR '']'' \<and> tl (tl s1) \<noteq> []"
    define s2 where "s2 = (if isRange then
      let s' = tl (tl s1) in if ch0 s' = CHR 0x5C \<and> ch1 s' \<noteq> CHR '']'' \<and> tl s' \<noteq> [] then tl s' else s' else s1)"
    have s1: "s1 \<noteq> []" "suffix s1 s" using False by (auto simp: s1_def suffix_tl)
    then have s2: "s2 \<noteq> []" "suffix s2 s1"
      by (auto simp: s2_def isRange_def Let_def intro: suffix_order.trans [OF suffix_tl])
    have asc: "asciiString s1" "asciiString s2" "asciiString (tl s2)"
      using asciiString_suffix 1(2) s1(2) s2(2) suffix_tl by blast+
    obtain bm1 where bm1: "mapSetRange (min (charIndex (ch0 s1)) (charIndex (ch0 s2))) (max (charIndex (ch0 s1)) (charIndex (ch0 s2))) bm = Some bm1" "mapOk bm1"
      using mapSetRange_chars [OF asc(1) s1(1) asc(2) s2(1) 1(3)] by blast
    have "alternativesLoop s bm = alternativesLoop (tl s2) bm1"
      using False bm1(1) by (subst alternativesLoop.simps) (simp add: s1_def [symmetric] isRange_def [symmetric] s2_def [symmetric] Let_def)
    moreover have "\<exists>bm' s'. alternativesLoop (tl s2) bm1 = Some (bm', s') \<and> mapOk bm' \<and> suffix s' (tl s2)"
      by (rule 1(1) [OF False s1_def isRange_def refl s2_def refl]) (use asc bm1 in auto)
    moreover have "suffix (tl s2) s" using s1(2) s2(2) suffix_tl suffix_order.trans by blast
    ultimately show ?thesis using suffix_order.trans by metis
  qed
qed

text \<open>The characters and ranges of a class as a text, and as a set.\<close>

fun classText :: "(char \<times> char option) list \<Rightarrow> string" where
  "classText [] = []"
| "classText ((a, None) # items) = a # classText items"
| "classText ((a, Some b) # items) = a # CHR ''-'' # b # classText items"

definition itemRange :: "char \<times> char option \<Rightarrow> int set" where
  "itemRange x = (let a = charIndex (fst x); b = (case snd x of None \<Rightarrow> a | Some c \<Rightarrow> charIndex c) in {min a b..max a b})"

definition classChar :: "char \<Rightarrow> bool" where
  "classChar c \<longleftrightarrow> ascii c \<and> c \<notin> {NUL, CHR '']'', CHR ''}'', CHR ''-'', CHR 0x5C}"

definition classItem :: "char \<times> char option \<Rightarrow> bool" where
  "classItem x \<longleftrightarrow> classChar (fst x) \<and> (case snd x of None \<Rightarrow> True | Some c \<Rightarrow> classChar c)"

lemma classText_start: "list_all classItem items \<Longrightarrow> ch0 (classText items @ CHR '']'' # t) \<noteq> CHR ''-''"
  by (cases items rule: classText.cases) (auto simp: ch0_def classItem_def classChar_def)

lemma alternativesLoop_classText:
  "list_all classItem items \<Longrightarrow> length bm = 8 \<Longrightarrow>
   \<exists>bm'. alternativesLoop (classText items @ CHR '']'' # t) bm = Some (bm', CHR '']'' # t) \<and> length bm' = 8 \<and>
     classSet bm' = classSet bm \<union> (\<Union>x\<in>set items. itemRange x)"
proof (induction items arbitrary: bm)
  case Nil
  then show ?case by (subst alternativesLoop.simps) (simp add: ch0_def)
next
  case (Cons x items)
  obtain a b where x: "x = (a, b)" by (cases x)
  define c where "c = (case b of None \<Rightarrow> a | Some b' \<Rightarrow> b')"
  have chars: "classChar a" "classChar c" using Cons.prems(1) x by (auto simp: classItem_def c_def split: option.splits)
  then have "0 < charIndex a" "0 < charIndex c" by (auto simp: classChar_def charIndex_pos)
  then obtain bm1 where bm1: "mapSetRange (min (charIndex a) (charIndex c)) (max (charIndex a) (charIndex c)) bm = Some bm1"
      "length bm1 = 8" "classSet bm1 = classSet bm \<union> itemRange x"
    using classSet_mapSetRange [of bm "min (charIndex a) (charIndex c)" "max (charIndex a) (charIndex c)"] Cons.prems(2)
      charIndex_less [of a] charIndex_less [of c] x by (auto simp: itemRange_def c_def Let_def split: option.splits)
  have "alternativesLoop (classText (x # items) @ CHR '']'' # t) bm = alternativesLoop (classText items @ CHR '']'' # t) bm1"
    using chars bm1(1) classText_start [of items t] Cons.prems(1) x
    by (subst alternativesLoop.simps) (auto simp: ch0_def ch1_def ch2_def c_def classChar_def Let_def split: option.splits)
  then show ?case using Cons.IH [OF _ bm1(2)] Cons.prems(1) bm1(3) by (auto simp: Un_assoc)
qed

lemma closesBracket_classText: "list_all classItem items \<Longrightarrow> closesBracket (classText items @ CHR '']'' # t)"
  by (induction items rule: classText.induct) (auto simp: classItem_def classChar_def)

lemma parseComponent_class:
  assumes "list_all classItem items" "inverted \<or> ch0 (classText items) \<noteq> CHR ''^''"
  shows "\<exists>bm. parseComponent (''['' @ (if inverted then ''^'' else []) @ classText items @ '']'' @ t) AltMaybe =
      Some (Some (CharAlternatives bm, t, AltYes)) \<and> length bm = 8 \<and>
    classSet bm = (if inverted then {0..<256} - (\<Union>x\<in>set items. itemRange x) else (\<Union>x\<in>set items. itemRange x))"
proof -
  have len: "length emptyMap = 8" by (simp add: emptyMap_def)
  obtain bm where bm: "alternativesLoop (classText items @ CHR '']'' # t) emptyMap = Some (bm, CHR '']'' # t)" "length bm = 8"
      "classSet bm = (\<Union>x\<in>set items. itemRange x)"
    using alternativesLoop_classText [OF assms(1) len, of t] by (auto simp: classSet_emptyMap)
  show ?thesis
  proof (cases inverted)
    case True
    then show ?thesis using bm classSet_invert [OF bm(2)]
      by (simp add: parseComponent_def decideAlternates_def Let_def ch0_def ch1_def)
  next
    case False
    then have start: "ch0 (classText items @ CHR '']'' # t) \<noteq> CHR ''^''" using assms(2) by (cases "classText items") (auto simp: ch0_def)
    have "decideAlternates (CHR ''['' # classText items @ CHR '']'' # t) AltMaybe = AltYes"
      using closesBracket_classText [OF assms(1), of t] by (simp add: decideAlternates_def ch0_def)
    then show ?thesis using False bm start by (simp add: parseComponent_def Let_def) (simp add: ch0_def)
  qed
qed

lemma suffix_wildcardsLoop: "suffix (snd (wildcardsLoop s counts)) s"
  by (induction s counts rule: wildcardsLoop.induct) (auto intro: suffix_ConsI)

lemma wildcardsLoop_stops:
  "ch0 (snd (wildcardsLoop s counts)) \<noteq> CHR ''?'' \<and> ch0 (snd (wildcardsLoop s counts)) \<noteq> CHR ''*''"
  by (induction s counts rule: wildcardsLoop.induct) (auto simp: ch0_def NUL_def)

lemma wildcardsLoop_nonzero: "counts \<noteq> 0 \<or> ch0 s = CHR ''?'' \<or> ch0 s = CHR ''*'' \<Longrightarrow> fst (wildcardsLoop s counts) \<noteq> 0"
  by (induction s counts rule: wildcardsLoop.induct) (auto simp: ch0_def NUL_def or_eq_0_iff)

lemma suffix_copyString: "suffix (snd (copyString allow s)) s"
proof (induction allow s rule: copyString.induct)
  case (2 allow c s)
  then show ?case by (cases s) (auto intro: suffix_ConsI)
qed simp

lemma asciiString_copyString: "asciiString s \<Longrightarrow> asciiString (fst (copyString allow s))"
proof (induction allow s rule: copyString.induct)
  case (2 allow c s)
  then show ?case by (cases s) auto
qed simp

lemma copyString_nonempty: "s \<noteq> [] \<Longrightarrow> \<not> endsString allow (ch0 s) \<Longrightarrow> fst (copyString allow s) \<noteq> []"
  by (cases s) (auto simp: ch0_def)

text \<open>The size the parser allocates for a string is enough for its characters.\<close>

lemma copyString_fits: "length (fst (copyString allow s)) \<le> countString allow s"
  by (induction allow s rule: copyString.induct) auto

text \<open>A component of an ASCII filter: the parser returns, and what it builds is well-formed.\<close>

definition componentOk :: "string \<Rightarrow> component \<Rightarrow> string \<Rightarrow> bool" where
  "componentOk s c s' \<longleftrightarrow> wfComponent c \<and> suffix s' s \<and>
     (isWild c \<longrightarrow> (ch0 s = CHR ''?'' \<or> ch0 s = CHR ''*'') \<and> ch0 s' \<noteq> CHR ''?'' \<and> ch0 s' \<noteq> CHR ''*'')"

lemma parseComponent_ok:
  assumes "asciiString s" "startsComponent s"
  shows "\<exists>r. parseComponent s allow = Some r \<and> (\<forall>c s' allow'. r = Some (c, s', allow') \<longrightarrow> componentOk s c s')"
proof -
  consider (alt) "ch0 s = CHR ''['' \<and> decideAlternates s allow = AltYes"
    | (wild) "\<not> (ch0 s = CHR ''['' \<and> decideAlternates s allow = AltYes)" "ch0 s = CHR ''?'' \<or> ch0 s = CHR ''*''"
    | (str) "\<not> (ch0 s = CHR ''['' \<and> decideAlternates s allow = AltYes)" "\<not> (ch0 s = CHR ''?'' \<or> ch0 s = CHR ''*'')" by blast
  then show ?thesis
  proof cases
    case alt
    define s2 where "s2 = (if ch0 (tl s) = CHR ''^'' then tl (tl s) else tl s)"
    have s2: "suffix s2 s" by (auto simp: s2_def intro: suffix_order.trans [OF suffix_tl])
    then obtain bm s3 where "alternativesLoop s2 emptyMap = Some (bm, s3)" "mapOk bm" "suffix s3 s2"
      using alternativesLoop_ok [OF asciiString_suffix [OF s2 assms(1)] mapOk_emptyMap] by blast
    moreover from this s2 have "suffix (tl s3) s" using suffix_tl suffix_order.trans by metis
    ultimately show ?thesis using alt s2_def
      by (auto simp: parseComponent_def Let_def componentOk_def wfComponent_def isWild_def mapOk_def)
  next
    case wild
    then show ?thesis using suffix_wildcardsLoop [of s 0] wildcardsLoop_stops [of s 0] wildcardsLoop_nonzero [of 0 s]
      by (auto simp: parseComponent_def Let_def componentOk_def wfComponent_def isWild_def split: prod.splits)
  next
    case str
    have "s \<noteq> []" using assms(2) by (simp add: startsComponent_def)
    then show ?thesis
      using str suffix_copyString [of "decideAlternates s allow" s] asciiString_copyString [OF assms(1), of "decideAlternates s allow"]
        copyString_nonempty [OF _ startsComponent_not_ends [OF assms(2) str]]
      by (auto simp: parseComponent_def Let_def componentOk_def wfComponent_def isWild_def split: prod.splits)
  qed
qed

text \<open>A simple pattern, and the alternatives of a filter.\<close>

definition simpleOk :: "string \<Rightarrow> simple option \<Rightarrow> string \<Rightarrow> bool \<Rightarrow> bool" where
  "simpleOk s m s' err \<longleftrightarrow> suffix s' s \<and> wfRest m \<and> (startsComponent s \<longrightarrow> \<not> err \<longrightarrow> m \<noteq> None) \<and>
     (case m of None \<Rightarrow> True | Some m' \<Rightarrow> isWild (componentOf m') \<longrightarrow> ch0 s = CHR ''?'' \<or> ch0 s = CHR ''*'')"

lemma processSimple_ok:
  "asciiString s \<Longrightarrow> \<exists>m s' err. processSimple s allow = Some (m, s', err) \<and> simpleOk s m s' err"
proof (induction "length s" arbitrary: s allow rule: less_induct)
  case less
  show ?case
  proof (cases "startsComponent s")
    case False
    then show ?thesis by (subst processSimple.simps) (auto simp: simpleOk_def)
  next
    case True
    obtain r where r: "parseComponent s allow = Some r" "\<forall>c s' allow'. r = Some (c, s', allow') \<longrightarrow> componentOk s c s'"
      using parseComponent_ok [OF less.prems True] by blast
    show ?thesis
    proof (cases r)
      case None
      then show ?thesis using True r(1) by (subst processSimple.simps) (auto simp: simpleOk_def)
    next
      case (Some x)
      then obtain c s1 allow' where x: "r = Some (c, s1, allow')" by (cases x) auto
      then have c: "componentOk s c s1" and shorter: "length s1 < length s"
        using r parseComponent_shorter [OF True] by auto
      then have "asciiString s1" using less.prems asciiString_suffix by (auto simp: componentOk_def)
      then obtain m s' err where m: "processSimple s1 allow' = Some (m, s', err)" "simpleOk s1 m s' err"
        using less.hyps [OF shorter] by blast
      then have "suffix s' s" using c by (auto simp: simpleOk_def componentOk_def intro: suffix_order.trans)
      moreover have "\<not> err \<Longrightarrow> wfPattern (Simple c m (fixedCharsRight m))"
        using m(2) c by (auto simp: simpleOk_def componentOk_def split: option.splits)
      ultimately show ?thesis using True r(1) x m(1) c
        by (subst processSimple.simps) (auto simp: simpleOk_def componentOk_def)
    qed
  qed
qed

lemma processRegex_ok:
  "asciiString s \<Longrightarrow> \<exists>r s' err. processRegex s = Some (r, s', err) \<and> suffix s' s \<and> (\<forall>re. r = Some re \<longrightarrow> wfRegex re)"
proof (induction "length s" arbitrary: s rule: less_induct)
  case less
  let ?s = "dropWhile isSeparator s"
  show ?case
  proof (cases "?s = [] \<or> ch0 ?s = CHR ''}''")
    case True
    then show ?thesis by (subst processRegex.simps) (auto simp: Let_def suffix_dropWhile)
  next
    case False
    then have starts: "startsComponent ?s" by (auto simp: startsComponent_def ch0_def hd_dropWhile split: list.splits dest: dropWhile_eq_Cons_conv [THEN iffD1])
    have "asciiString ?s" using less.prems asciiString_suffix suffix_dropWhile by blast
    then obtain m s1 err where m: "processSimple ?s AltMaybe = Some (m, s1, err)" "simpleOk ?s m s1 err"
      using processSimple_ok by blast
    show ?thesis
    proof (cases err)
      case True
      then show ?thesis using False m suffix_dropWhile [of isSeparator s]
        by (subst processRegex.simps) (auto simp: Let_def simpleOk_def intro: suffix_order.trans)
    next
      case noerr: False
      then obtain m' where m': "m = Some m'" using m(2) starts by (auto simp: simpleOk_def)
      have s1: "suffix s1 s" using m(2) suffix_dropWhile by (auto simp: simpleOk_def intro: suffix_order.trans)
      have "length s1 < length s" using length_processSimple [OF m(1)] m' length_dropWhile_le [of isSeparator s] by simp
      then obtain r s' err' where "processRegex s1 = Some (r, s', err')" "suffix s' s1" "\<forall>re. r = Some re \<longrightarrow> wfRegex re"
        using less asciiString_suffix [OF s1] by blast
      then show ?thesis using False m(1) m' noerr m(2) suffix_order.trans [OF _ s1, of s']
        by (subst processRegex.simps) (auto simp: Let_def simpleOk_def split: option.splits)
    qed
  qed
qed

text \<open>A filter: where the parser accepts it, the text it read ends with the brace.\<close>

lemma create_ok:
  assumes "asciiString f"
  shows "\<exists>r rest. create (Some f) = Some (r, Some rest) \<and> suffix rest f \<and>
    (\<forall>re. r = Some re \<longrightarrow> wfRegex (regexOf re) \<and> (\<exists>t. f = t @ CHR ''}'' # rest \<and> regexStrLen re = length t + 1))"
proof (cases "ch0 f = CHR ''{''")
  case True
  define s2 where "s2 = (if ch0 (tl f) = CHR ''^'' then tl (tl f) else tl f)"
  have s2: "suffix s2 f" by (auto simp: s2_def intro: suffix_order.trans [OF suffix_tl])
  obtain r s err where r: "processRegex s2 = Some (r, s, err)" "suffix s s2" "\<forall>re. r = Some re \<longrightarrow> wfRegex re"
    using processRegex_ok [OF asciiString_suffix [OF s2 assms]] by blast
  then have s: "suffix s f" using s2 suffix_order.trans by blast
  then obtain t where t: "f = t @ s" by (auto simp: suffix_def)
  have close: "s = CHR ''}'' # tl s" if "ch0 s = CHR ''}''" using that by (cases s) (auto simp: ch0_def NUL_def)
  then have "suffix (tl s) f" using s suffix_tl suffix_order.trans by blast
  moreover have "length f - length (tl s) = length t + 1" if "ch0 s = CHR ''}''"
    using close [OF that] t by (metis add_diff_cancel_right' length_append length_Cons add_Suc_right add_Suc Suc_eq_plus1)
  moreover have "create (Some f) = (case r of None \<Rightarrow> Some (None, Some s)
      | Some re \<Rightarrow> if ch0 s \<noteq> CHR ''}'' \<or> err then Some (None, Some s)
        else Some (Some \<lparr>regexOf = re, negate = ch0 (tl f) = CHR ''^'', regexStr = f, regexStrLen = length f - length (tl s)\<rparr>, Some (tl s)))"
    using True r(1) by (simp add: create_def s2_def [symmetric] Let_def)
  ultimately show ?thesis using r(3) s close t by (cases r) auto
qed (simp add: create_def Let_def)

section \<open>The character functions\<close>

text \<open>What the C standard says of \<open>tolower\<close> and \<open>toupper\<close> for ASCII characters.\<close>

definition cLocaleOk :: "c_locale \<Rightarrow> bool" where
  "cLocaleOk lc \<longleftrightarrow> c_tolower lc NUL = NUL \<and> c_toupper lc NUL = NUL \<and>
     list_all (\<lambda>c. (ascii c \<longrightarrow> ascii (c_tolower lc c) \<and> ascii (c_toupper lc c) \<and> (c \<noteq> NUL \<longrightarrow> c_tolower lc c \<noteq> NUL)))
       (map char_of [0..<256::nat])"

lemma cLocaleOk_ascii:
  assumes "cLocaleOk lc" "ascii c"
  shows "ascii (c_tolower lc c)" "ascii (c_toupper lc c)" "c \<noteq> NUL \<Longrightarrow> c_tolower lc c \<noteq> NUL"
proof -
  have "c \<in> set (map char_of [0..<256::nat])"
    by (simp, rule image_eqI [of _ _ "of_char c"]) (simp_all add: nat_of_char_less_256)
  then show "ascii (c_tolower lc c)" "ascii (c_toupper lc c)" "c \<noteq> NUL \<Longrightarrow> c_tolower lc c \<noteq> NUL"
    using assms unfolding cLocaleOk_def list_all_iff by blast+
qed

lemma charIndex_char_of: "0 \<le> n \<Longrightarrow> n < 128 \<Longrightarrow> charIndex (char_of n) = n"
  by (simp add: charIndex_def Let_def)

lemma charIndex_ignore_locale:
  assumes "\<not> processWithLocale lc"
  shows "charIndex (tolower_ignore_locale lc c) = (if 65 \<le> charIndex c \<and> charIndex c \<le> 90 then charIndex c + 32 else charIndex c)"
    and "charIndex (toupper_ignore_locale lc c) = (if 97 \<le> charIndex c \<and> charIndex c \<le> 122 then charIndex c - 32 else charIndex c)"
  using assms by (simp_all add: tolower_ignore_locale_def toupper_ignore_locale_def charIndex_char_of)

lemma charIndex_eq_0_iff: "charIndex c = 0 \<longleftrightarrow> c = NUL"
  using charIndex_pos [of c] by (cases "c = NUL") (auto simp: charIndex_NUL ascii_def)

interpretation noLocale: char_cases "charCase (lc\<lparr>processWithLocale := False\<rparr>) isCaseSensitive False"
  by unfold_locales (auto simp: charCase_def ascii_def charIndex_ignore_locale charIndex_NUL simp flip: charIndex_eq_0_iff)

lemma charCase_ok: "cLocaleOk lc \<Longrightarrow> char_cases (charCase lc isCaseSensitive useLocale)"
proof
  assume ok: "cLocaleOk lc"
  show "lower (charCase lc isCaseSensitive useLocale) NUL = NUL"
    using ok by (auto simp: charCase_def tolower_ignore_locale_def cLocaleOk_def charIndex_NUL)
  show "upper (charCase lc isCaseSensitive useLocale) NUL = NUL"
    using ok by (auto simp: charCase_def toupper_ignore_locale_def cLocaleOk_def charIndex_NUL)
  fix c assume c: "ascii c"
  show "ascii (lower (charCase lc isCaseSensitive useLocale) c)"
    using cLocaleOk_ascii [OF ok c] c charIndex_ignore_locale [of lc c] by (cases "processWithLocale lc")
      (auto simp: charCase_def tolower_ignore_locale_def ascii_def charIndex_char_of)
  show "ascii (upper (charCase lc isCaseSensitive useLocale) c)"
    using cLocaleOk_ascii [OF ok c] c by (cases "processWithLocale lc")
      (auto simp: charCase_def toupper_ignore_locale_def ascii_def charIndex_char_of)
  show "lower (charCase lc isCaseSensitive useLocale) c \<noteq> NUL" if "c \<noteq> NUL"
    using cLocaleOk_ascii [OF ok c] that charIndex_ignore_locale [of lc c] by (cases "processWithLocale lc")
      (auto simp: charCase_def tolower_ignore_locale_def charIndex_char_of simp flip: charIndex_eq_0_iff)
qed

end
