(* ===== verification/RegexPrint.thy ===== *)
theory RegexPrint
  imports RegexLang
begin

text \<open>
  Printed filters are read back. This holds for the filters without classes whose strings need no escapes: \<open>print\<close> writes
  none. The ends of the theory hold the properties of the filters.
\<close>

definition plainChar :: "char \<Rightarrow> bool" where
  "plainChar c \<longleftrightarrow> c \<notin> {CHR ''*'', CHR ''?'', CHR '','', CHR ''|'', CHR ''}'', CHR ''['', CHR ''^'', CHR 0x5C}"

fun plainSimple :: "simple \<Rightarrow> bool" and plainRest :: "simple option \<Rightarrow> bool" where
  "plainSimple (Simple c remainder fcr) \<longleftrightarrow>
     (case c of SimpleString str \<Rightarrow> list_all plainChar str \<and> (case remainder of None \<Rightarrow> True | Some m \<Rightarrow> isWild (componentOf m))
      | Wildcards _ \<Rightarrow> True | CharAlternatives _ \<Rightarrow> False) \<and> plainRest remainder"
| "plainRest None = True"
| "plainRest (Some m) = plainSimple m"

fun plainRegex :: "regex \<Rightarrow> bool" where
  "plainRegex (Regex m remainder) \<longleftrightarrow> plainSimple m \<and> (case remainder of None \<Rightarrow> True | Some r \<Rightarrow> plainRegex r)"

lemma length_even_upto: "length [i \<leftarrow> [2..int n]. even i] = n div 2"
proof (induction n)
  case (Suc n)
  show ?case
  proof (cases "n = 0")
    case False
    then have "[2..int (Suc n)] = [2..int n] @ [int (Suc n)]" by (subst upto_rec2) auto
    then show ?thesis using Suc by (cases "even n") auto
  qed simp
qed simp

lemma printComponent_Wildcards:
  "printComponent (Wildcards counts) = Some (replicate (counts div 2) (CHR ''?'') @ (if odd counts then ''*'' else []))"
  using counts_and_1 [of counts] by (simp add: printComponent_def length_even_upto)

lemma wildcardsLoop_qs: "wildcardsLoop (replicate n (CHR ''?'') @ t) counts = wildcardsLoop t (counts + 2 * n)"
  by (induction n arbitrary: counts) auto

lemma wildcardsLoop_print:
  assumes "ch0 t \<noteq> CHR ''?''" "ch0 t \<noteq> CHR ''*''" "printComponent (Wildcards counts) = Some a"
  shows "wildcardsLoop (a @ t) 0 = (counts, t)"
proof -
  have "wildcardsLoop t n = (n, t)" for n using assms(1,2) by (cases t) (auto simp: ch0_def)
  moreover have "even n \<Longrightarrow> n OR 1 = Suc n" for n :: nat using or_one_eq [of n] by simp
  ultimately show ?thesis using assms(3)
    by (cases "even counts") (auto simp: printComponent_Wildcards wildcardsLoop_qs)
qed

lemma copyString_plain:
  "list_all plainChar str \<Longrightarrow> endsString allow (ch0 t) \<Longrightarrow> copyString allow (str @ t) = (str, t)"
proof (induction str)
  case Nil
  then show ?case by (cases t) (auto simp: ch0_def)
next
  case (Cons c str)
  then show ?case by (auto simp: plainChar_def endsString_def)
qed

lemma ch0_append: "x \<noteq> [] \<Longrightarrow> ch0 (x @ y) = hd x"
  by (cases x) (simp_all add: ch0_def)

text \<open>The text of a pattern starts with one of its characters or a wild card.\<close>

lemma print_start:
  assumes "wfPattern m" "plainSimple m" "printSimple m = Some a"
  shows "a \<noteq> []" "if isWild (componentOf m) then ch0 (a @ t) = CHR ''?'' \<or> ch0 (a @ t) = CHR ''*'' else plainChar (ch0 (a @ t))"
proof -
  obtain c r f where m: "m = Simple c r f" by (cases m)
  with assms obtain x y where x: "printComponent c = Some x" and a: "a = x @ y" by (auto split: bind_splits)
  have "x \<noteq> [] \<and> (if isWild c then hd x = CHR ''?'' \<or> hd x = CHR ''*'' else plainChar (hd x))"
  proof (cases c)
    case (SimpleString str)
    then show ?thesis using assms x m by (cases str) (auto simp: printComponent_def wfComponent_def isWild_def)
  next
    case (Wildcards counts)
    moreover from this have "counts div 2 = 0 \<Longrightarrow> odd counts" using assms(1) m by (auto simp: wfComponent_def)
    ultimately show ?thesis using x by (cases "counts div 2") (auto simp: printComponent_Wildcards isWild_def)
  qed (use assms m in auto)
  then show "a \<noteq> []" "if isWild (componentOf m) then ch0 (a @ t) = CHR ''?'' \<or> ch0 (a @ t) = CHR ''*'' else plainChar (ch0 (a @ t))"
    using a m by (auto simp: ch0_append)
qed

lemma decideAlternates_id: "ch0 s \<noteq> CHR ''['' \<Longrightarrow> decideAlternates s allow = allow"
  by (simp add: decideAlternates_def)

lemma parseComponent_print:
  assumes "wfComponent c" "printComponent c = Some a" "ch0 t = CHR ''|'' \<or> ch0 t = CHR ''}'' \<or> (if isWild c then plainChar (ch0 t) else ch0 t = CHR ''?'' \<or> ch0 t = CHR ''*'')"
    and "case c of SimpleString str \<Rightarrow> list_all plainChar str | Wildcards _ \<Rightarrow> True | CharAlternatives _ \<Rightarrow> False"
  shows "startsComponent (a @ t) \<and> parseComponent (a @ t) AltMaybe = Some (Some (c, t, AltMaybe))"
proof (cases c)
  case (SimpleString str)
  then have "a = str" "str \<noteq> []" "list_all plainChar str" using assms by (auto simp: printComponent_def wfComponent_def)
  moreover from this have "plainChar (ch0 (a @ t))" by (cases str) (auto simp: ch0_def)
  moreover have "endsString AltMaybe (ch0 t)" using assms(3) SimpleString by (auto simp: endsString_def isWild_def)
  ultimately show ?thesis using copyString_plain [of str AltMaybe t] SimpleString decideAlternates_id [of "a @ t" AltMaybe]
    by (auto simp: parseComponent_def Let_def startsComponent_def isSeparator_def plainChar_def)
next
  case (Wildcards counts)
  have wf: "wfPattern (Simple c None 0)" "plainSimple (Simple c None 0)" "printSimple (Simple c None 0) = Some a"
    using assms Wildcards by (auto simp: fixedCharsRight_def)
  have start: "ch0 (a @ t) = CHR ''?'' \<or> ch0 (a @ t) = CHR ''*''" using print_start(2) [OF wf, of t] Wildcards by (simp add: isWild_def)
  moreover have "ch0 t \<noteq> CHR ''?''" "ch0 t \<noteq> CHR ''*''" using assms(3) Wildcards by (auto simp: isWild_def plainChar_def)
  from wildcardsLoop_print [OF this] have "wildcardsLoop (a @ t) 0 = (counts, t)" using assms(2) Wildcards by simp
  ultimately show ?thesis using Wildcards decideAlternates_id [of "a @ t" AltMaybe] print_start(1) [OF wf]
    by (auto simp: parseComponent_def Let_def startsComponent_def isSeparator_def)
qed (use assms in simp)

lemma processSimple_print:
  "wfPattern m \<Longrightarrow> plainSimple m \<Longrightarrow> printSimple m = Some a \<Longrightarrow> ch0 t = CHR ''|'' \<or> ch0 t = CHR ''}'' \<Longrightarrow>
   processSimple (a @ t) AltMaybe = Some (Some m, t, False)"
proof (induction m arbitrary: a)
  case (Simple c r f)
  obtain x y where x: "printComponent c = Some x" and y: "printSimpleRest r = Some y" and a: "a = x @ y"
    using Simple.prems(3) by (auto split: bind_splits)
  have rest: "processSimple (y @ t) AltMaybe = Some (r, t, False)"
  proof (cases r)
    case None
    then show ?thesis using y Simple.prems(4) by (subst processSimple.simps) (auto simp: startsComponent_def isSeparator_def)
  qed (use Simple y in auto)
  have "ch0 (y @ t) = CHR ''|'' \<or> ch0 (y @ t) = CHR ''}'' \<or> (if isWild c then plainChar (ch0 (y @ t)) else ch0 (y @ t) = CHR ''?'' \<or> ch0 (y @ t) = CHR ''*'')"
  proof (cases r)
    case (Some m')
    then have "isWild (componentOf m') \<longleftrightarrow> \<not> isWild c" using Simple.prems(1,2) by (cases c) (auto simp: isWild_def)
    then show ?thesis using print_start(2) [of m' y t] Some y Simple.prems(1,2) by (auto split: if_splits)
  qed (use y Simple.prems(4) in auto)
  then have "startsComponent (x @ y @ t) \<and> parseComponent (x @ y @ t) AltMaybe = Some (Some (c, y @ t, AltMaybe))"
    using parseComponent_print [OF _ x] Simple.prems(1,2) by (auto split: component.splits)
  then show ?case using rest Simple.prems(1) a by (subst processSimple.simps) simp
qed

lemma processRegex_print:
  "wfRegex r \<Longrightarrow> plainRegex r \<Longrightarrow> printRegex r = Some a \<Longrightarrow> processRegex (a @ CHR ''}'' # t) = Some (Some r, CHR ''}'' # t, False)"
proof (induction r arbitrary: a)
  case (Regex m r')
  obtain x where x: "printSimple m = Some x" using Regex.prems(3) by (auto split: bind_splits)
  define u where "u = drop (length x) a @ CHR ''}'' # t"
  have a: "a @ CHR ''}'' # t = x @ u" and u: "u = CHR ''}'' # t \<and> r' = None \<or> (\<exists>y r''. r' = Some r'' \<and> printRegex r'' = Some y \<and> u = CHR ''|'' # y @ CHR ''}'' # t)"
    using Regex.prems(3) x by (auto simp: u_def split: option.splits bind_splits)
  have rest: "processRegex u = Some (r', CHR ''}'' # t, False)"
    using u
  proof
    assume "u = CHR ''}'' # t \<and> r' = None"
    then show ?thesis by (subst processRegex.simps) (simp add: Let_def ch0_def isSeparator_def)
  next
    assume "\<exists>y r''. r' = Some r'' \<and> printRegex r'' = Some y \<and> u = CHR ''|'' # y @ CHR ''}'' # t"
    then obtain y r'' where y: "r' = Some r''" "printRegex r'' = Some y" "u = CHR ''|'' # y @ CHR ''}'' # t" by blast
    then have "processRegex (y @ CHR ''}'' # t) = Some (r', CHR ''}'' # t, False)" using Regex by auto
    moreover have "processRegex (CHR ''|'' # v) = processRegex v" for v
      by (subst (1 2) processRegex.simps) (simp add: isSeparator_def)
    ultimately show ?thesis using y(3) by simp
  qed
  have "ch0 u = CHR ''|'' \<or> ch0 u = CHR ''}''" using u by (auto simp: ch0_def)
  then have "processSimple (x @ u) AltMaybe = Some (Some m, u, False)" using processSimple_print [OF _ _ x] Regex.prems(1,2) by simp
  moreover have "\<not> isSeparator (ch0 (x @ u)) \<and> ch0 (x @ u) \<noteq> CHR ''}'' \<and> x @ u \<noteq> []"
    using print_start(1) [OF _ _ x] print_start(2) [OF _ _ x, of u] Regex.prems(1,2) by (auto simp: isSeparator_def plainChar_def split: if_splits)
  moreover from this have "dropWhile isSeparator (x @ u) = x @ u" by (cases "x @ u") (auto simp: ch0_def)
  ultimately show ?case using rest unfolding a by (subst processRegex.simps) (simp add: Let_def)
qed

lemma create_print:
  assumes "wfRegex r" "plainRegex r" "printRegex r = Some a"
  shows "create (Some (''{'' @ (if neg then ''^'' else []) @ a @ ''}'' @ t)) =
    Some (Some \<lparr>regexOf = r, negate = neg, regexStr = ''{'' @ (if neg then ''^'' else []) @ a @ ''}'' @ t,
                regexStrLen = length a + (if neg then 3 else 2)\<rparr>, Some t)"
proof -
  obtain m r' where "r = Regex m r'" by (cases r)
  with assms obtain x y where x: "printSimple m = Some x" "a = x @ y" "wfPattern m" "plainSimple m"
    by (auto split: option.splits bind_splits)
  have "ch0 (a @ u) \<noteq> CHR ''^''" for u
    using print_start(2) [OF x(3,4,1), of "y @ u"] x(2) by (auto simp: plainChar_def split: if_splits)
  then show ?thesis using processRegex_print [OF assms, of t] by (simp add: create_def Let_def ch0_def)
qed

section \<open>Numbers\<close>

lemma length_decimalDigits: "n < 10 ^ k \<Longrightarrow> 0 < k \<Longrightarrow> length (decimalDigits n) \<le> k"
proof (induction k arbitrary: n)
  case (Suc k)
  show ?case
  proof (cases "n < 10")
    case False
    then have "0 < k" using Suc.prems(1) by (cases k) auto
    then show ?thesis using Suc.IH [of "n div 10"] Suc.prems(1) False by (subst decimalDigits.simps) simp
  qed (subst decimalDigits.simps, simp)
qed simp

lemma length_decimal: "length (decimal (sint (i :: 32 word))) \<le> 11"
proof -
  have "- (2 ^ 31) \<le> sint i" "sint i < 2 ^ 31" using sint_ge [of i] sint_lt [of i] by simp_all
  then have "nat (- sint i) < 10 ^ 10" "nat (sint i) < 10 ^ 10" by simp_all
  then show ?thesis using length_decimalDigits [of "nat (- sint i)" 10] length_decimalDigits [of "nat (sint i)" 10]
    by (auto simp: decimal_def)
qed

section \<open>Properties of the filters\<close>

text \<open>The character functions of the locale \<open>C\<close>.\<close>

definition localeC :: c_locale where
  "localeC = (let lc = \<lparr>c_tolower = id, c_toupper = id, processWithLocale = False\<rparr>
     in lc\<lparr>c_tolower := tolower_ignore_locale lc, c_toupper := toupper_ignore_locale lc\<rparr>)"

lemma cLocaleOk_localeC: "cLocaleOk localeC"
  unfolding cLocaleOk_def list_all_iff
  by (auto simp: localeC_def Let_def ascii_def charIndex_ignore_locale charIndex_NUL simp flip: charIndex_eq_0_iff)

definition exampleFilter :: simple_regex where
  "exampleFilter = \<lparr>regexOf = Regex (Simple (SimpleString ''a'') (Some (Simple (Wildcards 3) (Some (Simple (SimpleString ''z'') None 0)) 1)) 0)
       (Some (Regex (Simple (CharAlternatives [0, 0, 0, 28, 0, 0, 0, 0]) None 0) None)),
     negate = True, regexStr = ''{^a?*z|[b-d]}x'', regexStrLen = 13\<rparr>"

lemma create_example: "create (Some ''{^a?*z|[b-d]}x'') = Some (Some exampleFilter, Some ''x'')"
  unfolding exampleFilter_def by code_simp

lemma asciiString_example:
  "asciiString ''{^a?*z|[b-d]}x''" "asciiString ''AQZ''" "asciiString ''a*b*|''" "asciiString ''xabb''"
  by code_simp+

text \<open>
  C34: A result of the matcher is right: for an ASCII filter that was created and an ASCII string, under any locale
  whose character functions keep ASCII characters, the value returned says whether the string is in the language of the filter.
\<close>

theorem filter_result_right:
  assumes "asciiString f" "create (Some f) = Some (Some r, rest)" "cLocaleOk lc" "asciiString s"
    and "matchFilter (charCase lc isCaseSensitive useLocale) r s = Some b"
  shows "b \<longleftrightarrow> s \<in> filterLang (charCase lc isCaseSensitive useLocale) r"
proof -
  have "wfRegex (regexOf r)" using create_ok [OF assms(1)] assms(2) by auto
  then show ?thesis using char_cases.matchFilter_sound [OF charCase_ok] assms(3,4,5) by blast
qed

theorem filter_result_right_witness:
  "matchFilter (charCase localeC False True) exampleFilter ''AQZ'' = Some False \<and>
   ''AQZ'' \<notin> filterLang (charCase localeC False True) exampleFilter"
proof -
  have "matchFilter (charCase localeC False True) exampleFilter ''AQZ'' = Some False" by code_simp
  with filter_result_right [OF asciiString_example(1) create_example cLocaleOk_localeC asciiString_example(2)]
  show ?thesis by blast
qed

text \<open>
  The matcher finds every string of a pattern, whatever stars and classes it has: for a pattern parsed from an ASCII
  filter it returns true exactly on the strings of its language.
\<close>

lemma pattern_strings_found:
  assumes "asciiString f" "processSimple f allow = Some (Some m, rest, err)" "cLocaleOk lc" "asciiString s"
  shows "matchSimple (charCase lc isCaseSensitive useLocale) m s = Some True \<longleftrightarrow>
    s \<in> simpleLang (charCase lc isCaseSensitive useLocale) m"
proof -
  have "wfPattern m" using processSimple_ok [OF assms(1), of allow] assms(2) by (auto simp: simpleOk_def)
  then show ?thesis using char_cases.matchSimple_iff [OF charCase_ok] assms(3,4) by blast
qed

text \<open>
  C35: For an ASCII filter with at most one star in each pattern and no inverted class, and an ASCII string, the matcher
  returns and decides the language of the filter. This is the entry point that ignores the locale, which relies on no
  library function unless an environment variable asks for it, which is excluded here; other characters can index the bit
  map of a class outside of it.
\<close>

theorem safe_filter_decides:
  assumes "asciiString f" "create (Some f) = Some (Some r, rest)" "safeRegex (regexOf r)" "asciiString s" "\<not> processWithLocale lc"
  shows "matchIgnoringLocale lc r s isCaseSensitive = Some (s \<in> filterLang (charCase lc isCaseSensitive False) r)"
proof -
  have "wfRegex (regexOf r)" using create_ok [OF assms(1)] assms(2) by auto
  then have "matchFilter (charCase (lc\<lparr>processWithLocale := False\<rparr>) isCaseSensitive False) r s =
      Some (s \<in> filterLang (charCase (lc\<lparr>processWithLocale := False\<rparr>) isCaseSensitive False) r)"
    using noLocale.matchFilter_decides assms(3,4) by blast
  moreover have "lc\<lparr>processWithLocale := False\<rparr> = lc" using assms(5) by simp
  ultimately show ?thesis by (simp add: matchIgnoringLocale_def)
qed

theorem safe_filter_decides_witness:
  "safeRegex (regexOf exampleFilter) \<and> matchIgnoringLocale localeC exampleFilter ''AQZ'' True = Some True \<and>
   ''AQZ'' \<in> filterLang (charCase localeC True False) exampleFilter"
proof -
  have safe: "safeRegex (regexOf exampleFilter)" by code_simp
  have env: "\<not> processWithLocale localeC" by (simp add: localeC_def Let_def)
  have "matchIgnoringLocale localeC exampleFilter ''AQZ'' True = Some True" by code_simp
  with safe safe_filter_decides [OF asciiString_example(1) create_example safe asciiString_example(2) env, of True]
  show ?thesis by simp
qed

text \<open>
  Reading an ASCII filter always returns. It leaves the string pointer within the string, and a filter that is
  accepted is well-formed, and its recorded text is the part of the string that was read, up to the closing brace.
\<close>

lemma create_returns:
  assumes "asciiString f"
  shows "\<exists>r rest. create (Some f) = Some (r, Some rest) \<and> suffix rest f \<and>
    (\<forall>re. r = Some re \<longrightarrow> wfRegex (regexOf re) \<and> (\<exists>t. f = t @ CHR ''}'' # rest \<and> regexStrLen re = length t + 1))"
  using create_ok [OF assms] .

text \<open>
  C36: A printed filter is read back as it was, for the filters without classes whose strings need no escapes. The
  argument of \<open>print\<close> inverts the filter that is printed.
\<close>

theorem printed_filter_read_back:
  assumes "wfRegex (regexOf r)" "plainRegex (regexOf r)" "printFilter r neg = Some text"
  shows "\<exists>r'. create (Some (text @ t)) = Some (Some r', Some t) \<and> regexOf r' = regexOf r \<and>
    negate r' = (neg \<noteq> negate r) \<and> regexStrLen r' = length text"
proof -
  obtain a where a: "printRegex (regexOf r) = Some a" "text = ''{'' @ (if neg \<noteq> negate r then ''^'' else []) @ a @ ''}''"
    using assms(3) by (auto simp: printFilter_def split: bind_splits)
  then show ?thesis using create_print [OF assms(1,2) a(1), of "neg \<noteq> negate r" t] by simp
qed

theorem printed_filter_read_back_witness:
  "let r = \<lparr>regexOf = Regex (Simple (SimpleString ''ab'') (Some (Simple (Wildcards 5) None 0)) 0) None,
            negate = False, regexStr = [], regexStrLen = 0\<rparr>
   in \<exists>r'. create (Some (''{^ab??*}'' @ ''(c)'')) = Some (Some r', Some ''(c)'') \<and> regexOf r' = regexOf r"
proof -
  define r where "r = \<lparr>regexOf = Regex (Simple (SimpleString ''ab'') (Some (Simple (Wildcards 5) None 0)) 0) None,
            negate = False, regexStr = [], regexStrLen = 0\<rparr>"
  have "wfRegex (regexOf r)" "plainRegex (regexOf r)" "printFilter r True = Some ''{^ab??*}''"
    unfolding r_def by code_simp+
  from printed_filter_read_back [OF this, of "''(c)''"] show ?thesis by (auto simp: r_def)
qed

text \<open>
  The class a pattern reads between brackets is the set that its characters and ranges denote, with the ends of a
  range in either order, or its complement in the 256 characters after a \<open>^\<close>.
\<close>

lemma character_class_read:
  assumes "list_all classItem items" "inverted \<or> ch0 (classText items) \<noteq> CHR ''^''"
  shows "\<exists>bm. parseComponent (''['' @ (if inverted then ''^'' else []) @ classText items @ '']'' @ t) AltMaybe =
      Some (Some (CharAlternatives bm, t, AltYes)) \<and>
    classSet bm = (if inverted then {0..<256} - (\<Union>x\<in>set items. itemRange x) else (\<Union>x\<in>set items. itemRange x))"
  using parseComponent_class [OF assms, of t] by blast

text \<open>The buffer into which a number is printed before it is matched is large enough for every 32-bit integer.\<close>

lemma number_fits_buffer:
  "matchNumber lc r i isCaseSensitive = matchName lc r (decimal (sint i)) isCaseSensitive \<and> length (decimal (sint i)) + 1 \<le> 20"
  using length_decimal [of i] by (simp add: matchNumber_def matchName_def)

text \<open>
  The matcher reads behind the end of the string: on \<open>a\<close> with the filter \<open>{a*b*}\<close>, where the search behind the first
  star starts at the terminator and then steps over it, and on the empty string with the filter \<open>{[^a]}\<close>, where the
  inverted class contains the terminator.
\<close>

lemma matcher_over_reads:
  "(\<exists>r. create (Some ''{a*b*}'') = Some (Some r, Some []) \<and> matchName lc r ''a'' True = None) \<and>
   (\<exists>r. create (Some ''{[^a]}'') = Some (Some r, Some []) \<and> matchName lc r [] True = None)"
proof (intro conjI exI)
  let ?m = "Simple (SimpleString ''a'') (Some (Simple (Wildcards 1) (Some (Simple (SimpleString ''b'') (Some (Simple (Wildcards 1) None 0)) 0)) 0)) 0"
  let ?r = "\<lparr>regexOf = Regex ?m None, negate = False, regexStr = ''{a*b*}'', regexStrLen = 6\<rparr>"
  show "create (Some ''{a*b*}'') = Some (Some ?r, Some [])" by code_simp
  show "matchName lc ?r ''a'' True = None" by code_simp
  let ?c = "Simple (CharAlternatives (map NOT [0, 0, 0, 2, 0, 0, 0, 0])) None 0"
  let ?s = "\<lparr>regexOf = Regex ?c None, negate = False, regexStr = ''{[^a]}'', regexStrLen = 6\<rparr>"
  show "create (Some ''{[^a]}'') = Some (Some ?s, Some [])" by code_simp
  show "matchName lc ?s [] True = None" by code_simp
qed

end
