(* ===== verification/MagicNumbers.thy ===== *)
theory MagicNumbers
  imports NJ_Prelude "HOL-Library.Signed_Division"
begin

text \<open>
  The arithmetic of division by a constant through a multiplication: when a multiplier and a power of two are exact
  for every dividend of a width, and that the first power of two which suffices yields such a multiplier.
  \<open>MagicValues\<close> holds the code.
\<close>

section \<open>The arithmetic\<close>

text \<open>
  With \<open>N\<close> the sign bit, \<open>M\<close> the multiplier and \<open>P\<close> the power of two behind it, these conditions on the excess
  \<open>e\<close> of \<open>M * |d|\<close> over \<open>P\<close> make the multiplication exact for every dividend.
\<close>

lemma int_div_less:
  fixes a b c :: int
  assumes "0 < b" "a < b * c"
  shows "a div b < c"
proof -
  have "b * (a div b) \<le> a" using mult_div_mod_eq [of b a] pos_mod_sign [OF assms(1), of a] by linarith
  then have "b * (a div b) < b * c" using assms(2) by linarith
  then show ?thesis using assms(1) by simp
qed

definition excess :: "int \<Rightarrow> int \<Rightarrow> int \<Rightarrow> int" where
  "excess d M P = M * \<bar>d\<bar> - P"

definition topOf :: "int \<Rightarrow> int \<Rightarrow> int" where
  "topOf N d = N + (if d < 0 then 1 else 0)"

definition ncOf :: "int \<Rightarrow> int \<Rightarrow> int" where
  "ncOf N d = topOf N d - 1 - topOf N d mod \<bar>d\<bar>"

definition exactMagic :: "int \<Rightarrow> int \<Rightarrow> int \<Rightarrow> int \<Rightarrow> bool" where
  "exactMagic N d M P \<longleftrightarrow> 0 < excess d M P \<and> ncOf N d * excess d M P < P \<and>
     (0 < d \<and> N mod d = d - 1 \<longrightarrow> N * excess d M P \<le> P)"

lemma multiply_split:
  fixes M a P e k :: int
  assumes "M * a = P + e"
  shows "(M * k) * a = (P * (k div a)) * a + (P * (k mod a) + e * k)"
proof -
  have "P * k = P * (a * (k div a)) + P * (k mod a)" by (simp only: flip: distrib_left) simp
  moreover have "(M * k) * a = (M * a) * k" by (simp only: mult_ac)
  then have "(M * k) * a = P * k + e * k" by (simp only: assms distrib_right)
  ultimately show ?thesis by (simp add: mult_ac)
qed

lemma multiply_div_eq:
  fixes M a P e k :: int
  assumes "M * a = P + e" "0 < a" "0 < e" "0 < P" "0 \<le> k" "k * e < P * (a - k mod a)"
  shows "M * k div P = k div a"
proof -
  note Mk = multiply_split [OF assms(1), of k]
  have "0 \<le> P * (k mod a) + e * k" using assms by simp
  moreover have "P * (k mod a) + e * k < P * a" using assms(6) by (simp add: algebra_simps)
  ultimately have "(P * (k div a)) * a \<le> (M * k) * a" "(M * k) * a < (P * (k div a + 1)) * a"
    using Mk by (auto simp: algebra_simps)
  then have "P * (k div a) \<le> M * k" "M * k < P * (k div a + 1)" using assms(2) by simp_all
  then show ?thesis using assms(4) by (intro int_div_pos_eq [of _ _ _ "M * k - P * (k div a)"]) (auto simp: algebra_simps)
qed

lemma multiply_div_neg_eq:
  fixes M a P e k :: int
  assumes "M * a = P + e" "0 < a" "0 < e" "0 < P" "0 < k" "k * e \<le> P * (a - k mod a)"
  shows "(- (M * k)) div P = - (k div a) - 1"
proof -
  note Mk = multiply_split [OF assms(1), of k]
  have "0 < P * (k mod a) + e * k" using assms by (simp add: add_nonneg_pos)
  moreover have "P * (k mod a) + e * k \<le> P * a" using assms(6) by (simp add: algebra_simps)
  ultimately have "(P * (k div a)) * a < (M * k) * a" "(M * k) * a \<le> (P * (k div a + 1)) * a"
    using Mk by (auto simp: algebra_simps)
  then have "P * (k div a) < M * k" "M * k \<le> P * (k div a + 1)" using assms(2) by simp_all
  then show ?thesis using assms(4) by (intro int_div_pos_eq [of _ _ _ "P * (k div a + 1) - M * k"]) (auto simp: algebra_simps)
qed

text \<open>The dividend \<open>nc\<close> is the worst case: what holds there holds up to the top.\<close>

lemma worst_case:
  fixes a t e P k :: int
  assumes a: "2 \<le> a" "a \<le> t" and e: "0 < e" "(t - 1 - t mod a) * e < P" and k: "0 \<le> k" "k < t \<or> k = t \<and> t mod a \<noteq> a - 1"
  shows "k * e < P * (a - k mod a)"
proof -
  define nc where "nc = t - 1 - t mod a"
  have nc: "nc * e < P" "a - 1 \<le> nc" using e(2) a zmod_le_nonneg_dividend [of t a] pos_imp_zdiv_pos_iff [of a t]
      mult_left_mono [of 1 "t div a" a] minus_mod_eq_mult_div [of t a] by (auto simp: nc_def)
  have "0 \<le> nc" using nc(2) a by simp
  then have P: "0 < P" using nc(1) e(1) mult_nonneg_nonneg [of nc e] by linarith
  have kmod: "k mod a < a" using a by simp
  show ?thesis
  proof (cases "k \<le> nc")
    case True
    then have "k * e \<le> nc * e" using e(1) by (intro mult_right_mono) auto
    also have "\<dots> < P" by (rule nc(1))
    also have "P * 1 \<le> P * (a - k mod a)" using kmod P by (intro mult_left_mono) auto
    finally show ?thesis by simp
  next
    case False
    define j where "j = k - (nc + 1)"
    have tm: "0 \<le> t mod a" "t mod a < a" using a by simp_all
    have j: "0 \<le> j" "j \<le> a - 2" using False k(2) tm by (auto simp: j_def nc_def)
    have "k = j + a * (t div a)" by (simp add: j_def nc_def algebra_simps minus_mod_eq_mult_div)
    then have kj: "k mod a = j" using j a by simp
    have "(j + 1) * e \<le> nc * e" using j nc(2) e(1) by (intro mult_right_mono) auto
    then have "k * e < 2 * P" using nc(1) by (simp add: j_def algebra_simps)
    also have "2 * P \<le> P * (a - k mod a)" using mult_left_mono [of 2 "a - k mod a" P] kj j P by (simp add: mult.commute)
    finally show ?thesis .
  qed
qed

text \<open>The quotient that the instruction sequence computes, over the integers.\<close>

lemma magic_quotient_pos:
  assumes d: "2 \<le> d" "d < N" and ok: "exactMagic N d M P" and n: "- N \<le> n" "n < N"
  shows "M * n div P + (if n < 0 then 1 else 0) = n sdiv d"
proof -
  define e where "e = excess d M P"
  have e: "M * d = P + e" "0 < e" "(N - 1 - N mod d) * e < P" "N mod d = d - 1 \<Longrightarrow> N * e \<le> P"
    using ok d by (auto simp: exactMagic_def e_def excess_def ncOf_def topOf_def)
  have P: "0 < P" using worst_case [OF d(1) _ e(2,3), of 0] d by (simp add: zero_less_mult_iff)
  show ?thesis
  proof (cases "n < 0")
    case False
    then have "M * n div P = n div d" using d n e P worst_case [OF d(1) _ e(2,3), of n]
      by (intro multiply_div_eq [of _ _ _ e]) auto
    then show ?thesis using False d by (simp add: signed_divide_int_def sgn_if)
  next
    case True
    have "(- n) * e \<le> P * (d - (- n) mod d)"
    proof (cases "- n = N \<and> N mod d = d - 1")
      case True
      then show ?thesis using e(4) by simp
    next
      case False
      then have "- n < N \<or> - n = N \<and> N mod d \<noteq> d - 1" using n by linarith
      then show ?thesis using worst_case [OF d(1) _ e(2,3), of "- n"] True d by simp
    qed
    then have "(- (M * (- n))) div P = - ((- n) div d) - 1"
      using True d e(1,2) P by (intro multiply_div_neg_eq [of _ _ _ e]) auto
    then show ?thesis using True d by (simp add: signed_divide_int_def sgn_if)
  qed
qed

lemma magic_quotient_neg:
  assumes d: "d \<le> - 2" "- N < d" and ok: "exactMagic N d M P" and n: "- N \<le> n" "n < N"
  shows "(let q = (- M) * n div P in q + (if q < 0 then 1 else 0)) = n sdiv d"
proof -
  define e where "e = excess d M P"
  have e: "M * (- d) = P + e" "0 < e" "(N + 1 - 1 - (N + 1) mod (- d)) * e < P"
    using ok d by (auto simp: exactMagic_def e_def excess_def ncOf_def topOf_def)
  have a: "2 \<le> - d" "- d \<le> N + 1" using d by auto
  have P: "0 < P" using worst_case [OF a e(2,3), of 0] d by (simp add: mult_less_0_iff)
  show ?thesis
  proof (cases "n \<le> 0")
    case True
    then have "M * (- n) div P = (- n) div (- d)" using d n e(1,2) P worst_case [OF a e(2,3), of "- n"]
      by (intro multiply_div_eq [of _ _ _ e]) auto
    moreover have "0 \<le> (- n) div (- d)" using True d by (simp add: pos_imp_zdiv_nonneg_iff del: div_minus_minus)
    ultimately show ?thesis using True d by (simp add: signed_divide_int_def sgn_if)
  next
    case False
    then have "(- (M * n)) div P = - (n div (- d)) - 1"
      using d n e(1,2) P worst_case [OF a e(2,3), of n] by (intro multiply_div_neg_eq [of _ _ _ e]) auto
    moreover have "0 \<le> n div (- d)" using False d by (simp add: pos_imp_zdiv_nonneg_iff del: div_minus_right)
    ultimately show ?thesis using False d by (simp add: signed_divide_int_def sgn_if Let_def)
  qed
qed

section \<open>The loop over the integers\<close>

text \<open>
  The smallest power of two that suffices, as the loop finds it: \<open>delta\<close> is the excess at the exponent \<open>p\<close>.
\<close>

definition deltaAt :: "int \<Rightarrow> nat \<Rightarrow> int" where
  "deltaAt a p = a - 2 ^ p mod a"

definition enough :: "int \<Rightarrow> int \<Rightarrow> nat \<Rightarrow> bool" where
  "enough nc a p \<longleftrightarrow> nc * deltaAt a p < 2 ^ p"

lemma deltaAt_bounds: "2 \<le> a \<Longrightarrow> 0 < deltaAt a p \<and> deltaAt a p \<le> a"
  by (simp add: deltaAt_def)

lemma excess_deltaAt: "excess d (2 ^ p div \<bar>d\<bar> + 1) (2 ^ p) = deltaAt \<bar>d\<bar> p"
  using div_mult_mod_eq [of "2 ^ p" "\<bar>d\<bar>"] by (simp add: excess_def deltaAt_def algebra_simps)

lemma enough_iff:
  assumes "0 < nc"
  shows "\<not> enough nc a p \<longleftrightarrow> 2 ^ p div nc < deltaAt a p \<or> 2 ^ p div nc = deltaAt a p \<and> 2 ^ p mod nc = 0"
proof -
  have p: "2 ^ p = nc * (2 ^ p div nc) + 2 ^ p mod nc" by simp
  have m: "0 \<le> (2 ^ p mod nc :: int)" "2 ^ p mod nc < nc" using assms by simp_all
  consider "2 ^ p div nc < deltaAt a p" | "2 ^ p div nc = deltaAt a p" | "deltaAt a p < 2 ^ p div nc" by linarith
  then show ?thesis
  proof cases
    case 1
    then have "nc * (2 ^ p div nc + 1) \<le> nc * deltaAt a p" using assms by (intro mult_left_mono) auto
    then have "nc * (2 ^ p div nc) + nc \<le> nc * deltaAt a p" by (simp only: distrib_left mult_1_right)
    then have "2 ^ p \<le> nc * deltaAt a p" using p m(2) by linarith
    then show ?thesis using 1 by (simp add: enough_def)
  next
    case 2
    then show ?thesis using p m by (auto simp: enough_def)
  next
    case 3
    then have "nc * (deltaAt a p + 1) \<le> nc * (2 ^ p div nc)" using assms by (intro mult_left_mono) auto
    then have "nc * deltaAt a p + nc \<le> nc * (2 ^ p div nc)" by (simp only: distrib_left mult_1_right)
    then have "nc * deltaAt a p < 2 ^ p" using p m(1) assms by linarith
    then show ?thesis using 3 by (simp add: enough_def)
  qed
qed

text \<open>The divisors for which the loop is used: \<open>2 ^ w\<close> is the sign bit of words of \<open>w + 1\<close> bits.\<close>

definition divisorOk :: "nat \<Rightarrow> int \<Rightarrow> bool" where
  "divisorOk w d \<longleftrightarrow> 2 \<le> w \<and> 2 \<le> \<bar>d\<bar> \<and> \<bar>d\<bar> < 2 ^ w"

lemma topOf_bounds: "N \<le> topOf N d" "topOf N d \<le> N + 1"
  by (simp_all add: topOf_def)

lemma ncOf_eq: "ncOf N d + 1 = \<bar>d\<bar> * (topOf N d div \<bar>d\<bar>)"
  by (simp add: ncOf_def minus_mod_eq_mult_div)

lemma ncOf_upper: "2 \<le> \<bar>d\<bar> \<Longrightarrow> ncOf N d \<le> N"
  using topOf_bounds [of N d] pos_mod_sign [of "\<bar>d\<bar>" "topOf N d"] by (simp only: ncOf_def) linarith

lemma ncOf_lower:
  assumes "2 \<le> \<bar>d\<bar>" "\<bar>d\<bar> < N"
  shows "N \<le> 2 * ncOf N d + 1"
proof -
  let ?a = "\<bar>d\<bar>" and ?t = "topOf N d"
  have "0 < ?a" "?a \<le> ?t" using assms topOf_bounds [of N d] by linarith+
  then have "1 \<le> ?t div ?a" using pos_imp_zdiv_pos_iff [of ?a ?t] by linarith
  then have "?a \<le> ncOf N d + 1" using ncOf_eq [of N d] mult_left_mono [of 1 "?t div ?a" ?a] by simp
  moreover have "?t - ncOf N d - 1 < ?a" using pos_mod_bound [of ?a ?t] assms by (simp add: ncOf_def)
  ultimately show ?thesis using topOf_bounds [of N d] by linarith
qed

lemma ncOf_pos: "divisorOk w d \<Longrightarrow> 1 < ncOf (2 ^ w) d"
  using ncOf_lower [of d "2 ^ w"] power_increasing [of 2 w "2 :: int"] by (simp add: divisorOk_def)

text \<open>The exponent never exceeds \<open>2 * w\<close>.\<close>

lemma enough_at_last:
  assumes "divisorOk w d"
  shows "enough (ncOf (2 ^ w) d) \<bar>d\<bar> (2 * w)"
proof -
  have d: "2 \<le> \<bar>d\<bar>" "\<bar>d\<bar> < 2 ^ w" using assms by (simp_all add: divisorOk_def)
  have "ncOf (2 ^ w) d * deltaAt \<bar>d\<bar> (2 * w) \<le> 2 ^ w * \<bar>d\<bar>"
    using ncOf_upper [OF d(1)] ncOf_pos [OF assms] deltaAt_bounds [OF d(1), of "2 * w"] by (intro mult_mono) auto
  also have "\<dots> < 2 ^ w * 2 ^ w" using d by simp
  finally show ?thesis by (simp add: enough_def mult_2 power_add)
qed

text \<open>As long as the power does not suffice, the next quotient fits into a word.\<close>

lemma delta_at_top:
  assumes "2 \<le> \<bar>d\<bar>" "ncOf (2 ^ w) d = 2 ^ w" "0 < w"
  shows "deltaAt \<bar>d\<bar> p \<le> \<bar>d\<bar> - 1"
proof -
  have dv: "\<bar>d\<bar> dvd 2 ^ w + 1" using ncOf_eq [of "2 ^ w" d] assms(2) by (metis dvd_triv_left)
  have "coprime (2 ^ p) (2 ^ w + 1 :: int)" using assms(3) by simp
  then have "\<not> \<bar>d\<bar> dvd 2 ^ p" using dv assms(1) coprime_common_divisor [of "2 ^ p" "2 ^ w + 1" "\<bar>d\<bar>"] by auto
  then have "2 ^ p mod \<bar>d\<bar> \<noteq> 0" by (simp add: dvd_eq_mod_eq_0)
  moreover have "0 \<le> 2 ^ p mod \<bar>d\<bar>" using assms(1) by simp
  ultimately show ?thesis unfolding deltaAt_def by linarith
qed

lemma next_quotient_fits:
  assumes ok: "divisorOk w d" and p: "p = w \<or> \<not> enough (ncOf (2 ^ w) d) \<bar>d\<bar> p"
  shows "2 ^ Suc p div \<bar>d\<bar> \<le> 2 * 2 ^ w - 2"
  using p
proof
  have d: "2 \<le> \<bar>d\<bar>" "\<bar>d\<bar> < 2 ^ w" and w: "2 \<le> w" using ok by (simp_all add: divisorOk_def)
  {
    assume "p = w"
    have "2 ^ Suc w div \<bar>d\<bar> \<le> 2 ^ Suc w div (2 :: int)" using d by (intro zdiv_mono2) auto
    then show ?thesis using \<open>p = w\<close> w power_increasing [of 1 w "2 :: int"] by simp
  next
    let ?nc = "ncOf (2 ^ w) d"
    assume "\<not> enough ?nc \<bar>d\<bar> p"
    then have le: "2 ^ Suc p \<le> 2 * ?nc * deltaAt \<bar>d\<bar> p" by (simp add: enough_def)
    have "2 * ?nc * deltaAt \<bar>d\<bar> p \<le> (2 * 2 ^ w - 2) * \<bar>d\<bar>"
    proof (cases "?nc = 2 ^ w")
      case False
      then have "2 * ?nc \<le> 2 * 2 ^ w - 2" using ncOf_upper [OF d(1), of "2 ^ w"] by simp
      then show ?thesis using deltaAt_bounds [OF d(1), of p] ncOf_pos [OF ok] by (intro mult_mono) auto
    next
      case True
      then have "2 * ?nc * deltaAt \<bar>d\<bar> p \<le> 2 * 2 ^ w * (\<bar>d\<bar> - 1)" using delta_at_top [OF d(1) True, of p] deltaAt_bounds [OF d(1), of p] w by (intro mult_mono) auto
      also have "\<dots> \<le> (2 * 2 ^ w - 2) * \<bar>d\<bar>" using d by (simp add: algebra_simps)
      finally show ?thesis .
    qed
    with le have "2 ^ Suc p \<le> (2 * 2 ^ w - 2) * \<bar>d\<bar>" by linarith
    then have "2 ^ Suc p div \<bar>d\<bar> \<le> (2 * 2 ^ w - 2) * \<bar>d\<bar> div \<bar>d\<bar>" using d by (intro zdiv_mono1) auto
    then show ?thesis using d by simp
  }
qed

lemma next_nc_quotient_fits:
  assumes ok: "divisorOk w d" and p: "p = w \<or> \<not> enough (ncOf (2 ^ w) d) \<bar>d\<bar> p"
  shows "2 ^ Suc p div ncOf (2 ^ w) d < 2 * 2 ^ w"
proof -
  let ?nc = "ncOf (2 ^ w) d"
  have d: "2 \<le> \<bar>d\<bar>" "\<bar>d\<bar> < 2 ^ w" and w: "2 \<le> w" using ok by (simp_all add: divisorOk_def)
  have nc: "1 < ?nc" by (rule ncOf_pos [OF ok])
  from p have "2 ^ Suc p < ?nc * (2 * 2 ^ w)"
  proof
    assume "p = w"
    moreover have "?nc * 8 \<le> ?nc * (2 * 2 ^ w)" using w nc power_increasing [of 2 w "2 :: int"] by (intro mult_left_mono) auto
    ultimately show ?thesis using ncOf_lower [OF d] nc by simp
  next
    assume "\<not> enough ?nc \<bar>d\<bar> p"
    then have "2 ^ Suc p \<le> ?nc * (2 * deltaAt \<bar>d\<bar> p)" by (simp add: enough_def)
    also have "\<dots> < ?nc * (2 * 2 ^ w)" using deltaAt_bounds [OF d(1), of p] d(2) nc by simp
    finally show ?thesis .
  qed
  then show ?thesis using nc by (intro int_div_less) auto
qed

text \<open>
  A multiplier from the first exponent that suffices is exact, and it is not the sign bit alone.
\<close>

lemma exactMagic_first:
  assumes ok: "divisorOk w d" and "w < p" "enough (ncOf (2 ^ w) d) \<bar>d\<bar> p" "\<And>i. w < i \<Longrightarrow> i < p \<Longrightarrow> \<not> enough (ncOf (2 ^ w) d) \<bar>d\<bar> i"
  shows "exactMagic (2 ^ w) d (2 ^ p div \<bar>d\<bar> + 1) (2 ^ p)"
proof -
  have d: "2 \<le> \<bar>d\<bar>" "\<bar>d\<bar> < 2 ^ w" and w: "2 \<le> w" using ok by (simp_all add: divisorOk_def)
  have "2 ^ w * deltaAt d p \<le> 2 ^ p" if neg: "0 < d" "2 ^ w mod d = d - 1"
  proof -
    have "d \<noteq> 2" using neg(2) w by auto
    have "2 ^ Suc w mod d = (2 * (2 ^ w mod d)) mod d" by (simp add: mod_mult_right_eq)
    also have "2 * (2 ^ w mod d) = d - 2 + d" using neg(2) by simp
    also have "(d - 2 + d) mod d = d - 2" using d neg(1) by (subst mod_add_self2, intro mod_pos_pos_trivial) auto
    finally have delta: "deltaAt d (Suc w) = 2" by (simp add: deltaAt_def)
    have "ncOf (2 ^ w) d < 2 ^ w" using neg by (simp add: ncOf_def topOf_def)
    then have "enough (ncOf (2 ^ w) d) \<bar>d\<bar> (Suc w)" using delta neg(1) by (simp add: enough_def)
    then have "p = Suc w" using assms(2) assms(4) [of "Suc w"] by force
    then show ?thesis using delta by simp
  qed
  moreover have "0 < d \<Longrightarrow> excess d (2 ^ p div \<bar>d\<bar> + 1) (2 ^ p) = deltaAt d p" using excess_deltaAt [of d p] by simp
  ultimately show ?thesis using assms(3) deltaAt_bounds [OF d(1), of p] excess_deltaAt [of d p]
    by (simp add: exactMagic_def enough_def)
qed

lemma multiplier_not_sign_bit:
  assumes ok: "divisorOk w d" and "w < p"
  shows "2 ^ p div \<bar>d\<bar> + 1 \<noteq> 2 ^ w"
proof
  have d: "2 \<le> \<bar>d\<bar>" "\<bar>d\<bar> < 2 ^ w" using ok by (simp_all add: divisorOk_def)
  assume "2 ^ p div \<bar>d\<bar> + 1 = 2 ^ w"
  with excess_deltaAt [of d p] have e: "2 ^ w * \<bar>d\<bar> - 2 ^ p = deltaAt \<bar>d\<bar> p" by (simp add: excess_def)
  have "(2 :: int) ^ w dvd 2 ^ p" using assms(2) by (simp add: le_imp_power_dvd)
  then have "2 ^ w dvd deltaAt \<bar>d\<bar> p" using e by (metis dvd_diff dvd_triv_left)
  then show False using zdvd_imp_le [of "2 ^ w" "deltaAt \<bar>d\<bar> p"] deltaAt_bounds [OF d(1), of p] d(2) by linarith
qed

end
