(* ===== verification/MagicValues.thy ===== *)
theory MagicValues
  imports MagicNumbers
begin

text \<open>
  Division by a constant through a multiplication (\<open>compute32BitMagicValues\<close>, \<open>compute64BitMagicValues\<close> of
  \<open>codegen/OMRCodeGenerator.cpp\<close>): the tables of common divisors with their binary search, and the loop that computes
  the multiplier and the shift. The two functions are copies of each other at two widths; here they are one definition
  for any width with the tables as arguments. A result is \<open>None\<close> where the code divides by zero, reads outside a table
  or overflows a signed integer; that the loop ends is shown.
\<close>

section \<open>The code\<close>

text \<open>The local variables of the loop.\<close>

record 'w magic_state =
  pow :: nat
  quot1 :: 'w
  rem1 :: 'w
  quot2 :: 'w
  rem2 :: 'w

definition magicStep :: "'a::len word \<Rightarrow> 'a word \<Rightarrow> 'a word magic_state \<Rightarrow> 'a word magic_state" where
  "magicStep anc ad s =
     (let q1' = 2 * quot1 s; r1' = 2 * rem1 s;
          (q1'', r1'') = (if r1' \<ge> anc then (q1' + 1, r1' - anc) else (q1', r1'));
          q2' = 2 * quot2 s; r2' = 2 * rem2 s;
          (q2'', r2'') = (if r2' \<ge> ad then (q2' + 1, r2' - ad) else (q2', r2'))
      in \<lparr>pow = pow s + 1, quot1 = q1'', rem1 = r1'', quot2 = q2'', rem2 = r2''\<rparr>)"

partial_function (option) magicLoop :: "'a::len word \<Rightarrow> 'a word \<Rightarrow> 'a word magic_state \<Rightarrow> 'a word magic_state option" where
  "magicLoop anc ad s =
     (let s' = magicStep anc ad s; delta = ad - rem2 s'
      in if quot1 s' < delta \<or> quot1 s' = delta \<and> rem1 s' = 0 then magicLoop anc ad s' else Some s')"

declare magicLoop.simps [code]

text \<open>The state the loop starts with: \<open>signBit\<close> is \<open>two31\<close> or \<open>two63\<close>.\<close>

definition signBit :: "'a::len word" where
  "signBit = push_bit (LENGTH('a) - 1) 1"

definition magicStart :: "'a::len word \<Rightarrow> 'a word \<Rightarrow> 'a word magic_state" where
  "magicStart anc ad =
     (let q1' = signBit div anc; q2' = signBit div ad
      in \<lparr>pow = LENGTH('a) - 1, quot1 = q1', rem1 = signBit - q1' * anc, quot2 = q2', rem2 = signBit - q2' * ad\<rparr>)"

definition computeMagic :: "'a::len word \<Rightarrow> ('a word \<times> 'a word) option" where
  "computeMagic d =
     (let ad = (if sint d < 0 then - d else d);
          t = signBit + drop_bit (LENGTH('a) - 1) d;
          anc = t - 1 - t mod ad
      in if d = 0 \<or> d = signBit \<or> anc = 0 then None
         else do { s \<leftarrow> magicLoop anc ad (magicStart anc ad);
           let m = quot2 s + 1 in
           if sint d < 0 \<and> m = signBit then None
           else Some (if sint d < 0 then - m else m, word_of_int (int (pow s) - int LENGTH('a))) })"

text \<open>The binary search; \<open>gt\<close> is the comparison of the divisor with a key, unsigned in the first function.\<close>

function searchTable :: "('a::len word \<Rightarrow> 'a word \<Rightarrow> bool) \<Rightarrow> ('a word \<times> 'a word \<times> 'a word) list \<Rightarrow> 'a word \<Rightarrow> int \<Rightarrow> int
    \<Rightarrow> ('a word \<times> 'a word) option option" where
  "searchTable gt tab d lo hi =
     (if lo \<le> hi then
        let mid = (lo + hi) div 2 in
        case rd tab mid of None \<Rightarrow> None
        | Some (key, m, s) \<Rightarrow>
            if key = d then Some (Some (m, s))
            else if gt d key then searchTable gt tab d (mid + 1) hi
            else searchTable gt tab d lo (mid - 1)
      else Some None)"
  by pat_completeness auto
termination by (relation "measure (\<lambda>(gt, tab, d, lo, hi). nat (hi - lo + 1))") auto

declare searchTable.simps [simp del]

definition div32BitMagicValues :: "(u32 \<times> u32 \<times> u32) list" where
  "div32BitMagicValues =
     [(3, 0x55555556, 0), (5, 0x66666667, 1), (7, 0x92492493, 2), (9, 0x38e38e39, 1), (10, 0x66666667, 2),
      (12, 0x2aaaaaab, 1), (24, 0x2aaaaaab, 2), (60, 0x88888889, 5), (100, 0x51eb851f, 5), (1000, 0x10624dd3, 6),
      (3600, 0x91a2b3c5, 11)]"

definition div64BitMagicValues :: "(u64 \<times> u64 \<times> u64) list" where
  "div64BitMagicValues =
     [(3, 0x5555555555555556, 0), (5, 0x6666666666666667, 1), (7, 0x4924924924924925, 1), (9, 0x1c71c71c71c71c72, 0),
      (10, 0x6666666666666667, 2), (12, 0x2aaaaaaaaaaaaaab, 1)]"

definition compute32BitMagicValues :: "u32 \<Rightarrow> (u32 \<times> u32) option" where
  "compute32BitMagicValues d =
     do { cached \<leftarrow> searchTable (\<lambda>x y. uint x > uint y) div32BitMagicValues d 0 (int (length div32BitMagicValues) - 1);
       case cached of Some ms \<Rightarrow> Some ms | None \<Rightarrow> computeMagic d }"

definition compute64BitMagicValues :: "u64 \<Rightarrow> (u64 \<times> u64) option" where
  "compute64BitMagicValues d =
     do { cached \<leftarrow> searchTable (\<lambda>x y. sint x > sint y) div64BitMagicValues d 0 (int (length div64BitMagicValues) - 1);
       case cached of Some ms \<Rightarrow> Some ms | None \<Rightarrow> computeMagic d }"

section \<open>The loop\<close>

lemma div_mod_double:
  fixes n x :: int
  assumes "0 < n"
  shows "2 * x div n = 2 * (x div n) + (if n \<le> 2 * (x mod n) then 1 else 0)"
    and "2 * x mod n = 2 * (x mod n) - (if n \<le> 2 * (x mod n) then n else 0)"
proof -
  have m: "0 \<le> x mod n" "x mod n < n" using assms by simp_all
  obtain q r where qr: "x div n = q" "x mod n = r" "x = n * q + r" using mult_div_mod_eq [of n x] by metis
  then have "2 * x = n * (2 * (x div n) + (if n \<le> 2 * (x mod n) then 1 else 0)) + (2 * (x mod n) - (if n \<le> 2 * (x mod n) then n else 0))"
    by (simp only: qr(1,2)) (simp add: algebra_simps)
  moreover have "0 \<le> 2 * (x mod n) - (if n \<le> 2 * (x mod n) then n else 0)" "2 * (x mod n) - (if n \<le> 2 * (x mod n) then n else 0) < n"
    using m by auto
  ultimately show "2 * x div n = 2 * (x div n) + (if n \<le> 2 * (x mod n) then 1 else 0)"
    and "2 * x mod n = 2 * (x mod n) - (if n \<le> 2 * (x mod n) then n else 0)"
    by (auto intro!: int_div_pos_eq int_mod_pos_eq)
qed

text \<open>One doubling of a quotient and a remainder, on words that can hold the results.\<close>

lemma uint_double: "2 * uint (r :: 'a::len word) < 2 ^ LENGTH('a) \<Longrightarrow> uint (2 * r) = 2 * uint r"
  by (simp only: mult_2 uint_word_ariths(1)) simp

lemma double_step:
  fixes q r n :: "'a::len word"
  assumes q: "uint q = x div uint n" and r: "uint r = x mod uint n" and n: "0 < uint n" and x: "0 \<le> x"
    and fit: "2 * uint r < 2 ^ LENGTH('a)" "2 * x div uint n < 2 ^ LENGTH('a)"
    and res: "(q', r') = (if 2 * r \<ge> n then (2 * q + 1, 2 * r - n) else (2 * q, 2 * r))"
  shows "uint q' = 2 * x div uint n \<and> uint r' = 2 * x mod uint n"
proof -
  note dm = div_mod_double [OF n, of x]
  have r2: "uint (2 * r) = 2 * uint r" by (rule uint_double [OF fit(1)])
  have ge: "2 * r \<ge> n \<longleftrightarrow> uint n \<le> 2 * (x mod uint n)" using r2 r by (simp add: word_le_def)
  have "2 * uint q < 2 ^ LENGTH('a)" using fit(2) dm(1) q by (auto split: if_splits)
  then have q2: "uint (2 * q) = 2 * uint q" by (rule uint_double)
  show ?thesis
  proof (cases "2 * r \<ge> n")
    case True
    then have qr: "q' = 2 * q + 1" "r' = 2 * r - n" using res by simp_all
    have "uint q' = (2 * uint q + 1) mod 2 ^ LENGTH('a)" using q2 qr by (simp add: uint_word_ariths)
    then have "uint q' = 2 * uint q + 1" using fit(2) dm(1) True ge q uint_ge_0 [of q] by simp
    moreover have "uint r' = 2 * uint r - uint n" using qr r2 True by (simp add: uint_minus_simple_alt word_le_def)
    ultimately show ?thesis using dm True ge q r by simp
  next
    case False
    then show ?thesis using res q2 r2 dm ge q r by simp
  qed
qed

definition magicInv :: "'a::len word \<Rightarrow> 'a word \<Rightarrow> 'a word magic_state \<Rightarrow> bool" where
  "magicInv anc ad s \<longleftrightarrow> uint (quot1 s) = 2 ^ pow s div uint anc \<and> uint (rem1 s) = 2 ^ pow s mod uint anc \<and>
     uint (quot2 s) = 2 ^ pow s div uint ad \<and> uint (rem2 s) = 2 ^ pow s mod uint ad"

lemma magicStep_inv:
  fixes anc ad :: "'a::len word"
  assumes inv: "magicInv anc ad s" and pos: "0 < uint anc" "0 < uint ad"
    and half: "2 * uint anc \<le> 2 ^ LENGTH('a)" "2 * uint ad \<le> 2 ^ LENGTH('a)"
    and fit: "2 ^ Suc (pow s) div uint anc < 2 ^ LENGTH('a)" "2 ^ Suc (pow s) div uint ad < 2 ^ LENGTH('a)"
  shows "magicInv anc ad (magicStep anc ad s) \<and> pow (magicStep anc ad s) = Suc (pow s)"
proof -
  obtain a b where ab: "(a, b) = (if 2 * rem1 s \<ge> anc then (2 * quot1 s + 1, 2 * rem1 s - anc) else (2 * quot1 s, 2 * rem1 s))" by (metis surj_pair)
  obtain c e where ce: "(c, e) = (if 2 * rem2 s \<ge> ad then (2 * quot2 s + 1, 2 * rem2 s - ad) else (2 * quot2 s, 2 * rem2 s))" by (metis surj_pair)
  have step: "magicStep anc ad s = \<lparr>pow = pow s + 1, quot1 = a, rem1 = b, quot2 = c, rem2 = e\<rparr>"
    by (simp only: magicStep_def Let_def ab [symmetric] ce [symmetric] split_conv)
  have "2 * uint (rem1 s) < 2 ^ LENGTH('a)" "2 * uint (rem2 s) < 2 ^ LENGTH('a)"
    using inv half pos_mod_bound [OF pos(1), of "2 ^ pow s"] pos_mod_bound [OF pos(2), of "2 ^ pow s"] by (auto simp: magicInv_def)
  then have "uint a = 2 * 2 ^ pow s div uint anc \<and> uint b = 2 * 2 ^ pow s mod uint anc"
    and "uint c = 2 * 2 ^ pow s div uint ad \<and> uint e = 2 * 2 ^ pow s mod uint ad"
    using double_step [OF _ _ pos(1) _ _ _ ab, of "2 ^ pow s"] double_step [OF _ _ pos(2) _ _ _ ce, of "2 ^ pow s"] inv fit
    by (simp_all add: magicInv_def)
  then show ?thesis by (simp add: step magicInv_def)
qed

text \<open>The condition of the loop is that the power of two does not suffice.\<close>

lemma loop_condition:
  fixes anc ad :: "'a::len word"
  assumes inv: "magicInv anc ad s" and anc: "0 < uint anc" and ad: "2 \<le> uint ad"
  shows "quot1 s < ad - rem2 s \<or> quot1 s = ad - rem2 s \<and> rem1 s = 0 \<longleftrightarrow> \<not> enough (uint anc) (uint ad) (pow s)"
proof -
  have "2 ^ pow s mod uint ad < uint ad" using ad by (intro pos_mod_bound) simp
  then have "uint (rem2 s) \<le> uint ad" using inv by (simp add: magicInv_def)
  then have "uint (ad - rem2 s) = deltaAt (uint ad) (pow s)"
    using inv uint_minus_simple_alt [of "rem2 s" ad] by (simp add: word_le_def deltaAt_def magicInv_def)
  then show ?thesis using inv word_uint_eq_iff [of "quot1 s" "ad - rem2 s"]
    by (simp add: enough_iff [OF anc] word_less_def magicInv_def flip: uint_0_iff)
qed

definition firstEnough :: "nat \<Rightarrow> int \<Rightarrow> nat \<Rightarrow> bool" where
  "firstEnough w d p \<longleftrightarrow> w < p \<and> enough (ncOf (2 ^ w) d) \<bar>d\<bar> p \<and> (\<forall>i. w < i \<longrightarrow> i < p \<longrightarrow> \<not> enough (ncOf (2 ^ w) d) \<bar>d\<bar> i)"

lemma magicLoop_returns:
  fixes anc ad :: "'a::len word"
  assumes len: "LENGTH('a) = Suc w" and ok: "divisorOk w d" and ad: "uint ad = \<bar>d\<bar>" and anc: "uint anc = ncOf (2 ^ w) d"
    and inv: "magicInv anc ad s" and p: "w \<le> pow s" "pow s < 2 * w" "\<forall>i. w < i \<longrightarrow> i \<le> pow s \<longrightarrow> \<not> enough (ncOf (2 ^ w) d) \<bar>d\<bar> i"
  shows "\<exists>s'. magicLoop anc ad s = Some s' \<and> magicInv anc ad s' \<and> firstEnough w d (pow s') \<and> pow s' \<le> 2 * w"
  using inv p
proof (induction "2 * w - pow s" arbitrary: s)
  case (Suc n)
  let ?s = "magicStep anc ad s"
  have d: "2 \<le> \<bar>d\<bar>" "\<bar>d\<bar> < 2 ^ w" using ok by (simp_all add: divisorOk_def)
  have nc: "0 < uint anc" "2 * uint anc \<le> 2 ^ LENGTH('a)" using ncOf_pos [OF ok] ncOf_upper [OF d(1), of "2 ^ w"] len anc by simp_all
  have pw: "pow s = w \<or> \<not> enough (ncOf (2 ^ w) d) \<bar>d\<bar> (pow s)" using Suc.prems(2,4) by (cases "pow s = w") auto
  have fit: "2 ^ Suc (pow s) div uint anc < 2 ^ LENGTH('a)" "2 ^ Suc (pow s) div uint ad < 2 ^ LENGTH('a)"
    using next_nc_quotient_fits [OF ok pw] next_quotient_fits [OF ok pw] len ad anc by simp_all
  have ad2: "0 < uint ad" "2 \<le> uint ad" "2 * uint ad \<le> 2 ^ LENGTH('a)" using d ad len by simp_all
  from magicStep_inv [OF Suc.prems(1) nc(1) ad2(1) nc(2) ad2(3) fit]
  have step: "magicInv anc ad ?s" "pow ?s = Suc (pow s)" by simp_all
  note cond = loop_condition [OF step(1) nc(1) ad2(2), unfolded ad anc]
  show ?case
  proof (cases "enough (ncOf (2 ^ w) d) \<bar>d\<bar> (pow ?s)")
    case True
    then have "magicLoop anc ad s = Some ?s" using cond by (subst magicLoop.simps) (auto simp: Let_def)
    moreover have "firstEnough w d (pow ?s)" using True step(2) Suc.prems(2,4) by (auto simp: firstEnough_def)
    ultimately show ?thesis using step Suc.prems(3) by simp
  next
    case False
    then have eq: "magicLoop anc ad s = magicLoop anc ad ?s" using cond by (subst magicLoop.simps) (simp add: Let_def)
    have "pow ?s \<noteq> 2 * w" using False enough_at_last [OF ok] by auto
    then have "pow ?s < 2 * w" using step(2) Suc.prems(3) by simp
    moreover have "n = 2 * w - pow ?s" using Suc.hyps(2) step(2) by simp
    moreover have "\<forall>i. w < i \<longrightarrow> i \<le> pow ?s \<longrightarrow> \<not> enough (ncOf (2 ^ w) d) \<bar>d\<bar> i" using False Suc.prems(4) step(2) by (auto simp: le_Suc_eq)
    ultimately show ?thesis using Suc.hyps(1) [of ?s] step Suc.prems(2) eq by simp
  qed
qed simp

section \<open>The values computed\<close>

lemma uint_signBit: "uint (signBit :: 'a::len word) = 2 ^ (LENGTH('a) - 1)"
proof -
  have "int (unat (signBit :: 'a word)) = 2 ^ (LENGTH('a) - 1)" by (simp only: signBit_def unat_push_bit_1 len_gt_0 diff_less zero_less_one) simp
  then show ?thesis by simp
qed

text \<open>Words as integers: with \<open>w + 1\<close> bits, the sign bit is \<open>2 ^ w\<close>.\<close>

lemma uint_of_sint:
  fixes d :: "'a::len word"
  assumes "LENGTH('a) = Suc w"
  shows "uint d = sint d + (if sint d < 0 then 2 * 2 ^ w else 0)" "- (2 ^ w) \<le> sint d" "sint d < 2 ^ w"
proof -
  show r: "- (2 ^ w) \<le> sint d" "sint d < 2 ^ w" using sint_ge [of d] sint_lt [of d] assms by simp_all
  have "uint d = sint d mod 2 ^ LENGTH('a)" by (simp add: uint_sint take_bit_eq_mod)
  also have "\<dots> = sint d + (if sint d < 0 then 2 * 2 ^ w else 0)"
  proof (cases "sint d < 0")
    case True
    have "(sint d + 2 * 2 ^ w) mod (2 * 2 ^ w) = sint d + 2 * 2 ^ w" using r True by (intro mod_pos_pos_trivial) auto
    then show ?thesis using True assms by simp
  next
    case False
    then show ?thesis using r assms by (simp add: mod_pos_pos_trivial)
  qed
  finally show "uint d = sint d + (if sint d < 0 then 2 * 2 ^ w else 0)" .
qed

lemma uint_abs:
  fixes d :: "'a::len word"
  assumes "LENGTH('a) = Suc w" "sint d \<noteq> - (2 ^ w)"
  shows "uint (if sint d < 0 then - d else d) = \<bar>sint d\<bar>"
proof (cases "sint d < 0")
  case True
  note u = uint_of_sint [OF assms(1), of d]
  have "uint (- d) = (- uint d) mod 2 ^ LENGTH('a)" by (simp add: uint_word_ariths)
  also have "\<dots> = (- sint d + (- 1) * (2 * 2 ^ w)) mod (2 * 2 ^ w)" using u True assms(1) by (simp add: algebra_simps)
  also have "\<dots> = (- sint d) mod (2 * 2 ^ w)" by (rule mod_mult_self1)
  also have "\<dots> = - sint d" using u True assms(2) by (intro mod_pos_pos_trivial) auto
  finally show ?thesis using True by simp
next
  case False
  then show ?thesis using uint_of_sint [OF assms(1), of d] by simp
qed

lemma uint_top:
  fixes d :: "'a::len word"
  assumes "LENGTH('a) = Suc w" "2 \<le> w"
  shows "uint (signBit + drop_bit (LENGTH('a) - 1) d) = topOf (2 ^ w) (sint d)"
proof -
  note u = uint_of_sint [OF assms(1), of d]
  have "drop_bit w d = d div signBit" using assms(1) by (simp add: signBit_def push_bit_eq_mult drop_bit_eq_div)
  then have "uint (drop_bit w d) = uint d div 2 ^ w" using assms(1) uint_signBit [where 'a = 'a] by (simp add: uint_div)
  also have "\<dots> = (if sint d < 0 then 1 else 0)"
  proof (cases "sint d < 0")
    case True
    then have "uint d = 1 * 2 ^ w + (sint d + 2 ^ w)" using u by simp
    then have "uint d div 2 ^ w = 1 + (sint d + 2 ^ w) div 2 ^ w" by (metis div_mult_self3 power_not_zero zero_neq_numeral)
    then show ?thesis using True u by (simp add: div_pos_pos_trivial)
  next
    case False
    then show ?thesis using u by (simp add: div_pos_pos_trivial)
  qed
  finally have "uint (signBit + drop_bit (LENGTH('a) - 1) d) = topOf (2 ^ w) (sint d) mod (2 * 2 ^ w)"
    using assms(1) uint_signBit [where 'a = 'a] by (simp add: uint_word_ariths topOf_def)
  moreover have "topOf (2 ^ w) (sint d) < 2 * 2 ^ w" "0 \<le> topOf (2 ^ w) (sint d)"
    using power_increasing [of 2 w "2 :: int"] assms(2) by (auto simp: topOf_def)
  ultimately show ?thesis by (simp add: mod_pos_pos_trivial)
qed

lemma uint_anc:
  fixes d ad :: "'a::len word"
  assumes "LENGTH('a) = Suc w" "divisorOk w (sint d)" "uint ad = \<bar>sint d\<bar>" "uint t = topOf (2 ^ w) (sint d)"
  shows "uint (t - 1 - t mod ad) = ncOf (2 ^ w) (sint d)"
proof -
  have one: "uint (t - 1) = topOf (2 ^ w) (sint d) - 1"
    using assms(2,4) topOf_bounds [of "2 ^ w" "sint d"] power_increasing [of 2 w "2 :: int"] uint_minus_simple_alt [of 1 t]
    by (simp add: word_le_def divisorOk_def)
  have m: "uint (t mod ad) = topOf (2 ^ w) (sint d) mod \<bar>sint d\<bar>" using assms(3,4) by (simp add: uint_mod)
  moreover have "0 < ncOf (2 ^ w) (sint d)" using ncOf_pos [OF assms(2)] by simp
  ultimately have "t mod ad \<le> t - 1" using one by (simp add: word_le_def ncOf_def)
  then show ?thesis using one m uint_minus_simple_alt [of "t mod ad" "t - 1"] by (simp add: ncOf_def)
qed

lemma magicStart_inv:
  fixes anc ad :: "'a::len word"
  assumes "0 < uint anc" "0 < uint ad"
  shows "magicInv anc ad (magicStart anc ad)" "pow (magicStart anc ad) = LENGTH('a) - 1"
proof -
  have "uint (signBit - signBit div n * n) = 2 ^ (LENGTH('a) - 1) mod uint n" for n :: "'a word"
    by (simp add: minus_div_mult_eq_mod uint_mod uint_signBit)
  then show "magicInv anc ad (magicStart anc ad)"
    by (simp add: magicInv_def magicStart_def Let_def uint_div uint_signBit)
qed (simp add: magicStart_def Let_def)

text \<open>Values that are exact for every dividend of the width.\<close>

definition validMagic :: "'a::len word \<Rightarrow> 'a word \<Rightarrow> 'a word \<Rightarrow> bool" where
  "validMagic d m s \<longleftrightarrow> (\<exists>M. m = word_of_int (if sint d < 0 then - M else M) \<and> 0 < M \<and> M < 2 ^ LENGTH('a) \<and>
     unat s < LENGTH('a) \<and> exactMagic (2 ^ (LENGTH('a) - 1)) (sint d) M (2 ^ (LENGTH('a) + unat s)))"

lemma unat_shift:
  assumes "LENGTH('a) \<le> n" "n \<le> 2 * LENGTH('a)"
  shows "unat (word_of_int (int n - int LENGTH('a)) :: 'a::len word) = n - LENGTH('a)"
proof -
  have "n - LENGTH('a) < 2 ^ LENGTH('a)" using assms(2) less_exp [of "LENGTH('a)"] by linarith
  moreover have "(word_of_int (int n - int LENGTH('a)) :: 'a word) = word_of_nat (n - LENGTH('a))" using assms(1) by (simp flip: of_nat_diff)
  ultimately show ?thesis by (simp add: unat_of_nat)
qed

lemma computeMagic_valid:
  fixes d :: "'a::len word"
  assumes len: "LENGTH('a) = Suc w" and ok: "divisorOk w (sint d)"
  shows "\<exists>m s. computeMagic d = Some (m, s) \<and> validMagic d m s"
proof -
  define ad where "ad = (if sint d < 0 then - d else d)"
  define t where "t = signBit + drop_bit (LENGTH('a) - 1) d"
  define anc where "anc = t - 1 - t mod ad"
  have dd: "2 \<le> \<bar>sint d\<bar>" "\<bar>sint d\<bar> < 2 ^ w" and w: "2 \<le> w" using ok by (simp_all add: divisorOk_def)
  then have ad: "uint ad = \<bar>sint d\<bar>" unfolding ad_def by (intro uint_abs [OF len]) auto
  have t: "uint t = topOf (2 ^ w) (sint d)" unfolding t_def by (rule uint_top [OF len w])
  have anc: "uint anc = ncOf (2 ^ w) (sint d)" unfolding anc_def by (rule uint_anc [OF len ok ad t])
  have pos: "0 < uint anc" "0 < uint ad" using anc ad dd ncOf_pos [OF ok] by simp_all
  have start: "w \<le> pow (magicStart anc ad)" "pow (magicStart anc ad) < 2 * w" "pow (magicStart anc ad) = w"
    using magicStart_inv(2) [OF pos] len w by simp_all
  then obtain s where s: "magicLoop anc ad (magicStart anc ad) = Some s" "magicInv anc ad s" "firstEnough w (sint d) (pow s)" "pow s \<le> 2 * w"
    using magicLoop_returns [OF len ok ad anc magicStart_inv(1) [OF pos]] by auto
  define M where "M = 2 ^ pow s div \<bar>sint d\<bar> + 1"
  have p: "w < pow s" "pow s - 1 = w \<or> \<not> enough (ncOf (2 ^ w) (sint d)) \<bar>sint d\<bar> (pow s - 1)"
    using s(3) by (auto simp: firstEnough_def)
  then have "M < 2 ^ LENGTH('a)" using next_quotient_fits [OF ok p(2)] len by (simp add: M_def)
  moreover have "0 < M" using dd by (simp add: M_def add_nonneg_pos pos_imp_zdiv_nonneg_iff)
  moreover have "exactMagic (2 ^ w) (sint d) M (2 ^ pow s)"
    unfolding M_def using s(3) by (intro exactMagic_first [OF ok]) (auto simp: firstEnough_def)
  moreover have "uint (quot2 s + 1) = M" using s(2) ad calculation by (simp add: magicInv_def uint_word_ariths M_def)
  then have m: "quot2 s + 1 = word_of_int M" by (metis word_of_int_uint)
  moreover have "quot2 s + 1 \<noteq> signBit" using \<open>uint (quot2 s + 1) = M\<close> multiplier_not_sign_bit [OF ok p(1)] uint_signBit [where 'a = 'a] len
    by (auto simp: M_def)
  moreover have "d \<noteq> 0" "d \<noteq> signBit" "anc \<noteq> 0" using dd pos uint_of_sint [OF len, of d] uint_signBit [where 'a = 'a] len by (auto split: if_splits)
  moreover define sh where "sh = (word_of_int (int (pow s) - int LENGTH('a)) :: 'a word)"
  have sh: "unat sh = pow s - LENGTH('a)" unfolding sh_def by (rule unat_shift) (use p(1) s(4) len in auto)
  have "computeMagic d = (if sint d < 0 \<and> quot2 s + 1 = signBit then None
      else Some (if sint d < 0 then - (quot2 s + 1) else quot2 s + 1, sh))"
    unfolding computeMagic_def Let_def ad_def [symmetric] t_def [symmetric] anc_def [symmetric] sh_def
    using \<open>d \<noteq> 0\<close> \<open>d \<noteq> signBit\<close> \<open>anc \<noteq> 0\<close> s(1) by simp
  moreover have "LENGTH('a) + unat sh = pow s" "unat sh < LENGTH('a)" using sh p(1) s(4) len by auto
  ultimately have "computeMagic d = Some (if sint d < 0 then - (quot2 s + 1) else quot2 s + 1, sh)"
      "validMagic d (if sint d < 0 then - (quot2 s + 1) else quot2 s + 1) sh"
    unfolding validMagic_def using len by (auto intro!: exI [of _ M])
  then show ?thesis by blast
qed

section \<open>The tables\<close>

lemma searchTable_returns:
  "0 \<le> lo \<Longrightarrow> hi < int (length tab) \<Longrightarrow>
   \<exists>r. searchTable gt tab d lo hi = Some r \<and> (\<forall>m s. r = Some (m, s) \<longrightarrow> (d, m, s) \<in> set tab)"
proof (induction gt tab d lo hi rule: searchTable.induct)
  case (1 gt tab d lo hi)
  show ?case
  proof (cases "lo \<le> hi")
    case True
    define mid where "mid = (lo + hi) div 2"
    have mid: "lo \<le> mid" "mid \<le> hi" using True by (auto simp: mid_def)
    obtain key m s where row: "tab ! nat mid = (key, m, s)" by (metis surj_pair)
    have rd: "rd tab mid = Some (key, m, s)" using mid 1(3,4) row by (simp add: rd_def)
    have mem: "(key, m, s) \<in> set tab" using mid 1(3,4) row by (metis nat_less_iff nth_mem order_le_less_trans order_trans)
    note IH = 1(1,2) [OF True mid_def rd refl refl]
    have eq: "searchTable gt tab d lo hi = (if key = d then Some (Some (m, s))
        else if gt d key then searchTable gt tab d (mid + 1) hi else searchTable gt tab d lo (mid - 1))"
      using True rd by (subst searchTable.simps) (simp add: mid_def Let_def)
    consider "key = d" | "key \<noteq> d" "gt d key" | "key \<noteq> d" "\<not> gt d key" by blast
    then show ?thesis
    proof cases
      case 1
      then show ?thesis using eq mem by auto
    qed (use eq IH mid 1(3,4) in auto)
  qed (subst searchTable.simps, simp)
qed

definition rowValid :: "('a::len word \<times> 'a word \<times> 'a word) \<Rightarrow> bool" where
  "rowValid row = (case row of (d, m, s) \<Rightarrow> 0 < sint d \<and> 0 < uint m \<and> unat s < LENGTH('a) \<and>
     exactMagic (2 ^ (LENGTH('a) - 1)) (sint d) (uint m) (2 ^ (LENGTH('a) + unat s)))"

lemma rowValid_magic: "rowValid (d, m, s) \<Longrightarrow> validMagic d m s"
  by (auto simp: rowValid_def validMagic_def intro!: exI [of _ "uint m"])

lemma tables_valid: "list_all rowValid div32BitMagicValues" "list_all rowValid div64BitMagicValues"
  by code_simp+

lemma cached_or_computed:
  fixes d :: "'a::len word"
  assumes "LENGTH('a) = Suc w" "divisorOk w (sint d)" "list_all rowValid tab"
  shows "\<exists>m s. do { cached \<leftarrow> searchTable gt tab d 0 (int (length tab) - 1);
      case cached of Some ms \<Rightarrow> Some ms | None \<Rightarrow> computeMagic d } = Some (m, s) \<and> validMagic d m s"
proof -
  obtain r where r: "searchTable gt tab d 0 (int (length tab) - 1) = Some r" "\<forall>m s. r = Some (m, s) \<longrightarrow> (d, m, s) \<in> set tab"
    using searchTable_returns [of 0 "int (length tab) - 1" tab gt d] by auto
  show ?thesis
  proof (cases r)
    case None
    then show ?thesis using r computeMagic_valid [OF assms(1,2)] by simp
  next
    case (Some ms)
    obtain m s where ms: "ms = (m, s)" by (cases ms)
    then have "rowValid (d, m, s)" using r(2) Some assms(3) by (auto simp: list_all_iff)
    then show ?thesis using r(1) Some ms rowValid_magic by auto
  qed
qed

lemma compute32_valid: "divisorOk 31 (sint d) \<Longrightarrow> \<exists>m s. compute32BitMagicValues d = Some (m, s) \<and> validMagic d m s"
  unfolding compute32BitMagicValues_def by (rule cached_or_computed) (simp_all add: tables_valid)

lemma compute64_valid: "divisorOk 63 (sint d) \<Longrightarrow> \<exists>m s. compute64BitMagicValues d = Some (m, s) \<and> validMagic d m s"
  unfolding compute64BitMagicValues_def by (rule cached_or_computed) (simp_all add: tables_valid)

end
