(* ===== verification/ILNode.thy ===== *)
theory ILNode
  imports Bits MagicValues
begin

text \<open>
  The integer expressions of the intermediate language that the division handlers of the simplifier build, and their
  values. The values are those with which the simplifier folds constants (\<open>optimizer/OMRSimplifierHandlers.cpp\<close>); the
  high half of a long product is computed from 32-bit digits there, and shown to be the high half.
\<close>

section \<open>Folding of constants\<close>

definition SHIFT_MASK :: "'a::len itself \<Rightarrow> u32" where
  "SHIFT_MASK t = word_of_nat (LENGTH('a) - 1)"

definition foldShl :: "'a::len word \<Rightarrow> u32 \<Rightarrow> 'a word" where
  "foldShl x k = push_bit (unat (k AND SHIFT_MASK TYPE('a))) x"

definition foldShr :: "'a::len word \<Rightarrow> u32 \<Rightarrow> 'a word" where
  "foldShr x k = signed_drop_bit (unat (k AND SHIFT_MASK TYPE('a))) x"

definition foldUshr :: "'a::len word \<Rightarrow> u32 \<Rightarrow> 'a word" where
  "foldUshr x k = drop_bit (unat (k AND SHIFT_MASK TYPE('a))) x"

definition imulh :: "u32 \<Rightarrow> u32 \<Rightarrow> u32" where
  "imulh x y = (let product = scast x * scast y :: u64; high = signed_drop_bit 32 product in ucast high)"

text \<open>
  \<open>lmulh\<close>: \<open>u0\<close>, \<open>v0\<close> and \<open>w0\<close> are unsigned, the other variables signed; the products of a signed and an unsigned
  number are unsigned.
\<close>

definition lmulh :: "u64 \<Rightarrow> u64 \<Rightarrow> u64" where
  "lmulh op1 op2 =
     (let u0 = op1 AND 0xFFFFFFFF; u1 = signed_drop_bit 32 op1;
          v0 = op2 AND 0xFFFFFFFF; v1 = signed_drop_bit 32 op2;
          w0 = u0 * v0;
          t = u1 * v0 + drop_bit 32 w0;
          w1 = t AND 0xFFFFFFFF;
          w2 = signed_drop_bit 32 t;
          w1' = u0 * v1 + w1
      in u1 * v1 + w2 + signed_drop_bit 32 w1')"

text \<open>The high half of a signed product.\<close>

definition mulHigh :: "'a::len word \<Rightarrow> 'a word \<Rightarrow> 'a word" where
  "mulHigh x y = word_of_int (sint x * sint y div 2 ^ LENGTH('a))"

lemma word_of_sint: "word_of_int (sint (x :: 'a::len word)) = x"
  by simp

lemma sint_signed_drop_bit: "sint (signed_drop_bit n (x :: 'a::len word)) = sint x div 2 ^ n"
  by (simp add: sint_signed_drop_bit_eq drop_bit_eq_div)

lemma signed_drop_bit_eq: "signed_drop_bit n (x :: 'a::len word) = word_of_int (sint x div 2 ^ n)"
  by (simp flip: sint_signed_drop_bit)

lemma sint_word_of_int:
  "LENGTH('a::len) = Suc w \<Longrightarrow> - (2 ^ w) \<le> k \<Longrightarrow> k < 2 ^ w \<Longrightarrow> sint (word_of_int k :: 'a word) = k"
  by (simp add: sint_sbintrunc' signed_take_bit_int_eq_self)

lemma uint_and_mask32: "uint (x AND 0xFFFFFFFF :: u64) = uint x mod 2 ^ 32"
proof -
  have eq: "x AND 0xFFFFFFFF = take_bit 32 x" using take_bit_eq_mask [of 32 x] by (simp add: mask_eq_exp_minus_1)
  show ?thesis unfolding eq unsigned_take_bit_eq by (rule take_bit_eq_mod)
qed

lemma product_bounds:
  fixes x y N M :: int
  assumes "- N \<le> x" "x < N" "0 \<le> y" "y < M" "0 < N"
  shows "- (N * (M - 1)) \<le> x * y" "x * y \<le> (N - 1) * (M - 1)"
proof -
  have "- (N * (M - 1)) \<le> - (N * y)" using assms by (simp add: mult_left_mono)
  also have "- (N * y) \<le> x * y" using mult_right_mono [of "- N" x y] assms by simp
  finally show "- (N * (M - 1)) \<le> x * y" .
  have "x * y \<le> (N - 1) * y" using assms by (intro mult_right_mono) auto
  also have "\<dots> \<le> (N - 1) * (M - 1)" using assms by (intro mult_left_mono) auto
  finally show "x * y \<le> (N - 1) * (M - 1)" .
qed

text \<open>The product of two numbers of two digits to the base \<open>B\<close>.\<close>

lemma digits_product:
  fixes B :: int
  assumes "0 < B"
  shows "(u1 * B + u0) * (v1 * B + v0) div (B * B) =
    u1 * v1 + (u1 * v0 + u0 * v0 div B) div B + (u0 * v1 + (u1 * v0 + u0 * v0 div B) mod B) div B"
proof -
  define T where "T = u1 * v0 + u0 * v0 div B"
  have "(u1 * B + u0) * (v1 * B + v0) = u0 * v0 + B * (u1 * v1 * B + u1 * v0 + u0 * v1)" by (simp add: algebra_simps)
  then have "(u1 * B + u0) * (v1 * B + v0) div B = u0 * v0 div B + (u1 * v1 * B + u1 * v0 + u0 * v1)" using assms by simp
  also have "\<dots> = (u0 * v1 + T mod B) + B * (u1 * v1 + T div B)"
    using mult_div_mod_eq [of B T] by (simp add: T_def algebra_simps)
  finally have "(u1 * B + u0) * (v1 * B + v0) div B div B = (u0 * v1 + T mod B) div B + (u1 * v1 + T div B)" using assms by simp
  then show ?thesis using assms by (simp add: T_def zdiv_zmult2_eq)
qed

lemma imulh_high: "imulh x y = mulHigh x y"
proof -
  have x: "- (2 ^ 31) \<le> sint x" "sint x < 2 ^ 31" and y: "- (2 ^ 31) \<le> sint y" "sint y < 2 ^ 31"
    using sint_ge [of x] sint_lt [of x] sint_ge [of y] sint_lt [of y] by simp_all
  have "\<bar>sint x * sint y\<bar> \<le> 2 ^ 31 * 2 ^ 31" unfolding abs_mult using x y by (intro mult_mono) auto
  then have "sint (word_of_int (sint x * sint y) :: u64) = sint x * sint y" by (intro sint_word_of_int [of 63]) auto
  moreover have "(scast x * scast y :: u64) = word_of_int (sint x * sint y)" by (simp only: scast_eq of_int_mult)
  ultimately have "signed_drop_bit 32 (scast x * scast y :: u64) = word_of_int (sint x * sint y div 2 ^ 32)"
    by (simp only: signed_drop_bit_eq)
  moreover have "ucast (word_of_int k :: u64) = (word_of_int k :: u32)" for k by transfer simp
  ultimately show ?thesis by (simp only: imulh_def mulHigh_def Let_def) simp
qed

text \<open>The digits of a long number.\<close>

lemma digits_of_long:
  fixes x :: u64
  shows "x AND 0xFFFFFFFF = word_of_int (sint x mod 2 ^ 32)" "sint x = sint x div 2 ^ 32 * 2 ^ 32 + sint x mod 2 ^ 32"
    "- (2 ^ 31) \<le> sint x div 2 ^ 32" "sint x div 2 ^ 32 < 2 ^ 31"
proof -
  have "uint x mod 2 ^ 32 = sint x mod 2 ^ 32" by (simp add: uint_sint take_bit_eq_mod mod_mod_cancel)
  then have "uint (x AND 0xFFFFFFFF) = sint x mod 2 ^ 32" by (simp only: uint_and_mask32)
  then show "x AND 0xFFFFFFFF = word_of_int (sint x mod 2 ^ 32)" by (metis word_of_int_uint)
  show "sint x = sint x div 2 ^ 32 * 2 ^ 32 + sint x mod 2 ^ 32" by simp
  have "- (2 ^ 63) \<le> sint x" "sint x < 2 ^ 63" using sint_ge [of x] sint_lt [of x] by simp_all
  then show "- (2 ^ 31) \<le> sint x div 2 ^ 32" "sint x div 2 ^ 32 < 2 ^ 31"
    using zdiv_mono1 [of "- (2 ^ 63)" "sint x" "2 ^ 32"] zdiv_mono1 [of "sint x" "2 ^ 63 - 1" "2 ^ 32"] by simp_all
qed

lemma uint_drop_bit: "uint (drop_bit n (w :: 'a::len word)) = uint w div 2 ^ n"
  by (metis of_nat_numeral of_nat_power of_nat_unat unat_drop_bit zdiv_int)

lemma drop_bit_word_of_int:
  fixes k :: int
  assumes "0 \<le> k" "k < 2 ^ LENGTH('a::len)"
  shows "drop_bit n (word_of_int k :: 'a word) = word_of_int (k div 2 ^ n)"
proof -
  have "uint (word_of_int k :: 'a word) = k" using assms by (simp add: uint_word_of_int mod_pos_pos_trivial)
  then have "uint (drop_bit n (word_of_int k :: 'a word)) = k div 2 ^ n" by (simp only: uint_drop_bit)
  then show ?thesis by (metis word_of_int_uint)
qed

lemma lmulh_high: "lmulh x y = mulHigh x y"
proof -
  define B where "B = (2 :: int) ^ 32"
  define u0 u1 v0 v1 where defs: "u0 = sint x mod B" "u1 = sint x div B" "v0 = sint y mod B" "v1 = sint y div B"
  define T where "T = u1 * v0 + u0 * v0 div B"
  have B: "0 < B" "B * B = 2 ^ 64" "2 ^ 31 * (B - 1) = 2 ^ 63 - 2 ^ 31" "B = 2 ^ 32" by (simp_all add: B_def)
  have u: "0 \<le> u0" "u0 < B" "- (2 ^ 31) \<le> u1" "u1 < 2 ^ 31" and v: "0 \<le> v0" "v0 < B" "- (2 ^ 31) \<le> v1" "v1 < 2 ^ 31"
    using B(1) digits_of_long(3,4) [of x] digits_of_long(3,4) [of y] by (simp_all add: defs B_def)
  have w: "x AND 0xFFFFFFFF = word_of_int u0" "y AND 0xFFFFFFFF = word_of_int v0"
      "signed_drop_bit 32 x = word_of_int u1" "signed_drop_bit 32 y = word_of_int v1"
    unfolding defs B_def by (rule digits_of_long(1) signed_drop_bit_eq)+
  have "u0 * v0 \<le> (B - 1) * (B - 1)" "0 \<le> u0 * v0" using u v by (auto intro!: mult_mono)
  moreover have "(B - 1) * (B - 1) < B * B" using B(1) by (simp add: algebra_simps)
  ultimately have w0: "0 \<le> u0 * v0" "u0 * v0 < B * B" by linarith+
  then have w0d: "0 \<le> u0 * v0 div B" "u0 * v0 div B < B" using B(1) by (simp_all add: pos_imp_zdiv_nonneg_iff int_div_less)
  have pb: "- (2 ^ 63 - 2 ^ 31) \<le> c * e \<and> c * e \<le> 2 ^ 63 - 2 ^ 32" if "- (2 ^ 31) \<le> c" "c < 2 ^ 31" "0 \<le> e" "e < B" for c e
    using product_bounds [OF that] B(4) by simp
  have T: "- (2 ^ 63) \<le> T \<and> T < 2 ^ 63" using pb [OF u(3,4) v(1,2)] w0d B(4) unfolding T_def by auto
  define W where "W = u0 * v1 + T mod B"
  have "0 \<le> T mod B \<and> T mod B < B" using B(1) by simp
  then have W: "- (2 ^ 63) \<le> W \<and> W < 2 ^ 63" using pb [OF v(3,4) u(1,2)] B(4) unfolding W_def mult.commute [of u0] by auto
  have len: "LENGTH(64) = 64" by simp
  have sT: "sint (word_of_int T :: u64) = T" and sW: "sint (word_of_int W :: u64) = W" using T W by (auto intro!: sint_word_of_int [of 63])
  have "word_of_int u1 * word_of_int v0 + drop_bit 32 (word_of_int u0 * word_of_int v0) = (word_of_int T :: u64)"
    using drop_bit_word_of_int [of "u0 * v0", where 'a = 64 and n = 32] w0 B(2)
    by (simp only: T_def of_int_add of_int_mult B(4) len)
  moreover have "word_of_int u0 * word_of_int v1 + (word_of_int T AND 0xFFFFFFFF) = (word_of_int W :: u64)"
    by (simp only: digits_of_long(1) sT W_def B(4) of_int_add of_int_mult)
  ultimately have "lmulh x y = word_of_int u1 * word_of_int v1 + signed_drop_bit 32 (word_of_int T) + signed_drop_bit 32 (word_of_int W)"
    by (simp only: lmulh_def Let_def w)
  then have "lmulh x y = word_of_int (u1 * v1 + T div B + W div B)"
    by (simp only: signed_drop_bit_eq sT sW B(4) of_int_add of_int_mult)
  moreover have "sint x * sint y div 2 ^ LENGTH(64) = u1 * v1 + T div B + W div B"
    using digits_product [OF B(1), of u1 u0 v1 v0] B(2) by (simp only: T_def W_def len) (simp add: defs)
  ultimately show ?thesis by (simp only: mulHigh_def)
qed

section \<open>Expressions\<close>

text \<open>
  The nodes of one integer type, over the leaves of that type. The amount of a shift is always a 32-bit constant in the
  trees built here; commoned nodes are written out where they are used.
\<close>

datatype ('l, 'w) node =
    Leaf 'l
  | Const 'w
  | Add "('l, 'w) node" "('l, 'w) node"
  | Sub "('l, 'w) node" "('l, 'w) node"
  | Mul "('l, 'w) node" "('l, 'w) node"
  | Mulh "('l, 'w) node" "('l, 'w) node"
  | And "('l, 'w) node" "('l, 'w) node"
  | Neg "('l, 'w) node"
  | Shl "('l, 'w) node" u32
  | Shr "('l, 'w) node" u32
  | Ushr "('l, 'w) node" u32
  | Div "('l, 'w) node" "('l, 'w) node"
  | Rem "('l, 'w) node" "('l, 'w) node"

text \<open>The leaf of an int expression is a load, that of a long expression a load or the extension of an int expression.\<close>

type_synonym intNode = "(nat, u32) node"

datatype longLeaf = LoadVar nat | I2L intNode

type_synonym longNode = "(longLeaf, u64) node"

definition divWord :: "'a::len word \<Rightarrow> 'a word \<Rightarrow> 'a word" where
  "divWord x y = word_of_int (sint x sdiv sint y)"

definition remWord :: "'a::len word \<Rightarrow> 'a word \<Rightarrow> 'a word" where
  "remWord x y = word_of_int (sint x smod sint y)"

text \<open>The value of an expression for the values of its leaves.\<close>

fun evalWith :: "('a::len word \<Rightarrow> 'a word \<Rightarrow> 'a word) \<Rightarrow> ('l \<Rightarrow> 'a word) \<Rightarrow> ('l, 'a word) node \<Rightarrow> 'a word" where
  "evalWith mulh v (Leaf i) = v i"
| "evalWith mulh v (Const c) = c"
| "evalWith mulh v (Add x y) = evalWith mulh v x + evalWith mulh v y"
| "evalWith mulh v (Sub x y) = evalWith mulh v x - evalWith mulh v y"
| "evalWith mulh v (Mul x y) = evalWith mulh v x * evalWith mulh v y"
| "evalWith mulh v (Mulh x y) = mulh (evalWith mulh v x) (evalWith mulh v y)"
| "evalWith mulh v (And x y) = evalWith mulh v x AND evalWith mulh v y"
| "evalWith mulh v (Neg x) = - evalWith mulh v x"
| "evalWith mulh v (Shl x k) = foldShl (evalWith mulh v x) k"
| "evalWith mulh v (Shr x k) = foldShr (evalWith mulh v x) k"
| "evalWith mulh v (Ushr x k) = foldUshr (evalWith mulh v x) k"
| "evalWith mulh v (Div x y) = divWord (evalWith mulh v x) (evalWith mulh v y)"
| "evalWith mulh v (Rem x y) = remWord (evalWith mulh v x) (evalWith mulh v y)"

definition evalInt :: "(nat \<Rightarrow> u32) \<Rightarrow> intNode \<Rightarrow> u32" where
  "evalInt = evalWith imulh"

definition leafValue :: "(nat \<Rightarrow> u32) \<Rightarrow> (nat \<Rightarrow> u64) \<Rightarrow> longLeaf \<Rightarrow> u64" where
  "leafValue vi vl l = (case l of LoadVar x \<Rightarrow> vl x | I2L n \<Rightarrow> scast (evalInt vi n))"

definition evalLong :: "(nat \<Rightarrow> u32) \<Rightarrow> (nat \<Rightarrow> u64) \<Rightarrow> longNode \<Rightarrow> u64" where
  "evalLong vi vl = evalWith lmulh (leafValue vi vl)"

abbreviation eval :: "('l \<Rightarrow> 'a::len word) \<Rightarrow> ('l, 'a word) node \<Rightarrow> 'a word" where
  "eval \<equiv> evalWith mulHigh"

lemma evalInt_eq: "evalInt = eval"
proof -
  have "imulh = mulHigh" by (intro ext) (rule imulh_high)
  then show ?thesis by (simp add: evalInt_def)
qed

lemma evalLong_eq: "evalLong vi vl = eval (leafValue vi vl)"
proof -
  have "lmulh = mulHigh" by (intro ext) (rule lmulh_high)
  then show ?thesis by (simp add: evalLong_def)
qed

text \<open>
  C19: The computation of the high half of a long product from 32-bit digits is the product over the integers, shifted.
\<close>

theorem lmulh_is_high_half: "lmulh x y = word_of_int (sint x * sint y div 2 ^ 64)"
  by (simp add: lmulh_high mulHigh_def)

end
