(* ===== verification/DivisionSimplifier.thy ===== *)
theory DivisionSimplifier
  imports ILNode
begin

text \<open>
  The division handlers of the simplifier: \<open>idivSimplifier\<close>, \<open>iremSimplifier\<close>, \<open>ldivSimplifier\<close> and \<open>lremSimplifier\<close> for the signed
  operations, \<open>getQuotientUsingMagicNumberMultiply\<close> and \<open>transformToLongDivBy10Bitwise\<close>
  (\<open>optimizer/OMRSimplifierHandlers.cpp\<close>), with \<open>checkPositiveOrNegativePowerOfTwo\<close> of \<open>codegen/OMRTreeEvaluator.cpp\<close>.
  The children are those after \<open>simplifyChildren\<close>. A handler returns the expression that replaces the node, or \<open>None\<close>
  where the computation of the magic values fails. Trees that the 32-bit and the 64-bit handlers build alike are
  one definition for any width.
\<close>

section \<open>Powers of two\<close>

function shiftLoop :: "'a::len word \<Rightarrow> nat \<Rightarrow> nat" where
  "shiftLoop x shiftAmount =
     (let x' = drop_bit 1 x in if x' \<noteq> 0 then shiftLoop x' (shiftAmount + 1) else shiftAmount)"
  by pat_completeness auto
termination
proof (relation "measure (\<lambda>(x, n). unat x)")
  fix x x' :: "'a word" and n :: nat
  assume x': "x' = drop_bit 1 x" "x' \<noteq> 0"
  have "unat x' = unat x div 2 ^ 1" unfolding x'(1) by (rule unat_drop_bit)
  moreover have "unat x' \<noteq> 0" using x'(2) by (simp only: unat_eq_zero not_False_eq_True)
  ultimately show "((x', n + 1), x, n) \<in> measure (\<lambda>(x, n). unat x)" by simp
qed simp

declare shiftLoop.simps [simp del]

definition checkPositiveOrNegativePowerOfTwo :: "'a::len word \<Rightarrow> int" where
  "checkPositiveOrNegativePowerOfTwo x =
     (if isNonNegativePowerOf2 x then int (shiftLoop x 0)
      else if isNonPositivePowerOf2 x then int (shiftLoop (- x) 0)
      else - 1)"

text \<open>The sum of the dividend and the bias that makes the shift round towards zero.\<close>

definition biasedDividend :: "('l, 'a::len word) node \<Rightarrow> nat \<Rightarrow> ('l, 'a word) node" where
  "biasedDividend firstChild shftAmnt =
     (let newNode1 = (if shftAmnt - 1 \<noteq> 0 then Shr firstChild (word_of_nat (shftAmnt - 1)) else firstChild);
          newNode2 = Ushr newNode1 (word_of_nat (LENGTH('a) - shftAmnt))
      in Add newNode2 firstChild)"

definition power2Div :: "('l, 'a::len word) node \<Rightarrow> 'a word \<Rightarrow> nat \<Rightarrow> ('l, 'a word) node" where
  "power2Div firstChild divisor shftAmnt =
     (let newNode3 = biasedDividend firstChild shftAmnt in
      if 0 < sint divisor then Shr newNode3 (word_of_nat shftAmnt) else Neg (Shr newNode3 (word_of_nat shftAmnt)))"

definition power2Rem :: "('l, 'a::len word) node \<Rightarrow> 'a word \<Rightarrow> nat \<Rightarrow> ('l, 'a word) node" where
  "power2Rem firstChild divisor shftAmnt =
     Sub firstChild (And (biasedDividend firstChild shftAmnt) (Const (if 0 < sint divisor then - divisor else divisor)))"

section \<open>Magic numbers\<close>

definition magicProduct :: "('l, 'a::len word) node \<Rightarrow> 'a word \<Rightarrow> 'a word \<Rightarrow> ('l, 'a word) node" where
  "magicProduct firstChild divisor magicNumber =
     (let node1 = Mulh firstChild (Const magicNumber) in
      if 0 < sint divisor \<and> sint magicNumber < 0 then Add node1 firstChild
      else if sint divisor < 0 \<and> 0 < sint magicNumber then Sub node1 firstChild
      else node1)"

definition signCorrection :: "('l, 'a::len word) node \<Rightarrow> 'a word \<Rightarrow> ('l, 'a word) node \<Rightarrow> ('l, 'a word) node" where
  "signCorrection firstChild divisor node3 =
     Add node3 (Ushr (if 0 < sint divisor then firstChild else node3) (word_of_nat (LENGTH('a) - 1)))"

definition magicQuotient :: "('l, 'a::len word) node \<Rightarrow> 'a word \<Rightarrow> 'a word \<Rightarrow> 'a word \<Rightarrow> ('l, 'a word) node" where
  "magicQuotient firstChild divisor magicNumber shiftAmount =
     signCorrection firstChild divisor (Shr (magicProduct firstChild divisor magicNumber) (ucast shiftAmount))"

definition magicQuotientUnshifted :: "('l, 'a::len word) node \<Rightarrow> 'a word \<Rightarrow> 'a word \<Rightarrow> 'a word \<Rightarrow> ('l, 'a word) node" where
  "magicQuotientUnshifted firstChild divisor magicNumber shiftAmount =
     (if shiftAmount = 0 then signCorrection firstChild divisor (magicProduct firstChild divisor magicNumber)
      else magicQuotient firstChild divisor magicNumber shiftAmount)"

definition getQuotientUsingMagicNumberMultiply :: "intNode \<Rightarrow> u32 \<Rightarrow> intNode option" where
  "getQuotientUsingMagicNumberMultiply firstChild divisor =
     do { (m, s) \<leftarrow> compute32BitMagicValues divisor; Some (magicQuotientUnshifted firstChild divisor m s) }"

definition getLongQuotientUsingMagicNumberMultiply :: "longNode \<Rightarrow> u64 \<Rightarrow> longNode option" where
  "getLongQuotientUsingMagicNumberMultiply firstChild divisor =
     do { (m, s) \<leftarrow> compute64BitMagicValues divisor; Some (magicQuotientUnshifted firstChild divisor m s) }"

section \<open>The handlers\<close>

text \<open>
  What a handler asks: whether \<open>performTransformation\<close> allows a change (by the line of the question), the options that
  disable the handling of powers of two, what the code generator supports, whether the divisor node is used here only,
  and what is known about the sign of the dividend.
\<close>

record ('l, 'w) simplifier =
  performTransformation :: "nat \<Rightarrow> bool"
  disableILDivPwr2Opt :: bool
  disableILRemPwr2Opt :: bool
  supportsLoweringConstIDiv :: bool
  supportsLoweringConstLDiv :: bool
  supportsLoweringConstLDivPower2 :: bool
  canUseImmedInstruction :: "'w \<Rightarrow> bool"
  divisorUsedOnce :: bool
  isNonNegative :: "('l, 'w) node \<Rightarrow> bool"
  isNonPositive :: "('l, 'w) node \<Rightarrow> bool"

definition foldConstant :: "('l, 'w, 'z) simplifier_scheme \<Rightarrow> ('l, 'w) node \<Rightarrow> 'w \<Rightarrow> ('l, 'w) node" where
  "foldConstant s node x = (if performTransformation s 132 then Const x else node)"

definition replaceNode :: "('l, 'w, 'z) simplifier_scheme \<Rightarrow> ('l, 'w) node \<Rightarrow> ('l, 'w) node \<Rightarrow> ('l, 'w) node" where
  "replaceNode s node other = (if performTransformation s 515 then other else node)"

definition idivSimplifier :: "(nat, u32) simplifier \<Rightarrow> intNode \<Rightarrow> intNode \<Rightarrow> intNode option" where
  "idivSimplifier s firstChild secondChild =
     (let node = Div firstChild secondChild in
      case secondChild of Const divisor \<Rightarrow>
        if divisor = 0 then Some node
        else (case firstChild of Const dividend \<Rightarrow>
            if divisor = - 1 \<and> dividend = signBit then Some (replaceNode s node firstChild)
            else Some (foldConstant s node (divWord dividend divisor))
          | _ \<Rightarrow>
            if divisor = 1 then Some (replaceNode s node firstChild)
            else if divisor = - 1 then Some (if performTransformation s 8650 then Neg firstChild else node)
            else
              let shftAmnt = checkPositiveOrNegativePowerOfTwo divisor in
              if \<not> disableILDivPwr2Opt s \<and> 0 < shftAmnt \<and> divisorUsedOnce s \<and> performTransformation s 8663
              then Some (power2Div firstChild divisor (nat shftAmnt))
              else if supportsLoweringConstIDiv s \<and> \<not> isPowerOf2 divisor \<and> performTransformation s 8709
              then do { (m, sh) \<leftarrow> compute32BitMagicValues divisor; Some (magicQuotient firstChild divisor m sh) }
              else Some node)
      | _ \<Rightarrow> Some node)"

definition skipRemLowering :: "u64 \<Rightarrow> (nat, u32) simplifier \<Rightarrow> bool" where
  "skipRemLowering divisor s = False"

definition iremSimplifier :: "(nat, u32) simplifier \<Rightarrow> intNode \<Rightarrow> intNode \<Rightarrow> intNode option" where
  "iremSimplifier s firstChild secondChild =
     (let node = Rem firstChild secondChild in
      case secondChild of Const divisor \<Rightarrow>
        if divisor = 0 then Some node
        else if divisor = 1 \<or> divisor = - 1 then Some (foldConstant s node 0)
        else (case firstChild of Const dividend \<Rightarrow> Some (foldConstant s node (remWord dividend divisor))
          | _ \<Rightarrow>
            let shftAmnt = checkPositiveOrNegativePowerOfTwo divisor in
            if \<not> disableILRemPwr2Opt s \<and> 0 < shftAmnt \<and> divisorUsedOnce s \<and> performTransformation s 9288
            then Some (power2Rem firstChild divisor (nat shftAmnt))
            else if supportsLoweringConstIDiv s \<and> \<not> isPowerOf2 divisor \<and> \<not> skipRemLowering (scast divisor) s \<and> performTransformation s 9340
            then do { quotient \<leftarrow> getQuotientUsingMagicNumberMultiply firstChild divisor;
                   Some (Sub firstChild (Mul secondChild quotient)) }
            else Some node)
      | _ \<Rightarrow> Some node)"

definition transformToLongDivBy10Bitwise :: "longNode \<Rightarrow> longNode" where
  "transformToLongDivBy10Bitwise firstChild =
     (let n1 = Add firstChild (And (Shr firstChild 63) (Const 9));
          q2 = Add (Shr n1 1) (Shr n1 2);
          q4 = Add q2 (Shr q2 4);
          q6 = Add q4 (Shr q4 8);
          q8 = Add q6 (Shr q6 16);
          q10 = Add q8 (Shr q8 32);
          q12 = Shr q10 3;
          r1 = Sub n1 (Mul q12 (Const 10))
      in Add q12 (Shr (Add r1 (Const 6)) 4))"

text \<open>The division by a power of two where the sign of the dividend may be known.\<close>

definition longPower2 :: "(longLeaf, u64) simplifier \<Rightarrow> longNode \<Rightarrow> u64 \<Rightarrow> longNode" where
  "longPower2 s firstChild divisor =
     (let node = Div firstChild (Const divisor);
          shiftAmount = word_of_nat (shiftLoop (if sint divisor < 0 then - divisor else divisor) 0);
          shftAmnt = checkPositiveOrNegativePowerOfTwo divisor
      in if isNonNegative s firstChild then
           if sint divisor < 0 then if performTransformation s 8858 then Neg (Shr firstChild shiftAmount) else node
           else if performTransformation s 8872 then Shr firstChild shiftAmount else node
         else if isNonPositive s firstChild then
           if sint divisor < 0 then if performTransformation s 8898 then Shr (Neg firstChild) shiftAmount else node
           else if performTransformation s 8911 then
             if canUseImmedInstruction s (divisor - 1) then Shr (Add firstChild (Const (divisor - 1))) shiftAmount
             else Add (Shr firstChild shiftAmount)
               (Neg (Shr (Shl (Add (And firstChild (Const (divisor - 1))) (Const (divisor - 1))) (63 - shiftAmount)) 63))
           else node
         else if \<not> disableILDivPwr2Opt s \<and> 0 < shftAmnt \<and> divisorUsedOnce s \<and> performTransformation s 8955
         then power2Div firstChild divisor (nat shftAmnt)
         else node)"

text \<open>
  The last part of the handler, reached with the node that the first part leaves: two extended children are divided as
  int, and the division of a variable by ten becomes shifts.
\<close>

definition isLoadVar :: "longNode \<Rightarrow> bool" where
  "isLoadVar n = (case n of Leaf (LoadVar _) \<Rightarrow> True | _ \<Rightarrow> False)"

definition skipRemLoweringForPositivePowersOfTen :: "(longLeaf, u64) simplifier \<Rightarrow> bool" where
  "skipRemLoweringForPositivePowersOfTen s = False"

definition divideBy10 :: "(longLeaf, u64) simplifier \<Rightarrow> longNode \<Rightarrow> longNode \<Rightarrow> longNode" where
  "divideBy10 s firstChild secondChild =
     (if secondChild = Const 10 \<and> \<not> skipRemLoweringForPositivePowersOfTen s \<and> isLoadVar firstChild \<and> performTransformation s 9093
      then transformToLongDivBy10Bitwise firstChild else Div firstChild secondChild)"

definition divideNarrow :: "(longLeaf, u64) simplifier \<Rightarrow> longNode \<Rightarrow> longNode" where
  "divideNarrow s node = (case node of Div firstChild secondChild \<Rightarrow>
       (case (firstChild, secondChild) of (Leaf (I2L x), Leaf (I2L y)) \<Rightarrow>
           if performTransformation s 9064 then Leaf (I2L (Div x y)) else divideBy10 s firstChild secondChild
         | _ \<Rightarrow> divideBy10 s firstChild secondChild)
     | _ \<Rightarrow> node)"

definition ldivSimplifier :: "(longLeaf, u64) simplifier \<Rightarrow> longNode \<Rightarrow> longNode \<Rightarrow> longNode option" where
  "ldivSimplifier s firstChild secondChild =
     (let node = Div firstChild secondChild in
      case secondChild of Const divisor \<Rightarrow>
        if divisor = 0 then Some (divideNarrow s node)
        else (case firstChild of Const dividend \<Rightarrow>
            if divisor = - 1 \<and> dividend = signBit then Some (replaceNode s node firstChild)
            else Some (divideNarrow s (foldConstant s node (divWord dividend divisor)))
          | _ \<Rightarrow>
            if divisor = 1 then Some (replaceNode s node firstChild)
            else if divisor = - 1 then Some (if performTransformation s 8831 then Neg firstChild else divideNarrow s node)
            else if supportsLoweringConstLDivPower2 s \<and> isPowerOf2 divisor
            then Some (divideNarrow s (longPower2 s firstChild divisor))
            else if supportsLoweringConstLDiv s \<and> \<not> isPowerOf2 divisor
            then do { (m, sh) \<leftarrow> compute64BitMagicValues divisor; Some (magicQuotient firstChild divisor m sh) }
            else Some (divideNarrow s node))
      | _ \<Rightarrow> Some (divideNarrow s node))"

definition remainderBy10 :: "(longLeaf, u64) simplifier \<Rightarrow> longNode \<Rightarrow> longNode \<Rightarrow> longNode" where
  "remainderBy10 s firstChild secondChild =
     (if secondChild = Const 10 \<and> \<not> skipRemLoweringForPositivePowersOfTen s \<and> isLoadVar firstChild \<and> performTransformation s 9535
      then Sub firstChild (Mul (transformToLongDivBy10Bitwise firstChild) secondChild) else Rem firstChild secondChild)"

definition remainderNarrow :: "(longLeaf, u64) simplifier \<Rightarrow> longNode \<Rightarrow> longNode \<Rightarrow> longNode" where
  "remainderNarrow s firstChild secondChild =
     (case (firstChild, secondChild) of (Leaf (I2L x), Leaf (I2L y)) \<Rightarrow>
         if performTransformation s 9506 then Leaf (I2L (Rem x y)) else remainderBy10 s firstChild secondChild
       | _ \<Rightarrow> remainderBy10 s firstChild secondChild)"

definition lremSimplifier :: "(longLeaf, u64) simplifier \<Rightarrow> longNode \<Rightarrow> longNode \<Rightarrow> longNode" where
  "lremSimplifier s firstChild secondChild =
     (let node = Rem firstChild secondChild in
      case secondChild of Const divisor \<Rightarrow>
        if divisor = 0 then remainderNarrow s firstChild secondChild
        else if divisor = 1 \<or> divisor = - 1 then foldConstant s node 0
        else (case firstChild of Const dividend \<Rightarrow> foldConstant s node (remWord dividend divisor)
          | _ \<Rightarrow>
            let shftAmnt = checkPositiveOrNegativePowerOfTwo divisor in
            if \<not> disableILRemPwr2Opt s \<and> 0 < shftAmnt \<and> divisorUsedOnce s \<and> performTransformation s 9422
            then power2Rem firstChild divisor (nat shftAmnt)
            else remainderNarrow s firstChild secondChild)
      | _ \<Rightarrow> remainderNarrow s firstChild secondChild)"

end
