(* ===== verification/DivisionPowers.thy ===== *)
theory DivisionPowers
  imports DivisionSimplifier
begin

text \<open>
  Division and remainder by a power of two: the shifts, the bias that rounds towards zero, the trees that the division
  handlers build for such a divisor, and the tests that recognise it.
\<close>

section \<open>Shifts\<close>

definition widthOk :: "'a::len itself \<Rightarrow> bool" where
  "widthOk t \<longleftrightarrow> LENGTH('a) = 32 \<or> LENGTH('a) = 64"

lemma unat_mask_amount: "n < 2 ^ k \<Longrightarrow> k < 32 \<Longrightarrow> unat ((word_of_nat n :: u32) AND word_of_nat (2 ^ k - 1)) = n"
proof -
  assume n: "n < 2 ^ k" "k < 32"
  have "word_of_nat (2 ^ k - 1) = (mask k :: u32)" by (simp add: mask_eq_exp_minus_1 of_nat_diff)
  then have "(word_of_nat n :: u32) AND word_of_nat (2 ^ k - 1) = take_bit k (word_of_nat n)" by (simp only: take_bit_eq_mask)
  then have "unat ((word_of_nat n :: u32) AND word_of_nat (2 ^ k - 1)) = take_bit k (unat (word_of_nat n :: u32))" by (simp only: unsigned_take_bit_eq)
  moreover have "n < 2 ^ 32" using n power_strict_increasing [of k 32 "2 :: nat"] by linarith
  ultimately show ?thesis using n by (simp add: take_bit_eq_mod unat_of_nat)
qed

lemma unat_amount:
  assumes "widthOk TYPE('a::len)" "n < LENGTH('a)"
  shows "unat ((word_of_nat n :: u32) AND SHIFT_MASK TYPE('a)) = n"
  using assms unat_mask_amount [of n 5] unat_mask_amount [of n 6] by (auto simp: widthOk_def SHIFT_MASK_def)

lemma foldShr_nat:
  fixes x :: "'a::len word"
  assumes "widthOk TYPE('a)" "n < LENGTH('a)"
  shows "foldShr x (word_of_nat n) = word_of_int (sint x div 2 ^ n)"
  by (simp add: foldShr_def unat_amount [OF assms] signed_drop_bit_eq)

lemma foldUshr_nat:
  fixes x :: "'a::len word"
  assumes "widthOk TYPE('a)" "n < LENGTH('a)"
  shows "foldUshr x (word_of_nat n) = word_of_int (uint x div 2 ^ n)"
  by (simp only: foldUshr_def unat_amount [OF assms] flip: uint_drop_bit) simp

lemma sint_foldShr:
  fixes x :: "'a::len word"
  assumes "widthOk TYPE('a)" "n < LENGTH('a)"
  shows "sint (foldShr x (word_of_nat n)) = sint x div 2 ^ n"
  by (simp add: foldShr_def unat_amount [OF assms] sint_signed_drop_bit)

text \<open>The unsigned shift by one less than the width is the sign.\<close>

lemma foldUshr_sign:
  fixes x :: "'a::len word"
  assumes "widthOk TYPE('a)" "LENGTH('a) = Suc w"
  shows "foldUshr x (word_of_nat (LENGTH('a) - 1)) = word_of_int (if sint x < 0 then 1 else 0)"
proof -
  note u = uint_of_sint [OF assms(2), of x]
  have "uint x div 2 ^ w = (if sint x < 0 then 1 else 0)"
  proof (cases "sint x < 0")
    case True
    then show ?thesis using u by (intro int_div_pos_eq [of _ _ _ "sint x + 2 ^ w"]) auto
  qed (use u in \<open>simp add: div_pos_pos_trivial\<close>)
  then show ?thesis using foldUshr_nat [OF assms(1), of w x] assms(2) by simp
qed

section \<open>Powers of two\<close>

lemma ceiling_div:
  fixes x a :: int
  assumes "0 < a"
  shows "(x + a - 1) div a = - ((- x) div a)"
proof -
  have "x + a - 1 = a * (- ((- x) div a)) + (a - 1 - (- x) mod a)" using mult_div_mod_eq [of a "- x"] by linarith
  moreover have "0 \<le> a - 1 - (- x) mod a" "a - 1 - (- x) mod a < a" using assms pos_mod_bound [of a "- x"] pos_mod_sign [of a "- x"] by linarith+
  ultimately show ?thesis by (intro int_div_pos_eq)
qed

lemma bias_value:
  fixes x :: "'a::len word"
  assumes ok: "widthOk TYPE('a)" and len: "LENGTH('a) = Suc w" and k: "1 \<le> k" "k \<le> w"
  shows "foldUshr (foldShr x (word_of_nat (k - 1))) (word_of_nat (LENGTH('a) - k)) = word_of_int (if sint x < 0 then 2 ^ k - 1 else 0)"
proof -
  define y where "y = foldShr x (word_of_nat (k - 1))"
  define H where "H = (2 :: int) ^ (Suc w - k)"
  have y: "sint y = sint x div 2 ^ (k - 1)" unfolding y_def using k len by (intro sint_foldShr [OF ok]) simp
  note u = uint_of_sint [OF len]
  have H: "2 ^ w = H * 2 ^ (k - 1)" "2 * 2 ^ w = H * 2 ^ k" "0 < H" using k by (simp_all add: H_def Suc_diff_le flip: power_add power_Suc)
  have "uint y div H = (if sint x < 0 then 2 ^ k - 1 else 0)"
  proof (cases "sint x < 0")
    case True
    have "(- H) * 2 ^ (k - 1) div 2 ^ (k - 1) \<le> sint y" unfolding y using u(2) [of x] H(1) by (intro zdiv_mono1) auto
    moreover have "(- H) * 2 ^ (k - 1) div 2 ^ (k - 1) = - H" by (rule nonzero_mult_div_cancel_right) simp
    moreover have "sint y < 0" using True y by (simp add: pos_imp_zdiv_neg_iff)
    ultimately have "- H \<le> sint y" "sint y < 0" by linarith+
    moreover from this have "uint y = H * (2 ^ k - 1) + (sint y + H)" using u(1) [of y] H(2) by (simp add: algebra_simps)
    ultimately show ?thesis using True by (intro int_div_pos_eq) auto
  next
    case False
    then have "0 \<le> sint y" "sint y < H" using y u(3) [of x] H by (auto simp: pos_imp_zdiv_nonneg_iff mult.commute intro: int_div_less)
    then show ?thesis using False u(1) [of y] by (simp add: div_pos_pos_trivial)
  qed
  then show ?thesis using foldUshr_nat [OF ok, of "LENGTH('a) - k" y] k len by (simp add: y_def H_def)
qed

text \<open>The dividend and its bias, and the shift that rounds towards zero.\<close>

definition signedPower :: "int \<Rightarrow> nat \<Rightarrow> bool" where
  "signedPower d k \<longleftrightarrow> 1 \<le> k \<and> (d = 2 ^ k \<or> d = - (2 ^ k))"

lemma biased_value:
  fixes n :: "('l, 'a::len word) node" and v :: "'l \<Rightarrow> 'a word"
  assumes ok: "widthOk TYPE('a)" and len: "LENGTH('a) = Suc w" and k: "1 \<le> k" "k \<le> w"
  defines "A \<equiv> sint (eval v n) + (if sint (eval v n) < 0 then 2 ^ k - 1 else 0)"
  shows "eval v (biasedDividend n k) = word_of_int A" "sint (word_of_int A :: 'a word) = A" "A div 2 ^ k = sint (eval v n) sdiv 2 ^ k"
proof -
  let ?x = "eval v n"
  have "foldShr ?x (word_of_nat 0) = ?x" using foldShr_nat [OF ok, of 0 ?x] by simp
  then have "eval v (biasedDividend n k) = foldUshr (foldShr ?x (word_of_nat (k - 1))) (word_of_nat (LENGTH('a) - k)) + ?x"
    by (auto simp: biasedDividend_def Let_def)
  then show "eval v (biasedDividend n k) = word_of_int A" by (simp only: bias_value [OF ok len k] A_def of_int_add word_of_sint add.commute)
  have p: "(2 :: int) ^ k \<le> 2 ^ w" "1 \<le> (2 :: int) ^ k" using k by (auto intro!: power_increasing)
  have "- (2 ^ w) \<le> A \<and> A < 2 ^ w"
  proof (cases "sint ?x < 0")
    case True
    then have "A = sint ?x + 2 ^ k - 1" by (simp add: A_def)
    then show ?thesis using True p uint_of_sint(2) [OF len, of ?x] by linarith
  qed (use uint_of_sint(2,3) [OF len, of ?x] in \<open>simp add: A_def\<close>)
  then show "sint (word_of_int A :: 'a word) = A" by (intro sint_word_of_int [OF len]) simp_all
  show "A div 2 ^ k = sint ?x sdiv 2 ^ k" using ceiling_div [of "2 ^ k" "sint ?x"]
    by (auto simp: A_def signed_divide_int_def sgn_if algebra_simps)
qed

lemma sdiv_minus_power: "(x :: int) sdiv - (2 ^ k) = - (x sdiv 2 ^ k)"
  by (simp add: signed_divide_int_def)

lemma power2Div_value:
  fixes n :: "('l, 'a::len word) node"
  assumes ok: "widthOk TYPE('a)" and len: "LENGTH('a) = Suc w" and d: "signedPower (sint d) k" "k \<le> w"
  shows "eval v (power2Div n d k) = divWord (eval v n) d"
proof -
  have k: "1 \<le> k" using d by (simp add: signedPower_def)
  note A = biased_value [OF ok len k d(2), of v n]
  have q: "foldShr (eval v (biasedDividend n k)) (word_of_nat k) = word_of_int (sint (eval v n) sdiv 2 ^ k)"
    using foldShr_nat [OF ok, of k "eval v (biasedDividend n k)"] A d(2) len by simp
  have "sint d = 2 ^ k \<or> sint d = - (2 ^ k)" using d(1) by (simp add: signedPower_def)
  then show ?thesis
  proof
    assume "sint d = 2 ^ k"
    then show ?thesis using q by (simp add: power2Div_def divWord_def)
  next
    assume "sint d = - (2 ^ k)"
    then show ?thesis using q sdiv_minus_power [of "sint (eval v n)" k] by (simp add: power2Div_def divWord_def)
  qed
qed

lemma and_minus_power: "(A :: int) AND - (2 ^ k) = 2 ^ k * (A div 2 ^ k)"
proof -
  have "A AND - (2 ^ k) = A AND NOT (mask k)" by (simp add: minus_eq_not_minus_1 mask_eq_exp_minus_1)
  also have "\<dots> = push_bit k (drop_bit k A)" by (simp add: bit_eq_iff bit_and_iff bit_not_iff bit_mask_iff bit_push_bit_iff bit_drop_bit_eq) (auto)
  finally show ?thesis by (simp add: push_bit_eq_mult drop_bit_eq_div)
qed

lemma power2Rem_value:
  fixes n :: "('l, 'a::len word) node"
  assumes ok: "widthOk TYPE('a)" and len: "LENGTH('a) = Suc w" and d: "signedPower (sint d) k" "k \<le> w"
  shows "eval v (power2Rem n d k) = remWord (eval v n) d"
proof -
  have k: "1 \<le> k" using d by (simp add: signedPower_def)
  let ?x = "sint (eval v n)"
  note A = biased_value [OF ok len k d(2), of v n]
  have sd: "sint d = 2 ^ k \<or> sint d = - (2 ^ k)" using d(1) by (simp add: signedPower_def)
  then have c: "(if 0 < sint d then - d else d) = word_of_int (- (2 ^ k))"
  proof
    assume e: "sint d = 2 ^ k"
    then have "word_of_int (2 ^ k) = d" by (metis word_of_sint)
    then show ?thesis using e by (simp only: of_int_minus) simp
  next
    assume e: "sint d = - (2 ^ k)"
    then have "word_of_int (- (2 ^ k)) = d" by (metis word_of_sint)
    then show ?thesis using e by simp
  qed
  have "?x smod 2 ^ k = ?x - 2 ^ k * (?x sdiv 2 ^ k)" "?x smod - (2 ^ k) = ?x - 2 ^ k * (?x sdiv 2 ^ k)"
    using minus_mult_sdiv_eq_smod [of ?x "2 ^ k"] minus_mult_sdiv_eq_smod [of ?x "- (2 ^ k)"] sdiv_minus_power [of ?x k] by simp_all
  then have "remWord (eval v n) d = word_of_int (?x - 2 ^ k * (?x sdiv 2 ^ k))" using sd by (auto simp: remWord_def)
  moreover have "eval v (power2Rem n d k) = eval v n - word_of_int (2 ^ k * (?x sdiv 2 ^ k))"
    by (simp only: power2Rem_def evalWith.simps c A(1,3) and_minus_power flip: of_int_and_eq)
  ultimately show ?thesis by simp
qed

section \<open>Recognising powers of two\<close>

lemma nat_power_of_and: "0 < n \<Longrightarrow> n AND (n - 1) = 0 \<Longrightarrow> \<exists>j. n = 2 ^ j" for n :: nat
proof (induction n rule: less_induct)
  case (less n)
  show ?case
  proof (cases "even n")
    case True
    then obtain m where m: "n = 2 * m" by (elim evenE)
    have half: "n div 2 = m" "(n - 1) div 2 = m - 1" using m by simp_all
    have "m AND (m - 1) = 0"
    proof (rule bit_eqI)
      fix i
      have "bit (n AND (n - 1)) (Suc i) \<longleftrightarrow> bit m i \<and> bit (m - 1) i" unfolding bit_and_iff by (simp only: bit_Suc half)
      then have "\<not> (bit m i \<and> bit (m - 1) i)" unfolding less.prems(2) by simp
      then show "bit (m AND (m - 1)) i \<longleftrightarrow> bit 0 i" by (simp add: bit_and_iff)
    qed
    then obtain j where "m = 2 ^ j" using less.IH [of m] less.prems(1) m by auto
    then show ?thesis using m by (intro exI [of _ "Suc j"]) simp
  next
    case False
    have "n - 1 = 0"
    proof (rule bit_eqI)
      fix i
      have "bit (n - 1) i \<Longrightarrow> bit n i" using False by (cases i) (auto simp: bit_0 bit_Suc elim!: oddE)
      then have "bit (n AND (n - 1)) i \<longleftrightarrow> bit (n - 1) i" unfolding bit_and_iff by blast
      then show "bit (n - 1) i \<longleftrightarrow> bit 0 i" using less.prems(2) by simp
    qed
    then show ?thesis using less.prems(1) by (intro exI [of _ 0]) simp
  qed
qed

lemma lowest_bit_only:
  fixes x :: "'a::len word"
  assumes "x AND - x = x" "x \<noteq> 0"
  shows "\<exists>j < LENGTH('a). x = push_bit j 1 \<and> uint x = 2 ^ j"
proof -
  have "x AND (x - 1) = 0"
  proof (rule bit_word_eqI)
    fix i
    have "bit x i = bit (x AND NOT (x - 1)) i" using assms(1) by (simp add: minus_eq_not_minus_1)
    then show "bit (x AND (x - 1)) i \<longleftrightarrow> bit 0 i" by (auto simp: bit_and_iff bit_not_iff)
  qed
  then have "unat x AND unat (x - 1) = 0" by (metis unsigned_0 unsigned_and_eq)
  then obtain j where j: "unat x = 2 ^ j" using nat_power_of_and [of "unat x"] assms(2) by (auto simp: unat_minus_one unat_gt_0)
  then have "(2 :: nat) ^ j < 2 ^ LENGTH('a)" by (metis unsigned_less)
  then have len: "j < LENGTH('a)" by (rule power_less_imp_less_exp [rotated]) simp
  then have "x = push_bit j 1" using j unat_push_bit_1 [OF len] by (metis unsigned_word_eqI)
  moreover have "uint x = 2 ^ j" using j by (metis of_nat_numeral of_nat_power of_nat_unat)
  ultimately show ?thesis using len by blast
qed

lemma shiftLoop_power: "unat x = 2 ^ j \<Longrightarrow> shiftLoop x n = n + j" for x :: "'a::len word"
proof (induction j arbitrary: x n)
  case 0
  have "unat (drop_bit 1 x) = 0" unfolding unat_drop_bit using 0 by simp
  then have "drop_bit 1 x = 0" by (simp only: unat_eq_zero)
  then show ?case by (subst shiftLoop.simps) (simp only: Let_def, simp)
next
  case (Suc j)
  have u: "unat (drop_bit 1 x) = 2 ^ j" unfolding unat_drop_bit using Suc.prems by simp
  then have "drop_bit 1 x \<noteq> 0" by (metis power_not_zero unsigned_0 zero_neq_numeral)
  then show ?case using Suc.IH [OF u] by (subst shiftLoop.simps) (simp only: Let_def, simp)
qed

text \<open>The divisors that count as powers of two.\<close>

lemma abs_word:
  fixes d :: "'a::len word"
  assumes len: "LENGTH('a) = Suc w"
  shows "uint (if sint d < 0 then - d else d) = \<bar>sint d\<bar>"
proof (cases "sint d = - (2 ^ w)")
  case True
  have "d = word_of_int (- (2 ^ w))" using True word_of_sint [of d] by simp
  then have "- d = word_of_int (2 ^ w)" by simp
  then have "uint (- d) = 2 ^ w mod 2 ^ Suc w" using len by (simp only: uint_word_of_int)
  then show ?thesis using True by simp
qed (rule uint_abs [OF len])

lemma isPowerOf2_power:
  fixes d :: "'a::len word"
  assumes len: "LENGTH('a) = Suc w" and d: "d \<noteq> 0" "isPowerOf2 d"
  shows "\<exists>j \<le> w. \<bar>sint d\<bar> = 2 ^ j \<and> shiftLoop (if sint d < 0 then - d else d) 0 = j"
proof -
  define e where "e = (if sint d < 0 then - d else d)"
  have e: "uint e = \<bar>sint d\<bar>" unfolding e_def by (rule abs_word [OF len])
  have "e AND - e = e" using d(2) unfolding isPowerOf2_def e_def Let_def .
  moreover have "e \<noteq> 0" using d(1) by (simp add: e_def)
  ultimately obtain j where j: "j < LENGTH('a)" "uint e = 2 ^ j" using lowest_bit_only [of e] by auto
  then have "unat e = 2 ^ j" by (metis nat_power_eq nat_uint_eq nat_numeral zero_le_numeral)
  then have "shiftLoop e 0 = j" using shiftLoop_power [of e j 0] by simp
  then show ?thesis using j e len by (auto simp: e_def)
qed

lemma not_isPowerOf2_ok:
  fixes d :: "'a::len word"
  assumes len: "LENGTH('a) = Suc w" "2 \<le> w" and d: "\<not> isPowerOf2 d"
  shows "divisorOk w (sint d)"
proof -
  have no: "sint d \<noteq> k" if "isPowerOf2 (word_of_int k :: 'a word)" for k
    using d that word_of_sint [of d] by metis
  have sm: "sint (1 :: 'a word) = 1" "sint (- 1 :: 'a word) = - 1" using len by simp_all
  have "isPowerOf2 (word_of_int 0 :: 'a word)" "isPowerOf2 (word_of_int 1 :: 'a word)" "isPowerOf2 (word_of_int (- 1) :: 'a word)"
    using sm by (simp_all add: isPowerOf2_def)
  moreover have self: "(word_of_int (- (2 ^ w)) :: 'a word) = - word_of_int (- (2 ^ w))"
  proof -
    have "(word_of_int (2 ^ w + 2 ^ w) :: 'a word) = 0" using len(1) by (simp only: word_of_int_eq_0_iff) simp
    then show ?thesis by (simp add: eq_neg_iff_add_eq_0)
  qed
  have "isPowerOf2 x" if eq: "- x = x" for x :: "'a word" by (simp only: isPowerOf2_def Let_def eq if_cancel and.idem)
  from this [OF self [symmetric]] have "isPowerOf2 (word_of_int (- (2 ^ w)) :: 'a word)" .
  ultimately have "sint d \<noteq> 0" "sint d \<noteq> 1" "sint d \<noteq> - 1" "sint d \<noteq> - (2 ^ w)" using no by blast+
  then show ?thesis using uint_of_sint(2,3) [OF len(1), of d] len(2) unfolding divisorOk_def by linarith
qed

lemma checkPower_signed:
  fixes d :: "'a::len word"
  assumes len: "LENGTH('a) = Suc w" and k: "0 < checkPositiveOrNegativePowerOfTwo d"
  shows "signedPower (sint d) (nat (checkPositiveOrNegativePowerOfTwo d))" "nat (checkPositiveOrNegativePowerOfTwo d) \<le> w"
proof -
  let ?k = "checkPositiveOrNegativePowerOfTwo d"
  have z: "shiftLoop (0 :: 'a word) 0 = 0" by (subst shiftLoop.simps) simp
  have loop: "shiftLoop e 0 = j" if "uint e = 2 ^ j" for e :: "'a word" and j
    using shiftLoop_power [of e j 0] that by (metis nat_power_eq nat_uint_eq nat_numeral zero_le_numeral add_0)
  consider (pos) "d \<noteq> push_bit (LENGTH('a) - 1) 1" "d AND - d = d" "?k = int (shiftLoop d 0)"
    | (neg) "- d AND - (- d) = - d" "?k = int (shiftLoop (- d) 0)"
    using k by (auto simp: checkPositiveOrNegativePowerOfTwo_def isNonNegativePowerOf2_def isNonPositivePowerOf2_def and.commute split: if_splits)
  then have "\<exists>j \<le> w. ?k = int j \<and> (sint d = 2 ^ j \<or> sint d = - (2 ^ j))"
  proof cases
    case pos
    then have "d \<noteq> 0" using k z by auto
    then obtain j where j: "j < LENGTH('a)" "d = push_bit j 1" "uint d = 2 ^ j" using lowest_bit_only [OF pos(2)] by auto
    then have "j < w" using pos(1) len by (cases "j = w") auto
    then have "(2 :: int) ^ j < 2 ^ w" by simp
    then have "sint d = 2 ^ j" using j(3) uint_of_sint(1,2) [OF len, of d] by (smt (verit))
    then show ?thesis using loop [OF j(3)] pos(3) \<open>j < w\<close> by auto
  next
    case neg
    then have "- d \<noteq> 0" using k z by auto
    then obtain j where j: "j < LENGTH('a)" "uint (- d) = 2 ^ j" using lowest_bit_only [OF neg(1)] by auto
    then have "- d = word_of_int (2 ^ j)" by (metis word_of_int_uint)
    then have "d = word_of_int (- (2 ^ j))" by (metis minus_minus of_int_minus)
    moreover have "(2 :: int) ^ j \<le> 2 ^ w" using j(1) len by (intro power_increasing) auto
    then have "sint (word_of_int (- (2 ^ j)) :: 'a word) = - (2 ^ j)" by (intro sint_word_of_int [OF len]) (auto intro: order_less_trans [of _ 0])
    ultimately show ?thesis using loop [OF j(2)] neg(2) j(1) len by auto
  qed
  then show "signedPower (sint d) (nat ?k)" "nat ?k \<le> w" using k by (auto simp: signedPower_def)
qed

end
