(* ===== verification/DivisionCorrect.thy ===== *)
theory DivisionCorrect
  imports DivisionPowers
begin

text \<open>
  The trees that divide without a division: the multiplication by a magic number gives the quotient for every dividend,
  and so does the sequence of shifts for the divisor ten.
\<close>

section \<open>Magic numbers\<close>

lemma high_half_range:
  fixes c x N :: int
  assumes "\<bar>c\<bar> < 2 * N" "- N \<le> x" "x < N"
  shows "- N \<le> c * x div (2 * N)" "c * x div (2 * N) < N"
proof -
  have N: "0 < N" using assms by linarith
  have "\<bar>c\<bar> * \<bar>x\<bar> \<le> \<bar>c\<bar> * N" using assms by (intro mult_left_mono) auto
  also have "\<dots> < 2 * N * N" using assms(1) N by simp
  finally have b: "\<bar>c * x\<bar> < 2 * N * N" by (simp only: abs_mult)
  then have "(2 * N) * (- N) div (2 * N) \<le> c * x div (2 * N)" using N by (intro zdiv_mono1) (auto simp: abs_if split: if_splits)
  moreover have "(2 * N) * (- N) div (2 * N) = - N" using N by (intro nonzero_mult_div_cancel_left) simp
  ultimately show "- N \<le> c * x div (2 * N)" by simp
  show "c * x div (2 * N) < N" using b N by (intro int_div_less) auto
qed

text \<open>The multiplier as a signed word, corrected by the dividend where its sign is not that of the divisor.\<close>

lemma magicProduct_value:
  fixes n :: "('l, 'a::len word) node" and v :: "'l \<Rightarrow> 'a word"
  assumes len: "LENGTH('a) = Suc w" and m: "m = word_of_int c" "c = (if sint d < 0 then - M else M)" and M: "0 < M" "M < 2 * 2 ^ w" and d: "sint d \<noteq> 0"
  defines "Q \<equiv> c * sint (eval v n) div (2 * 2 ^ w)"
  shows "eval v (magicProduct n d m) = word_of_int Q" "sint (word_of_int Q :: 'a word) = Q"
proof -
  let ?x = "eval v n"
  have r: "- (2 ^ w) \<le> sint ?x" "sint ?x < 2 ^ w" using uint_of_sint(2,3) [OF len, of ?x] by simp_all
  have "- (2 ^ w) \<le> Q" "Q < 2 ^ w" unfolding Q_def using m(2) M by (intro high_half_range [OF _ r]; simp split: if_splits)+
  then show "sint (word_of_int Q :: 'a word) = Q" by (rule sint_word_of_int [OF len])
  have mh: "mulHigh ?x m = word_of_int ((c + k * (2 * 2 ^ w)) * sint ?x div (2 * 2 ^ w))" if "sint m = c + k * (2 * 2 ^ w)" for k
    by (simp only: mulHigh_def len power_Suc that mult.commute)
  have "(c + k * (2 * 2 ^ w)) * sint ?x div (2 * 2 ^ w) = Q + k * sint ?x" for k
  proof -
    have "(c + k * (2 * 2 ^ w)) * sint ?x = c * sint ?x + (k * sint ?x) * (2 * 2 ^ w)" by (simp add: algebra_simps)
    moreover have "(c * sint ?x + (k * sint ?x) * (2 * 2 ^ w)) div (2 * 2 ^ w) = k * sint ?x + c * sint ?x div (2 * 2 ^ w)" by (rule div_mult_self1) simp
    ultimately show ?thesis unfolding Q_def by (simp only: add.commute)
  qed
  then have mk: "mulHigh ?x m = word_of_int Q + word_of_int k * ?x" if "sint m = c + k * (2 * 2 ^ w)" for k
    using mh [OF that] by (simp only: of_int_add of_int_mult word_of_sint)
  have sm: "sint m = c + k * (2 * 2 ^ w)" if "- (2 ^ w) \<le> c + k * (2 * 2 ^ w)" "c + k * (2 * 2 ^ w) < 2 ^ w" for k
  proof -
    have "(word_of_int (2 * 2 ^ w) :: 'a word) = 0" using len by (simp only: word_of_int_eq_0_iff) simp
    then have "m = word_of_int (c + k * (2 * 2 ^ w))" unfolding m(1) by (simp only: of_int_add of_int_mult) simp
    then show ?thesis using sint_word_of_int [OF len that] by simp
  qed
  show "eval v (magicProduct n d m) = word_of_int Q"
  proof (cases "0 < sint d")
    case True
    then show ?thesis using m(2) M mk [of 0] mk [of "- 1"] sm [of 0] sm [of "- 1"]
      by (cases "M < 2 ^ w") (simp_all add: magicProduct_def)
  next
    case False
    then show ?thesis using d m(2) M mk [of 0] mk [of 1] sm [of 0] sm [of 1]
      by (cases "M \<le> 2 ^ w") (simp_all add: magicProduct_def)
  qed
qed

lemma signCorrection_value:
  fixes n n3 :: "('l, 'a::len word) node"
  assumes ok: "widthOk TYPE('a)" and len: "LENGTH('a) = Suc w" and q: "eval v n3 = word_of_int q" "sint (eval v n3) = q" and d: "divisorOk w (sint d)"
    and M: "exactMagic (2 ^ w) (sint d) M P" "q = (if sint d < 0 then - M else M) * sint (eval v n) div P"
  shows "eval v (signCorrection n d n3) = divWord (eval v n) d"
proof -
  let ?x = "eval v n"
  have r: "- (2 ^ w) \<le> sint ?x" "sint ?x < 2 ^ w" using uint_of_sint(2,3) [OF len, of ?x] by simp_all
  show ?thesis
  proof (cases "0 < sint d")
    case True
    then have "q + (if sint ?x < 0 then 1 else 0) = sint ?x sdiv sint d"
      using magic_quotient_pos [OF _ _ M(1) r] M(2) d by (simp add: divisorOk_def)
    then have "word_of_int q + word_of_int (if sint ?x < 0 then 1 else 0) = divWord ?x d" by (simp only: divWord_def flip: of_int_add)
    then show ?thesis using True q(1) foldUshr_sign [OF ok len, of ?x] by (simp only: signCorrection_def evalWith.simps if_True)
  next
    case False
    then have neg: "sint d < 0" using d by (auto simp: divisorOk_def)
    then have "q + (if q < 0 then 1 else 0) = sint ?x sdiv sint d"
      using magic_quotient_neg [OF _ _ M(1) r] M(2) d by (simp add: divisorOk_def Let_def)
    then have "word_of_int q + word_of_int (if q < 0 then 1 else 0) = divWord ?x d" by (simp only: divWord_def flip: of_int_add)
    then show ?thesis using False q foldUshr_sign [OF ok len, of "eval v n3"] by (simp only: signCorrection_def evalWith.simps if_False)
  qed
qed

lemma magicQuotient_value:
  fixes n :: "('l, 'a::len word) node"
  assumes ok: "widthOk TYPE('a)" and len: "LENGTH('a) = Suc w" and d: "divisorOk w (sint d)" and m: "validMagic d m s"
  shows "eval v (magicQuotient n d m s) = divWord (eval v n) d" "eval v (magicQuotientUnshifted n d m s) = divWord (eval v n) d"
proof -
  obtain M where M: "m = word_of_int (if sint d < 0 then - M else M)" "0 < M" "M < 2 * 2 ^ w" "unat s < LENGTH('a)"
      "exactMagic (2 ^ w) (sint d) M (2 ^ (LENGTH('a) + unat s))"
    using m len by (auto simp: validMagic_def)
  define c where "c = (if sint d < 0 then - M else M)"
  define Q where "Q = c * sint (eval v n) div (2 * 2 ^ w)"
  have "sint d \<noteq> 0" using d by (auto simp: divisorOk_def)
  note prod = magicProduct_value [OF len M(1) refl M(2,3) this, of v n, folded c_def, folded Q_def]
  have P: "c * sint (eval v n) div 2 ^ (LENGTH('a) + unat s) = Q div 2 ^ unat s"
    unfolding Q_def power_add by (simp add: len zdiv_zmult2_eq)
  note corr = signCorrection_value [OF ok len _ _ d M(5), folded c_def]
  have am: "ucast s = (word_of_nat (unat s) :: u32)" by simp
  show q: "eval v (magicQuotient n d m s) = divWord (eval v n) d" unfolding magicQuotient_def am
    using foldShr_nat [OF ok M(4), of "eval v (magicProduct n d m)"] sint_foldShr [OF ok M(4), of "eval v (magicProduct n d m)"] prod
    by (intro corr) (simp_all only: P evalWith.simps)
  have "eval v (signCorrection n d (magicProduct n d m)) = divWord (eval v n) d" if "s = 0"
    using prod that P by (intro corr) simp_all
  then show "eval v (magicQuotientUnshifted n d m s) = divWord (eval v n) d" using q by (simp add: magicQuotientUnshifted_def)
qed

section \<open>Division by ten\<close>

text \<open>
  Each step of the sequence multiplies by nearly one more digit of 4/5; the errors of the shifts add up to less than
  two, so that the last correction is exact.
\<close>

definition tenSteps :: "int \<Rightarrow> int \<Rightarrow> int \<Rightarrow> int \<Rightarrow> int \<Rightarrow> int \<Rightarrow> int \<Rightarrow> bool" where
  "tenSteps N q2 q4 q6 q8 q10 q12 \<longleftrightarrow> q2 = N div 2 + N div 4 \<and> q4 = q2 + q2 div 16 \<and> q6 = q4 + q4 div 256 \<and>
     q8 = q6 + q6 div 65536 \<and> q10 = q8 + q8 div 4294967296 \<and> q12 = q10 div 8"

lemma tenSteps_linear:
  assumes "tenSteps N q2 q4 q6 q8 q10 q12"
  shows "4 * q2 \<le> 3 * N" "3 * N \<le> 4 * q2 + 5" "16 * q4 \<le> 17 * q2" "17 * q2 \<le> 16 * q4 + 15"
    "256 * q6 \<le> 257 * q4" "257 * q4 \<le> 256 * q6 + 255" "65536 * q8 \<le> 65537 * q6" "65537 * q6 \<le> 65536 * q8 + 65535"
    "4294967296 * q10 \<le> 4294967297 * q8" "4294967297 * q8 \<le> 4294967296 * q10 + 4294967295"
    "8 * q12 \<le> q10" "q10 \<le> 8 * q12 + 7"
proof -
  have b: "k * (x div k) \<le> x" "x \<le> k * (x div k) + (k - 1)" if "0 < k" for x k :: int
    using mult_div_mod_eq [of k x] pos_mod_bound [OF that, of x] pos_mod_sign [OF that, of x] by linarith+
  have s: "q2 = N div 2 + N div 4" "q4 = q2 + q2 div 16" "q6 = q4 + q4 div 256" "q8 = q6 + q6 div 65536" "q10 = q8 + q8 div 4294967296" "q12 = q10 div 8"
    using assms unfolding tenSteps_def by blast+
  show "4 * q2 \<le> 3 * N" "3 * N \<le> 4 * q2 + 5" using s(1) b [of 2 N] b [of 4 N] by linarith+
  show "16 * q4 \<le> 17 * q2" "17 * q2 \<le> 16 * q4 + 15" using s(2) b [of 16 q2] by linarith+
  show "256 * q6 \<le> 257 * q4" "257 * q4 \<le> 256 * q6 + 255" using s(3) b [of 256 q4] by linarith+
  show "65536 * q8 \<le> 65537 * q6" "65537 * q6 \<le> 65536 * q8 + 65535" using s(4) b [of 65536 q6] by linarith+
  show "4294967296 * q10 \<le> 4294967297 * q8" "4294967297 * q8 \<le> 4294967296 * q10 + 4294967295" using s(5) b [of 4294967296 q8] by linarith+
  show "8 * q12 \<le> q10" "q10 \<le> 8 * q12 + 7" using s(6) b [of 8 q10] by linarith+
qed

lemma tenSteps_remainder:
  assumes steps: "tenSteps N q2 q4 q6 q8 q10 q12" and N: "- 9223372036854775808 \<le> N" "N < 9223372036854775808"
  shows "0 \<le> N - q12 * 10" "N - q12 * 10 < 20"
  using tenSteps_linear [OF steps] N by linarith+

lemma tenSteps_quotient:
  assumes steps: "tenSteps N q2 q4 q6 q8 q10 q12" and N: "- 9223372036854775808 \<le> N" "N < 9223372036854775808"
  shows "q12 + (N - q12 * 10 + 6) div 16 = N div 10"
proof -
  note r = tenSteps_remainder [OF assms]
  have "N div 10 = q12 + (N - q12 * 10) div 10" by (simp add: diff_divide_distrib)
  moreover have "(k + 6) div 16 = k div 10" if "0 \<le> k" "k < 20" for k :: int
  proof (cases "k < 10")
    case False
    then have "(k + 6) div 16 = 1" "k div 10 = 1" using that
      by (auto intro: int_div_pos_eq [of _ _ _ "k - 10"])
    then show ?thesis by simp
  qed (use that in \<open>simp add: div_pos_pos_trivial\<close>)
  from this [OF r] have "(N - q12 * 10 + 6) div 16 = (N - q12 * 10) div 10" .
  ultimately show ?thesis by simp
qed

lemma tenSteps_range:
  assumes steps: "tenSteps N q2 q4 q6 q8 q10 q12" and N: "- 9223372036854775808 \<le> N" "N < 9223372036854775808"
  shows "\<forall>q \<in> {N, q2, q4, q6, q8, q10, q12}. - 9223372036854775808 \<le> q \<and> q < 9223372036854775808"
proof -
  note l = tenSteps_linear [OF steps]
  have q2: "- 9223372036854775808 \<le> q2" "q2 < 9223372036854775808" using l N by linarith+
  have q4: "- 9223372036854775808 \<le> q4" "q4 < 9223372036854775808" using l N by linarith+
  have q6: "- 9223372036854775808 \<le> q6" "q6 < 9223372036854775808" using l N by linarith+
  have q8: "- 9223372036854775808 \<le> q8" "q8 < 9223372036854775808" using l N by linarith+
  have q10: "- 9223372036854775808 \<le> q10" "q10 < 9223372036854775808" using l N by linarith+
  have q12: "- 9223372036854775808 \<le> q12" "q12 < 9223372036854775808" using l q10 by linarith+
  show ?thesis using N q2 q4 q6 q8 q10 q12 by simp
qed

lemma shr_value:
  assumes "x = (word_of_int X :: u64)" "- 9223372036854775808 \<le> X \<and> X < 9223372036854775808" "k < 64"
  shows "foldShr x (word_of_nat k) = word_of_int (X div 2 ^ k)"
  using foldShr_nat [of k x] sint_word_of_int [of 63 X, where 'a = 64] assms by (simp add: widthOk_def)

lemma transformToLongDivBy10Bitwise_value:
  "eval v (transformToLongDivBy10Bitwise n) = divWord (eval v n) 10"
proof -
  let ?x = "eval v n"
  have x: "- 9223372036854775808 \<le> sint ?x" "sint ?x < 9223372036854775808" using uint_of_sint(2,3) [of 63 ?x] by simp_all
  define N where "N = sint ?x + (if sint ?x < 0 then 9 else 0)"
  have N: "- 9223372036854775808 \<le> N" "N < 9223372036854775808" using x by (auto simp: N_def)
  obtain q2 q4 q6 q8 q10 q12 where steps: "tenSteps N q2 q4 q6 q8 q10 q12" by (simp add: tenSteps_def)
  note r = tenSteps_range [OF steps N]
  have s: "q2 = N div 2 + N div 4" "q4 = q2 + q2 div 16" "q6 = q4 + q4 div 256" "q8 = q6 + q6 div 65536" "q10 = q8 + q8 div 4294967296" "q12 = q10 div 8"
    using steps unfolding tenSteps_def by blast+
  have sign: "sint ?x div 9223372036854775808 = (if sint ?x < 0 then - 1 else 0)" using x by (auto simp: div_pos_pos_trivial div_pos_neg_trivial)
  have n1: "?x + (foldShr ?x 63 AND 9) = word_of_int N"
    using shr_value [OF word_of_sint [symmetric], of ?x 63] x sign by (simp add: N_def)
  have sh: "foldShr (word_of_int X :: u64) 1 = word_of_int (X div 2) \<and> foldShr (word_of_int X :: u64) 2 = word_of_int (X div 4) \<and>
      foldShr (word_of_int X :: u64) 3 = word_of_int (X div 8) \<and> foldShr (word_of_int X :: u64) 4 = word_of_int (X div 16) \<and>
      foldShr (word_of_int X :: u64) 8 = word_of_int (X div 256) \<and> foldShr (word_of_int X :: u64) 16 = word_of_int (X div 65536) \<and>
      foldShr (word_of_int X :: u64) 32 = word_of_int (X div 4294967296)"
    if "- 9223372036854775808 \<le> X \<and> X < 9223372036854775808" for X
    using shr_value [OF refl that, of 1] shr_value [OF refl that, of 2] shr_value [OF refl that, of 3] shr_value [OF refl that, of 4]
      shr_value [OF refl that, of 8] shr_value [OF refl that, of 16] shr_value [OF refl that, of 32] by simp
  have rN: "- 9223372036854775808 \<le> N \<and> N < 9223372036854775808" and r2: "- 9223372036854775808 \<le> q2 \<and> q2 < 9223372036854775808"
    and r4: "- 9223372036854775808 \<le> q4 \<and> q4 < 9223372036854775808" and r6: "- 9223372036854775808 \<le> q6 \<and> q6 < 9223372036854775808"
    and r8: "- 9223372036854775808 \<le> q8 \<and> q8 < 9223372036854775808" and r10: "- 9223372036854775808 \<le> q10 \<and> q10 < 9223372036854775808"
    using r by simp_all
  have e2: "foldShr (word_of_int N :: u64) 1 + foldShr (word_of_int N) 2 = word_of_int q2" using sh [OF rN] by (simp only: s(1) of_int_add)
  have e4: "word_of_int q2 + foldShr (word_of_int q2 :: u64) 4 = word_of_int q4" using sh [OF r2] by (simp only: s(2) of_int_add)
  have e6: "word_of_int q4 + foldShr (word_of_int q4 :: u64) 8 = word_of_int q6" using sh [OF r4] by (simp only: s(3) of_int_add)
  have e8: "word_of_int q6 + foldShr (word_of_int q6 :: u64) 16 = word_of_int q8" using sh [OF r6] by (simp only: s(4) of_int_add)
  have e10: "word_of_int q8 + foldShr (word_of_int q8 :: u64) 32 = word_of_int q10" using sh [OF r8] by (simp only: s(5) of_int_add)
  have e12: "foldShr (word_of_int q10 :: u64) 3 = word_of_int q12" using sh [OF r10] by (simp only: s(6) of_int_add)
  have "- 9223372036854775808 \<le> N - q12 * 10 + 6 \<and> N - q12 * 10 + 6 < 9223372036854775808" using tenSteps_remainder [OF steps N] by linarith
  from sh [OF this] have er: "foldShr (word_of_int N - word_of_int q12 * 10 + 6 :: u64) 4 = word_of_int ((N - q12 * 10 + 6) div 16)" by simp
  define t1 t2 t4 t6 t8 t10 t12 where t: "t1 = Add n (And (Shr n 63) (Const 9))" "t2 = Add (Shr t1 1) (Shr t1 2)" "t4 = Add t2 (Shr t2 4)"
    "t6 = Add t4 (Shr t4 8)" "t8 = Add t6 (Shr t6 16)" "t10 = Add t8 (Shr t8 32)" "t12 = Shr t10 3"
  have v1: "eval v t1 = word_of_int N" unfolding t(1) evalWith.simps by (rule n1)
  have v2: "eval v t2 = word_of_int q2" unfolding t(2) evalWith.simps v1 by (rule e2)
  have v4: "eval v t4 = word_of_int q4" unfolding t(3) evalWith.simps v2 by (rule e4)
  have v6: "eval v t6 = word_of_int q6" unfolding t(4) evalWith.simps v4 by (rule e6)
  have v8: "eval v t8 = word_of_int q8" unfolding t(5) evalWith.simps v6 by (rule e8)
  have v10: "eval v t10 = word_of_int q10" unfolding t(6) evalWith.simps v8 by (rule e10)
  have v12: "eval v t12 = word_of_int q12" unfolding t(7) evalWith.simps v10 by (rule e12)
  have "transformToLongDivBy10Bitwise n = Add t12 (Shr (Add (Sub t1 (Mul t12 (Const 10))) (Const 6)) 4)"
    unfolding transformToLongDivBy10Bitwise_def Let_def t ..
  then have "eval v (transformToLongDivBy10Bitwise n) = word_of_int q12 + word_of_int ((N - q12 * 10 + 6) div 16)"
    by (simp only: evalWith.simps v1 v12 er)
  also have "\<dots> = word_of_int (N div 10)" by (simp only: tenSteps_quotient [OF steps N] flip: of_int_add)
  also have "N div 10 = sint ?x sdiv 10" using ceiling_div [of 10 "sint ?x"] by (auto simp: N_def signed_divide_int_def sgn_if algebra_simps)
  finally show ?thesis by (simp add: divWord_def)
qed

end
