(* ===== verification/DivisionHandlers.thy ===== *)
theory DivisionHandlers
  imports DivisionCorrect
begin

text \<open>
  The handlers of the simplifier for int and long division and remainder replace an expression by one of the same
  value, whatever the options allow. Two cases of long division are excepted, and shown to be wrong.
\<close>

section \<open>Where magic values come from\<close>

text \<open>
  What the handlers rely on in the code generator: for a divisor that is not a power of two it returns values that are
  exact for every dividend.
\<close>

locale magic_values =
  fixes compute :: "'a::len word \<Rightarrow> ('a word \<times> 'a word) option"
    and width :: nat
  assumes width: "LENGTH('a) = Suc width" "2 \<le> width" "widthOk TYPE('a)"
    and compute: "divisorOk width (sint d) \<Longrightarrow> \<exists>m s. compute d = Some (m, s) \<and> validMagic d m s"
begin

lemma quotient:
  assumes "\<not> isPowerOf2 d"
  shows "\<exists>m s. compute d = Some (m, s) \<and> eval v (magicQuotient n d m s) = divWord (eval v n) d \<and>
    eval v (magicQuotientUnshifted n d m s) = divWord (eval v n) d"
proof -
  have ok: "divisorOk width (sint d)" by (rule not_isPowerOf2_ok [OF width(1,2) assms])
  then obtain m s where m: "compute d = Some (m, s)" "validMagic d m s" using compute by blast
  from magicQuotient_value [OF width(3,1) ok m(2)] show ?thesis using m(1) by blast
qed

end

lemma width_ok: "widthOk TYPE(32)" "widthOk TYPE(64)"
  by (simp_all add: widthOk_def)

interpretation int_magic: magic_values compute32BitMagicValues 31
  by unfold_locales (simp_all add: width_ok compute32_valid)

interpretation long_magic: magic_values compute64BitMagicValues 63
  by unfold_locales (simp_all add: width_ok compute64_valid)

section \<open>Int division and remainder\<close>

lemma not_const_case: "\<forall>c. a \<noteq> Const c \<Longrightarrow> (case a of Const c \<Rightarrow> f c | _ \<Rightarrow> g) = g"
  by (cases a) auto

lemma divWord_unit: "divWord x 1 = x" "divWord x (- 1) = - x" "remWord x 1 = 0" "remWord x (- 1) = 0" if "LENGTH('a) = Suc (Suc w)" for x :: "'a::len word"
proof -
  have s: "sint (1 :: 'a word) = 1" "sint (- 1 :: 'a word) = - 1" using that by simp_all
  have m: "y smod 1 = 0" "y smod - 1 = 0" "y sdiv 1 = y" "y sdiv - 1 = - y" for y :: int
    by (simp_all add: signed_modulo_int_def signed_divide_int_def mult_sgn_abs)
  show "divWord x 1 = x" by (simp only: divWord_def s m word_of_sint)
  show "divWord x (- 1) = - x" by (simp only: divWord_def s m of_int_minus word_of_sint)
  show "remWord x 1 = 0" "remWord x (- 1) = 0" by (simp_all only: remWord_def s m of_int_0)
qed

lemma remWord_eq: "x - d * divWord x d = remWord x d"
proof -
  have "word_of_int (sint x - sint d * (sint x sdiv sint d)) = x - d * divWord x d" by (simp only: of_int_diff of_int_mult word_of_sint divWord_def)
  then show ?thesis by (simp only: minus_mult_sdiv_eq_smod remWord_def)
qed

lemma foldConstant_value: "eval v node = x \<Longrightarrow> eval v (foldConstant s node x) = x"
  by (simp add: foldConstant_def)

lemma power2Div_divisor:
  fixes n :: "('l, 'a::len word) node"
  assumes "widthOk TYPE('a)" "0 < checkPositiveOrNegativePowerOfTwo d"
  shows "eval v (power2Div n d (nat (checkPositiveOrNegativePowerOfTwo d))) = divWord (eval v n) d"
    "eval v (power2Rem n d (nat (checkPositiveOrNegativePowerOfTwo d))) = remWord (eval v n) d"
proof -
  obtain w where len: "LENGTH('a) = Suc w" using len_gt_0 [where 'a = 'a] by (metis gr0_implies_Suc)
  note k = checkPower_signed [OF len assms(2)]
  show "eval v (power2Div n d (nat (checkPositiveOrNegativePowerOfTwo d))) = divWord (eval v n) d"
    by (rule power2Div_value [OF assms(1) len k])
  show "eval v (power2Rem n d (nat (checkPositiveOrNegativePowerOfTwo d))) = remWord (eval v n) d"
    by (rule power2Rem_value [OF assms(1) len k])
qed

lemma signBit_minus: "- signBit = (signBit :: u32)" "- signBit = (signBit :: u64)"
  by (simp_all add: signBit_def)

lemma idiv_keeps: "\<exists>n. idivSimplifier s a b = Some n \<and> eval v n = eval v (Div a b)"
proof (cases "\<exists>d. b = Const d \<and> d \<noteq> 0")
  case False
  then show ?thesis by (cases b) (auto simp: replaceNode_def idivSimplifier_def)
next
  case True
  then obtain d where b: "b = Const d" "d \<noteq> 0" by blast
  note u = divWord_unit [of 30, where 'a = 32, simplified]
  show ?thesis
  proof (cases "\<exists>c. a = Const c")
    case True
    then show ?thesis using b u by (auto simp: replaceNode_def idivSimplifier_def foldConstant_def Let_def signBit_minus)
  next
    case False
    then have a: "\<forall>c. a \<noteq> Const c" by simp
    show ?thesis using b u power2Div_divisor(1) [OF width_ok(1), of d v a] int_magic.quotient [of d v a]
      by (auto simp: replaceNode_def idivSimplifier_def not_const_case [OF a] Let_def)
  qed
qed

lemma irem_keeps: "\<exists>n. iremSimplifier s a b = Some n \<and> eval v n = eval v (Rem a b)"
proof (cases "\<exists>d. b = Const d \<and> d \<noteq> 0")
  case False
  then show ?thesis by (cases b) (auto simp: iremSimplifier_def)
next
  case True
  then obtain d where b: "b = Const d" "d \<noteq> 0" by blast
  note u = divWord_unit [of 30, where 'a = 32, simplified]
  show ?thesis
  proof (cases "\<exists>c. a = Const c")
    case True
    then show ?thesis using b u by (auto simp: iremSimplifier_def foldConstant_def Let_def)
  next
    case False
    then have a: "\<forall>c. a \<noteq> Const c" by simp
    show ?thesis using b u power2Div_divisor(2) [OF width_ok(1), of d v a] int_magic.quotient [of d v a] remWord_eq [of "eval v a" d]
      by (auto simp: iremSimplifier_def not_const_case [OF a] Let_def foldConstant_def getQuotientUsingMagicNumberMultiply_def)
  qed
qed

section \<open>Long division by a power of two\<close>

lemma sdiv_power_nonneg: "0 \<le> x \<Longrightarrow> (x :: int) sdiv 2 ^ j = x div 2 ^ j"
  by (auto simp: signed_divide_int_def sgn_if)

lemma sdiv_power_nonpos: "x \<le> 0 \<Longrightarrow> (x :: int) sdiv 2 ^ j = - ((- x) div 2 ^ j)"
  by (auto simp: signed_divide_int_def sgn_if)

text \<open>The remainder is not zero exactly if its sum with \<open>2 ^ j - 1\<close> has the bit \<open>j\<close>; the shifts move it over the word.\<close>

lemma round_up_bit:
  fixes x :: u64
  assumes j: "j \<le> 62"
  shows "foldShr (foldShl ((x AND word_of_int (2 ^ j - 1)) + word_of_int (2 ^ j - 1)) (word_of_nat (63 - j))) 63 =
    word_of_int (if sint x mod 2 ^ j = 0 then 0 else - 1)"
proof -
  define r where "r = sint x mod 2 ^ j"
  have r: "0 \<le> r" "r < 2 ^ j" by (simp_all add: r_def)
  have "word_of_int (2 ^ j - 1) = (mask j :: u64)" by (simp add: mask_eq_exp_minus_1)
  then have "x AND word_of_int (2 ^ j - 1) = take_bit j x" by (simp add: take_bit_eq_mask)
  also have "\<dots> = word_of_int r"
  proof -
    have "word_of_int (take_bit j (sint x)) = take_bit j (word_of_int (sint x) :: u64)" by (simp only: take_bit_of_int)
    then show ?thesis by (simp only: word_of_sint r_def take_bit_eq_mod)
  qed
  finally have y: "(x AND word_of_int (2 ^ j - 1)) + word_of_int (2 ^ j - 1) = word_of_int (r + (2 ^ j - 1))" by (simp only: of_int_add)
  define H where "H = (2 :: int) ^ (63 - j)"
  have H: "2 ^ j * H = 9223372036854775808" "0 < H" using j by (simp_all add: H_def flip: power_add)
  have sh: "foldShl (word_of_int k :: u64) (word_of_nat (63 - j)) = word_of_int (k * H)" for k
    using unat_amount [OF width_ok(2), of "63 - j"] by (simp add: foldShl_def push_bit_eq_mult H_def)
  define t where "t = (if r = 0 then (2 ^ j - 1) * H else (r + (2 ^ j - 1)) * H - 18446744073709551616)"
  have t: "- 9223372036854775808 \<le> t \<and> t < 9223372036854775808 \<and> t div 9223372036854775808 = (if r = 0 then 0 else - 1)"
  proof (cases "r = 0")
    case True
    then have "t = 9223372036854775808 - H" by (simp add: t_def left_diff_distrib H(1))
    moreover have "H \<le> 9223372036854775808" using H by (metis mult.commute mult_left_mono mult_1_right one_le_power one_le_numeral order_less_imp_le)
    ultimately show ?thesis using True H(2) by (simp add: div_pos_pos_trivial)
  next
    case False
    then have e: "t = (r - 1) * H - 9223372036854775808" using H(1) by (simp add: t_def algebra_simps)
    have "0 \<le> (r - 1) * H" using False r H(2) by simp
    moreover have "(r - 1) * H < 2 ^ j * H" using r H(2) by (intro mult_strict_right_mono) simp_all
    ultimately have "- 9223372036854775808 \<le> t" "t < 0" using e H(1) by linarith+
    then show ?thesis using False by (simp add: div_pos_neg_trivial)
  qed
  have "(word_of_int ((r + (2 ^ j - 1)) * H) :: u64) = word_of_int t"
  proof -
    have "(word_of_int 18446744073709551616 :: u64) = 0" by simp
    then show ?thesis unfolding t_def by (cases "r = 0") (simp_all only: of_int_diff if_True if_False add_0 diff_zero refl)
  qed
  then have "foldShl ((x AND word_of_int (2 ^ j - 1)) + word_of_int (2 ^ j - 1)) (word_of_nat (63 - j)) = word_of_int t"
    by (simp only: y sh)
  from shr_value [OF this, of 63] t show ?thesis by (simp add: r_def)
qed

lemma ceiling_by_remainder: "- ((- x) div 2 ^ j) = x div 2 ^ j + (if x mod 2 ^ j = 0 then 0 else 1)" for x :: int
  by (simp add: zdiv_zminus1_eq_if)

text \<open>What the flags say of the dividend, and the one case that its negation does not survive.\<close>

definition signsSound :: "(longLeaf, u64) simplifier \<Rightarrow> longNode \<Rightarrow> u64 \<Rightarrow> bool" where
  "signsSound s n x \<longleftrightarrow> (isNonNegative s n \<longrightarrow> 0 \<le> sint x) \<and> (isNonPositive s n \<longrightarrow> sint x \<le> 0)"

lemma longPower2_value:
  assumes d: "d \<noteq> 0" "isPowerOf2 d" and signs: "signsSound s n (eval v n)"
    and min: "sint d < 0 \<Longrightarrow> isNonPositive s n \<Longrightarrow> eval v n \<noteq> signBit"
  shows "eval v (longPower2 s n d) = divWord (eval v n) d"
proof -
  have len: "LENGTH(64) = Suc 63" by simp
  let ?x = "eval v n"
  have rx: "- 9223372036854775808 \<le> sint ?x" "sint ?x < 9223372036854775808" using uint_of_sint(2,3) [of 63 ?x] by simp_all
  obtain j where j: "j \<le> 63" "\<bar>sint d\<bar> = 2 ^ j" "shiftLoop (if sint d < 0 then - d else d) 0 = j" using isPowerOf2_power [OF len d] by auto
  have sh: "foldShr (word_of_int X) (word_of_nat j) = (word_of_int (X div 2 ^ j) :: u64)" if "- 9223372036854775808 \<le> X" "X < 9223372036854775808" for X
    using shr_value [of "word_of_int X" X j] that j(1) by simp
  have shx: "foldShr ?x (word_of_nat j) = word_of_int (sint ?x div 2 ^ j)" using sh [OF rx] by (simp only: word_of_sint)
  have neg: "divWord ?x d = word_of_int (- (sint ?x sdiv 2 ^ j))" if "sint d < 0"
  proof -
    have "sint d = - (2 ^ j)" using that j(2) by simp
    then show ?thesis using sdiv_minus_power [of "sint ?x" j] by (simp only: divWord_def)
  qed
  have pos: "divWord ?x d = word_of_int (sint ?x sdiv 2 ^ j)" "d = word_of_int (2 ^ j)" "j \<le> 62" if "\<not> sint d < 0"
  proof -
    have e: "sint d = 2 ^ j" using that j(2) by simp
    then show "divWord ?x d = word_of_int (sint ?x sdiv 2 ^ j)" by (simp add: divWord_def)
    show "d = word_of_int (2 ^ j)" using e word_of_sint [of d] by simp
    have "j \<noteq> 63" using e uint_of_sint(3) [OF len, of d] by auto
    then show "j \<le> 62" using j(1) by simp
  qed
  have e1: "eval v (Neg (Shr n (word_of_nat j))) = divWord ?x d" if "0 \<le> sint ?x" "sint d < 0"
    using shx neg [OF that(2)] sdiv_power_nonneg [OF that(1), of j] by simp
  have e2: "eval v (Shr n (word_of_nat j)) = divWord ?x d" if "0 \<le> sint ?x" "\<not> sint d < 0"
    using shx pos(1) [OF that(2)] sdiv_power_nonneg [OF that(1), of j] by simp
  have e3: "eval v (Shr (Neg n) (word_of_nat j)) = divWord ?x d" if "sint ?x \<le> 0" "sint d < 0" "?x \<noteq> signBit"
  proof -
    have "sint ?x \<noteq> - 9223372036854775808"
    proof
      assume "sint ?x = - 9223372036854775808"
      then have "?x = word_of_int (- 9223372036854775808)" by (metis word_of_sint)
      then show False using that(3) by (simp add: signBit_def)
    qed
    then have "foldShr (word_of_int (- sint ?x)) (word_of_nat j) = (word_of_int ((- sint ?x) div 2 ^ j) :: u64)" using rx that(1) by (intro sh) simp_all
    moreover have "(word_of_int (- sint ?x) :: u64) = - ?x" by (simp only: of_int_minus word_of_sint)
    ultimately show ?thesis using neg [OF that(2)] sdiv_power_nonpos [OF that(1), of j] by simp
  qed
  have e4: "eval v (Shr (Add n (Const (d - 1))) (word_of_nat j)) = divWord ?x d" if "sint ?x \<le> 0" "\<not> sint d < 0"
  proof -
    have "?x + (d - 1) = word_of_int (sint ?x + 2 ^ j - 1)" unfolding pos(2) [OF that(2)] by (simp only: of_int_add of_int_diff of_int_1 word_of_sint add_diff_eq)
    moreover have "(2 :: int) ^ j \<le> 2 ^ 62" using pos(3) [OF that(2)] by (intro power_increasing) simp_all
    then have "(2 :: int) ^ j \<le> 4611686018427387904" "1 \<le> (2 :: int) ^ j" by simp_all
    then have "foldShr (word_of_int (sint ?x + 2 ^ j - 1)) (word_of_nat j) = (word_of_int ((sint ?x + 2 ^ j - 1) div 2 ^ j) :: u64)"
      using rx that(1) by (intro sh) linarith+
    ultimately show ?thesis using pos(1) [OF that(2)] sdiv_power_nonpos [OF that(1), of j] ceiling_div [of "2 ^ j" "sint ?x"]
      by (simp only: evalWith.simps zero_less_power zero_less_numeral)
  qed
  have e5: "eval v (Add (Shr n (word_of_nat j))
      (Neg (Shr (Shl (Add (And n (Const (d - 1))) (Const (d - 1))) (63 - word_of_nat j)) 63))) = divWord ?x d" if "sint ?x \<le> 0" "\<not> sint d < 0"
  proof -
    have am: "63 - word_of_nat j = (word_of_nat (63 - j) :: u32)" using j(1) by (simp add: of_nat_diff)
    have d1: "d - 1 = word_of_int (2 ^ j - 1)" unfolding pos(2) [OF that(2)] by simp
    show ?thesis unfolding evalWith.simps am d1 round_up_bit [OF pos(3) [OF that(2)]] shx pos(1) [OF that(2)]
        sdiv_power_nonpos [OF that(1), of j] ceiling_by_remainder by simp
  qed
  have e6: "0 < checkPositiveOrNegativePowerOfTwo d \<Longrightarrow>
      eval v (power2Div n d (nat (checkPositiveOrNegativePowerOfTwo d))) = divWord ?x d" by (rule power2Div_divisor [OF width_ok(2)])
  have e0: "eval v (Div n (Const d)) = divWord ?x d" by simp
  show ?thesis using signs min e0 e1 e2 e3 e4 e5 e6 unfolding longPower2_def Let_def j(3) signsSound_def
    by (auto simp del: evalWith.simps)
qed

section \<open>Narrowing\<close>

lemma sint_scast: "sint (scast x :: u64) = sint (x :: u32)"
proof -
  have "- (2 ^ 31) \<le> sint x" "sint x < 2 ^ 31" using uint_of_sint(2,3) [of 31 x] by simp_all
  then have "sint (word_of_int (sint x) :: u64) = sint x" by (intro sint_word_of_int [of 63]) simp_all
  then show ?thesis by (simp only: scast_eq)
qed

lemma sdiv_range:
  fixes x y :: int
  assumes "- N \<le> x" "x < N" "x \<noteq> - N \<or> y \<noteq> - 1"
  shows "- N \<le> x sdiv y" "x sdiv y < N"
proof -
  have le: "\<bar>x sdiv y\<bar> \<le> \<bar>x\<bar> div \<bar>y\<bar>" by (simp add: signed_divide_int_def abs_mult sgn_if pos_imp_zdiv_nonneg_iff)
  have q: "\<bar>x\<bar> div \<bar>y\<bar> \<le> \<bar>x\<bar>"
    using zdiv_mono2 [of "\<bar>x\<bar>" 1 "\<bar>y\<bar>"] by (cases "y = 0") simp_all
  then show "- N \<le> x sdiv y" using le assms by linarith
  show "x sdiv y < N"
  proof (cases "x = - N")
    case False
    then show ?thesis using le q assms by linarith
  next
    case True
    then have y: "y \<noteq> - 1" using assms(3) by simp
    have N: "0 < N" using assms(1,2) by linarith
    show ?thesis
    proof (cases "y < 0")
      case True
      then have "\<bar>x\<bar> div \<bar>y\<bar> < \<bar>x\<bar>" using y N \<open>x = - N\<close> by (intro int_div_less_self) auto
      then show ?thesis using le \<open>x = - N\<close> N by linarith
    next
      case False
      have "0 \<le> \<bar>x\<bar> div \<bar>y\<bar>" by (cases "y = 0") (simp_all add: pos_imp_zdiv_nonneg_iff)
      then have "x sdiv y \<le> 0" using False N \<open>x = - N\<close> by (simp add: signed_divide_int_def sgn_if)
      then show ?thesis using N by linarith
    qed
  qed
qed

lemma scast_divWord:
  fixes x y :: u32
  assumes "x \<noteq> signBit \<or> y \<noteq> - 1"
  shows "(scast (divWord x y) :: u64) = divWord (scast x) (scast y)"
proof -
  have r: "- (2 ^ 31) \<le> sint x" "sint x < 2 ^ 31" using uint_of_sint(2,3) [of 31 x] by simp_all
  have "sint x \<noteq> - (2 ^ 31) \<or> sint y \<noteq> - 1"
  proof (rule ccontr)
    assume "\<not> ?thesis"
    then have "x = word_of_int (- (2 ^ 31))" "y = word_of_int (- 1)" by (metis word_of_sint)+
    then show False using assms by (simp add: signBit_def)
  qed
  from sdiv_range [OF r this] have "sint (divWord x y) = sint x sdiv sint y" unfolding divWord_def by (intro sint_word_of_int [of 31]) simp_all
  then show ?thesis unfolding scast_eq [of "divWord x y"] unfolding divWord_def sint_scast by (simp only:)
qed

lemma scast_remWord: "(scast (remWord x y) :: u64) = remWord (scast x) (scast y)" for x y :: u32
proof -
  have r: "- (2 ^ 31) \<le> sint x" "sint x < 2 ^ 31" using uint_of_sint(2,3) [of 31 x] by simp_all
  have "\<bar>x\<bar> mod \<bar>y\<bar> \<le> \<bar>x\<bar>" "0 \<le> \<bar>x\<bar> mod \<bar>y\<bar>" for x y :: int
    by (cases "y = 0"; simp add: zmod_le_nonneg_dividend)+
  then have "- (2 ^ 31) \<le> sint x smod sint y" "sint x smod sint y < 2 ^ 31" using r
    by (auto simp: signed_modulo_int_def sgn_if) (smt (verit))+
  then have "sint (remWord x y) = sint x smod sint y" unfolding remWord_def by (intro sint_word_of_int [of 31]) simp_all
  then show ?thesis unfolding scast_eq [of "remWord x y"] unfolding remWord_def sint_scast by (simp only:)
qed

section \<open>Long division and remainder\<close>

lemma divideBy10_value: "evalLong vi vl (divideBy10 s a b) = evalLong vi vl (Div a b)"
  by (simp add: divideBy10_def evalLong_eq transformToLongDivBy10Bitwise_value)

lemma remainderBy10_value: "evalLong vi vl (remainderBy10 s a b) = evalLong vi vl (Rem a b)"
  by (simp add: remainderBy10_def evalLong_eq transformToLongDivBy10Bitwise_value mult.commute remWord_eq)

definition narrowOverflow :: "(nat \<Rightarrow> u32) \<Rightarrow> longNode \<Rightarrow> longNode \<Rightarrow> bool" where
  "narrowOverflow vi a b = (case (a, b) of (Leaf (I2L x), Leaf (I2L y)) \<Rightarrow> evalInt vi x = signBit \<and> evalInt vi y = - 1 | _ \<Rightarrow> False)"

lemma narrowOverflow_iff:
  "narrowOverflow vi a b \<longleftrightarrow> (\<exists>x y. a = Leaf (I2L x) \<and> b = Leaf (I2L y) \<and> evalInt vi x = signBit \<and> evalInt vi y = - 1)"
proof (cases "\<exists>x y. a = Leaf (I2L x) \<and> b = Leaf (I2L y)")
  case True
  then show ?thesis by (auto simp: narrowOverflow_def)
next
  case False
  then show ?thesis by (cases b) (auto simp: narrowOverflow_def split: node.split longLeaf.split)
qed

lemma longPower2_shape: "longPower2 s n d = Div a b \<Longrightarrow> b = Const d"
  by (simp add: longPower2_def power2Div_def Let_def split: if_splits)

lemma narrow_div_value:
  assumes "evalInt vi x \<noteq> signBit \<or> evalInt vi y \<noteq> - 1"
  shows "evalLong vi vl (Leaf (I2L (Div x y))) = evalLong vi vl (Div (Leaf (I2L x)) (Leaf (I2L y)))"
  using scast_divWord [OF assms] by (simp add: evalLong_def leafValue_def evalInt_def)

lemma narrow_rem_value: "evalLong vi vl (Leaf (I2L (Rem x y))) = evalLong vi vl (Rem (Leaf (I2L x)) (Leaf (I2L y)))"
  using scast_remWord [of "evalInt vi x" "evalInt vi y"] by (simp add: evalLong_def leafValue_def evalInt_def)

lemma divideNarrow_value:
  assumes "\<And>a b. node = Div a b \<Longrightarrow> \<not> narrowOverflow vi a b"
  shows "evalLong vi vl (divideNarrow s node) = evalLong vi vl node"
proof (cases "\<exists>x y. node = Div (Leaf (I2L x)) (Leaf (I2L y))")
  case True
  then obtain x y where n: "node = Div (Leaf (I2L x)) (Leaf (I2L y))" by blast
  then have "evalInt vi x \<noteq> signBit \<or> evalInt vi y \<noteq> - 1" using assms by (auto simp: narrowOverflow_def)
  then show ?thesis unfolding n by (simp add: divideNarrow_def divideBy10_value narrow_div_value)
next
  case False
  then show ?thesis
    by (auto simp: divideNarrow_def divideBy10_value split: node.split longLeaf.split)
qed

lemma remainderNarrow_value: "evalLong vi vl (remainderNarrow s a b) = evalLong vi vl (Rem a b)"
  by (auto simp: remainderNarrow_def remainderBy10_value narrow_rem_value split: node.split longLeaf.split)

lemma ldiv_keeps:
  assumes signs: "signsSound s a (evalLong vi vl a)"
    and min: "sint (evalLong vi vl b) < 0 \<Longrightarrow> isNonPositive s a \<Longrightarrow> evalLong vi vl a \<noteq> signBit"
    and narrow: "\<not> narrowOverflow vi a b"
  shows "\<exists>n. ldivSimplifier s a b = Some n \<and> evalLong vi vl n = evalLong vi vl (Div a b)"
proof (cases "\<exists>d. b = Const d \<and> d \<noteq> 0")
  case False
  then have "ldivSimplifier s a b = Some (divideNarrow s (Div a b))" by (cases b) (auto simp: replaceNode_def ldivSimplifier_def)
  then show ?thesis using divideNarrow_value [of "Div a b" vi vl s] narrow by auto
next
  case True
  then obtain d where b: "b = Const d" "d \<noteq> 0" by blast
  have keep: "evalLong vi vl (divideNarrow s n) = evalLong vi vl n" if "\<And>x y. n = Div x y \<Longrightarrow> y = Const d" for n
    using that by (intro divideNarrow_value) (auto simp: narrowOverflow_iff)
  note u = divWord_unit [of 62, where 'a = 64, simplified]
  show ?thesis
  proof (cases "\<exists>c. a = Const c")
    case True
    then obtain c where a: "a = Const c" ..
    have "evalLong vi vl (divideNarrow s (foldConstant s (Div a b) (divWord c d))) = evalLong vi vl (Div a b)"
      using a b by (subst keep) (auto simp: foldConstant_def evalLong_def split: if_splits)
    then show ?thesis using a b u by (auto simp: replaceNode_def ldivSimplifier_def evalLong_def Let_def signBit_minus)
  next
    case False
    then have a: "\<forall>c. a \<noteq> Const c" by simp
    have node: "evalLong vi vl (divideNarrow s (Div a b)) = evalLong vi vl (Div a b)" using b by (intro keep) auto
    have power: "evalLong vi vl (divideNarrow s (longPower2 s a d)) = evalLong vi vl (Div a b)" if "isPowerOf2 d"
    proof -
      have "evalLong vi vl (longPower2 s a d) = evalLong vi vl (Div a b)"
        using longPower2_value [OF b(2) that, of s a "leafValue vi vl"] signs min b by (simp add: evalLong_eq)
      then show ?thesis by (subst keep) (auto dest: longPower2_shape)
    qed
    obtain m sh where "\<not> isPowerOf2 d \<Longrightarrow> compute64BitMagicValues d = Some (m, sh) \<and> evalLong vi vl (magicQuotient a d m sh) = evalLong vi vl (Div a b)"
      using long_magic.quotient [of d "leafValue vi vl" a] b by (auto simp: evalLong_eq)
    then show ?thesis using b u node power
      by (auto simp: replaceNode_def ldivSimplifier_def not_const_case [OF a] evalLong_def Let_def)
  qed
qed

lemma lrem_keeps: "evalLong vi vl (lremSimplifier s a b) = evalLong vi vl (Rem a b)"
proof (cases "\<exists>d. b = Const d \<and> d \<noteq> 0")
  case False
  then have "lremSimplifier s a b = remainderNarrow s a b" by (cases b) (auto simp: lremSimplifier_def)
  then show ?thesis by (simp only: remainderNarrow_value)
next
  case True
  then obtain d where b: "b = Const d" "d \<noteq> 0" by blast
  note u = divWord_unit [of 62, where 'a = 64, simplified]
  show ?thesis
  proof (cases "\<exists>c. a = Const c")
    case True
    then show ?thesis using b u by (auto simp: lremSimplifier_def foldConstant_def Let_def evalLong_def)
  next
    case False
    then have a: "\<forall>c. a \<noteq> Const c" by simp
    have "evalLong vi vl (power2Rem a d (nat (checkPositiveOrNegativePowerOfTwo d))) = evalLong vi vl (Rem a b)"
      if "0 < checkPositiveOrNegativePowerOfTwo d"
      using power2Div_divisor(2) [OF width_ok(2) that, of "leafValue vi vl" a] b by (simp add: evalLong_eq)
    then show ?thesis using b u remainderNarrow_value [of vi vl s a b]
      by (auto simp: lremSimplifier_def not_const_case [OF a] foldConstant_def evalLong_def Let_def)
  qed
qed

section \<open>The handlers keep the value\<close>

text \<open>
  C14: The handler of int division always returns, and what it returns has the value of the division: whether it folds
  constants, shifts, multiplies by a magic number or leaves the node, for every divisor and dividend.
\<close>

theorem idivSimplifier_keeps_value: "\<exists>n. idivSimplifier s a b = Some n \<and> evalInt v n = evalInt v (Div a b)"
  unfolding evalInt_eq by (rule idiv_keeps)

text \<open>
  C16: The handler of int remainder always returns, and what it returns has the value of the remainder.
\<close>

theorem iremSimplifier_keeps_value: "\<exists>n. iremSimplifier s a b = Some n \<and> evalInt v n = evalInt v (Rem a b)"
  unfolding evalInt_eq by (rule irem_keeps)

text \<open>
  C15: The handler of long division always returns, and what it returns has the value of the division, where the
  sign flags of the dividend are right, the smallest long marked as not positive is not divided by a negative number,
  and the smallest int extended to long is not divided by an extended minus one. The division of a variable by ten
  as a sequence of shifts is one of the cases.
\<close>

theorem ldivSimplifier_keeps_value:
  assumes "signsSound s a (evalLong vi vl a)"
    and "sint (evalLong vi vl b) < 0 \<Longrightarrow> isNonPositive s a \<Longrightarrow> evalLong vi vl a \<noteq> signBit"
    and "\<not> narrowOverflow vi a b"
  shows "\<exists>n. ldivSimplifier s a b = Some n \<and> evalLong vi vl n = evalLong vi vl (Div a b)"
  by (rule ldiv_keeps [OF assms])

definition noFlags :: "(longLeaf, u64) simplifier" where
  "noFlags = \<lparr>performTransformation = \<lambda>_. True, disableILDivPwr2Opt = False, disableILRemPwr2Opt = False,
     supportsLoweringConstIDiv = True, supportsLoweringConstLDiv = True, supportsLoweringConstLDivPower2 = True,
     canUseImmedInstruction = \<lambda>_. False, divisorUsedOnce = True, isNonNegative = \<lambda>_. False, isNonPositive = \<lambda>_. False\<rparr>"

theorem ldivSimplifier_keeps_value_witness:
  "\<exists>n. ldivSimplifier (noFlags\<lparr>isNonPositive := \<lambda>_. True\<rparr>) (Leaf (LoadVar 0)) (Const 8) = Some n \<and>
     evalLong (\<lambda>_. 0) (\<lambda>_. - 100) n = evalLong (\<lambda>_. 0) (\<lambda>_. - 100) (Div (Leaf (LoadVar 0)) (Const 8))"
  by (rule ldivSimplifier_keeps_value) (simp_all add: signsSound_def evalLong_def leafValue_def narrowOverflow_def noFlags_def)

text \<open>
  C17: The handler of long remainder replaces the remainder by an expression of the same value.
\<close>

theorem lremSimplifier_keeps_value: "evalLong vi vl (lremSimplifier s a b) = evalLong vi vl (Rem a b)"
  by (rule lrem_keeps)

text \<open>
  C18: For a long divisor that is not a power of two, the search in the table and the computation of the magic values
  end, and the multiplication by them gives the quotient for every dividend.
\<close>

theorem long_quotient_by_magic:
  assumes "\<not> isPowerOf2 d"
  shows "\<exists>n. getLongQuotientUsingMagicNumberMultiply a d = Some n \<and> evalLong vi vl n = evalLong vi vl (Div a (Const d))"
  using long_magic.quotient [OF assms, of "leafValue vi vl" a]
  by (auto simp: getLongQuotientUsingMagicNumberMultiply_def evalLong_eq)

theorem long_quotient_by_magic_witness:
  "\<exists>n. getLongQuotientUsingMagicNumberMultiply (Leaf (LoadVar 0)) (- 7) = Some n \<and>
     evalLong (\<lambda>_. 0) (\<lambda>_. 100) n = evalLong (\<lambda>_. 0) (\<lambda>_. 100) (Div (Leaf (LoadVar 0)) (Const (- 7)))"
  by (rule long_quotient_by_magic) (simp add: isPowerOf2_def)

section \<open>Long division at the ends of the range\<close>

lemma minus_power_word:
  fixes d :: u64
  assumes "k \<le> 63" "d = - (2 ^ k)"
  shows "sint d = - (2 ^ k)" "isPowerOf2 d" "shiftLoop (- d) 0 = k"
proof -
  have "(2 :: int) ^ k \<le> 2 ^ 63" using assms(1) by (intro power_increasing) simp_all
  then have "sint (word_of_int (- (2 ^ k)) :: u64) = - (2 ^ k)" by (intro sint_word_of_int [of 63]) (simp_all add: order_less_trans [of _ 0])
  then show sd: "sint d = - (2 ^ k)" using assms(2) by simp
  have "NOT (mask k) = - (2 ^ k :: u64)" by (simp add: mask_eq_exp_minus_1 minus_eq_not_minus_1)
  moreover have "(2 ^ k :: u64) AND NOT (mask k) = 2 ^ k"
    by (intro bit_word_eqI) (auto simp: bit_and_iff bit_not_iff bit_mask_iff bit_exp_iff)
  ultimately have "(2 ^ k :: u64) AND - (2 ^ k) = 2 ^ k" by simp
  then show p: "isPowerOf2 d" unfolding isPowerOf2_def Let_def using sd assms(2) by simp
  have "d \<noteq> 0" using sd by auto
  then obtain j where "\<bar>sint d\<bar> = 2 ^ j" "shiftLoop (if sint d < 0 then - d else d) 0 = j" using isPowerOf2_power [of 63 d] p by auto
  then show "shiftLoop (- d) 0 = k" using sd by simp
qed

text \<open>
  C20: Where the smallest long is known not to be positive, its division by \<open>- (2 ^ k)\<close> is replaced by an expression
  with the negated value: the dividend is negated before it is shifted, and its negation is itself.
\<close>

theorem ldiv_smallest_by_negative_power_wrong:
  assumes "evalLong vi vl a = signBit" "\<forall>c. a \<noteq> Const c" "isNonPositive s a" "\<not> isNonNegative s a"
    and "supportsLoweringConstLDivPower2 s" "performTransformation s 8898" "1 \<le> k" "k \<le> 63"
  shows "\<exists>n. ldivSimplifier s a (Const (- (2 ^ k))) = Some n \<and> evalLong vi vl n = - evalLong vi vl (Div a (Const (- (2 ^ k)))) \<and>
    evalLong vi vl n \<noteq> evalLong vi vl (Div a (Const (- (2 ^ k))))"
proof -
  let ?d = "- (2 ^ k) :: u64"
  note d = minus_power_word [OF assms(8) refl]
  define P where "P = (2 :: int) ^ (63 - k)"
  have P: "P * 2 ^ k = 9223372036854775808" "0 < P" "P < 9223372036854775808"
    using assms(7,8) power_strict_increasing [of "63 - k" 63 "2 :: int"] by (simp_all add: P_def flip: power_add)
  have sa: "sint (signBit :: u64) = - 9223372036854775808" by (simp add: signBit_def)
  have one: "?d \<noteq> 0" "?d \<noteq> 1" "?d \<noteq> - 1" "sint ?d < 0" 
  proof -
    have p: "(2 :: int) ^ 1 \<le> 2 ^ k" using assms(7) by (intro power_increasing) simp_all
    have s: "sint (0 :: u64) = 0" "sint (1 :: u64) = 1" "sint (- 1 :: u64) = - 1" by simp_all
    have ne: "?d \<noteq> e" if "sint e \<noteq> - (2 ^ k)" for e using d(1) that by metis
    show "?d \<noteq> 0" by (rule ne) (smt (verit) s p power_one_right)
    show "?d \<noteq> 1" by (rule ne) (smt (verit) s p power_one_right)
    show "?d \<noteq> - 1" by (rule ne) (smt (verit) s p power_one_right)
    show "sint ?d < 0" unfolding d(1) by simp
  qed
  have "ldivSimplifier s a (Const ?d) = Some (divideNarrow s (longPower2 s a ?d))"
    using one assms(5) d(2) by (simp add: ldivSimplifier_def not_const_case [OF assms(2)])
  also have "longPower2 s a ?d = Shr (Neg a) (word_of_nat k)" using one(4) assms(3,4,6) d(3) by (simp add: longPower2_def)
  also have "divideNarrow s (Shr (Neg a) (word_of_nat k)) = Shr (Neg a) (word_of_nat k)" by (simp add: divideNarrow_def)
  finally have r: "ldivSimplifier s a (Const ?d) = Some (Shr (Neg a) (word_of_nat k))" .
  have "- 9223372036854775808 div 2 ^ k = - P"
  proof -
    have "(- P) * 2 ^ k div 2 ^ k = - P" by (rule nonzero_mult_div_cancel_right) simp
    then show ?thesis using P(1) by simp
  qed
  then have n: "evalLong vi vl (Shr (Neg a) (word_of_nat k)) = word_of_int (- P)"
    using foldShr_nat [OF width_ok(2), of k signBit] assms(1,8) sa by (simp add: evalLong_def signBit_minus)
  have "- 9223372036854775808 sdiv - (2 ^ k) = P"
  proof -
    have "P * 2 ^ k div 2 ^ k = P" by (rule nonzero_mult_div_cancel_right) simp
    then show ?thesis using P(1) by (simp add: signed_divide_int_def)
  qed
  then have q: "evalLong vi vl (Div a (Const ?d)) = word_of_int P" using assms(1) sa d(1) by (simp add: evalLong_def divWord_def)
  have "sint (word_of_int (- P) :: u64) = - P" "sint (word_of_int P :: u64) = P" using P(2,3) by (intro sint_word_of_int [of 63]; simp)+
  then have ne: "(word_of_int (- P) :: u64) \<noteq> word_of_int P" using P(2) by (metis less_irrefl neg_0_less_iff_less order_less_trans)
  show ?thesis by (rule exI [of _ "Shr (Neg a) (word_of_nat k)"], unfold n q) (use r ne in \<open>simp only: of_int_minus\<close>, simp)
qed

theorem ldiv_smallest_by_negative_power_wrong_witness:
  "\<exists>n. ldivSimplifier (noFlags\<lparr>isNonPositive := \<lambda>_. True\<rparr>) (Leaf (LoadVar 0)) (Const (- (2 ^ 3))) = Some n \<and>
     evalLong (\<lambda>_. 0) (\<lambda>_. signBit) n = - evalLong (\<lambda>_. 0) (\<lambda>_. signBit) (Div (Leaf (LoadVar 0)) (Const (- (2 ^ 3)))) \<and>
     evalLong (\<lambda>_. 0) (\<lambda>_. signBit) n \<noteq> evalLong (\<lambda>_. 0) (\<lambda>_. signBit) (Div (Leaf (LoadVar 0)) (Const (- (2 ^ 3))))"
  by (rule ldiv_smallest_by_negative_power_wrong) (simp_all add: noFlags_def evalLong_def leafValue_def)

text \<open>
  C21: The long division of the extended smallest int by an extended minus one is done as an int division, which
  overflows: the result is \<open>- (2 ^ 31)\<close> where the quotient is \<open>2 ^ 31\<close>.
\<close>

theorem ldiv_of_extended_ints_wrong:
  assumes "evalInt vi x = signBit" "evalInt vi y = - 1" "performTransformation s 9064"
  shows "\<exists>n. ldivSimplifier s (Leaf (I2L x)) (Leaf (I2L y)) = Some n \<and> sint (evalLong vi vl n) = - (2 ^ 31) \<and>
    sint (evalLong vi vl (Div (Leaf (I2L x)) (Leaf (I2L y)))) = 2 ^ 31"
proof -
  have r: "ldivSimplifier s (Leaf (I2L x)) (Leaf (I2L y)) = Some (Leaf (I2L (Div x y)))"
    using assms(3) by (simp add: ldivSimplifier_def divideNarrow_def)
  have s: "sint (signBit :: u32) = - (2 ^ 31)" by (simp add: signBit_def)
  have "evalInt vi (Div x y) = signBit" using assms divWord_unit(2) [of 30, where 'a = 32] by (simp add: evalInt_def signBit_minus)
  then have n: "sint (evalLong vi vl (Leaf (I2L (Div x y)))) = - (2 ^ 31)" using s by (simp add: evalLong_def leafValue_def sint_scast)
  have "evalLong vi vl (Div (Leaf (I2L x)) (Leaf (I2L y))) = word_of_int ((- (2 ^ 31)) sdiv (- 1))"
    using assms s by (simp add: evalLong_def leafValue_def divWord_def sint_scast)
  also have "(- (2 ^ 31)) sdiv (- 1) = (2 ^ 31 :: int)" by (simp add: signed_divide_int_def)
  finally show ?thesis using r n by simp
qed

theorem ldiv_of_extended_ints_wrong_witness:
  "\<exists>n. ldivSimplifier noFlags (Leaf (I2L (Leaf 0))) (Leaf (I2L (Const (- 1)))) = Some n \<and>
     sint (evalLong (\<lambda>_. signBit) (\<lambda>_. 0) n) = - (2 ^ 31) \<and>
     sint (evalLong (\<lambda>_. signBit) (\<lambda>_. 0) (Div (Leaf (I2L (Leaf 0))) (Leaf (I2L (Const (- 1)))))) = 2 ^ 31"
  by (rule ldiv_of_extended_ints_wrong) (simp_all add: evalInt_def noFlags_def)

end
