(* ===== verification/MultiplySimplifier.thy ===== *)
theory MultiplySimplifier
  imports DivisionSimplifier
begin

text \<open>
  The multiplication handlers of the simplifier, \<open>imulSimplifier\<close> and \<open>lmulSimplifier\<close> for the signed operations, with the
  decomposition of a multiplication by a constant into sums and differences (\<open>optimizer/OMRSimplifierHandlers.cpp\<close>) and
  the ordering of the children (\<open>optimizer/OMRSimplifierHelpers.cpp\<close>).
\<close>

section \<open>Decomposition of a constant\<close>

text \<open>
  The arrays \<open>operationType\<close> and \<open>bitPosition\<close> of 64 entries, up to \<open>count\<close>, are one list of pairs. A write outside the
  arrays is \<open>None\<close>.
\<close>

datatype operation = OP_PLUS | OP_MINUS

type_synonym entry = "operation \<times> nat"

record decompose_state =
  subsequentCount :: nat
  lastBit :: bool
  entries :: "entry list"

definition addEntry :: "entry list \<Rightarrow> entry \<Rightarrow> entry list option" where
  "addEntry es e = (if length es < 64 then Some (es @ [e]) else None)"

definition setLastOperation :: "operation \<Rightarrow> entry list \<Rightarrow> entry list option" where
  "setLastOperation op es = (if es = [] then None else Some (butlast es @ [(op, snd (last es))]))"

definition decomposeStep :: "operation \<Rightarrow> operation \<Rightarrow> bool \<Rightarrow> nat \<Rightarrow> decompose_state \<Rightarrow> decompose_state option" where
  "decomposeStep op_plus op_minus currentBit pos st =
     (if currentBit then
        if lastBit st then Some (st\<lparr>subsequentCount := subsequentCount st + 1, lastBit := True\<rparr>)
        else do { es \<leftarrow> addEntry (entries st) (op_plus, pos);
               Some \<lparr>subsequentCount = 0, lastBit = True, entries = es\<rparr> }
      else if subsequentCount st > 1 then
        do { es \<leftarrow> setLastOperation op_minus (entries st); es' \<leftarrow> addEntry es (op_plus, pos);
          Some \<lparr>subsequentCount = 0, lastBit = False, entries = es'\<rparr> }
      else if subsequentCount st = 1 then
        do { es \<leftarrow> addEntry (entries st) (op_plus, pos - 1);
          Some \<lparr>subsequentCount = 0, lastBit = False, entries = es\<rparr> }
      else Some (st\<lparr>subsequentCount := 0, lastBit := False\<rparr>))"

function decomposeLoop :: "operation \<Rightarrow> operation \<Rightarrow> nat \<Rightarrow> int \<Rightarrow> nat \<Rightarrow> decompose_state \<Rightarrow> (nat \<times> decompose_state) option" where
  "decomposeLoop op_plus op_minus wordSize value' pos st =
     (if value' \<noteq> 0 \<and> pos < wordSize
      then do { st' \<leftarrow> decomposeStep op_plus op_minus (odd value') pos st;
             decomposeLoop op_plus op_minus wordSize (value' div 2) (pos + 1) st' }
      else Some (pos, st))"
  by pat_completeness auto
termination by (relation "measure (\<lambda>(opp, opm, ws, x, pos, st). ws - pos)") auto

declare decomposeLoop.simps [simp del]

text \<open>The last run of ones. At the end of the word it is written out bit by bit.\<close>

fun addRun :: "operation \<Rightarrow> nat \<Rightarrow> nat \<Rightarrow> entry list \<Rightarrow> entry list option" where
  "addRun op 0 pos es = Some es"
| "addRun op (Suc n) pos es = do { es' \<leftarrow> addEntry es (op, pos); addRun op n (pos + 1) es' }"

definition decomposeLast :: "operation \<Rightarrow> operation \<Rightarrow> nat \<Rightarrow> nat \<Rightarrow> decompose_state \<Rightarrow> entry list option" where
  "decomposeLast op_plus op_minus wordSize pos st =
     (if subsequentCount st > 1 then
        if pos \<ge> wordSize - 1 then addRun op_plus (subsequentCount st) ((wordSize - 1) - subsequentCount st) (entries st)
        else do { es \<leftarrow> setLastOperation op_minus (entries st); addEntry es (op_plus, pos) }
      else if subsequentCount st = 1 then addEntry (entries st) (op_plus, pos - 1)
      else Some (entries st))"

definition decomposeConstant :: "int \<Rightarrow> nat \<Rightarrow> entry list option" where
  "decomposeConstant x wordSize =
     (let neg = bit x (wordSize - 1);
          (x', op_plus, op_minus) = (if neg then (- x, OP_MINUS, OP_PLUS) else (x, OP_PLUS, OP_MINUS))
      in if neg \<and> x = - (2 ^ 63) then None
         else do { (pos, st) \<leftarrow> decomposeLoop op_plus op_minus wordSize x' 0 \<lparr>subsequentCount = 0, lastBit = False, entries = []\<rparr>;
                decomposeLast op_plus op_minus wordSize pos st })"

section \<open>The tree of a decomposition\<close>

definition scaledNode :: "('l, 'a::len word) node \<Rightarrow> nat \<Rightarrow> ('l, 'a word) node" where
  "scaledNode multiplierChild pos = (if pos \<noteq> 0 then Mul multiplierChild (Const (push_bit pos 1)) else multiplierChild)"

fun flipEntry :: "entry \<Rightarrow> entry" where
  "flipEntry (op, pos) = (if op = OP_MINUS then OP_PLUS else OP_MINUS, pos)"

function generateDecomposedTree :: "('l, 'a::len word) node \<Rightarrow> entry list \<Rightarrow> ('l, 'a word) node option" where
  "generateDecomposedTree x [] = None"
| "generateDecomposedTree x [(op, pos)] = Some (if op = OP_MINUS then Neg (scaledNode x pos) else scaledNode x pos)"
| "generateDecomposedTree x [(op1, pos1), (op2, pos2)] =
     (if op2 = OP_MINUS then
        Some (Sub (if op1 = OP_MINUS then Neg (scaledNode x pos1) else scaledNode x pos1) (scaledNode x pos2))
      else if op1 = OP_MINUS then Some (Sub (scaledNode x pos2) (scaledNode x pos1))
      else Some (Add (scaledNode x pos1) (scaledNode x pos2)))"
| "generateDecomposedTree x (e1 # e2 # e3 # es) =
     (let all = e1 # e2 # e3 # es;
          mid = length all div 2 + 1;
          thisOperation = fst (all ! mid);
          upper = drop mid all
      in do { firstChild \<leftarrow> generateDecomposedTree x (take mid all);
           secondChild \<leftarrow> generateDecomposedTree x (if thisOperation = OP_MINUS then map flipEntry upper else upper);
           Some (if thisOperation = OP_MINUS then Sub firstChild secondChild else Add firstChild secondChild) })"
  by pat_completeness auto
termination by (relation "measure (\<lambda>(x, es). length es)") auto

section \<open>The handlers\<close>

text \<open>
  What these handlers ask besides: the region that contains the node and what is invariant in it, whether this is the
  last run, whether reassociation is wanted, which nodes have one parent, the order of nodes, the cost of a
  decomposition on the target, and what the flags of nodes say.
\<close>

record ('l, 'w) mulSimplifier = "('l, 'w) simplifier" +
  containingStructure :: bool
  regionInvariant :: "('l, 'w) node \<Rightarrow> bool"
  getLastRun :: bool
  reassociate :: bool
  usedOnce :: "('l, 'w) node \<Rightarrow> bool"
  shouldSwapChildren :: "('l, 'w) node \<Rightarrow> ('l, 'w) node \<Rightarrow> bool"
  mulDecompositionCostIsJustified :: "entry list \<Rightarrow> 'w \<Rightarrow> bool"
  is64Bit :: bool
  isAdjunct :: bool
  isHighWordZero :: "('l, 'w) node \<Rightarrow> bool"
  cannotOverflow :: "intNode \<Rightarrow> bool"

definition isLoadConst :: "('l, 'w) node \<Rightarrow> bool" where
  "isLoadConst n = (case n of Const _ \<Rightarrow> True | _ \<Rightarrow> False)"

definition isExprInvariant :: "('l, 'w) mulSimplifier \<Rightarrow> ('l, 'w) node \<Rightarrow> bool" where
  "isExprInvariant s n \<longleftrightarrow> isLoadConst n \<or> containingStructure s \<and> regionInvariant s n"

definition orderChildren :: "('l, 'w) mulSimplifier \<Rightarrow> ('l, 'w) node \<Rightarrow> ('l, 'w) node \<Rightarrow> ('l, 'w) node \<times> ('l, 'w) node" where
  "orderChildren s firstChild secondChild =
     (if \<not> isLoadConst secondChild \<and> isLoadConst firstChild then (secondChild, firstChild)
      else if containingStructure s \<and> \<not> isExprInvariant s secondChild \<and> isExprInvariant s firstChild then
        if performTransformation s 324 then (secondChild, firstChild) else (firstChild, secondChild)
      else if containingStructure s \<and> isExprInvariant s secondChild \<and> \<not> isExprInvariant s firstChild then (firstChild, secondChild)
      else if \<not> isLoadConst secondChild \<and> shouldSwapChildren s firstChild secondChild then
        if performTransformation s 337 then (secondChild, firstChild) else (firstChild, secondChild)
      else (firstChild, secondChild))"

definition orderChildrenByHighWordZero :: "('l, 'w) mulSimplifier \<Rightarrow> ('l, 'w) node \<times> ('l, 'w) node \<Rightarrow> ('l, 'w) node \<times> ('l, 'w) node" where
  "orderChildrenByHighWordZero s children = (case children of (firstChild, secondChild) \<Rightarrow>
     if \<not> isLoadConst secondChild \<and> isHighWordZero s secondChild \<and> \<not> isHighWordZero s firstChild
     then (secondChild, firstChild) else (firstChild, secondChild))"

definition decomposeMultiply :: "('l, 'a::len word) mulSimplifier \<Rightarrow> ('l, 'a word) node \<Rightarrow> 'a word \<Rightarrow> ('l, 'a word) node option" where
  "decomposeMultiply s firstChild c =
     do { es \<leftarrow> decomposeConstant (sint c) LENGTH('a);
       let es' = rev es in
       if (\<not> containingStructure s \<or> getLastRun s) \<and> mulDecompositionCostIsJustified s es' c \<and> performTransformation s 3031
       then generateDecomposedTree firstChild es' else Some (Mul firstChild (Const c)) }"

text \<open>The handler returns a node, or what \<open>simplify\<close> makes of a new node.\<close>

datatype 'n outcome = Done 'n | Again 'n

primrec outcomeNode :: "'n outcome \<Rightarrow> 'n" where
  "outcomeNode (Done n) = n"
| "outcomeNode (Again n) = n"

text \<open>The product of the constants where a multiplication is distributed over an addition or subtraction of a constant.\<close>

definition distributed :: "('l, 'a::len word) node \<Rightarrow> 'a word \<Rightarrow> 'a word \<Rightarrow> ('l, 'a word) node" where
  "distributed a scale offset' =
     (if 0 < sint offset' then Sub (Mul a (Const scale)) (Const (- offset')) else Add (Mul a (Const scale)) (Const offset'))"

definition imulChain :: "(nat, u32) mulSimplifier \<Rightarrow> intNode \<Rightarrow> intNode \<Rightarrow> intNode option" where
  "imulChain s firstChild secondChild =
     (let node = Mul firstChild secondChild;
          decompose = (case secondChild of Const c \<Rightarrow>
              if \<not> getLastRun s \<and> c \<noteq> 0 \<and> \<not> isNonNegativePowerOf2 c \<and> c \<noteq> signBit then decomposeMultiply s firstChild c else Some node
            | _ \<Rightarrow> Some node)
      in case firstChild of
           Mul a lrChild \<Rightarrow>
             if usedOnce s firstChild then
               (case lrChild of Const c1 \<Rightarrow>
                  (case secondChild of Const c2 \<Rightarrow> Some (if performTransformation s 7970 then Mul a (Const (c2 * c1)) else node)
                    | _ \<Rightarrow> Some (if performTransformation s 7990 then Mul (Mul a secondChild) lrChild else node))
                | _ \<Rightarrow> Some node)
             else decompose
         | Add a lrChild \<Rightarrow>
             (case secondChild of Const c2 \<Rightarrow>
                (case lrChild of Const c1 \<Rightarrow> Some (if performTransformation s 8010 then distributed a c2 (c1 * c2) else node) | _ \<Rightarrow> Some node)
              | _ \<Rightarrow> Some node)
         | Sub a lrChild \<Rightarrow>
             (case secondChild of Const c2 \<Rightarrow>
                (case lrChild of Const c1 \<Rightarrow> Some (if performTransformation s 8010 then distributed a c2 (- (c1 * c2)) else node) | _ \<Rightarrow> Some node)
              | _ \<Rightarrow> Some node)
         | _ \<Rightarrow> decompose)"

definition foldMulDiv :: "(nat, u32) mulSimplifier \<Rightarrow> intNode \<Rightarrow> intNode" where
  "foldMulDiv s node = (case node of Mul (Div e (Const c1)) (Const size') \<Rightarrow>
       if getLastRun s \<and> isNonNegative s node \<and> size' = c1 \<and> size' AND (size' - 1) = 0 \<and> 0 < sint size' \<and> performTransformation s 8088
       then And e (Const (NOT (size' - 1))) else node
     | _ \<Rightarrow> node)"

definition rule10 :: "(nat, u32) mulSimplifier \<Rightarrow> intNode \<Rightarrow> intNode" where
  "rule10 s node = (case node of Mul (Mul t c1) c2 \<Rightarrow>
       if isExprInvariant s c2 \<and> \<not> isExprInvariant s t \<and> isExprInvariant s c1 \<and> usedOnce s (Mul t c1) \<and> performTransformation s 8123
       then Mul t (Mul c2 c1) else node
     | _ \<Rightarrow> node)"

definition rules11to15 :: "(nat, u32) mulSimplifier \<Rightarrow> intNode \<Rightarrow> intNode" where
  "rules11to15 s node = (case node of
       Mul (Add e1 e2) c \<Rightarrow>
         if isExprInvariant s c \<and> \<not> isExprInvariant s e1 \<and> isExprInvariant s e2 \<and> usedOnce s (Add e1 e2) then
           if performTransformation s 8145 then Add (Mul e1 c) (Mul e2 c) else node
         else if isExprInvariant s c \<and> performTransformation s 8169 then Add (Mul e1 c) (Mul e2 c)
         else node
     | Mul (Sub e1 e2) c \<Rightarrow>
         if isExprInvariant s c \<and> \<not> isExprInvariant s (Sub e1 e2) \<and> performTransformation s 8203 then
           (case e2 of Const k \<Rightarrow> Add (Mul e1 c) (Mul (Const (- k)) c)
            | _ \<Rightarrow> (case c of Const k \<Rightarrow> Add (Mul e1 c) (Mul e2 (Const (- k))) | _ \<Rightarrow> Sub (Mul e1 c) (Mul e2 c)))
         else node
     | _ \<Rightarrow> node)"

definition reassociateMul :: "(nat, u32) mulSimplifier \<Rightarrow> intNode \<Rightarrow> intNode" where
  "reassociateMul s node = (if reassociate s \<and> containingStructure s then rules11to15 s (rule10 s node) else node)"

definition imulSimplifier :: "(nat, u32) mulSimplifier \<Rightarrow> intNode \<Rightarrow> intNode \<Rightarrow> intNode outcome option" where
  "imulSimplifier s a b =
     (if isLoadConst a \<and> isLoadConst b
      then (case (a, b) of (Const x, Const y) \<Rightarrow> Some (Done (foldConstant s (Mul a b) (x * y))) | _ \<Rightarrow> None)
      else
        let (firstChild, secondChild) = orderChildren s a b;
            continue = do { node \<leftarrow> imulChain s firstChild secondChild; Some (Done (reassociateMul s (foldMulDiv s node))) }
        in case secondChild of Const c \<Rightarrow>
             if c = 1 then Some (Done (replaceNode s (Mul firstChild secondChild) firstChild))
             else if c = 0 \<and> performTransformation s 157 then Some (Done (Const c))
             else if sint c < 0 \<and> c \<noteq> signBit \<and> performTransformation s 7939 then Some (Again (Neg (Mul firstChild (Const (- c)))))
             else continue
           | _ \<Rightarrow> continue)"

definition lmulChain :: "(longLeaf, u64) mulSimplifier \<Rightarrow> longNode \<Rightarrow> longNode \<Rightarrow> longNode option" where
  "lmulChain s firstChild secondChild =
     (let node = Mul firstChild secondChild;
          decompose = (case secondChild of Const c \<Rightarrow>
              if is64Bit s \<and> \<not> getLastRun s \<and> c \<noteq> 0 \<and> \<not> isNonNegativePowerOf2 c \<and> c \<noteq> signBit then decomposeMultiply s firstChild c else Some node
            | _ \<Rightarrow> Some node)
      in case firstChild of
           Mul a lrChild \<Rightarrow>
             if usedOnce s firstChild then
               (case lrChild of Const c1 \<Rightarrow>
                  (case secondChild of Const c2 \<Rightarrow> Some (if performTransformation s 8280 then Mul a (Const (c2 * c1)) else node)
                    | _ \<Rightarrow> Some (if performTransformation s 8303 then Mul (Mul a secondChild) lrChild else node))
                | _ \<Rightarrow> Some node)
             else decompose
         | Add a lrChild \<Rightarrow>
             (case secondChild of Const c2 \<Rightarrow>
                (case lrChild of Const c1 \<Rightarrow> Some (if performTransformation s 8319 then distributed a c2 (c1 * c2) else node) | _ \<Rightarrow> Some node)
              | _ \<Rightarrow> Some node)
         | Sub a lrChild \<Rightarrow>
             (case secondChild of Const c2 \<Rightarrow>
                (case lrChild of Const c1 \<Rightarrow> Some (if performTransformation s 8319 then distributed a c2 (- (c1 * c2)) else node) | _ \<Rightarrow> Some node)
              | _ \<Rightarrow> Some node)
         | Leaf (I2L n) \<Rightarrow>
             (case secondChild of Const c2 \<Rightarrow>
                (case n of
                   Add x (Const k) \<Rightarrow> Some (if cannotOverflow s n \<and> performTransformation s 8379 then distributed (Leaf (I2L x)) c2 (scast k * c2) else node)
                 | Sub x (Const k) \<Rightarrow> Some (if cannotOverflow s n \<and> performTransformation s 8379 then distributed (Leaf (I2L x)) c2 (- (scast k * c2)) else node)
                 | _ \<Rightarrow> Some node)
              | _ \<Rightarrow> Some node)
         | _ \<Rightarrow> decompose)"

definition lmulSimplifier :: "(longLeaf, u64) mulSimplifier \<Rightarrow> longNode \<Rightarrow> longNode \<Rightarrow> longNode option" where
  "lmulSimplifier s a b =
     (if isAdjunct s then Some (Mul a b)
      else if isLoadConst a \<and> isLoadConst b
      then (case (a, b) of (Const x, Const y) \<Rightarrow> Some (foldConstant s (Mul a b) (x * y)) | _ \<Rightarrow> None)
      else
        let (firstChild, secondChild) = orderChildrenByHighWordZero s (orderChildren s a b)
        in case secondChild of Const c \<Rightarrow>
             if c = 1 then Some (replaceNode s (Mul firstChild secondChild) firstChild)
             else if c = 0 \<and> performTransformation s 157 then Some (Const c)
             else lmulChain s firstChild secondChild
           | _ \<Rightarrow> lmulChain s firstChild secondChild)"

end
