(* ===== verification/MultiplyHandlers.thy ===== *)
theory MultiplyHandlers
  imports MultiplySimplifier DivisionHandlers
begin

text \<open>
  The handlers of the simplifier for int and long multiplication replace an expression by one of the same value; the
  constant of a multiplication is the sum of the signed powers of two into which it is decomposed. The rewriting of a
  division and a multiplication by the same power of two is excepted for negative dividends, and shown to be wrong.
\<close>

section \<open>The decomposition of a constant\<close>

fun entryValue :: "entry \<Rightarrow> int" where
  "entryValue (op, pos) = (if op = OP_MINUS then - (2 ^ pos) else 2 ^ pos)"

definition entriesSum :: "entry list \<Rightarrow> int" where
  "entriesSum es = sum_list (map entryValue es)"

definition signOf :: "operation \<Rightarrow> int" where
  "signOf op = (if op = OP_MINUS then - 1 else 1)"

lemma entriesSum_simps [simp]:
  "entriesSum [] = 0" "entriesSum (e # es) = entryValue e + entriesSum es" "entriesSum (es @ fs) = entriesSum es + entriesSum fs"
  by (simp_all add: entriesSum_def)

lemma entryValue_sign [simp]: "entryValue (op, pos) = signOf op * 2 ^ pos"
  by (simp add: signOf_def)

declare entryValue.simps [simp del]

text \<open>
  What is left to say when \<open>pos\<close> bits are read: a run of ones that is still open has its first bit in the last entry.
\<close>

definition decomposeInv :: "operation \<Rightarrow> nat \<Rightarrow> int \<Rightarrow> nat \<Rightarrow> decompose_state \<Rightarrow> bool" where
  "decomposeInv op ws V pos st \<longleftrightarrow>
     length (entries st) + subsequentCount st \<le> pos \<and> (\<forall>e \<in> set (entries st). snd e < ws) \<and>
     (if lastBit st
      then \<exists>es p. entries st = es @ [(op, p)] \<and> p + subsequentCount st + 1 = pos \<and> entriesSum es + signOf op * (2 ^ pos - 2 ^ p) = signOf op * (V mod 2 ^ pos)
      else subsequentCount st = 0 \<and> entriesSum (entries st) = signOf op * (V mod 2 ^ pos))"

lemma mod_double: "(V :: int) mod 2 ^ Suc pos = V mod 2 ^ pos + (if odd (V div 2 ^ pos) then 2 ^ pos else 0)"
proof -
  have "V mod (2 ^ pos * 2) = 2 ^ pos * (V div 2 ^ pos mod 2) + V mod 2 ^ pos" by (rule zmod_zmult2_eq) simp
  then show ?thesis by (simp add: mult.commute odd_iff_mod_2_eq_one even_iff_mod_2_eq_zero)
qed

lemma decomposeStep_inv:
  assumes inv: "decomposeInv opp ws V pos st" and pos: "pos < ws" "ws \<le> 64" and ops: "signOf opm = - signOf opp"
  shows "\<exists>st'. decomposeStep opp opm (odd (V div 2 ^ pos)) pos st = Some st' \<and> decomposeInv opp ws V (pos + 1) st'"
proof -
  note m = mod_double [of V pos]
  have len: "length (entries st) + subsequentCount st < 64" using inv pos by (simp add: decomposeInv_def)
  consider (fresh) "odd (V div 2 ^ pos)" "\<not> lastBit st" | (more) "odd (V div 2 ^ pos)" "lastBit st"
    | (close) "even (V div 2 ^ pos)" "lastBit st" | (skip) "even (V div 2 ^ pos)" "\<not> lastBit st" by blast
  then show ?thesis
  proof cases
    case fresh
    then show ?thesis using inv m len pos
      by (auto simp: decomposeStep_def addEntry_def decomposeInv_def distrib_left entryValue_sign intro!: exI [of _ "entries st"])
  next
    case more
    then obtain es p where e: "entries st = es @ [(opp, p)]" "p + subsequentCount st + 1 = pos"
        "entriesSum es + signOf opp * (2 ^ pos - 2 ^ p) = signOf opp * (V mod 2 ^ pos)" using inv by (auto simp: decomposeInv_def)
    have "entriesSum es + signOf opp * (2 ^ Suc pos - 2 ^ p) = signOf opp * (V mod 2 ^ Suc pos)"
      using e(3) m more(1) by (simp add: algebra_simps)
    then show ?thesis using more inv e by (auto simp: decomposeStep_def decomposeInv_def intro!: exI [of _ es] exI [of _ p])
  next
    case close
    then obtain es p where e: "entries st = es @ [(opp, p)]" "p + subsequentCount st + 1 = pos"
        "entriesSum es + signOf opp * (2 ^ pos - 2 ^ p) = signOf opp * (V mod 2 ^ pos)" using inv by (auto simp: decomposeInv_def)
    consider "subsequentCount st = 0" | "subsequentCount st = 1" | "subsequentCount st > 1" by linarith
    then show ?thesis
    proof cases
      case 1
      then have "pos = Suc p" using e(2) by simp
      then show ?thesis using close 1 inv e m by (auto simp: decomposeStep_def decomposeInv_def entryValue_sign algebra_simps)
    next
      case 2
      then have "pos = Suc (Suc p)" using e(2) by simp
      then show ?thesis using close 2 inv e m len pos
        by (auto simp: decomposeStep_def decomposeInv_def addEntry_def entryValue_sign algebra_simps)
    next
      case 3
      then show ?thesis using close inv e m len pos ops
        by (auto simp: decomposeStep_def decomposeInv_def addEntry_def setLastOperation_def entryValue_sign algebra_simps)
    qed
  next
    case skip
    then show ?thesis using inv m by (auto simp: decomposeStep_def decomposeInv_def)
  qed
qed

lemma decomposeLoop_returns:
  assumes V: "0 \<le> V" "V < 2 ^ (ws - 1)" and ws: "ws \<le> 64" and ops: "signOf opm = - signOf opp"
  shows "decomposeInv opp ws V pos st \<Longrightarrow> pos \<le> ws - 1 \<Longrightarrow>
    \<exists>pos' st'. decomposeLoop opp opm ws (V div 2 ^ pos) pos st = Some (pos', st') \<and> decomposeInv opp ws V pos' st' \<and> pos' \<le> ws - 1 \<and> V < 2 ^ pos'"
proof (induction "ws - pos" arbitrary: pos st rule: less_induct)
  case less
  show ?case
  proof (cases "V div 2 ^ pos = 0")
    case True
    then have "V < 2 ^ pos" using V(1) by (auto simp: zdiv_eq_0_iff intro: order_le_less_trans)
    then show ?thesis using True less.prems by (subst decomposeLoop.simps) auto
  next
    case False
    then have "2 ^ pos \<le> V" using V(1) by (metis div_pos_pos_trivial not_le)
    then have "(2 :: int) ^ pos < 2 ^ (ws - 1)" using V(2) by linarith
    then have p: "pos < ws - 1" by (rule power_less_imp_less_exp [rotated]) simp
    then have pw: "pos < ws" by arith
    obtain st' where st': "decomposeStep opp opm (odd (V div 2 ^ pos)) pos st = Some st'" "decomposeInv opp ws V (pos + 1) st'"
      using decomposeStep_inv [OF less.prems(1) pw ws ops] by blast
    have "V div (2 ^ pos * 2) = V div 2 ^ pos div 2" by (rule zdiv_zmult2_eq) simp
    then have "V div 2 ^ pos div 2 = V div 2 ^ (pos + 1)" by (simp add: mult.commute)
    then have "decomposeLoop opp opm ws (V div 2 ^ pos) pos st = decomposeLoop opp opm ws (V div 2 ^ (pos + 1)) (pos + 1) st'"
      using False pw st'(1) by (subst decomposeLoop.simps) simp
    then show ?thesis using less.hyps [of "pos + 1" st'] st'(2) p by simp
  qed
qed

lemma addRun_eq: "length es + n \<le> 64 \<Longrightarrow> addRun op n p es = Some (es @ map (Pair op) [p..<p + n])"
proof (induction n arbitrary: p es)
  case (Suc n)
  have "[p..<p + Suc n] = p # [p + 1..<p + 1 + n]" by (simp add: upt_rec)
  then show ?case using Suc.IH [of "es @ [(op, p)]" "p + 1"] Suc.prems by (simp add: addEntry_def)
qed simp

lemma entriesSum_run: "entriesSum (map (Pair op) [p..<p + n]) = signOf op * (2 ^ (p + n) - 2 ^ p)"
  by (induction n) (simp_all add: algebra_simps)

lemma decomposeLast_value:
  assumes inv: "decomposeInv opp ws V pos st" and pos: "pos \<le> ws - 1" "0 < ws" "ws \<le> 64" and V: "0 \<le> V" "V < 2 ^ pos" and ops: "signOf opm = - signOf opp"
  shows "\<exists>es. decomposeLast opp opm ws pos st = Some es \<and> entriesSum es = signOf opp * V \<and> (\<forall>e \<in> set es. snd e < ws) \<and> length es \<le> ws"
proof (cases "lastBit st")
  case False
  then show ?thesis using inv V pos by (auto simp: decomposeInv_def decomposeLast_def)
next
  case True
  then obtain es p where e: "entries st = es @ [(opp, p)]" "p + subsequentCount st + 1 = pos"
      "entriesSum es + signOf opp * (2 ^ pos - 2 ^ p) = signOf opp * V"
    using inv V by (auto simp: decomposeInv_def)
  have len: "length (entries st) + subsequentCount st \<le> pos" and bnd: "\<forall>e \<in> set (entries st). snd e < ws" using inv by (auto simp: decomposeInv_def)
  consider "subsequentCount st = 0" | "subsequentCount st = 1" | "subsequentCount st > 1" "pos \<ge> ws - 1" | "subsequentCount st > 1" "pos < ws - 1" by linarith
  then show ?thesis
  proof cases
    case 1
    then have "pos = Suc p" using e(2) by simp
    then show ?thesis using 1 e len bnd pos by (auto simp: decomposeLast_def algebra_simps)
  next
    case 2
    then have "pos = Suc (Suc p)" using e(2) by simp
    then show ?thesis using 2 e len bnd pos by (auto simp: decomposeLast_def addEntry_def algebra_simps)
  next
    case 3
    have run: "(ws - 1) - subsequentCount st = p + 1" "p + 1 + subsequentCount st = pos" using 3(2) pos(1) e(2) by simp_all
    then show ?thesis using 3 e len bnd pos entriesSum_run [of opp "p + 1" "subsequentCount st"]
      by (auto simp: decomposeLast_def addRun_eq algebra_simps)
  next
    case 4
    then show ?thesis using e len bnd pos ops by (auto simp: decomposeLast_def addEntry_def setLastOperation_def algebra_simps)
  qed
qed

lemma decomposeConstant_value:
  assumes ws: "0 < ws" "ws \<le> 64" and x: "- (2 ^ (ws - 1)) < x" "x < 2 ^ (ws - 1)"
  shows "\<exists>es. decomposeConstant x ws = Some es \<and> entriesSum es = x \<and> (\<forall>e \<in> set es. snd e < ws) \<and> length es \<le> ws"
proof -
  define neg where "neg = bit x (ws - 1)"
  have neg: "neg \<longleftrightarrow> x < 0"
  proof -
    have "x div 2 ^ (ws - 1) = (if x < 0 then - 1 else 0)" using x
      by (auto simp: div_pos_pos_trivial intro!: int_div_pos_eq [of _ _ _ "x + 2 ^ (ws - 1)"])
    then show ?thesis by (simp add: neg_def bit_iff_odd)
  qed
  define opp opm where o: "opp = (if neg then OP_MINUS else OP_PLUS)" "opm = (if neg then OP_PLUS else OP_MINUS)"
  have V: "0 \<le> \<bar>x\<bar>" "\<bar>x\<bar> < 2 ^ (ws - 1)" using x by auto
  have ops: "signOf opm = - signOf opp" by (simp add: o signOf_def)
  define st where "st = \<lparr>subsequentCount = 0, lastBit = False, entries = []\<rparr>"
  have "decomposeInv opp ws \<bar>x\<bar> 0 st" by (simp add: decomposeInv_def st_def)
  then obtain pos st' where l: "decomposeLoop opp opm ws \<bar>x\<bar> 0 st = Some (pos, st')" "decomposeInv opp ws \<bar>x\<bar> pos st'" "pos \<le> ws - 1" "\<bar>x\<bar> < 2 ^ pos"
    using decomposeLoop_returns [OF V ws(2) ops, of 0 st] by auto
  then obtain es where es: "decomposeLast opp opm ws pos st' = Some es" "entriesSum es = signOf opp * \<bar>x\<bar>" "\<forall>e \<in> set es. snd e < ws" "length es \<le> ws"
    using decomposeLast_value [OF l(2,3) ws V(1) l(4) ops] by auto
  have "(2 :: int) ^ (ws - 1) \<le> 2 ^ 63" using ws(2) by (intro power_increasing) simp_all
  then have "x \<noteq> - (2 ^ 63)" using x(1) by linarith
  moreover have "signOf opp * \<bar>x\<bar> = x" using neg by (simp add: o signOf_def)
  moreover have "bit x (ws - Suc 0) \<longleftrightarrow> x < 0" using neg by (simp add: neg_def)
  ultimately show ?thesis using es l(1) neg by (cases "x < 0") (auto simp: decomposeConstant_def o st_def)
qed

section \<open>The tree of a decomposition\<close>

lemma entriesSum_flip: "entriesSum (map flipEntry es) = - entriesSum es"
  by (induction es) (auto simp: signOf_def)

lemma scaledNode_value: "eval v (scaledNode x p) = eval v x * word_of_int (2 ^ p)"
  by (simp add: scaledNode_def push_bit_eq_mult)

lemma generateDecomposedTree_value:
  "es \<noteq> [] \<Longrightarrow> \<exists>n. generateDecomposedTree x es = Some n \<and> eval v n = eval v x * word_of_int (entriesSum es)"
proof (induction x es rule: generateDecomposedTree.induct)
  case (2 x op pos)
  then show ?case by (cases op) (simp_all add: scaledNode_value signOf_def)
next
  case (3 x op1 pos1 op2 pos2)
  then show ?case by (cases op1; cases op2) (simp_all add: scaledNode_value signOf_def algebra_simps)
next
  case (4 x e1 e2 e3 es)
  let ?all = "e1 # e2 # e3 # es"
  define mid where "mid = length ?all div 2 + 1"
  define op where "op = fst (?all ! mid)"
  define upper where "upper = (if op = OP_MINUS then map flipEntry (drop mid ?all) else drop mid ?all)"
  have mid: "0 < mid" "mid < length ?all" by (auto simp: mid_def)
  obtain f where f: "generateDecomposedTree x (take mid ?all) = Some f" "eval v f = eval v x * word_of_int (entriesSum (take mid ?all))"
    using 4(1) [OF refl mid_def op_def refl] mid by auto
  have nonempty: "upper \<noteq> []" using mid(2) unfolding upper_def by simp
  obtain g where g: "generateDecomposedTree x upper = Some g" "eval v g = eval v x * word_of_int (entriesSum upper)"
    using 4(2) [OF refl mid_def op_def refl f(1), folded upper_def] mid nonempty by blast
  have "entriesSum ?all = entriesSum (take mid ?all) + entriesSum (drop mid ?all)" by (metis append_take_drop_id entriesSum_simps(3))
  then have s: "word_of_int (entriesSum ?all) = word_of_int (entriesSum (take mid ?all)) + (word_of_int (entriesSum (drop mid ?all)) :: 'b word)" by simp
  have "generateDecomposedTree x ?all = Some (if op = OP_MINUS then Sub f g else Add f g)"
    using f(1) g(1) unfolding generateDecomposedTree.simps(4) Let_def mid_def [symmetric] op_def [symmetric] upper_def [symmetric] by simp
  moreover have "eval v (if op = OP_MINUS then Sub f g else Add f g) = eval v x * word_of_int (entriesSum ?all)"
    unfolding s using f(2) g(2) by (auto simp: upper_def entriesSum_flip algebra_simps)
  ultimately show ?case by blast
qed simp

lemma decomposeMultiply_value:
  fixes x :: "('l, 'a::len word) node"
  assumes ok: "widthOk TYPE('a)" and c: "c \<noteq> 0" "c \<noteq> signBit"
  shows "\<exists>n. decomposeMultiply s x c = Some n \<and> eval v n = eval v x * c"
proof -
  obtain w where len: "LENGTH('a) = Suc w" using len_gt_0 [where 'a = 'a] by (metis gr0_implies_Suc)
  have ws: "0 < LENGTH('a)" "LENGTH('a) \<le> 64" using ok by (auto simp: widthOk_def)
  have "sint c \<noteq> - (2 ^ w)"
  proof
    assume "sint c = - (2 ^ w)"
    then have "uint c = 2 ^ w" using uint_of_sint(1) [OF len, of c] by simp
    then show False using c(2) uint_signBit [where 'a = 'a] len by (metis diff_Suc_1 word_uint_eqI)
  qed
  then have r: "- (2 ^ (LENGTH('a) - 1)) < sint c" "sint c < 2 ^ (LENGTH('a) - 1)" using uint_of_sint(2,3) [OF len, of c] len by simp_all
  obtain es where es: "decomposeConstant (sint c) LENGTH('a) = Some es" "entriesSum es = sint c" using decomposeConstant_value [OF ws r] by auto
  have "sint c \<noteq> 0" using c(1) by (metis of_int_0 word_of_sint)
  then have "rev es \<noteq> []" using es(2) by auto
  moreover have "entriesSum (rev es) = sint c" using es(2) by (simp add: entriesSum_def sum_list_rev flip: rev_map)
  ultimately obtain n where "generateDecomposedTree x (rev es) = Some n" "eval v n = eval v x * word_of_int (sint c)"
    using generateDecomposedTree_value [of "rev es" x v] by auto
  then show ?thesis using es(1) by (simp only: decomposeMultiply_def word_of_sint) (auto simp: Let_def)
qed

section \<open>The handlers\<close>

lemma distributed_value: "eval v (distributed a c k) = eval v a * c + k"
  by (simp add: distributed_def)

lemma imulChain_value: "\<exists>n. imulChain s a b = Some n \<and> eval v n = eval v a * eval v b"
proof -
  have "\<exists>n. (case b of Const c \<Rightarrow>
        if \<not> getLastRun s \<and> c \<noteq> 0 \<and> \<not> isNonNegativePowerOf2 c \<and> c \<noteq> signBit then decomposeMultiply s a c else Some (Mul a b)
      | _ \<Rightarrow> Some (Mul a b)) = Some n \<and> eval v n = eval v a * eval v b"
    using decomposeMultiply_value [OF width_ok(1), of _ s a v] by (cases b) auto
  then show ?thesis unfolding imulChain_def Let_def
    by (auto simp: distributed_value algebra_simps split: node.split)
qed

text \<open>For a dividend that is not negative, masking is what dividing and multiplying by a power of two does.\<close>

lemma mask_is_multiple:
  fixes e c :: u32
  assumes e: "0 \<le> sint e" and c: "c AND (c - 1) = 0" "0 < sint c"
  shows "divWord e c * c = e AND NOT (c - 1)"
proof -
  have len: "LENGTH(32) = Suc 31" by simp
  have "c \<noteq> 0" using c(2) by auto
  have "c AND - c = c AND NOT (c - 1)" by (simp add: minus_eq_not_minus_1)
  also have "\<dots> = c"
  proof (rule bit_word_eqI)
    fix i
    have "bit (c AND (c - 1)) i = bit (0 :: u32) i" by (simp only: c(1))
    then show "bit (c AND NOT (c - 1)) i = bit c i" by (auto simp: bit_and_iff bit_not_iff dest: bit_imp_le_length)
  qed
  finally have "isPowerOf2 c" using c(2) by (simp add: isPowerOf2_def)
  then obtain j where j: "j \<le> 31" "sint c = 2 ^ j" using isPowerOf2_power [OF len \<open>c \<noteq> 0\<close>] c(2) by auto
  have cw: "c = word_of_int (2 ^ j)" using j(2) word_of_sint [of c] by simp
  have "divWord e c * c = word_of_int (2 ^ j * (sint e div 2 ^ j))"
    using sdiv_power_nonneg [OF e, of j] j(2) cw by (simp add: divWord_def mult.commute)
  also have "\<dots> = word_of_int (sint e AND - (2 ^ j))" by (simp only: and_minus_power)
  also have "\<dots> = e AND - c" by (simp only: of_int_and_eq of_int_minus cw word_of_sint)
  finally show ?thesis by (simp add: minus_eq_not_minus_1)
qed

lemma foldMulDiv_value:
  assumes "\<And>e d. isNonNegative s (Mul (Div e (Const d)) (Const d)) \<Longrightarrow> 0 \<le> sint (eval v e)"
  shows "eval v (foldMulDiv s n) = eval v n"
  using assms by (auto simp: foldMulDiv_def mask_is_multiple split: node.split)

lemma rule10_value: "eval v (rule10 s n) = eval v n"
  by (auto simp: rule10_def mult_ac split: node.split)

lemma rules11to15_value: "eval v (rules11to15 s n) = eval v n"
  by (auto simp: rules11to15_def algebra_simps split: node.split)

lemma reassociateMul_value: "eval v (reassociateMul s n) = eval v n"
  by (simp add: reassociateMul_def rule10_value rules11to15_value)

lemma orderChildren_value: "orderChildren s a b = (a, b) \<or> orderChildren s a b = (b, a)"
  by (simp add: orderChildren_def)

lemma orderChildrenByHighWordZero_value:
  "orderChildrenByHighWordZero s (a, b) = (a, b) \<or> orderChildrenByHighWordZero s (a, b) = (b, a)"
  by (simp add: orderChildrenByHighWordZero_def)

lemma isLoadConst_Const [simp]: "isLoadConst (Const c)"
  by (simp add: isLoadConst_def)

lemma isLoadConstE: "isLoadConst n \<Longrightarrow> (\<And>c. n = Const c \<Longrightarrow> P) \<Longrightarrow> P"
  by (cases n) (auto simp: isLoadConst_def)

lemma imul_keeps:
  assumes "\<And>e d. isNonNegative s (Mul (Div e (Const d)) (Const d)) \<Longrightarrow> 0 \<le> sint (eval v e)"
  shows "\<exists>r. imulSimplifier s a b = Some r \<and> eval v (outcomeNode r) = eval v (Mul a b)"
proof (cases "isLoadConst a \<and> isLoadConst b")
  case True
  then show ?thesis by (auto simp: imulSimplifier_def foldConstant_def elim!: isLoadConstE)
next
  case False
  obtain f g where fg: "orderChildren s a b = (f, g)" by (cases "orderChildren s a b")
  then have ab: "eval v a * eval v b = eval v f * eval v g" using orderChildren_value [of s a b] by auto
  obtain n where n: "imulChain s f g = Some n" "eval v n = eval v f * eval v g" using imulChain_value [of s f g v] by blast
  have "eval v (reassociateMul s (foldMulDiv s n)) = eval v a * eval v b"
    using n(2) ab foldMulDiv_value [OF assms] by (simp add: reassociateMul_value)
  then show ?thesis using False fg ab n(1) unfolding imulSimplifier_def
    by (cases g) (auto simp: replaceNode_def)
qed

section \<open>Long multiplication\<close>

text \<open>A sum or difference of ints that does not overflow is the same for the extended operands.\<close>

definition overflowsInt :: "(nat \<Rightarrow> u32) \<Rightarrow> intNode \<Rightarrow> bool" where
  "overflowsInt vi n = (case n of
       Add x y \<Rightarrow> sint (evalInt vi x) + sint (evalInt vi y) \<noteq> sint (evalInt vi n)
     | Sub x y \<Rightarrow> sint (evalInt vi x) - sint (evalInt vi y) \<noteq> sint (evalInt vi n)
     | _ \<Rightarrow> False)"

lemma extended_sum:
  "\<not> overflowsInt vi (Add x y) \<Longrightarrow> (scast (evalInt vi (Add x y)) :: u64) = scast (evalInt vi x) + scast (evalInt vi y)"
  "\<not> overflowsInt vi (Sub x y) \<Longrightarrow> (scast (evalInt vi (Sub x y)) :: u64) = scast (evalInt vi x) - scast (evalInt vi y)"
proof -
  assume "\<not> overflowsInt vi (Add x y)"
  then have "sint (evalInt vi (Add x y)) = sint (evalInt vi x) + sint (evalInt vi y)" by (simp add: overflowsInt_def)
  then show "(scast (evalInt vi (Add x y)) :: u64) = scast (evalInt vi x) + scast (evalInt vi y)" by (simp only: scast_eq of_int_add)
next
  assume "\<not> overflowsInt vi (Sub x y)"
  then have "sint (evalInt vi (Sub x y)) = sint (evalInt vi x) - sint (evalInt vi y)" by (simp add: overflowsInt_def)
  then show "(scast (evalInt vi (Sub x y)) :: u64) = scast (evalInt vi x) - scast (evalInt vi y)" by (simp only: scast_eq of_int_diff)
qed

lemma lmulChain_value:
  assumes "\<And>n. cannotOverflow s n \<Longrightarrow> \<not> overflowsInt vi n"
  shows "\<exists>n. lmulChain s a b = Some n \<and> evalLong vi vl n = evalLong vi vl a * evalLong vi vl b"
proof -
  have d: "\<exists>n. (case b of Const c \<Rightarrow>
        if is64Bit s \<and> \<not> getLastRun s \<and> c \<noteq> 0 \<and> \<not> isNonNegativePowerOf2 c \<and> c \<noteq> signBit then decomposeMultiply s a c else Some (Mul a b)
      | _ \<Rightarrow> Some (Mul a b)) = Some n \<and> evalLong vi vl n = evalLong vi vl a * evalLong vi vl b"
    unfolding evalLong_eq using decomposeMultiply_value [OF width_ok(2), of _ s a "leafValue vi vl"] by (cases b) auto
  show ?thesis
  proof (cases "\<exists>n. a = Leaf (I2L n)")
    case False
    then show ?thesis using d unfolding lmulChain_def Let_def evalLong_eq
      by (auto simp: distributed_value algebra_simps split: node.split longLeaf.split)
  next
    case True
    then obtain n where a: "a = Leaf (I2L n)" ..
    have "evalLong vi vl (distributed (Leaf (I2L x)) c (scast k * c)) = evalLong vi vl (Leaf (I2L (Add x (Const k)))) * c"
      if "cannotOverflow s (Add x (Const k))" for x k c
      using extended_sum(1) [OF assms [OF that]] by (simp add: evalLong_eq distributed_value leafValue_def evalInt_def distrib_right)
    moreover have "evalLong vi vl (distributed (Leaf (I2L x)) c (- (scast k * c))) = evalLong vi vl (Leaf (I2L (Sub x (Const k)))) * c"
      if "cannotOverflow s (Sub x (Const k))" for x k c
      using extended_sum(2) [OF assms [OF that]] by (simp add: evalLong_eq distributed_value leafValue_def evalInt_def left_diff_distrib)
    ultimately show ?thesis unfolding a lmulChain_def Let_def
      by (cases b) (auto simp: evalLong_def split: node.split)
  qed
qed

lemma lmul_keeps:
  assumes "\<And>n. cannotOverflow s n \<Longrightarrow> \<not> overflowsInt vi n"
  shows "\<exists>n. lmulSimplifier s a b = Some n \<and> evalLong vi vl n = evalLong vi vl (Mul a b)"
proof (cases "isAdjunct s \<or> isLoadConst a \<and> isLoadConst b")
  case True
  then show ?thesis by (auto simp: lmulSimplifier_def foldConstant_def evalLong_def elim!: isLoadConstE)
next
  case False
  obtain f g where fg: "orderChildrenByHighWordZero s (orderChildren s a b) = (f, g)" by (cases "orderChildrenByHighWordZero s (orderChildren s a b)")
  then have "(f, g) = (a, b) \<or> (f, g) = (b, a)"
    using orderChildren_value [of s a b] orderChildrenByHighWordZero_value [of s a b] orderChildrenByHighWordZero_value [of s b a] by auto
  then have ab: "evalLong vi vl (Mul a b) = evalLong vi vl f * evalLong vi vl g" by (auto simp: evalLong_def)
  obtain n where n: "lmulChain s f g = Some n" "evalLong vi vl n = evalLong vi vl f * evalLong vi vl g" using lmulChain_value [OF assms] by blast
  then show ?thesis using False fg ab unfolding lmulSimplifier_def
    by (cases g) (auto simp: replaceNode_def evalLong_def)
qed

section \<open>Properties of the handlers\<close>

text \<open>
  C24: The decomposition of a constant of 32 or 64 bits, other than the smallest, always returns; the sum of its signed
  powers of two is the constant, every power is within the word, and the entries fit into the arrays.
\<close>

theorem decomposition_of_constant:
  assumes "ws = 32 \<or> ws = 64" "- (2 ^ (ws - 1)) < x" "x < 2 ^ (ws - 1)"
  shows "\<exists>es. decomposeConstant x ws = Some es \<and> (\<Sum>(op, pos) \<leftarrow> es. if op = OP_MINUS then - (2 ^ pos) else 2 ^ pos) = x \<and>
    (\<forall>e \<in> set es. snd e < ws) \<and> length es \<le> 64"
proof -
  have ws: "0 < ws" "ws \<le> 64" using assms(1) by auto
  have "entryValue = (\<lambda>(op, pos). if op = OP_MINUS then - (2 ^ pos) else 2 ^ pos)" by (auto simp: fun_eq_iff signOf_def)
  then show ?thesis using decomposeConstant_value [OF ws assms(2,3)] ws(2) by (fastforce simp: entriesSum_def)
qed

theorem decomposition_of_constant_witness:
  "\<exists>es. decomposeConstant (2 ^ 31 - 1) 32 = Some es \<and> (\<Sum>(op, pos) \<leftarrow> es. if op = OP_MINUS then - (2 ^ pos) else 2 ^ pos) = (2 ^ 31 - 1 :: int) \<and>
    (\<forall>e \<in> set es. snd e < 32) \<and> length es \<le> 64"
  by (rule decomposition_of_constant) simp_all

text \<open>
  C22: The handler of int multiplication always returns, and what it returns has the value of the product (folded,
  negated, reassociated, distributed or decomposed into sums and differences), provided that no product \<open>(e / d) * d\<close> is
  marked as not negative where the dividend \<open>e\<close> is negative: that case is folded into a mask and gets a wrong value.
\<close>

theorem imulSimplifier_keeps_value:
  assumes "\<And>e d. isNonNegative s (Mul (Div e (Const d)) (Const d)) \<Longrightarrow> 0 \<le> sint (evalInt v e)"
  shows "\<exists>r. imulSimplifier s a b = Some r \<and> evalInt v (outcomeNode r) = evalInt v (Mul a b)"
  using assms unfolding evalInt_eq by (rule imul_keeps)

definition plainMul :: "('l, 'a::len word) mulSimplifier" where
  "plainMul = \<lparr>performTransformation = \<lambda>_. True, disableILDivPwr2Opt = False, disableILRemPwr2Opt = False,
     supportsLoweringConstIDiv = True, supportsLoweringConstLDiv = True, supportsLoweringConstLDivPower2 = True,
     canUseImmedInstruction = \<lambda>_. False, divisorUsedOnce = True, isNonNegative = \<lambda>_. False, isNonPositive = \<lambda>_. False,
     containingStructure = False, regionInvariant = \<lambda>_. False, getLastRun = False, reassociate = False, usedOnce = \<lambda>_. True,
     shouldSwapChildren = \<lambda>_ _. False, mulDecompositionCostIsJustified = \<lambda>_ _. True, is64Bit = True, isAdjunct = False,
     isHighWordZero = \<lambda>_. False, cannotOverflow = \<lambda>_. False\<rparr>"

theorem imulSimplifier_keeps_value_witness:
  "\<exists>r. imulSimplifier plainMul (Leaf 0) (Const 1000) = Some r \<and> evalInt (\<lambda>_. 7) (outcomeNode r) = evalInt (\<lambda>_. 7) (Mul (Leaf 0) (Const 1000))"
  by (rule imulSimplifier_keeps_value) (simp add: plainMul_def)

text \<open>
  C23: The handler of long multiplication always returns, and what it returns has the value of the product, provided
  that the int sums and differences marked as not overflowing do not overflow.
\<close>

theorem lmulSimplifier_keeps_value:
  assumes "\<And>n. cannotOverflow s n \<Longrightarrow> \<not> overflowsInt vi n"
  shows "\<exists>n. lmulSimplifier s a b = Some n \<and> evalLong vi vl n = evalLong vi vl (Mul a b)"
  using assms by (rule lmul_keeps)

theorem lmulSimplifier_keeps_value_witness:
  "\<exists>n. lmulSimplifier (plainMul\<lparr>cannotOverflow := \<lambda>n. n = Add (Leaf 0) (Const 3)\<rparr>) (Leaf (I2L (Add (Leaf 0) (Const 3)))) (Const 12) = Some n \<and>
     evalLong (\<lambda>_. 5) (\<lambda>_. 0) n = evalLong (\<lambda>_. 5) (\<lambda>_. 0) (Mul (Leaf (I2L (Add (Leaf 0) (Const 3)))) (Const 12))"
  by (rule lmulSimplifier_keeps_value) (simp add: plainMul_def overflowsInt_def evalInt_def)

text \<open>
  C25: In the last run, the quotient of a dividend between \<open>- (2 ^ j)\<close> and 0 by \<open>2 ^ j\<close>, multiplied by \<open>2 ^ j\<close> again, is replaced
  by a mask of the dividend: the product is 0, and may be marked as not negative, and the mask gives \<open>- (2 ^ j)\<close>.
\<close>

theorem imul_of_idiv_fold_wrong:
  assumes "getLastRun s" "\<not> reassociate s" "performTransformation s 8088" "isNonNegative s (Mul (Div a (Const (2 ^ j))) (Const (2 ^ j)))"
    and j: "1 \<le> j" "j \<le> 30" and a: "- (2 ^ j) < sint (evalInt v a)" "sint (evalInt v a) < 0"
  shows "\<exists>n. imulSimplifier s (Div a (Const (2 ^ j))) (Const (2 ^ j)) = Some (Done n) \<and> sint (evalInt v n) = - (2 ^ j) \<and>
    sint (evalInt v (Mul (Div a (Const (2 ^ j))) (Const (2 ^ j)))) = 0"
proof -
  let ?c = "2 ^ j :: u32"
  have p: "(2 :: int) ^ j \<le> 2 ^ 30" "(2 :: int) ^ 1 \<le> 2 ^ j" using j by (intro power_increasing; simp)+
  have pw: "sint (word_of_int (2 ^ j) :: u32) = 2 ^ j" "sint (word_of_int (- (2 ^ j)) :: u32) = - (2 ^ j)"
    using p by (intro sint_word_of_int [of 31]; simp)+
  then have c: "sint ?c = 2 ^ j" "sint (- ?c) = - (2 ^ j)" by simp_all
  have other: "?c \<noteq> k" if "sint k < 2" for k using c(1) p(2) that by (metis not_le power_one_right)
  have ne: "?c \<noteq> 0" "?c \<noteq> 1" by (rule other, simp)+
  have "?c AND mask j = 0" by (intro bit_word_eqI) (auto simp: bit_and_iff bit_mask_iff bit_exp_iff)
  then have m: "?c AND (?c - 1) = 0" by (simp add: mask_eq_exp_minus_1)
  have r: "imulSimplifier s (Div a (Const ?c)) (Const ?c) = Some (Done (And a (Const (NOT (?c - 1)))))"
    using assms(1-4) ne m c(1) p by (simp add: imulSimplifier_def isLoadConst_def orderChildren_def isExprInvariant_def imulChain_def foldMulDiv_def reassociateMul_def)
  have dv: "sint (evalInt v a) div 2 ^ j = - 1" "sint (evalInt v a) sdiv 2 ^ j = 0"
    using a by (auto simp: signed_divide_int_def div_pos_neg_trivial intro!: int_div_pos_eq [of _ _ _ "sint (evalInt v a) + 2 ^ j"])
  have "evalInt v (And a (Const (NOT (?c - 1)))) = evalInt v a AND - ?c" by (simp add: evalInt_def minus_eq_not_minus_1)
  also have "\<dots> = word_of_int (sint (evalInt v a) AND - (2 ^ j))" by (simp only: of_int_and_eq word_of_sint) simp
  also have "\<dots> = word_of_int (- (2 ^ j))" by (simp only: and_minus_power dv) simp
  finally have n: "sint (evalInt v (And a (Const (NOT (?c - 1))))) = - (2 ^ j)" using pw(2) by simp
  have "evalInt v (Mul (Div a (Const ?c)) (Const ?c)) = divWord (evalInt v a) ?c * ?c" by (simp add: evalInt_def)
  also have "\<dots> = 0" by (simp add: divWord_def c(1) dv(2))
  finally show ?thesis using r n by simp
qed

theorem imul_of_idiv_fold_wrong_witness:
  "\<exists>n. imulSimplifier (plainMul\<lparr>getLastRun := True, isNonNegative := \<lambda>_. True\<rparr>) (Div (Leaf 0) (Const (2 ^ 2))) (Const (2 ^ 2)) = Some (Done n) \<and>
     sint (evalInt (\<lambda>_. - 1) n) = - (2 ^ 2) \<and> sint (evalInt (\<lambda>_. - 1) (Mul (Div (Leaf 0) (Const (2 ^ 2))) (Const (2 ^ 2)))) = 0"
  by (rule imul_of_idiv_fold_wrong) (simp_all add: plainMul_def evalInt_def)

end
