(* ===== verification/CodeCache.thy ===== *)
theory CodeCache
  imports NJ_Prelude
begin

text \<open>
  The code cache of \<open>compiler/runtime/OMRCodeCache.cpp\<close>, on a 64-bit target in a build
  without \<open>DEBUG\<close>: the layout of a cache, the free block list that is threaded through the
  freed memory, allocation of warm and cold code, trimming, and the code's own consistency
  check. Addresses are natural numbers with \<open>0\<close> as \<open>NULL\<close>; differences and sums of type
  \<open>size_t\<close> wrap around at 64 bits. The fields of the structures that lie in the cache
  memory are maps from the address of the structure, one map per field. A loop over a linked
  list is a partial function, with \<open>None\<close> for a loop that does not end; a result is \<open>Ok\<close>
  or the fault the code runs into. Log output has no counterpart, and \<open>TR_ASSERT\<close>, which
  production builds leave out, is not part of the operations.
\<close>

section \<open>Sizes and addresses\<close>

definition sizeof_CodeCacheMethodHeader :: nat where "sizeof_CodeCacheMethodHeader = 16"

definition sizeof_CodeCacheFreeCacheBlock :: nat where "sizeof_CodeCacheFreeCacheBlock = 16"

definition MIN_SIZE_BLOCK :: nat where
  "MIN_SIZE_BLOCK = (if sizeof_CodeCacheFreeCacheBlock > 96 then sizeof_CodeCacheFreeCacheBlock else 96)"

definition sizeof_pointer :: nat where "sizeof_pointer = 8"

lemmas sizeof_defs = sizeof_CodeCacheMethodHeader_def sizeof_CodeCacheFreeCacheBlock_def
  sizeof_pointer_def MIN_SIZE_BLOCK_def

text \<open>\<open>psub a b\<close> is the difference \<open>a - b\<close> and \<open>sadd a b\<close> the sum, read as a \<open>size_t\<close>.\<close>

definition psub :: "nat \<Rightarrow> nat \<Rightarrow> nat" where
  "psub a b = unat (word_of_nat a - word_of_nat b :: u64)"

definition sadd :: "nat \<Rightarrow> nat \<Rightarrow> nat" where "sadd a b = (a + b) mod 2 ^ 64"

text \<open>\<open>x & ~mask\<close>, and the rounding up to the next multiple.\<close>

definition clearMask :: "nat \<Rightarrow> nat \<Rightarrow> nat" where
  "clearMask x m = unat ((word_of_nat x :: u64) AND NOT (word_of_nat m))"

definition align :: "nat \<Rightarrow> nat \<Rightarrow> nat" where "align p m = clearMask (p + m) m"

section \<open>Configuration and state\<close>

datatype ErrorCode = ERRORCODE_SUCCESS | ERRORCODE_INSUFFICIENTSPACE | ERRORCODE_FATALERROR

datatype YesNoMaybe = TR_no | TR_yes | TR_maybe

record codeCacheConfig =
  trampolineCodeSize :: nat
  ccPreLoadedCodeSize :: nat
  numRuntimeHelpers :: nat
  codeCacheKB :: nat
  codeCacheAlignment :: nat
  codeCacheHelperAlignment :: nat
  codeCacheTrampolineAlignmentBytes :: nat
  codeCacheTempTrampolineSyncArraySize :: nat
  codeCacheHashEntryAllocatorSlabSize :: nat
  needsMethodTrampolines :: bool
  trampolineSpacePercentage :: nat
  doSanityChecks :: bool
  codeCacheFreeBlockRecylingEnabled :: bool
  usingRepository :: bool
  warmEyeCatcher :: string
  coldEyeCatcher :: string

text \<open>
  The structures in the cache memory: \<open>CodeCacheFreeCacheBlock\<close> at the start of a free
  block and \<open>CodeCacheMethodHeader\<close> at the start of a used one. Both start at the address of
  the block and share its first 16 bytes, so writing one makes the fields of the other at that
  address meaningless. The invariants of the cache never speak of the header of a free block or
  the links of a used one, and no operation reads them, as every block has one owner.
\<close>

record codeMemory =
  fbSize :: "nat \<Rightarrow> nat"
  fbNext :: "nat \<Rightarrow> nat"
  mhSize :: "nat \<Rightarrow> nat"
  mhEyeCatcher :: "nat \<Rightarrow> string"
  mhMetaData :: "nat \<Rightarrow> nat"

text \<open>
  The cache; \<open>repositoryFreeSpace\<close> is the manager's count of the free space of its repository,
  which the operations of the cache adjust.
\<close>

record codeCache =
  warmCodeAlloc :: nat
  coldCodeAlloc :: nat
  flags :: u32
  segmentBase :: nat
  segmentTop :: nat
  freeBlockList :: nat
  reserved :: bool
  reservingCompThreadID :: int
  sizeOfLargestFreeColdBlock :: nat
  sizeOfLargestFreeWarmBlock :: nat
  helperBase :: nat
  helperTop :: nat
  tempTrampolineBase :: nat
  tempTrampolineTop :: nat
  tempTrampolineNext :: nat
  trampolineAllocationMark :: nat
  trampolineReservationMark :: nat
  trampolineBase :: nat
  tempTrampolinesMax :: nat
  CCPreLoadedCodeBase :: nat
  CCPreLoadedCodeTop :: nat
  almostFull :: YesNoMaybe
  lastAllocatedBlock :: nat
  mem :: codeMemory
  repositoryFreeSpace :: nat

datatype fault = NullDereference | SanityCheckCrash | OutOfBounds

datatype 'a outcome = Ok 'a | Fault fault

fun bindO :: "'a outcome option \<Rightarrow> ('a \<Rightarrow> 'b outcome option) \<Rightarrow> 'b outcome option" where
  "bindO None f = None"
| "bindO (Some (Fault e)) f = Some (Fault e)"
| "bindO (Some (Ok x)) f = f x"

section \<open>Small operations\<close>

definition reserve :: "int \<Rightarrow> codeCache \<Rightarrow> codeCache" where
  "reserve i cc = cc\<lparr>reserved := True, reservingCompThreadID := i\<rparr>"

definition unreserve :: "codeCache \<Rightarrow> codeCache" where
  "unreserve cc = cc\<lparr>reserved := False, reservingCompThreadID := -2\<rparr>"

definition writeMethodHeader :: "codeCacheConfig \<Rightarrow> nat \<Rightarrow> nat \<Rightarrow> bool \<Rightarrow> codeCache \<Rightarrow> codeCache" where
  "writeMethodHeader cfg block blockSize isCold cc = cc\<lparr>mem := (mem cc)
     \<lparr>mhSize := (mhSize (mem cc))(block := blockSize mod 2 ^ 32),
      mhEyeCatcher := (mhEyeCatcher (mem cc))
        (block := if \<not> isCold then warmEyeCatcher cfg else coldEyeCatcher cfg),
      mhMetaData := (mhMetaData (mem cc))(block := 0)\<rparr>\<rparr>"

definition getFreeContiguousSpace :: "codeCache \<Rightarrow> nat" where
  "getFreeContiguousSpace cc = psub (coldCodeAlloc cc) (warmCodeAlloc cc)"

definition increaseFreeSpaceInCodeCacheRepository :: "codeCacheConfig \<Rightarrow> nat \<Rightarrow> codeCache \<Rightarrow> codeCache" where
  "increaseFreeSpaceInCodeCacheRepository cfg amount cc = (if usingRepository cfg
     then cc\<lparr>repositoryFreeSpace := sadd (repositoryFreeSpace cc) amount\<rparr> else cc)"

definition decreaseFreeSpaceInCodeCacheRepository :: "codeCacheConfig \<Rightarrow> nat \<Rightarrow> codeCache \<Rightarrow> codeCache" where
  "decreaseFreeSpaceInCodeCacheRepository cfg amount cc = (if usingRepository cfg
     then cc\<lparr>repositoryFreeSpace := psub (repositoryFreeSpace cc) amount\<rparr> else cc)"

definition updateMaxSizeOfFreeBlocks :: "codeCacheConfig \<Rightarrow> nat \<Rightarrow> nat \<Rightarrow> codeCache \<Rightarrow> codeCache" where
  "updateMaxSizeOfFreeBlocks cfg blockPtr blockSize cc =
     (if codeCacheFreeBlockRecylingEnabled cfg then
        if blockPtr < warmCodeAlloc cc then
          if blockSize > sizeOfLargestFreeWarmBlock cc
          then cc\<lparr>sizeOfLargestFreeWarmBlock := blockSize\<rparr> else cc
        else
          if blockSize > sizeOfLargestFreeColdBlock cc
          then cc\<lparr>sizeOfLargestFreeColdBlock := blockSize\<rparr> else cc
      else cc)"

section \<open>The consistency check\<close>

text \<open>
  \<open>checkBlock\<close> is what \<open>checkForErrors\<close> tests of one block of the free list; \<open>True\<close> means
  that it reports an error. The first character of the eye-catcher is compared.
\<close>

definition checkBlock :: "codeCacheConfig \<Rightarrow> codeCache \<Rightarrow> nat \<Rightarrow> bool" where
  "checkBlock cfg cc currLink = (let
     size = fbSize (mem cc) currLink;
     nextLink = fbNext (mem cc) currLink;
     cacheSize = psub (segmentTop cc) (segmentBase cc);
     endBlock = currLink + size in
     size > cacheSize \<or>
     currLink < segmentBase cc + sizeof_pointer \<or> currLink > segmentTop cc \<or>
     endBlock < segmentBase cc + sizeof_pointer \<or> endBlock > segmentTop cc \<or>
     nextLink \<noteq> 0 \<and>
       (if nextLink = endBlock then \<not> (currLink < warmCodeAlloc cc \<and> endBlock \<ge> coldCodeAlloc cc)
        else nextLink \<le> endBlock \<or>
          endBlock \<noteq> warmCodeAlloc cc \<and>
          take 1 (mhEyeCatcher (mem cc) endBlock) \<noteq> take 1 (warmEyeCatcher cfg)))"

partial_function (option) checkScan ::
    "codeCacheConfig \<Rightarrow> codeCache \<Rightarrow> nat \<Rightarrow> bool \<Rightarrow> nat \<Rightarrow> nat \<Rightarrow> (bool \<times> nat \<times> nat) option" where
  "checkScan cfg cc currLink doCrash maxFreeWarmSize maxFreeColdSize =
     (if currLink = 0 then Some (doCrash, maxFreeWarmSize, maxFreeColdSize)
      else let size = fbSize (mem cc) currLink in
        if currLink < warmCodeAlloc cc
        then checkScan cfg cc (fbNext (mem cc) currLink) (doCrash \<or> checkBlock cfg cc currLink)
               (max maxFreeWarmSize size) maxFreeColdSize
        else checkScan cfg cc (fbNext (mem cc) currLink) (doCrash \<or> checkBlock cfg cc currLink)
               maxFreeWarmSize (max maxFreeColdSize size))"

text \<open>The walk over all blocks, used and free, and its search in the free list.\<close>

partial_function (option) isFreeSegment :: "codeMemory \<Rightarrow> nat \<Rightarrow> nat \<Rightarrow> bool option" where
  "isFreeSegment m currLink start =
     (if currLink = 0 then Some False
      else if start = currLink then Some True
      else isFreeSegment m (fbNext m currLink) start)"

partial_function (option) walkBlocks :: "codeCacheConfig \<Rightarrow> codeCache \<Rightarrow> nat \<Rightarrow> bool option" where
  "walkBlocks cfg cc start =
     (if start < trampolineBase cc then
        Option.bind (isFreeSegment (mem cc) (freeBlockList cc) start) (\<lambda>freeSeg.
          if freeSeg then walkBlocks cfg cc (start + fbSize (mem cc) start)
          else if take 1 (mhEyeCatcher (mem cc) start) \<noteq> take 1 (warmEyeCatcher cfg) then
            (let start' = start + mhSize (mem cc) start in
             walkBlocks cfg cc (if start' \<ge> warmCodeAlloc cc then coldCodeAlloc cc else start'))
          else Some True)
      else Some False)"

definition checkForErrors :: "codeCacheConfig \<Rightarrow> codeCache \<Rightarrow> bool option" where
  "checkForErrors cfg cc = (if freeBlockList cc = 0 then Some False else do {
     (doCrash, maxFreeWarmSize, maxFreeColdSize) \<leftarrow>
       checkScan cfg cc (freeBlockList cc) False 0 0;
     walk \<leftarrow> walkBlocks cfg cc (align (segmentTop cc + sizeof_pointer) (codeCacheAlignment cfg - 1));
     Some (doCrash \<or> sizeOfLargestFreeWarmBlock cc \<noteq> maxFreeWarmSize \<or>
           sizeOfLargestFreeColdBlock cc \<noteq> maxFreeColdSize \<or> walk)
   })"

text \<open>The check at the end of an operation, when \<open>doSanityChecks\<close> is set: an error crashes.\<close>

definition sanityCheck :: "codeCacheConfig \<Rightarrow> codeCache \<Rightarrow> 'a \<Rightarrow> ('a \<times> codeCache) outcome option" where
  "sanityCheck cfg cc r = (if doSanityChecks cfg then do {
       crash \<leftarrow> checkForErrors cfg cc;
       Some (if crash then Fault SanityCheckCrash else Ok (r, cc))
     } else Some (Ok (r, cc)))"

section \<open>Freeing a block\<close>

partial_function (option) insertionPoint :: "(nat \<Rightarrow> nat) \<Rightarrow> nat \<Rightarrow> nat \<Rightarrow> nat option" where
  "insertionPoint nx start cur =
     (if nx cur \<noteq> 0 \<and> nx cur < start then insertionPoint nx start (nx cur) else Some cur)"

text \<open>Writing \<open>_size\<close> and \<open>_next\<close> of a block.\<close>

definition setBlockSize :: "nat \<Rightarrow> nat \<Rightarrow> codeCache \<Rightarrow> codeCache" where
  "setBlockSize p s cc = cc\<lparr>mem := (mem cc)\<lparr>fbSize := (fbSize (mem cc))(p := s)\<rparr>\<rparr>"

definition setNext :: "nat \<Rightarrow> nat \<Rightarrow> codeCache \<Rightarrow> codeCache" where
  "setNext p q cc = cc\<lparr>mem := (mem cc)\<lparr>fbNext := (fbNext (mem cc))(p := q)\<rparr>\<rparr>"

definition clearEyeCatcher :: "nat \<Rightarrow> codeCache \<Rightarrow> codeCache" where
  "clearEyeCatcher p cc = cc\<lparr>mem := (mem cc)\<lparr>mhEyeCatcher :=
     (mhEyeCatcher (mem cc))(p := (mhEyeCatcher (mem cc) p)[0 := CHR 0x00])\<rparr>\<rparr>"

text \<open>No merging happened: the block becomes an entry of its own.\<close>

definition linkNewBlock :: "codeCache \<Rightarrow> nat \<Rightarrow> nat \<Rightarrow> nat \<Rightarrow> nat \<times> codeCache" where
  "linkNewBlock cc cur start blockSize = (start,
     if start < cur
     then (setNext start (freeBlockList cc) (setBlockSize start blockSize cc))\<lparr>freeBlockList := start\<rparr>
     else setNext cur start (setNext start (fbNext (mem cc) cur) (setBlockSize start blockSize cc)))"

definition mergeFreeBlock :: "codeCache \<Rightarrow> nat \<Rightarrow> nat \<Rightarrow> nat \<Rightarrow> nat \<Rightarrow> nat \<times> codeCache" where
  "mergeFreeBlock cc cur start endp blockSize = (let
     warm = warmCodeAlloc cc; cold = coldCodeAlloc cc;
     sz = fbSize (mem cc); nx = fbNext (mem cc) in
     if start < cur \<and> psub cur endp < sizeof_CodeCacheFreeCacheBlock then
       if \<not> (start < warm \<and> cur \<ge> cold)
       then (start, (setNext start (nx cur) (setBlockSize start (psub (cur + sz cur) start) cc))
               \<lparr>freeBlockList := start\<rparr>)
       else linkNewBlock cc cur start blockSize
     else if nx cur \<noteq> 0 \<and> psub (nx cur) endp < sizeof_CodeCacheFreeCacheBlock \<and>
             \<not> (start < warm \<and> nx cur \<ge> cold) then
       if psub start (cur + sz cur) < sizeof_CodeCacheFreeCacheBlock \<and>
          \<not> (cur < warm \<and> start \<ge> cold)
       then (cur, setNext cur (nx (nx cur)) (setBlockSize cur (psub (nx cur + sz (nx cur)) cur) cc))
       else (start, setNext cur start (setNext start (nx (nx cur))
               (setBlockSize start (psub (nx cur + sz (nx cur)) start) cc)))
     else if cur < start \<and> psub start (cur + sz cur) < sizeof_CodeCacheFreeCacheBlock \<and>
             \<not> (cur < warm \<and> start \<ge> cold)
     then (cur, setBlockSize cur (psub (start + blockSize) cur) cc)
     else linkNewBlock cc cur start blockSize)"

definition addFreeBlock2 :: "codeCacheConfig \<Rightarrow> nat \<Rightarrow> nat \<Rightarrow> codeCache \<Rightarrow> (bool \<times> codeCache) outcome option" where
  "addFreeBlock2 cfg start0 endp cc = (let start = align start0 (codeCacheAlignment cfg - 1) in
     if endp \<le> start + sizeof_CodeCacheFreeCacheBlock then Some (Ok (False, cc))
     else let size = psub endp start;
              cc1 = (if size \<ge> sizeof_CodeCacheMethodHeader then clearEyeCatcher start cc else cc) in
       Option.bind
         (if freeBlockList cc1 \<noteq> 0 then
            Option.bind (insertionPoint (fbNext (mem cc1)) start (freeBlockList cc1))
              (\<lambda>cur. Some (mergeFreeBlock cc1 cur start endp size))
          else Some (start, (setNext start 0 (setBlockSize start size cc1))\<lparr>freeBlockList := start\<rparr>))
         (\<lambda>(link, cc2). sanityCheck cfg
            (updateMaxSizeOfFreeBlocks cfg link (fbSize (mem cc2) link) cc2) True))"

section \<open>Taking a block from the free list\<close>

record fitState =
  bestFitLink :: nat
  bestFitLinkPrev :: nat
  biggestLink :: nat
  secondBiggestLink :: nat

text \<open>The body of the loop for a block of the requested kind.\<close>

definition scanBlock :: "(nat \<Rightarrow> nat) \<Rightarrow> nat \<Rightarrow> nat \<Rightarrow> nat \<Rightarrow> fitState \<Rightarrow> fitState" where
  "scanBlock sz wanted currLink prevLink st = (let
     st1 = (if biggestLink st = 0 then st\<lparr>biggestLink := currLink\<rparr>
            else if sz currLink \<ge> sz (biggestLink st)
            then st\<lparr>secondBiggestLink := biggestLink st, biggestLink := currLink\<rparr>
            else if secondBiggestLink st \<noteq> 0 then
              (if sz currLink \<ge> sz (secondBiggestLink st) then st\<lparr>secondBiggestLink := currLink\<rparr> else st)
            else st\<lparr>secondBiggestLink := currLink\<rparr>) in
     if sz currLink \<ge> wanted then
       if bestFitLink st1 = 0 then st1\<lparr>bestFitLink := currLink, bestFitLinkPrev := prevLink\<rparr>
       else if sz (bestFitLink st1) > sz currLink
       then st1\<lparr>bestFitLink := currLink, bestFitLinkPrev := prevLink\<rparr>
       else st1
     else st1)"

partial_function (option) scanFreeBlocks ::
    "codeCache \<Rightarrow> nat \<Rightarrow> bool \<Rightarrow> nat \<Rightarrow> nat \<Rightarrow> fitState \<Rightarrow> fitState option" where
  "scanFreeBlocks cc wanted isCold currLink prevLink st =
     (if currLink = 0 then Some st
      else if (if isCold then currLink < coldCodeAlloc cc else currLink \<ge> warmCodeAlloc cc)
      then scanFreeBlocks cc wanted isCold (fbNext (mem cc) currLink) currLink st
      else scanFreeBlocks cc wanted isCold (fbNext (mem cc) currLink) currLink
             (scanBlock (fbSize (mem cc)) wanted currLink prevLink st))"

text \<open>The rest of a block that is split stays in the list; its address is returned.\<close>

definition relink :: "nat \<Rightarrow> nat \<Rightarrow> codeCache \<Rightarrow> codeCache" where
  "relink prev target cc =
     (if prev \<noteq> 0 then setNext prev target cc else cc\<lparr>freeBlockList := target\<rparr>)"

definition removeFreeBlock :: "nat \<Rightarrow> nat \<Rightarrow> nat \<Rightarrow> codeCache \<Rightarrow> nat \<times> codeCache" where
  "removeFreeBlock blockSize prev cur cc = (let
     nextLink = fbNext (mem cc) cur; sz = fbSize (mem cc) cur in
     if psub sz blockSize \<ge> MIN_SIZE_BLOCK then
       let splitSize = psub sz blockSize; rest = cur + blockSize in
       (rest, relink prev rest (setNext rest nextLink (setBlockSize rest splitSize (setBlockSize cur blockSize cc))))
     else (0, relink prev nextLink cc))"

definition findFreeBlock ::
    "codeCacheConfig \<Rightarrow> nat \<Rightarrow> bool \<Rightarrow> bool \<Rightarrow> codeCache \<Rightarrow> (nat \<times> codeCache) outcome option" where
  "findFreeBlock cfg wanted isCold isMethodHeaderNeeded cc = do {
     st \<leftarrow> scanFreeBlocks cc wanted isCold (freeBlockList cc) 0
            \<lparr>bestFitLink = 0, bestFitLinkPrev = 0, biggestLink = 0, secondBiggestLink = 0\<rparr>;
     let best = bestFitLink st;
     let cc1 = (if best \<noteq> 0 then
         let (leftBlock, cc') = removeFreeBlock wanted (bestFitLinkPrev st) best cc in
         if best = biggestLink st then
           let leftBlockSize = (if leftBlock \<noteq> 0 then fbSize (mem cc') leftBlock else 0);
               secondBiggestSize = (if secondBiggestLink st \<noteq> 0 then fbSize (mem cc') (secondBiggestLink st) else 0);
               biggestSize = (if leftBlockSize > secondBiggestSize then leftBlockSize else secondBiggestSize) in
           if \<not> isCold then cc'\<lparr>sizeOfLargestFreeWarmBlock := biggestSize\<rparr>
           else cc'\<lparr>sizeOfLargestFreeColdBlock := biggestSize\<rparr>
         else cc'
       else cc);
     if isMethodHeaderNeeded \<and> best = 0 then Some (Fault NullDereference)
     else sanityCheck cfg
       (if isMethodHeaderNeeded then writeMethodHeader cfg best (fbSize (mem cc1) best) isCold cc1 else cc1)
       best
   }"

section \<open>Allocating code memory\<close>

definition performSizeAdjustments ::
    "codeCacheConfig \<Rightarrow> nat \<Rightarrow> nat \<Rightarrow> bool \<Rightarrow> bool \<Rightarrow> nat \<times> nat" where
  "performSizeAdjustments cfg warmCodeSize coldCodeSize needsToBeContiguous isMethodHeaderNeeded = (let
     rnd = codeCacheAlignment cfg - 1;
     (w, c) = (if needsToBeContiguous \<and> coldCodeSize \<noteq> 0 then (sadd warmCodeSize coldCodeSize, 0)
               else (warmCodeSize, coldCodeSize));
     adjust = (\<lambda>s. if s \<noteq> 0 then
         align (if isMethodHeaderNeeded then sadd s sizeof_CodeCacheMethodHeader else s) rnd
       else s) in (adjust w, adjust c))"

text \<open>
  The warm part: a free block, or the next addresses of the contiguous space; \<open>None\<close> as the
  address is the early \<open>return NULL\<close>.
\<close>

definition allocateWarm ::
    "codeCacheConfig \<Rightarrow> nat \<Rightarrow> bool \<Rightarrow> bool \<Rightarrow> codeCache \<Rightarrow> (nat option \<times> codeCache) outcome option" where
  "allocateWarm cfg warmSize warmIsFreeBlock isMethodHeaderNeeded cc =
     (if \<not> warmIsFreeBlock then
        if warmSize \<noteq> 0 then
          let warmCodeAddress = align (warmCodeAlloc cc) (codeCacheAlignment cfg - 1);
              cacheHeapAlloc = warmCodeAddress + warmSize in
          if cacheHeapAlloc > coldCodeAlloc cc then Some (Ok (None, cc))
          else let cc1 = (decreaseFreeSpaceInCodeCacheRepository cfg
                            (psub cacheHeapAlloc (warmCodeAlloc cc)) cc)\<lparr>warmCodeAlloc := cacheHeapAlloc\<rparr> in
            Some (Ok (Some warmCodeAddress,
              if isMethodHeaderNeeded then writeMethodHeader cfg warmCodeAddress warmSize False cc1 else cc1))
        else Some (Ok (Some (warmCodeAlloc cc), cc))
      else bindO (findFreeBlock cfg warmSize False isMethodHeaderNeeded cc)
             (\<lambda>(p, cc1). Some (Ok (Some p, cc1))))"

definition allocateCold ::
    "codeCacheConfig \<Rightarrow> nat \<Rightarrow> bool \<Rightarrow> bool \<Rightarrow> bool \<Rightarrow> nat \<Rightarrow> codeCache \<Rightarrow> (nat option \<times> codeCache) outcome option" where
  "allocateCold cfg coldSize coldIsFreeBlock warmIsFreeBlock isMethodHeaderNeeded warmCodeAddress cc =
     (if \<not> coldIsFreeBlock then
        if coldSize \<noteq> 0 then
          let cacheHeapAlloc = clearMask (psub (coldCodeAlloc cc) coldSize) (codeCacheAlignment cfg - 1) in
          if cacheHeapAlloc < warmCodeAlloc cc then
            Some (Ok (None, if \<not> warmIsFreeBlock then cc\<lparr>warmCodeAlloc := warmCodeAddress\<rparr> else cc))
          else let cc1 = (decreaseFreeSpaceInCodeCacheRepository cfg
                            (psub (coldCodeAlloc cc) cacheHeapAlloc) cc)\<lparr>coldCodeAlloc := cacheHeapAlloc\<rparr> in
            Some (Ok (Some cacheHeapAlloc,
              if isMethodHeaderNeeded then writeMethodHeader cfg cacheHeapAlloc coldSize True cc1 else cc1))
        else Some (Ok (Some (coldCodeAlloc cc), cc))
      else bindO (findFreeBlock cfg coldSize True isMethodHeaderNeeded cc)
             (\<lambda>(p, cc1). Some (Ok (Some p, cc1))))"

text \<open>
  The result is the address of the warm code and the value of \<open>*coldCode\<close>, or \<open>None\<close> where
  the code returns \<open>NULL\<close> and leaves \<open>*coldCode\<close> alone.
\<close>

definition allocateCodeMemory ::
    "codeCacheConfig \<Rightarrow> nat \<Rightarrow> nat \<Rightarrow> bool \<Rightarrow> bool \<Rightarrow> codeCache \<Rightarrow> ((nat \<times> nat) option \<times> codeCache) outcome option" where
  "allocateCodeMemory cfg warmCodeSize coldCodeSize needsToBeContiguous isMethodHeaderNeeded cc = (let
     (warmSize, coldSize) = performSizeAdjustments cfg warmCodeSize coldCodeSize needsToBeContiguous isMethodHeaderNeeded;
     warmIsFreeBlock = (\<not> needsToBeContiguous \<and> warmSize \<noteq> 0 \<and> sizeOfLargestFreeWarmBlock cc \<ge> warmSize);
     coldIsFreeBlock = (\<not> needsToBeContiguous \<and> coldSize \<noteq> 0 \<and> sizeOfLargestFreeColdBlock cc \<ge> coldSize) in
     if coldSize \<noteq> 0 \<and> \<not> coldIsFreeBlock \<and>
        sadd coldSize (if warmIsFreeBlock then 0 else warmSize) > getFreeContiguousSpace cc
     then Some (Ok (None, cc))
     else bindO (allocateWarm cfg warmSize warmIsFreeBlock isMethodHeaderNeeded cc) (\<lambda>(w, cc1).
       case w of None \<Rightarrow> Some (Ok (None, cc1))
       | Some warmCodeAddress \<Rightarrow>
         bindO (allocateCold cfg coldSize coldIsFreeBlock warmIsFreeBlock isMethodHeaderNeeded warmCodeAddress cc1)
           (\<lambda>(c, cc2). case c of None \<Rightarrow> Some (Ok (None, cc2))
            | Some coldCodeAddress \<Rightarrow> let
                cc3 = cc2\<lparr>lastAllocatedBlock := warmCodeAddress\<rparr>;
                warmResult = (if isMethodHeaderNeeded \<and> warmSize \<noteq> 0
                  then warmCodeAddress + sizeof_CodeCacheMethodHeader else warmCodeAddress);
                coldResult = (if isMethodHeaderNeeded \<and> coldSize \<noteq> 0
                  then coldCodeAddress + sizeof_CodeCacheMethodHeader else coldCodeAddress) in
                Some (Ok (Some (warmResult, if \<not> needsToBeContiguous then coldResult else warmResult), cc3)))))"

section \<open>Trimming an allocation\<close>

definition trimCodeMemoryAllocation ::
    "codeCacheConfig \<Rightarrow> nat \<Rightarrow> nat \<Rightarrow> codeCache \<Rightarrow> (bool \<times> codeCache) outcome option" where
  "trimCodeMemoryAllocation cfg codeMemoryStart0 actualSizeInBytes0 cc =
     (if actualSizeInBytes0 = 0 then Some (Ok (False, cc)) else let
        codeMemoryStart = codeMemoryStart0 - sizeof_CodeCacheMethodHeader;
        actualSizeInBytes = align (sadd actualSizeInBytes0 sizeof_CodeCacheMethodHeader) (codeCacheAlignment cfg - 1);
        oldSize = mhSize (mem cc) codeMemoryStart;
        setHeaderSize = (\<lambda>c. c\<lparr>mem := (mem c)\<lparr>mhSize :=
          (mhSize (mem c))(codeMemoryStart := actualSizeInBytes mod 2 ^ 32)\<rparr>\<rparr>) in
        if actualSizeInBytes \<ge> oldSize then Some (Ok (False, cc)) else let
          shrinkage = oldSize - actualSizeInBytes;
          expectedHeapAlloc = codeMemoryStart + oldSize in
          if expectedHeapAlloc = warmCodeAlloc cc then
            Some (Ok (True, setHeaderSize ((increaseFreeSpaceInCodeCacheRepository cfg shrinkage cc)
              \<lparr>warmCodeAlloc := warmCodeAlloc cc - shrinkage\<rparr>)))
          else if shrinkage \<ge> MIN_SIZE_BLOCK then
            bindO (addFreeBlock2 cfg (codeMemoryStart + actualSizeInBytes) expectedHeapAlloc cc)
              (\<lambda>(_, cc1). Some (Ok (True, setHeaderSize cc1)))
          else Some (Ok (False, cc)))"

section \<open>Initialization\<close>

text \<open>
  The results of the allocations of bookkeeping memory (the hash entry slab, the monitor, the
  sync block, the two hash tables) are arguments, as is the platform's number of temporary
  trampolines for a cache of the given size. The slab and the tables have no place in the
  record; \<open>sizeof(this)\<close> is the size of a pointer.
\<close>

definition initialize ::
    "codeCacheConfig \<Rightarrow> (nat \<Rightarrow> nat) \<Rightarrow> bool \<Rightarrow> bool \<Rightarrow> bool \<Rightarrow> bool \<Rightarrow> nat \<Rightarrow> nat \<Rightarrow> nat \<Rightarrow> codeCache \<Rightarrow> bool \<times> codeCache" where
  "initialize cfg codeCacheConfigCallback slabOk mutexOk syncBlockOk tablesOk segBase segTop
      allocatedCodeCacheSizeInBytes cc = (let
     cc1 = cc\<lparr>segmentBase := segBase, segmentTop := segTop,
              helperTop := segBase + allocatedCodeCacheSizeInBytes\<rparr> in
     if \<not> slabOk \<or> \<not> mutexOk then (False, cc1) else let
       cc2 = (unreserve (cc1\<lparr>freeBlockList := 0, flags := 0\<rparr>))
         \<lparr>almostFull := TR_no, sizeOfLargestFreeColdBlock := 0, sizeOfLargestFreeWarmBlock := 0,
          lastAllocatedBlock := 0,
          warmCodeAlloc := align (segBase + sizeof_pointer) (codeCacheAlignment cfg - 1)\<rparr>;
       preLoaded = (\<lambda>c. let top = clearMask (trampolineBase c) (codeCacheHelperAlignment cfg - 1) in
         c\<lparr>CCPreLoadedCodeTop := top, CCPreLoadedCodeBase := top - ccPreLoadedCodeSize cfg,
           coldCodeAlloc := top - ccPreLoadedCodeSize cfg\<rparr>) in
       if trampolineCodeSize cfg = 0 then
         (True, preLoaded (cc2\<lparr>trampolineBase := helperTop cc2, helperBase := helperTop cc2,
            trampolineReservationMark := helperTop cc2, trampolineAllocationMark := helperTop cc2\<rparr>))
       else let
         hBase = clearMask (helperTop cc2 - trampolineCodeSize cfg * numRuntimeHelpers cfg)
                   (codeCacheTrampolineAlignmentBytes cfg);
         tMax = (if \<not> needsMethodTrampolines cfg then 0
                 else codeCacheConfigCallback (helperTop cc2 - segBase));
         tBase = (if \<not> needsMethodTrampolines cfg then hBase
                  else hBase - (hBase - segBase) * trampolineSpacePercentage cfg div 100);
         tempBase = hBase - trampolineCodeSize cfg * tMax;
         cc3 = cc2\<lparr>helperBase := hBase, trampolineBase := tBase, tempTrampolinesMax := tMax,
                   tempTrampolineTop := hBase, tempTrampolineBase := tempBase, tempTrampolineNext := tempBase\<rparr> in
         if tBase \<ge> tempBase \<and> needsMethodTrampolines cfg then (False, cc3) else let
           cc4 = preLoaded (cc3\<lparr>trampolineAllocationMark := tempBase, trampolineReservationMark := tempBase\<rparr>) in
           if tMax \<noteq> 0 \<and> \<not> syncBlockOk then (False, cc4)
           else if needsMethodTrampolines cfg \<and> \<not> tablesOk then (False, cc4)
           else (True, decreaseFreeSpaceInCodeCacheRepository cfg
             ((warmCodeAlloc cc4 - segBase) + psub segTop tBase) cc4))"

end
