(* ===== verification/FreeBlocks.thy ===== *)
theory FreeBlocks
  imports CodeCache
begin

text \<open>
  The free block list of a code cache as a list of blocks: lists in the memory of the cache,
  the operations of \<open>CodeCache\<close> as operations on lists of blocks, and the laws of the
  address arithmetic.
\<close>

section \<open>Address arithmetic\<close>

named_theorems addr_simps

lemma psub_le [addr_simps]: "b \<le> a \<Longrightarrow> a < 2 ^ 64 \<Longrightarrow> psub a b = a - b"
  by (simp add: psub_def unat_sub_if' unat_of_nat word_le_nat_alt take_bit_nat_eq_self)

lemma sadd_small [addr_simps]: "a + b < 2 ^ 64 \<Longrightarrow> sadd a b = a + b"
  by (simp add: sadd_def)

lemma clearMask_pow2:
  assumes "k < 64"
  shows "clearMask x (2 ^ k - 1) = (x mod 2 ^ 64) div 2 ^ k * 2 ^ k"
proof -
  have "(word_of_nat (2 ^ k - 1) :: u64) = mask k"
    by (simp add: mask_eq_exp_minus_1 of_nat_diff)
  then have "clearMask x (2 ^ k - 1) = unat ((word_of_nat x :: u64) AND NOT (mask k))"
    by (simp add: clearMask_def)
  also have "(word_of_nat x :: u64) AND NOT (mask k) = push_bit k (drop_bit k (word_of_nat x))"
    by (rule bit_word_eqI) (auto simp: bit_simps)
  also have "unat \<dots> = take_bit 64 (unat (word_of_nat x :: u64) div 2 ^ k * 2 ^ k)"
    by (subst unsigned_push_bit_eq) (simp add: push_bit_eq_mult unat_drop_bit)
  also have "\<dots> = unat (word_of_nat x :: u64) div 2 ^ k * 2 ^ k"
    by (rule take_bit_nat_eq_self)
      (rule le_less_trans [OF div_times_less_eq_dividend less_le_trans [OF unsigned_less]], simp)
  finally show ?thesis by (simp add: unat_of_nat take_bit_eq_mod)
qed

text \<open>The alignment of a code cache: a power of two, at least 32 bytes.\<close>

definition alignmentOk :: "codeCacheConfig \<Rightarrow> bool" where
  "alignmentOk cfg \<longleftrightarrow> codeCacheAlignment cfg \<in> (\<lambda>k. 2 ^ k) ` {5..<32}"

lemma alignmentOkE:
  assumes "alignmentOk cfg"
  obtains k where "5 \<le> k" "k < 32" "codeCacheAlignment cfg = 2 ^ k"
  using assms by (auto simp: alignmentOk_def)

lemma alignment_bounds:
  assumes "alignmentOk cfg"
  shows "32 \<le> codeCacheAlignment cfg" "codeCacheAlignment cfg < 2 ^ 32"
proof -
  obtain k where k: "5 \<le> k" "k < 32" "codeCacheAlignment cfg = 2 ^ k"
    using assms by (rule alignmentOkE)
  show "32 \<le> codeCacheAlignment cfg"
    using power_increasing [OF k(1), of "2 :: nat"] k(3) by simp
  show "codeCacheAlignment cfg < 2 ^ 32"
    using power_strict_increasing [OF k(2), of "2 :: nat"] k(3) by simp
qed

lemma clearMask_aligned [addr_simps]:
  "alignmentOk cfg \<Longrightarrow> x < 2 ^ 64 \<Longrightarrow>
     clearMask x (codeCacheAlignment cfg - 1) = x div codeCacheAlignment cfg * codeCacheAlignment cfg"
  by (erule alignmentOkE) (simp only: clearMask_pow2, simp)

lemma align_dvd [addr_simps]:
  assumes "alignmentOk cfg" "codeCacheAlignment cfg dvd p" "p < 2 ^ 63"
  shows "align p (codeCacheAlignment cfg - 1) = p"
proof -
  let ?a = "codeCacheAlignment cfg"
  obtain q where p: "p = ?a * q" using assms(2) by (auto elim: dvdE)
  have "p + (?a - 1) < 2 ^ 64" using assms(3) alignment_bounds [OF assms(1)] by simp
  then have "align p (?a - 1) = (p + (?a - 1)) div ?a * ?a"
    unfolding align_def by (rule clearMask_aligned [OF assms(1)])
  moreover have "(p + (?a - 1)) div ?a = q"
    unfolding p using alignment_bounds(1) [OF assms(1)] by (intro div_nat_eqI) (auto simp: algebra_simps)
  ultimately show ?thesis by (simp add: p)
qed

lemma align_props:
  assumes "alignmentOk cfg" "p < 2 ^ 63"
  shows "codeCacheAlignment cfg dvd align p (codeCacheAlignment cfg - 1)"
    and "p \<le> align p (codeCacheAlignment cfg - 1)"
    and "align p (codeCacheAlignment cfg - 1) < p + codeCacheAlignment cfg"
proof -
  let ?a = "codeCacheAlignment cfg"
  have b: "32 \<le> ?a" "?a < 2 ^ 32" by (rule alignment_bounds [OF assms(1)])+
  have eq: "align p (?a - 1) = (p + (?a - 1)) div ?a * ?a"
    unfolding align_def by (rule clearMask_aligned [OF assms(1)]) (use assms b in simp)
  show "?a dvd align p (?a - 1)" unfolding eq by (rule dvd_triv_right)
  have *: "(p + (?a - 1)) div ?a * ?a + (p + (?a - 1)) mod ?a = p + (?a - 1)" by simp
  moreover have "(p + (?a - 1)) mod ?a < ?a" using b by simp
  ultimately show "p \<le> align p (?a - 1)" "align p (?a - 1) < p + ?a" using b unfolding eq by linarith+
qed

text \<open>Two aligned addresses that are less than a header apart are equal.\<close>

lemma gap_small_iff [addr_simps]:
  assumes "alignmentOk cfg" "codeCacheAlignment cfg dvd a" "codeCacheAlignment cfg dvd b" "b \<le> a" "a < 2 ^ 64"
  shows "psub a b < sizeof_CodeCacheFreeCacheBlock \<longleftrightarrow> a = b"
proof -
  have "codeCacheAlignment cfg dvd a - b" using assms by simp
  then have "a - b = 0 \<or> codeCacheAlignment cfg \<le> a - b" by (auto dest: dvd_imp_le)
  then show ?thesis using alignment_bounds(1) [OF assms(1)] assms by (auto simp: psub_le sizeof_defs)
qed

section \<open>Lists of blocks in memory\<close>

type_synonym blk = "nat \<times> nat"

primrec lseg :: "codeMemory \<Rightarrow> nat \<Rightarrow> blk list \<Rightarrow> nat \<Rightarrow> bool" where
  "lseg m p [] q \<longleftrightarrow> p = q"
| "lseg m p (b # bs) q \<longleftrightarrow> p = fst b \<and> p \<noteq> 0 \<and> fbSize m p = snd b \<and> lseg m (fbNext m p) bs q"

abbreviation freeList :: "codeMemory \<Rightarrow> nat \<Rightarrow> blk list \<Rightarrow> bool" where
  "freeList m p bs \<equiv> lseg m p bs 0"

lemma lseg_append: "lseg m p (xs @ ys) q \<longleftrightarrow> (\<exists>r. lseg m p xs r \<and> lseg m r ys q)"
  by (induction xs arbitrary: p) auto

lemma freeList_Nil: "freeList m 0 bs \<longleftrightarrow> bs = []"
  by (cases bs) auto

lemma freeList_unique: "freeList m p xs \<Longrightarrow> freeList m p ys \<Longrightarrow> xs = ys"
proof (induction xs arbitrary: p ys)
  case Nil
  then show ?case by (simp add: freeList_Nil)
next
  case (Cons x xs)
  then show ?case by (cases ys) (auto simp: prod_eq_iff)
qed

lemma lseg_cong:
  assumes "\<forall>b\<in>set bs. fbSize m' (fst b) = fbSize m (fst b) \<and> fbNext m' (fst b) = fbNext m (fst b)"
  shows "lseg m' p bs q \<longleftrightarrow> lseg m p bs q"
  using assms by (induction bs arbitrary: p) auto

definition blockRange :: "blk \<Rightarrow> nat set" where "blockRange b = {fst b ..< fst b + snd b}"

definition blockBytes :: "blk list \<Rightarrow> nat set" where "blockBytes bs = (\<Union>b\<in>set bs. blockRange b)"

lemma blockBytes_simps [simp]:
  "blockBytes [] = {}" "blockBytes (b # bs) = blockRange b \<union> blockBytes bs"
  "blockBytes (xs @ ys) = blockBytes xs \<union> blockBytes ys"
  by (auto simp: blockBytes_def)

text \<open>Warm and cold blocks are never merged.\<close>

definition mergeable :: "nat \<Rightarrow> nat \<Rightarrow> nat \<Rightarrow> nat \<Rightarrow> bool" where
  "mergeable w c a b \<longleftrightarrow> \<not> (a < w \<and> b \<ge> c)"

text \<open>A list in ascending order, without two blocks that could be merged.\<close>

fun coalesced :: "nat \<Rightarrow> nat \<Rightarrow> blk list \<Rightarrow> bool" where
  "coalesced w c (b # b' # bs) \<longleftrightarrow>
     (fst b + snd b < fst b' \<or> fst b + snd b = fst b' \<and> \<not> mergeable w c (fst b) (fst b')) \<and>
     coalesced w c (b' # bs)"
| "coalesced w c _ \<longleftrightarrow> True"

text \<open>Adding a block: it is put in its place and merged with its neighbours.\<close>

fun addBlock :: "nat \<Rightarrow> nat \<Rightarrow> blk \<Rightarrow> blk list \<Rightarrow> blk list" where
  "addBlock w c (s, n) [] = [(s, n)]"
| "addBlock w c (s, n) ((a, m) # bs) =
     (if s < a then
        if s + n = a \<and> mergeable w c s a then (s, n + m) # bs else (s, n) # (a, m) # bs
      else if a + m = s \<and> mergeable w c a s then addBlock w c (a, m + n) bs
      else (a, m) # addBlock w c (s, n) bs)"

definition blockOk :: "codeCacheConfig \<Rightarrow> blk \<Rightarrow> bool" where
  "blockOk cfg b \<longleftrightarrow> codeCacheAlignment cfg dvd fst b \<and> codeCacheAlignment cfg dvd snd b \<and>
     0 < fst b \<and> sizeof_CodeCacheFreeCacheBlock < snd b \<and> fst b + snd b < 2 ^ 63"

lemma coalesced_Cons_less:
  "coalesced w c (b # bs) \<Longrightarrow> \<forall>x\<in>set bs. fst b + snd b \<le> fst x"
proof (induction bs arbitrary: b)
  case (Cons b' bs)
  then have "fst b + snd b \<le> fst b'" "\<forall>x\<in>set bs. fst b' + snd b' \<le> fst x" by auto
  then show ?case by fastforce
qed simp

lemma coalesced_tl: "coalesced w c (b # bs) \<Longrightarrow> coalesced w c bs"
  by (cases bs) auto

lemma coalesced_append:
  "coalesced w c (xs @ ys) \<longleftrightarrow> coalesced w c xs \<and> coalesced w c ys \<and>
     (xs \<noteq> [] \<and> ys \<noteq> [] \<longrightarrow> coalesced w c [last xs, hd ys])"
proof (induction xs)
  case (Cons x xs)
  then show ?case by (cases xs; cases ys) auto
qed auto

lemma coalesced_sorted:
  assumes "coalesced w c (xs @ ys)" "x \<in> set xs" "y \<in> set ys"
  shows "fst x + snd x \<le> fst y"
  using assms by (induction xs) (auto dest: coalesced_Cons_less coalesced_tl)

lemma insertionPoint_split:
  assumes "freeList m p (xs @ b # ys)"
    "\<forall>x\<in>set (tl (xs @ [b])). fst x < start" "ys = [] \<or> start \<le> fst (hd ys)"
  shows "insertionPoint (fbNext m) start p = Some (fst b)"
  using assms
proof (induction xs arbitrary: p)
  case Nil
  then show ?case by (cases ys; subst insertionPoint.simps) auto
next
  case (Cons x xs)
  let ?q = "fbNext m p"
  have q: "freeList m ?q (xs @ b # ys)" using Cons.prems(1) by auto
  have "?q \<noteq> 0 \<and> ?q < start" using q Cons.prems(2) by (cases xs) auto
  moreover have "insertionPoint (fbNext m) start ?q = Some (fst b)"
    using q Cons.prems by (intro Cons.IH) (cases xs; auto)+
  ultimately show ?case by (subst insertionPoint.simps) simp
qed

text \<open>Adding a block beyond the blocks it cannot be merged with.\<close>

lemma addBlock_skip:
  assumes "\<forall>x\<in>set xs. fst x < s \<and> \<not> (fst x + snd x = s \<and> mergeable w c (fst x) s)"
  shows "addBlock w c (s, n) (xs @ ys) = xs @ addBlock w c (s, n) ys"
  using assms by (induction xs) auto

lemma addBlock_front:
  assumes "\<forall>y\<in>set ys. s < fst y"
  shows "addBlock w c (s, n) ys = (case ys of [] \<Rightarrow> [(s, n)]
    | (a, m) # bs \<Rightarrow> if s + n = a \<and> mergeable w c s a then (s, n + m) # bs else (s, n) # ys)"
  using assms by (cases ys) auto

lemma blockRange_merge: "blockRange (a, m + n) = blockRange (a, m) \<union> blockRange (a + m, n)"
  by (auto simp: blockRange_def)

lemma addBlock_bytes: "blockBytes (addBlock w c b bs) = blockRange b \<union> blockBytes bs"
proof (induction w c b bs rule: addBlock.induct)
  case (2 w c s n a m bs)
  then show ?case
    using blockRange_merge [of s n m] blockRange_merge [of a m n] by (simp add: Un_ac)
qed simp

section \<open>Writes to the list\<close>

named_theorems write_simps

lemma setBlockSize_mem [write_simps]:
  "fbSize (mem (setBlockSize p n cc)) = (fbSize (mem cc))(p := n)"
  "fbNext (mem (setBlockSize p n cc)) = fbNext (mem cc)"
  "freeBlockList (setBlockSize p n cc) = freeBlockList cc"
  by (simp_all add: setBlockSize_def)

lemma setNext_mem [write_simps]:
  "fbSize (mem (setNext p q cc)) = fbSize (mem cc)"
  "fbNext (mem (setNext p q cc)) = (fbNext (mem cc))(p := q)"
  "freeBlockList (setNext p q cc) = freeBlockList cc"
  by (simp_all add: setNext_def)

lemma lseg_write [write_simps]:
  "p \<notin> fst ` set bs \<Longrightarrow> lseg (mem (setBlockSize p n cc)) q bs r \<longleftrightarrow> lseg (mem cc) q bs r"
  "p \<notin> fst ` set bs \<Longrightarrow> lseg (mem (setNext p t cc)) q bs r \<longleftrightarrow> lseg (mem cc) q bs r"
  by (rule lseg_cong, force simp: setBlockSize_mem setNext_mem)+

text \<open>Only the list and its entries change.\<close>

definition eraseList :: "codeCache \<Rightarrow> codeCache" where
  "eraseList cc = cc\<lparr>freeBlockList := 0, mem := (mem cc)\<lparr>fbSize := \<lambda>_. 0, fbNext := \<lambda>_. 0\<rparr>\<rparr>"

lemma eraseList_steps [write_simps]:
  "eraseList (setBlockSize p n c) = eraseList c"
  "eraseList (setNext p q c) = eraseList c"
  "eraseList (c\<lparr>freeBlockList := q\<rparr>) = eraseList c"
  by (simp_all add: eraseList_def setBlockSize_def setNext_def)

lemma eraseList_fields:
  assumes "eraseList cc' = eraseList cc"
  shows "warmCodeAlloc cc' = warmCodeAlloc cc" "coldCodeAlloc cc' = coldCodeAlloc cc"
    "segmentBase cc' = segmentBase cc" "segmentTop cc' = segmentTop cc"
    "sizeOfLargestFreeWarmBlock cc' = sizeOfLargestFreeWarmBlock cc"
    "sizeOfLargestFreeColdBlock cc' = sizeOfLargestFreeColdBlock cc"
    "mhSize (mem cc') = mhSize (mem cc)" "mhEyeCatcher (mem cc') = mhEyeCatcher (mem cc)"
    "trampolineBase cc' = trampolineBase cc" "CCPreLoadedCodeBase cc' = CCPreLoadedCodeBase cc"
    "repositoryFreeSpace cc' = repositoryFreeSpace cc"
  using arg_cong [OF assms, of warmCodeAlloc] arg_cong [OF assms, of coldCodeAlloc]
    arg_cong [OF assms, of segmentBase] arg_cong [OF assms, of segmentTop]
    arg_cong [OF assms, of sizeOfLargestFreeWarmBlock] arg_cong [OF assms, of sizeOfLargestFreeColdBlock]
    arg_cong [OF assms, of "\<lambda>c. mhSize (mem c)"] arg_cong [OF assms, of "\<lambda>c. mhEyeCatcher (mem c)"]
    arg_cong [OF assms, of trampolineBase] arg_cong [OF assms, of CCPreLoadedCodeBase]
    arg_cong [OF assms, of repositoryFreeSpace]
  by (simp_all add: eraseList_def)

lemma free_split:
  assumes "coalesced w c bs" "\<forall>b\<in>set bs. fst b + snd b \<le> s \<or> s + n \<le> fst b" "\<forall>b\<in>set bs. 0 < snd b" "0 < n"
  obtains xs ys where "bs = xs @ ys" "\<forall>x\<in>set xs. fst x + snd x \<le> s" "\<forall>y\<in>set ys. s + n \<le> fst y"
proof
  show "bs = takeWhile (\<lambda>b. fst b < s) bs @ dropWhile (\<lambda>b. fst b < s) bs" by simp
  show "\<forall>x\<in>set (takeWhile (\<lambda>b. fst b < s) bs). fst x + snd x \<le> s"
    using assms(2,4) by (fastforce dest: set_takeWhileD)
  show "\<forall>y\<in>set (dropWhile (\<lambda>b. fst b < s) bs). s + n \<le> fst y"
  proof (cases "dropWhile (\<lambda>b. fst b < s) bs")
    case (Cons z zs)
    then have z: "z \<in> set bs" "\<not> fst z < s"
      by (metis list.set_intros(1) set_dropWhileD, metis dropWhile_eq_Cons_conv)
    then have "s + n \<le> fst z" using assms by fastforce
    moreover have "coalesced w c (z # zs)"
      using assms(1) coalesced_append [of w c "takeWhile (\<lambda>b. fst b < s) bs" "z # zs"]
      by (metis Cons takeWhile_dropWhile_id)
    then have "\<forall>y\<in>set zs. fst z + snd z \<le> fst y" by (rule coalesced_Cons_less)
    ultimately show ?thesis using Cons by fastforce
  next
    case Nil
    then show ?thesis by (simp only:) simp
  qed
qed

section \<open>Freeing a block\<close>

lemma blockOk_pos: "blockOk cfg b \<Longrightarrow> 0 < fst b \<and> 0 < snd b"
  by (simp add: blockOk_def)

lemma linkNewBlock_front:
  assumes "freeList (mem cc) (freeBlockList cc) bs" "s \<notin> fst ` set bs" "0 < s" "s < cur"
  shows "\<exists>cc'. linkNewBlock cc cur s n = (s, cc') \<and> eraseList cc' = eraseList cc \<and>
           freeList (mem cc') (freeBlockList cc') ((s, n) # bs)"
  using assms by (auto simp: linkNewBlock_def write_simps)

lemma mergeFreeBlock_front:
  assumes ok: "alignmentOk cfg" and new: "blockOk cfg (s, n)"
    and fl: "freeList (mem cc) (freeBlockList cc) bs" and ne: "bs \<noteq> []"
    and blocks: "\<forall>b\<in>set bs. blockOk cfg b" and co: "coalesced w c bs"
    and wc: "w = warmCodeAlloc cc" "c = coldCodeAlloc cc"
    and above: "\<forall>y\<in>set bs. s + n \<le> fst y"
  shows "\<exists>cc'. mergeFreeBlock cc (fst (hd bs)) s (s + n) n = (s, cc') \<and> eraseList cc' = eraseList cc \<and>
           freeList (mem cc') (freeBlockList cc') (addBlock w c (s, n) bs) \<and>
           (s, fbSize (mem cc') s) \<in> set (addBlock w c (s, n) bs) \<and> s \<in> blockRange (s, fbSize (mem cc') s)"
proof -
  obtain b l zs where bs: "bs = (b, l) # zs" using ne by (cases bs) auto
  have s: "0 < s" "16 < n" "s + n \<le> b" using new above by (auto simp: blockOk_def sizeof_defs bs)
  have z: "\<forall>y\<in>set zs. b + l \<le> fst y" using coalesced_Cons_less [of w c "(b, l)" zs] co bs by simp
  have b: "16 < l" "b + l < 2 ^ 63" using blocks by (auto simp: bs blockOk_def sizeof_defs)
  have notin: "s \<notin> fst ` set bs" "s \<notin> fst ` set zs" using s above bs by fastforce+
  have gap: "psub b (s + n) < sizeof_CodeCacheFreeCacheBlock \<longleftrightarrow> b = s + n"
    using blocks new s b by (intro gap_small_iff [OF ok]) (auto simp: bs blockOk_def)
  let ?q = "fbNext (mem cc) b"
  have nxt: "?q \<noteq> 0 \<longrightarrow> \<not> psub ?q (s + n) < sizeof_CodeCacheFreeCacheBlock"
  proof (cases zs)
    case Nil
    then show ?thesis using fl by (auto simp: bs)
  next
    case (Cons y ys)
    then have q: "?q = fst y" "b + l \<le> fst y" "fst y < 2 ^ 63" using fl z blocks by (auto simp: bs blockOk_def)
    then show ?thesis using s b by (simp add: psub_le sizeof_defs)
  qed
  have sz: "psub (b + l) s = n + l" if "b = s + n" using that s b by (simp add: psub_le)
  show ?thesis
  proof (cases "b = s + n \<and> mergeable w c s b")
    case True
    then show ?thesis using fl notin s b sz gap wc
      by (auto simp: bs mergeFreeBlock_def Let_def write_simps mergeable_def blockRange_def)
  next
    case False
    then have eq: "mergeFreeBlock cc b s (s + n) n = linkNewBlock cc b s n"
      using s gap nxt wc by (auto simp: mergeFreeBlock_def Let_def mergeable_def)
    have add: "addBlock w c (s, n) bs = (s, n) # bs" using False s by (auto simp: bs)
    obtain cc' where cc': "linkNewBlock cc b s n = (s, cc')" "eraseList cc' = eraseList cc"
        "freeList (mem cc') (freeBlockList cc') ((s, n) # bs)"
      using linkNewBlock_front [OF fl notin(1) s(1), of b n] s by auto
    have "fbSize (mem cc') s = n" using cc'(3) by auto
    moreover have "fst (hd bs) = b" by (simp add: bs)
    ultimately show ?thesis unfolding add using cc' eq s by (auto simp: blockRange_def)
  qed
qed

text \<open>The same where \<open>cur\<close>, the entry \<open>(a, m)\<close>, lies before the new block.\<close>

lemma mergeFreeBlock_after:
  assumes ok: "alignmentOk cfg" and new: "blockOk cfg (s, n)"
    and fl: "freeList (mem cc) (freeBlockList cc) (xs @ (a, m) # ys)"
    and blocks: "\<forall>b\<in>set (xs @ (a, m) # ys). blockOk cfg b" and co: "coalesced w c (xs @ (a, m) # ys)"
    and wc: "w = warmCodeAlloc cc" "c = coldCodeAlloc cc" "w \<le> c" "s < w \<or> c \<le> s"
    and below: "a + m \<le> s" and above: "\<forall>y\<in>set ys. s + n \<le> fst y"
  shows "\<exists>link cc'. mergeFreeBlock cc a s (s + n) n = (link, cc') \<and> eraseList cc' = eraseList cc \<and>
           freeList (mem cc') (freeBlockList cc') (xs @ addBlock w c (s, n) ((a, m) # ys)) \<and>
           (link, fbSize (mem cc') link) \<in> set (addBlock w c (s, n) ((a, m) # ys)) \<and>
           s \<in> blockRange (link, fbSize (mem cc') link)"
proof -
  have xs: "lseg (mem cc) (freeBlockList cc) xs a" and a: "a \<noteq> 0" "fbSize (mem cc) a = m"
      and ys: "freeList (mem cc) (fbNext (mem cc) a) ys"
    using fl by (auto simp: lseg_append)
  have s: "0 < s" "16 < n" "s + n < 2 ^ 63" using new by (auto simp: blockOk_def sizeof_defs)
  have am: "16 < m" "a < s" "a + m < 2 ^ 63" using blocks below by (auto simp: blockOk_def sizeof_defs)
  have "fst x < a" if "x \<in> set xs" for x
    using coalesced_sorted [OF co that, of "(a, m)"] blocks that blockOk_pos [of cfg x] by auto
  then have xa: "\<forall>x\<in>set xs. fst x < a" by blast
  have notin: "a \<notin> fst ` set xs" "s \<notin> fst ` set xs" "a \<notin> fst ` set ys" "s \<notin> fst ` set ys"
    using xa am s above by (auto simp: image_iff Ball_def)
  have gapP: "psub s (a + m) < sizeof_CodeCacheFreeCacheBlock \<longleftrightarrow> a + m = s"
    using blocks new am s below by (subst gap_small_iff [OF ok]) (auto simp: blockOk_def)
  have region: "mergeable w c a s \<Longrightarrow> mergeable w c a b = mergeable w c s b" for b
    using wc am by (auto simp: mergeable_def)
  show ?thesis
  proof (cases ys)
    case Nil
    then have q: "fbNext (mem cc) a = 0" using ys by simp
    have "psub (s + n) a = s + n - a" using am s by (simp add: psub_le)
    then show ?thesis using q gapP am s xs a notin wc below Nil
      by (auto simp: mergeFreeBlock_def Let_def linkNewBlock_def mergeable_def lseg_append write_simps blockRange_def)
  next
    case (Cons y zs)
    obtain b l where y: "y = (b, l)" by (cases y)
    have b: "fbNext (mem cc) a = b" "b \<noteq> 0" "fbSize (mem cc) b = l" "freeList (mem cc) (fbNext (mem cc) b) zs"
      using ys by (auto simp: Cons y)
    have bl: "s + n \<le> b" "16 < l" "b + l < 2 ^ 63" using above blocks by (auto simp: Cons y blockOk_def sizeof_defs)
    have gapN: "psub b (s + n) < sizeof_CodeCacheFreeCacheBlock \<longleftrightarrow> b = s + n"
      using blocks new bl by (intro gap_small_iff [OF ok]) (auto simp: Cons y blockOk_def)
    have sz: "psub (b + l) a = b + l - a" "psub (b + l) s = b + l - s" "psub (s + n) a = s + n - a"
      using am bl s by (simp_all add: psub_le)
    have bnotin: "b \<notin> fst ` set xs" "b \<noteq> a" "b \<noteq> s" "a \<notin> fst ` set zs" "s \<notin> fst ` set zs" "b \<notin> fst ` set zs"
      using xa bl am s notin coalesced_Cons_less [of w c "(b, l)" zs] co
      by (auto simp: Cons y coalesced_append dest: coalesced_tl)
    define N where "N \<longleftrightarrow> b = s + n \<and> mergeable w c s b"
    have code: "mergeFreeBlock cc a s (s + n) n =
        (if N then
           if a + m = s \<and> mergeable w c a s
           then (a, setNext a (fbNext (mem cc) b) (setBlockSize a (b + l - a) cc))
           else (s, setNext a s (setNext s (fbNext (mem cc) b) (setBlockSize s (b + l - s) cc)))
         else if a + m = s \<and> mergeable w c a s then (a, setBlockSize a (s + n - a) cc)
         else (s, setNext a s (setNext s b (setBlockSize s n cc))))"
      unfolding mergeFreeBlock_def Let_def linkNewBlock_def b a(2) gapP gapN sz N_def mergeable_def wc(1,2) [symmetric]
      using am b(2) by auto
    show ?thesis
    proof (cases "a + m = s \<and> mergeable w c a s")
      case True
      have add: "addBlock w c (s, n) ((a, m) # ys) =
          (if N then (a, b + l - a) # zs else (a, s + n - a) # (b, l) # zs)"
        using True region [of b] am s bl by (auto simp: Cons y add.assoc N_def)
      show ?thesis unfolding code add if_P [OF True] using True am s b bl xs a notin bnotin
        by (auto simp: lseg_append write_simps blockRange_def)
    next
      case False
      have add: "addBlock w c (s, n) ((a, m) # ys) = (a, m) #
          (if N then (s, b + l - s) # zs else (s, n) # (b, l) # zs)"
        using False am s bl by (auto simp: Cons y N_def)
      show ?thesis unfolding code add if_not_P [OF False] using am s b bl xs a notin bnotin
        by (auto simp: lseg_append write_simps blockRange_def)
    qed
  qed
qed

text \<open>The search for the place and the merging together add the block to the list.\<close>

lemma mergeFreeBlock_addBlock:
  assumes ok: "alignmentOk cfg" and new: "blockOk cfg (s, n)"
    and fl: "freeList (mem cc) (freeBlockList cc) bs" and ne: "bs \<noteq> []"
    and blocks: "\<forall>b\<in>set bs. blockOk cfg b" and co: "coalesced w c bs"
    and wc: "w = warmCodeAlloc cc" "c = coldCodeAlloc cc" "w \<le> c" "s < w \<or> c \<le> s"
    and disj: "\<forall>b\<in>set bs. fst b + snd b \<le> s \<or> s + n \<le> fst b"
  shows "\<exists>cur link cc'. insertionPoint (fbNext (mem cc)) s (freeBlockList cc) = Some cur \<and>
           mergeFreeBlock cc cur s (s + n) n = (link, cc') \<and> eraseList cc' = eraseList cc \<and>
           freeList (mem cc') (freeBlockList cc') (addBlock w c (s, n) bs) \<and>
           (link, fbSize (mem cc') link) \<in> set (addBlock w c (s, n) bs) \<and>
           s \<in> blockRange (link, fbSize (mem cc') link)"
proof -
  have "0 < n" "\<forall>b\<in>set bs. 0 < snd b" using new blocks by (auto dest: blockOk_pos)
  then obtain xs ys where bs: "bs = xs @ ys" and xs: "\<forall>x\<in>set xs. fst x + snd x \<le> s"
      and ys: "\<forall>y\<in>set ys. s + n \<le> fst y"
    using free_split [OF co disj] by blast
  have lt: "fst x < s" if "x \<in> set xs" for x using xs that blocks bs blockOk_pos [of cfg x] by force
  show ?thesis
  proof (cases xs rule: rev_cases)
    case Nil
    then obtain y zs where bs: "bs = y # zs" "\<forall>y\<in>set bs. s + n \<le> fst y" using ne bs ys by (cases bs) auto
    have "insertionPoint (fbNext (mem cc)) s (freeBlockList cc) = Some (fst (hd bs))"
      using fl bs by (intro insertionPoint_split [of _ _ "[]" _ zs]) (cases zs; auto)+
    then show ?thesis using mergeFreeBlock_front [OF ok new fl ne blocks co wc(1,2) bs(2)] by blast
  next
    case (snoc zs x)
    obtain a m where x: "x = (a, m)" by (cases x)
    have bs': "bs = zs @ (a, m) # ys" by (simp add: bs snoc x)
    have "ys = [] \<or> s \<le> fst (hd ys)" using ys by (cases ys) auto
    moreover have "\<forall>x\<in>set (tl (zs @ [(a, m)])). fst x < s"
      using lt by (cases zs) (auto simp: snoc x)
    ultimately have "insertionPoint (fbNext (mem cc)) s (freeBlockList cc) = Some a"
      using insertionPoint_split [of _ _ zs "(a, m)" ys] fl bs' by auto
    moreover have "fst x + snd x \<le> a" if "x \<in> set zs" for x
      using coalesced_sorted [OF co [unfolded bs'] that, of "(a, m)"] by simp
    then have "addBlock w c (s, n) bs = zs @ addBlock w c (s, n) ((a, m) # ys)"
      unfolding bs' using lt by (intro addBlock_skip) (force simp: snoc x)
    ultimately show ?thesis
      using mergeFreeBlock_after [OF ok new fl [unfolded bs'] blocks [unfolded bs'] co [unfolded bs'] wc _ ys] xs
      by (auto simp: snoc x)
  qed
qed

section \<open>What adding a block keeps\<close>

definition inRegion :: "nat \<Rightarrow> nat \<Rightarrow> blk \<Rightarrow> bool" where
  "inRegion w c b \<longleftrightarrow> fst b + snd b \<le> w \<or> c \<le> fst b"

lemma addBlock_hd:
  assumes "coalesced w c bs" "\<forall>b\<in>set bs. 0 < snd b"
  shows "fst (hd (addBlock w c (s, n) bs)) = s \<or> bs \<noteq> [] \<and> fst (hd (addBlock w c (s, n) bs)) = fst (hd bs)"
proof (cases bs)
  case (Cons b cs)
  obtain a m where b: "b = (a, m)" by (cases b)
  have "\<forall>x\<in>set cs. a + m \<le> fst x" "0 < m" using coalesced_Cons_less [of w c b cs] assms by (auto simp: Cons b)
  then have "\<forall>x\<in>set cs. a < fst x" by fastforce
  then have "fst (hd (addBlock w c (a, m + n) cs)) = a" by (simp add: addBlock_front split: list.split)
  then show ?thesis by (auto simp: Cons b)
qed simp

lemma addBlock_not_Nil: "addBlock w c b bs \<noteq> []"
  by (induction w c b bs rule: addBlock.induct) auto

lemma coalesced_Cons: "coalesced w c (b # bs) \<longleftrightarrow> coalesced w c bs \<and>
  (bs \<noteq> [] \<longrightarrow> fst b + snd b < fst (hd bs) \<or> fst b + snd b = fst (hd bs) \<and> \<not> mergeable w c (fst b) (fst (hd bs)))"
  by (cases bs) auto

lemma addBlock_coalesced:
  assumes "coalesced w c bs" "\<forall>b\<in>set bs. fst b + snd b \<le> s \<or> s + n \<le> fst b" "\<forall>b\<in>set bs. 0 < snd b"
    "0 < n" "w \<le> c" "\<forall>b\<in>set bs. inRegion w c b" "inRegion w c (s, n)"
  shows "coalesced w c (addBlock w c (s, n) bs)"
  using assms
proof (induction w c "(s, n)" bs arbitrary: s n rule: addBlock.induct)
  case (2 w c s n a m bs)
  have above: "\<forall>x\<in>set bs. a + m \<le> fst x" using coalesced_Cons_less [OF 2(3)] by simp
  consider "s < a" | "a < s" "a + m = s" "mergeable w c a s"
    | "a < s" "a + m \<le> s" "\<not> (a + m = s \<and> mergeable w c a s)" using 2(4-6) by fastforce
  then show ?case
  proof cases
    case 1
    then show ?thesis using 2(3-) above by (cases bs) (auto simp: mergeable_def inRegion_def)
  next
    case 2
    have rest: "a + (m + n) \<le> fst x" if "x \<in> set bs" for x
      using "2.prems"(2,3) above that 2 by fastforce
    then have "coalesced w c (addBlock w c (a, m + n) bs)"
      using 2 "2.prems" by (intro "2.hyps"(1)) (auto simp: coalesced_Cons inRegion_def mergeable_def)
    then show ?thesis using 2 by simp
  next
    case 3
    have "coalesced w c (addBlock w c (s, n) bs)"
      using 3 "2.prems" by (intro "2.hyps"(2)) (auto simp: coalesced_Cons)
    then show ?thesis using 3 "2.prems" addBlock_hd [of w c bs s n] addBlock_not_Nil [of w c "(s, n)" bs]
      by (auto simp: coalesced_Cons)
  qed
qed simp

text \<open>The block that contains the new one, and the blocks it has absorbed.\<close>

lemma addBlock_merged:
  assumes "w \<le> c" "\<forall>b\<in>set bs. inRegion w c b \<and> 0 < snd b" "inRegion w c (s, n)" "0 < n"
  obtains k where "k \<in> set (addBlock w c (s, n) bs)" "fst k \<le> s \<and> s + n \<le> fst k + snd k"
    "set (addBlock w c (s, n) bs) \<subseteq> insert k (set bs)" "n \<le> snd k" "(fst k < w) = (s < w)"
    "\<forall>b\<in>set bs. b \<in> set (addBlock w c (s, n) bs) \<or> snd b \<le> snd k \<and> (fst b < w) = (fst k < w)"
proof -
  have "\<exists>k. k \<in> set (addBlock w c (s, n) bs) \<and> fst k \<le> s \<and> s + n \<le> fst k + snd k \<and>
    set (addBlock w c (s, n) bs) \<subseteq> insert k (set bs) \<and> n \<le> snd k \<and> (fst k < w) = (s < w) \<and>
    (\<forall>b\<in>set bs. b \<in> set (addBlock w c (s, n) bs) \<or> snd b \<le> snd k \<and> (fst b < w) = (fst k < w))"
    using assms
  proof (induction w c "(s, n)" bs arbitrary: s n rule: addBlock.induct)
    case (1 w c s n)
    then show ?case by (simp add: blockRange_def)
  next
    case (2 w c s n a m bs)
    consider "s < a" "s + n = a" "mergeable w c s a" | "s < a" "\<not> (s + n = a \<and> mergeable w c s a)"
      | "\<not> s < a" "a + m = s" "mergeable w c a s"
      | "\<not> s < a" "\<not> (a + m = s \<and> mergeable w c a s)" by blast
    then show ?case
    proof cases
      case 1
      then show ?thesis using "2.prems"
        by (intro exI [of _ "(s, n + m)"]) (auto simp: blockRange_def inRegion_def mergeable_def)
    next
      case 2
      then show ?thesis using "2.prems" by (intro exI [of _ "(s, n)"]) (auto simp: blockRange_def)
    next
      case 3
      obtain k where k: "k \<in> set (addBlock w c (a, m + n) bs)" "fst k \<le> a \<and> a + (m + n) \<le> fst k + snd k"
        "set (addBlock w c (a, m + n) bs) \<subseteq> insert k (set bs)" "m + n \<le> snd k" "(fst k < w) = (a < w)"
        "\<forall>b\<in>set bs. b \<in> set (addBlock w c (a, m + n) bs) \<or> snd b \<le> snd k \<and> (fst b < w) = (fst k < w)"
        using "2.hyps"(1) [OF 3(1) _ "2.prems"(1)] 3 "2.prems" by (auto simp: inRegion_def mergeable_def)
      then show ?thesis using 3 "2.prems" 
        by (intro exI [of _ k]) (auto simp: blockRange_def inRegion_def mergeable_def)
    next
      case 4
      obtain k where k: "k \<in> set (addBlock w c (s, n) bs)" "fst k \<le> s \<and> s + n \<le> fst k + snd k"
        "set (addBlock w c (s, n) bs) \<subseteq> insert k (set bs)" "n \<le> snd k" "(fst k < w) = (s < w)"
        "\<forall>b\<in>set bs. b \<in> set (addBlock w c (s, n) bs) \<or> snd b \<le> snd k \<and> (fst b < w) = (fst k < w)"
        using "2.hyps"(2) [OF 4 "2.prems"(1)] "2.prems" by auto
      then show ?thesis using 4 by (intro exI [of _ k]) auto
    qed
  qed
  then show thesis using that by blast
qed

end
