(* ===== verification/BestFit.thy ===== *)
theory BestFit
  imports FreeBlocks
begin

text \<open>
  Taking a block from the free list: the loop of \<open>findFreeBlock\<close> finds the smallest block that
  is large enough, its predecessor, and the two largest blocks; \<open>removeFreeBlock\<close> takes the
  block out of the list or leaves the rest of it there.
\<close>

section \<open>The largest block of a list\<close>

fun maxSize :: "(nat \<Rightarrow> bool) \<Rightarrow> blk list \<Rightarrow> nat" where
  "maxSize P [] = 0"
| "maxSize P (b # bs) = (if P (fst b) then max (snd b) (maxSize P bs) else maxSize P bs)"

lemma maxSize_le_iff: "maxSize P bs \<le> k \<longleftrightarrow> (\<forall>b\<in>set bs. P (fst b) \<longrightarrow> snd b \<le> k)"
  by (induction bs) auto

lemma maxSize_eqI:
  assumes "\<And>b. b \<in> set bs \<Longrightarrow> P (fst b) \<Longrightarrow> snd b \<le> k"
    "k = 0 \<or> (\<exists>b\<in>set bs. P (fst b) \<and> snd b = k)"
  shows "maxSize P bs = k"
  using assms maxSize_le_iff [of P bs k] maxSize_le_iff [of P bs "maxSize P bs"] by fastforce

lemma maxSize_attained: "maxSize P bs \<noteq> 0 \<Longrightarrow> \<exists>b\<in>set bs. P (fst b) \<and> snd b = maxSize P bs"
  by (induction bs) (auto simp: max_def)

lemma maxSize_ge: "b \<in> set bs \<Longrightarrow> P (fst b) \<Longrightarrow> snd b \<le> maxSize P bs"
  using maxSize_le_iff [of P bs "maxSize P bs"] by simp

section \<open>The loop\<close>

text \<open>
  \<open>a\<close> is the address of a largest block among those of \<open>bs\<close> whose address satisfies \<open>P\<close>, or
  \<open>NULL\<close> when there is none.
\<close>

definition maxLink :: "(nat \<Rightarrow> bool) \<Rightarrow> blk list \<Rightarrow> nat \<Rightarrow> bool" where
  "maxLink P bs a \<longleftrightarrow> a = 0 \<and> (\<forall>b\<in>set bs. \<not> P (fst b)) \<or>
     (\<exists>x\<in>set bs. P (fst x) \<and> a = fst x \<and> snd x = maxSize P bs)"

text \<open>Of the blocks seen so far: the largest of the wanted kind and the largest of the others.\<close>

definition biggestOf :: "(nat \<Rightarrow> bool) \<Rightarrow> blk list \<Rightarrow> fitState \<Rightarrow> bool" where
  "biggestOf P bs st \<longleftrightarrow> maxLink P bs (biggestLink st) \<and>
     maxLink (\<lambda>a. P a \<and> a \<noteq> biggestLink st) bs (secondBiggestLink st)"

text \<open>The smallest block that is large enough, with its predecessor.\<close>

definition bestOf :: "(nat \<Rightarrow> bool) \<Rightarrow> nat \<Rightarrow> blk list \<Rightarrow> fitState \<Rightarrow> bool" where
  "bestOf P wanted bs st \<longleftrightarrow>
     bestFitLink st = 0 \<and> (\<forall>b\<in>set bs. P (fst b) \<longrightarrow> snd b < wanted) \<or>
     (\<exists>us x vs. bs = us @ x # vs \<and> P (fst x) \<and> wanted \<le> snd x \<and> bestFitLink st = fst x \<and>
        bestFitLinkPrev st = (if us = [] then 0 else fst (last us)) \<and>
        (\<forall>y\<in>set bs. P (fst y) \<and> wanted \<le> snd y \<longrightarrow> snd x \<le> snd y))"

lemma scanBlock_biggest:
  "biggestLink (scanBlock sz n a p st) = (if biggestLink st = 0 \<or> sz a \<ge> sz (biggestLink st) then a else biggestLink st)"
  "secondBiggestLink (scanBlock sz n a p st) = (if biggestLink st = 0 then secondBiggestLink st
     else if sz a \<ge> sz (biggestLink st) then biggestLink st
     else if secondBiggestLink st = 0 \<or> sz a \<ge> sz (secondBiggestLink st) then a else secondBiggestLink st)"
  by (auto simp: scanBlock_def Let_def)

lemma scanBlock_best:
  "bestFitLink (scanBlock sz n a p st) =
     (if sz a \<ge> n \<and> (bestFitLink st = 0 \<or> sz (bestFitLink st) > sz a) then a else bestFitLink st)"
  "bestFitLinkPrev (scanBlock sz n a p st) =
     (if sz a \<ge> n \<and> (bestFitLink st = 0 \<or> sz (bestFitLink st) > sz a) then p else bestFitLinkPrev st)"
  by (auto simp: scanBlock_def Let_def)

lemma maxSize_append: "maxSize P (xs @ ys) = max (maxSize P xs) (maxSize P ys)"
  by (induction xs) auto

lemma maxSize_cong: "(\<And>b. b \<in> set bs \<Longrightarrow> P (fst b) = Q (fst b)) \<Longrightarrow> maxSize P bs = maxSize Q bs"
  by (induction bs) auto

lemma maxSize_none: "\<forall>b\<in>set bs. \<not> P (fst b) \<Longrightarrow> maxSize P bs = 0"
  by (induction bs) auto

lemma maxLink_skip: "\<not> P (fst x) \<Longrightarrow> maxLink P bs a \<Longrightarrow> maxLink P (bs @ [x]) a"
  by (auto simp: maxLink_def maxSize_append)

lemma maxLink_cong: "(\<And>b. b \<in> set bs \<Longrightarrow> P (fst b) = Q (fst b)) \<Longrightarrow> maxLink P bs a \<Longrightarrow> maxLink Q bs a"
  using maxSize_cong [of bs P Q] by (auto simp: maxLink_def)

lemma maxLink_step:
  assumes "maxLink P bs a" "P (fst x)" "\<forall>b\<in>set bs. fst b \<noteq> 0 \<and> sz (fst b) = snd b" "sz (fst x) = snd x"
  shows "maxLink P (bs @ [x]) (if a = 0 \<or> sz (fst x) \<ge> sz a then fst x else a)"
  using assms by (auto simp: maxLink_def maxSize_append maxSize_none max_def)

lemma biggestOf_skip: "\<not> P (fst x) \<Longrightarrow> biggestOf P bs st \<Longrightarrow> biggestOf P (bs @ [x]) st"
  by (auto simp: biggestOf_def intro: maxLink_skip)

lemma biggestOf_step:
  assumes big: "biggestOf P bs st" and x: "P (fst x)" "fst x \<notin> fst ` set bs" "sz (fst x) = snd x"
    and bs: "\<forall>b\<in>set bs. fst b \<noteq> 0 \<and> sz (fst b) = snd b"
  shows "biggestOf P (bs @ [x]) (scanBlock sz n (fst x) p st)"
proof -
  let ?a = "biggestLink st" and ?st = "scanBlock sz n (fst x) p st"
  have m: "maxLink P bs ?a" and s: "maxLink (\<lambda>a. P a \<and> a \<noteq> ?a) bs (secondBiggestLink st)"
    using big by (auto simp: biggestOf_def)
  have "maxLink P (bs @ [x]) (biggestLink ?st)"
    using maxLink_step [OF m x(1) bs x(3)] by (simp add: scanBlock_biggest)
  moreover have "maxLink (\<lambda>a. P a \<and> a \<noteq> biggestLink ?st) (bs @ [x]) (secondBiggestLink ?st)"
  proof (cases "?a = 0 \<or> sz (fst x) \<ge> sz ?a")
    case True
    then have st: "biggestLink ?st = fst x" by (auto simp: scanBlock_biggest)
    have st2: "secondBiggestLink ?st = ?a"
      using True m s bs by (auto simp: scanBlock_biggest maxLink_def)
    have "fst b \<noteq> fst x" if "b \<in> set bs" for b using x(2) that by (metis image_eqI)
    then show ?thesis unfolding st st2 by (intro maxLink_skip maxLink_cong [OF _ m]) auto
  next
    case False
    then have st: "biggestLink ?st = ?a" "secondBiggestLink ?st =
        (if secondBiggestLink st = 0 \<or> sz (fst x) \<ge> sz (secondBiggestLink st) then fst x else secondBiggestLink st)"
      by (auto simp: scanBlock_biggest)
    have "P (fst x) \<and> fst x \<noteq> ?a" using m x False by (auto simp: maxLink_def)
    then show ?thesis unfolding st using maxLink_step [OF s _ bs x(3)] by simp
  qed
  ultimately show ?thesis by (simp add: biggestOf_def)
qed

lemma bestOf_snoc:
  assumes "bestOf P n bs st" "P (fst x) \<Longrightarrow> snd x < n"
    "bestFitLink st' = bestFitLink st" "bestFitLinkPrev st' = bestFitLinkPrev st"
  shows "bestOf P n (bs @ [x]) st'"
  using assms(1) unfolding bestOf_def
proof (elim disjE exE conjE, goal_cases)
  case 1
  then show ?case using assms by auto
next
  case (2 us y vs)
  then show ?case using assms(2-) by (intro disjI2 exI [of _ us] exI [of _ y] exI [of _ "vs @ [x]"]) fastforce
qed

lemma bestOf_step:
  assumes "bestOf P n bs st" "P (fst x)" "\<forall>b\<in>set bs. fst b \<noteq> 0 \<and> sz (fst b) = snd b" "sz (fst x) = snd x"
    "p = (if bs = [] then 0 else fst (last bs))"
  shows "bestOf P n (bs @ [x]) (scanBlock sz n (fst x) p st)"
proof (cases "snd x < n")
  case True
  then show ?thesis using assms(1,4) by (intro bestOf_snoc [OF assms(1)]) (auto simp: scanBlock_best)
next
  case big: False
  let ?st = "scanBlock sz n (fst x) p st"
  show ?thesis using assms(1) unfolding bestOf_def [of P n bs]
  proof (elim disjE exE conjE, goal_cases)
    case 1
    then show ?case unfolding bestOf_def using assms(2,4,5) big
      by (intro disjI2 exI [of _ bs] exI [of _ x] exI [of _ "[]"]) (auto simp: scanBlock_best)
  next
    case (2 us y vs)
    then have y: "sz (fst y) = snd y" "fst y \<noteq> 0" using assms(3) by auto
    show ?case
    proof (cases "snd x < snd y")
      case True
      then have "\<forall>b\<in>set bs. P (fst b) \<and> n \<le> snd b \<longrightarrow> snd x \<le> snd b" using 2 by fastforce
      then show ?thesis unfolding bestOf_def using assms(2,4,5) big True 2(4) y
        by (intro disjI2 exI [of _ bs] exI [of _ x] exI [of _ "[]"]) (auto simp: scanBlock_best)
    next
      case False
      then show ?thesis unfolding bestOf_def using assms(2,4) big 2 y
        by (intro disjI2 exI [of _ us] exI [of _ y] exI [of _ "vs @ [x]"]) (auto simp: scanBlock_best)
    qed
  qed
qed

text \<open>The loop ends, with the two largest blocks and the best fit of the whole list.\<close>

definition wantedKind :: "codeCache \<Rightarrow> bool \<Rightarrow> nat \<Rightarrow> bool" where
  "wantedKind cc isCold a \<longleftrightarrow> (if isCold then coldCodeAlloc cc \<le> a else a < warmCodeAlloc cc)"

lemma scanFreeBlocks_finds:
  assumes "freeList (mem cc) q ys" "biggestOf (wantedKind cc isCold) xs st" "bestOf (wantedKind cc isCold) n xs st"
    "distinct (map fst (xs @ ys))" "\<forall>b\<in>set (xs @ ys). fst b \<noteq> 0 \<and> fbSize (mem cc) (fst b) = snd b"
    "p = (if xs = [] then 0 else fst (last xs))"
  shows "\<exists>st'. scanFreeBlocks cc n isCold q p st = Some st' \<and>
    biggestOf (wantedKind cc isCold) (xs @ ys) st' \<and> bestOf (wantedKind cc isCold) n (xs @ ys) st'"
  using assms
proof (induction ys arbitrary: q xs st p)
  case Nil
  then show ?case by (subst scanFreeBlocks.simps) simp
next
  case (Cons y ys)
  define st1 where "st1 = (if wantedKind cc isCold (fst y) then scanBlock (fbSize (mem cc)) n (fst y) p st else st)"
  have y: "q = fst y" "q \<noteq> 0" "freeList (mem cc) (fbNext (mem cc) (fst y)) ys" using Cons.prems(1) by auto
  have "biggestOf (wantedKind cc isCold) (xs @ [y]) st1" 
    using Cons.prems(2,4,5) unfolding st1_def by (auto intro: biggestOf_step biggestOf_skip)
  moreover have "bestOf (wantedKind cc isCold) n (xs @ [y]) st1"
  proof (cases "wantedKind cc isCold (fst y)")
    case True
    show ?thesis unfolding st1_def if_P [OF True]
      using Cons.prems(3,5,6) True by (intro bestOf_step) simp_all
  next
    case False
    then show ?thesis unfolding st1_def if_not_P [OF False]
      using Cons.prems(3) by (intro bestOf_snoc) simp_all
  qed
  ultimately have "\<exists>st'. scanFreeBlocks cc n isCold (fbNext (mem cc) (fst y)) (fst y) st1 = Some st' \<and>
      biggestOf (wantedKind cc isCold) ((xs @ [y]) @ ys) st' \<and> bestOf (wantedKind cc isCold) n ((xs @ [y]) @ ys) st'"
    using Cons.prems(4,5) y(3) by (intro Cons.IH) auto
  moreover have "scanFreeBlocks cc n isCold q p st = scanFreeBlocks cc n isCold (fbNext (mem cc) (fst y)) (fst y) st1"
    unfolding st1_def using y by (subst scanFreeBlocks.simps) (auto simp: wantedKind_def)
  ultimately show ?case by simp
qed

section \<open>Taking the block out of the list\<close>

lemma lseg_sizes: "lseg m p bs q \<Longrightarrow> b \<in> set bs \<Longrightarrow> fbSize m (fst b) = snd b \<and> fst b \<noteq> 0"
  by (induction bs arbitrary: p) auto

text \<open>What is left of the block \<open>b\<close> in the list, and what is taken of it.\<close>

definition leftover :: "nat \<Rightarrow> blk \<Rightarrow> blk list" where
  "leftover wanted b =
     (if snd b - wanted \<ge> MIN_SIZE_BLOCK then [(fst b + wanted, snd b - wanted)] else [])"

definition taken :: "nat \<Rightarrow> blk \<Rightarrow> blk" where
  "taken wanted b = (fst b, if snd b - wanted \<ge> MIN_SIZE_BLOCK then wanted else snd b)"

lemma taken_leftover:
  assumes "wanted \<le> snd b"
  shows "blockRange (taken wanted b) \<union> blockBytes (leftover wanted b) = blockRange b"
    "blockRange (taken wanted b) \<inter> blockBytes (leftover wanted b) = {}"
  using assms by (auto simp: taken_def leftover_def blockRange_def)

lemma relink_list:
  assumes us: "lseg (mem cc) (freeBlockList cc) us q" and ws: "freeList (mem cc) t ws"
    and dist: "distinct (map fst (us @ ws))" and prev: "p = (if us = [] then 0 else fst (last us))"
  shows "freeList (mem (relink p t cc)) (freeBlockList (relink p t cc)) (us @ ws)"
    "eraseList (relink p t cc) = eraseList cc" "fbSize (mem (relink p t cc)) = fbSize (mem cc)"
proof -
  show "eraseList (relink p t cc) = eraseList cc" "fbSize (mem (relink p t cc)) = fbSize (mem cc)"
    by (simp_all add: relink_def write_simps)
  show "freeList (mem (relink p t cc)) (freeBlockList (relink p t cc)) (us @ ws)"
  proof (cases us rule: rev_cases)
    case Nil
    then show ?thesis using ws prev by (simp add: relink_def)
  next
    case (snoc vs v)
    then have v: "lseg (mem cc) (freeBlockList cc) vs (fst v)" "fst v \<noteq> 0" "fbSize (mem cc) (fst v) = snd v" "p = fst v"
      using us prev by (auto simp: lseg_append)
    have "fst v \<notin> fst ` set vs" "fst v \<notin> fst ` set ws" using dist snoc by auto
    then show ?thesis using v ws snoc by (auto simp: relink_def lseg_append write_simps)
  qed
qed

lemma removeFreeBlock_list:
  assumes fl: "freeList (mem cc) (freeBlockList cc) (us @ b # vs)" and dist: "distinct (map fst (us @ b # vs))"
    and prev: "p = (if us = [] then 0 else fst (last us))" and sz: "wanted \<le> snd b" "snd b < 2 ^ 64" "0 < wanted"
    and apart: "\<forall>x\<in>set (us @ vs). fst x \<notin> blockRange b"
  obtains left cc' where "removeFreeBlock wanted p (fst b) cc = (left, cc')" "eraseList cc' = eraseList cc"
    "freeList (mem cc') (freeBlockList cc') (us @ leftover wanted b @ vs)"
    "fbSize (mem cc') (fst b) = snd (taken wanted b)"
    "leftover wanted b = (if left = 0 then [] else [(left, fbSize (mem cc') left)])"
    "\<forall>x\<in>set (us @ vs). fbSize (mem cc') (fst x) = snd x"
proof -
  have us: "lseg (mem cc) (freeBlockList cc) us (fst b)" and b: "fst b \<noteq> 0" "fbSize (mem cc) (fst b) = snd b"
    and vs: "freeList (mem cc) (fbNext (mem cc) (fst b)) vs" using fl by (auto simp: lseg_append)
  have ps: "psub (snd b) wanted = snd b - wanted" using sz by (simp add: psub_le)
  have sizes: "\<forall>x\<in>set (us @ vs). fbSize (mem cc) (fst x) = snd x"
    using lseg_sizes [OF fl] by auto
  show thesis
  proof (cases "snd b - wanted \<ge> MIN_SIZE_BLOCK")
    case True
    define r where "r = fst b + wanted"
    define cc1 where "cc1 = setNext r (fbNext (mem cc) (fst b)) (setBlockSize r (snd b - wanted) (setBlockSize (fst b) wanted cc))"
    have "r \<in> blockRange b" using True sz by (auto simp: r_def blockRange_def sizeof_defs)
    then have r: "r \<notin> fst ` set us" "r \<notin> fst ` set vs" "r \<noteq> fst b" "r \<noteq> 0"
      using apart sz(3) by (force, force, simp_all add: r_def)
    have nb: "fst b \<notin> fst ` set us" "fst b \<notin> fst ` set vs" using dist by auto
    have "lseg (mem cc1) (freeBlockList cc1) us (fst b)" "freeList (mem cc1) r ((r, snd b - wanted) # vs)"
      using us vs r nb by (auto simp: cc1_def write_simps)
    moreover have "distinct (map fst (us @ (r, snd b - wanted) # vs))" using dist r by auto
    ultimately have rl: "freeList (mem (relink p r cc1)) (freeBlockList (relink p r cc1)) (us @ (r, snd b - wanted) # vs)"
      "eraseList (relink p r cc1) = eraseList cc1" "fbSize (mem (relink p r cc1)) = fbSize (mem cc1)"
      using relink_list [OF _ _ _ prev] by blast+
    have rm: "removeFreeBlock wanted p (fst b) cc = (r, relink p r cc1)"
      using True b ps by (simp add: removeFreeBlock_def Let_def cc1_def r_def)
    have szs: "\<forall>x\<in>set (us @ vs). fbSize (mem cc1) (fst x) = snd x"
      using sizes r nb by (auto simp: cc1_def write_simps image_iff)
    show ?thesis using True r rl szs by (intro that [OF rm])
      (simp_all add: leftover_def taken_def cc1_def write_simps flip: r_def)
  next
    case False
    have "distinct (map fst (us @ vs))" using dist by auto
    from relink_list [OF us vs this prev] False show ?thesis using b ps sizes
      by (intro that [of 0 "relink p (fbNext (mem cc) (fst b)) cc"])
        (simp_all add: removeFreeBlock_def Let_def leftover_def taken_def)
  qed
qed

end
