(* ===== verification/CacheLayout.thy ===== *)
theory CacheLayout
  imports BestFit
begin

text \<open>
  The invariant of a code cache with its used blocks, and that the code's own consistency check
  accepts every cache that satisfies it.
\<close>

section \<open>The invariant\<close>

text \<open>
  Method bodies lie between \<open>codeLow\<close>, the first aligned address after the pointer at the
  start of the segment, and the preloaded code.
\<close>

definition codeLow :: "codeCacheConfig \<Rightarrow> codeCache \<Rightarrow> nat" where
  "codeLow cfg cc = align (segmentBase cc + sizeof_pointer) (codeCacheAlignment cfg - 1)"

definition usedBytes :: "blk set \<Rightarrow> nat set" where "usedBytes U = (\<Union>u\<in>U. blockRange u)"

definition codeArea :: "codeCacheConfig \<Rightarrow> codeCache \<Rightarrow> nat set" where
  "codeArea cfg cc = {codeLow cfg cc ..< warmCodeAlloc cc} \<union> {coldCodeAlloc cc ..< CCPreLoadedCodeBase cc}"

text \<open>The bounds of the areas of a cache, which is at most 4 GB large.\<close>

definition boundsOk :: "codeCacheConfig \<Rightarrow> codeCache \<Rightarrow> bool" where
  "boundsOk cfg cc \<longleftrightarrow> alignmentOk cfg \<and> 0 < segmentBase cc \<and> segmentBase cc \<le> segmentTop cc \<and>
     segmentTop cc < 2 ^ 62 \<and>
     segmentTop cc - segmentBase cc < 2 ^ 32 \<and>
     codeCacheAlignment cfg dvd warmCodeAlloc cc \<and> codeCacheAlignment cfg dvd coldCodeAlloc cc \<and>
     codeLow cfg cc \<le> warmCodeAlloc cc \<and> warmCodeAlloc cc \<le> coldCodeAlloc cc \<and>
     coldCodeAlloc cc \<le> CCPreLoadedCodeBase cc \<and> CCPreLoadedCodeBase cc \<le> trampolineBase cc \<and>
     trampolineBase cc \<le> segmentTop cc"

text \<open>The free list \<open>bs\<close>: coalesced blocks in ascending order, with the sizes of the largest.\<close>

definition freeOk :: "codeCacheConfig \<Rightarrow> codeCache \<Rightarrow> blk list \<Rightarrow> bool" where
  "freeOk cfg cc bs \<longleftrightarrow> freeList (mem cc) (freeBlockList cc) bs \<and>
     coalesced (warmCodeAlloc cc) (coldCodeAlloc cc) bs \<and>
     (\<forall>b\<in>set bs. blockOk cfg b \<and> inRegion (warmCodeAlloc cc) (coldCodeAlloc cc) b) \<and>
     sizeOfLargestFreeWarmBlock cc = maxSize (\<lambda>a. a < warmCodeAlloc cc) bs \<and>
     sizeOfLargestFreeColdBlock cc = maxSize (\<lambda>a. \<not> a < warmCodeAlloc cc) bs"

text \<open>The free blocks \<open>bs\<close> and the used blocks \<open>U\<close> divide the code area among them.\<close>

definition tilesOk :: "codeCacheConfig \<Rightarrow> codeCache \<Rightarrow> blk list \<Rightarrow> blk set \<Rightarrow> bool" where
  "tilesOk cfg cc bs U \<longleftrightarrow> finite U \<and>
     (\<forall>u\<in>U. blockOk cfg u \<and> inRegion (warmCodeAlloc cc) (coldCodeAlloc cc) u) \<and>
     blockBytes bs \<union> usedBytes U = codeArea cfg cc \<and> blockBytes bs \<inter> usedBytes U = {} \<and>
     (\<forall>u\<in>U. \<forall>v\<in>U. u \<noteq> v \<longrightarrow> blockRange u \<inter> blockRange v = {})"

definition layoutOk :: "codeCacheConfig \<Rightarrow> codeCache \<Rightarrow> blk list \<Rightarrow> blk set \<Rightarrow> bool" where
  "layoutOk cfg cc bs U \<longleftrightarrow> boundsOk cfg cc \<and> freeOk cfg cc bs \<and> tilesOk cfg cc bs U"

text \<open>Every used block starts with a header.\<close>

definition eyesOk :: "codeCacheConfig \<Rightarrow> codeCache \<Rightarrow> blk set \<Rightarrow> bool" where
  "eyesOk cfg cc U \<longleftrightarrow> take 1 (coldEyeCatcher cfg) = take 1 (warmEyeCatcher cfg) \<and>
     (\<forall>u\<in>U. take 1 (mhEyeCatcher (mem cc) (fst u)) = take 1 (warmEyeCatcher cfg))"

definition headerSizesOk :: "codeCache \<Rightarrow> blk set \<Rightarrow> bool" where
  "headerSizesOk cc U \<longleftrightarrow> (\<forall>u\<in>U. mhSize (mem cc) (fst u) = snd u)"

section \<open>Facts about blocks\<close>

lemma blockRange_start: "blockOk cfg b \<Longrightarrow> fst b \<in> blockRange b"
  by (simp add: blockRange_def blockOk_def)

lemma blocks_apart:
  "blockRange a \<inter> blockRange b = {} \<Longrightarrow> 0 < snd a \<Longrightarrow> 0 < snd b \<Longrightarrow>
     fst a + snd a \<le> fst b \<or> fst b + snd b \<le> fst a"
  by (auto simp: blockRange_def ivl_disj_un disjoint_iff_not_equal Ball_def)

lemma mem_blockBytes: "b \<in> set bs \<Longrightarrow> blockRange b \<subseteq> blockBytes bs"
  by (auto simp: blockBytes_def)

lemma codeLow_bounds:
  assumes "boundsOk cfg cc"
  shows "segmentBase cc + sizeof_pointer \<le> codeLow cfg cc" "codeCacheAlignment cfg dvd codeLow cfg cc"
proof -
  have "segmentBase cc + sizeof_pointer < 2 ^ 63" using assms by (auto simp: boundsOk_def sizeof_defs)
  then show "segmentBase cc + sizeof_pointer \<le> codeLow cfg cc" "codeCacheAlignment cfg dvd codeLow cfg cc"
    using assms align_props by (auto simp: boundsOk_def codeLow_def)
qed

text \<open>A free block lies in the code area.\<close>

lemma free_block_bounds:
  assumes "layoutOk cfg cc bs U" "b \<in> set bs"
  shows "codeLow cfg cc \<le> fst b" "fst b + snd b \<le> CCPreLoadedCodeBase cc" "fst b < fst b + snd b"
proof -
  have "blockOk cfg b" using assms by (auto simp: layoutOk_def freeOk_def)
  then have b: "0 < snd b" by (auto dest: blockOk_pos)
  have sub: "blockRange b \<subseteq> codeArea cfg cc"
    using assms mem_blockBytes [OF assms(2)] by (auto simp: layoutOk_def tilesOk_def)
  have "fst b \<in> blockRange b" "fst b + snd b - 1 \<in> blockRange b" using b by (auto simp: blockRange_def)
  then have "fst b \<in> codeArea cfg cc" "fst b + snd b - 1 \<in> codeArea cfg cc" using sub by auto
  then show "codeLow cfg cc \<le> fst b" "fst b + snd b \<le> CCPreLoadedCodeBase cc" "fst b < fst b + snd b"
    using assms(1) b by (auto simp: codeArea_def layoutOk_def boundsOk_def)
qed

text \<open>Behind a free block that is not the last in its area comes a used one.\<close>

lemma used_after_free:
  assumes lay: "layoutOk cfg cc (xs @ b # b' # ys) U" and gap: "fst b + snd b < fst b'"
    and w: "fst b + snd b \<noteq> warmCodeAlloc cc"
  shows "\<exists>n. (fst b + snd b, n) \<in> U"
proof -
  let ?e = "fst b + snd b"
  let ?bs = "xs @ b # b' # ys"
  have co: "coalesced (warmCodeAlloc cc) (coldCodeAlloc cc) ?bs" and t: "tilesOk cfg cc ?bs U"
    and bok: "\<forall>x\<in>set ?bs. blockOk cfg x \<and> inRegion (warmCodeAlloc cc) (coldCodeAlloc cc) x"
    using lay by (auto simp: layoutOk_def freeOk_def)
  have b': "fst b' < CCPreLoadedCodeBase cc" "codeLow cfg cc \<le> fst b"
    using free_block_bounds [OF lay, of b'] free_block_bounds [OF lay, of b] by auto
  have "inRegion (warmCodeAlloc cc) (coldCodeAlloc cc) b" using bok by simp
  then have "?e \<in> codeArea cfg cc" using b' gap w by (auto simp: codeArea_def inRegion_def)
  moreover have "?e \<notin> blockRange x" if "x \<in> set ?bs" for x
  proof -
    have "\<forall>z\<in>set (xs @ [b]). fst z + snd z \<le> ?e"
      using coalesced_sorted [of "warmCodeAlloc cc" "coldCodeAlloc cc" xs "b # b' # ys" _ b] co by fastforce
    moreover have "\<forall>z\<in>set (b' # ys). ?e < fst z"
      using coalesced_Cons_less [of "warmCodeAlloc cc" "coldCodeAlloc cc" b' ys] co gap
      by (auto simp: coalesced_append dest: coalesced_tl)
    ultimately show ?thesis using that by (fastforce simp: blockRange_def)
  qed
  then have "?e \<notin> blockBytes ?bs" unfolding blockBytes_def by blast
  ultimately have "?e \<in> usedBytes U" using t unfolding tilesOk_def by blast
  then obtain u where u: "u \<in> U" "?e \<in> blockRange u" by (auto simp: usedBytes_def)
  have "blockRange b \<inter> blockRange u = {}" using t u by (auto simp: tilesOk_def usedBytes_def)
  then have "fst u = ?e" using u(2) blocks_apart [of b u] blockOk_pos [of cfg b] bok
    by (auto simp: blockRange_def)
  then show ?thesis using u by (metis prod.collapse)
qed

section \<open>The consistency check\<close>

lemma checkScan_list:
  "freeList (mem cc) p bs \<Longrightarrow> checkScan cfg cc p d mw mc =
     Some (d \<or> (\<exists>b\<in>set bs. checkBlock cfg cc (fst b)),
           max mw (maxSize (\<lambda>a. a < warmCodeAlloc cc) bs), max mc (maxSize (\<lambda>a. \<not> a < warmCodeAlloc cc) bs))"
proof (induction bs arbitrary: p d mw mc)
  case Nil
  then show ?case by (subst checkScan.simps) simp
next
  case (Cons b bs)
  then show ?case by (subst checkScan.simps) (auto simp: Let_def max.assoc)
qed

lemma freeList_next:
  assumes "freeList m p (xs @ b # ys)"
  shows "fbSize m (fst b) = snd b" "fbNext m (fst b) = (case ys of [] \<Rightarrow> 0 | y # _ \<Rightarrow> fst y)"
    "ys \<noteq> [] \<longrightarrow> fst (hd ys) \<noteq> 0"
  using assms by (auto simp: lseg_append neq_Nil_conv split: list.split)

lemma checkBlock_ok:
  assumes lay: "layoutOk cfg cc bs U" and eyes: "eyesOk cfg cc U" and b: "b \<in> set bs"
  shows "\<not> checkBlock cfg cc (fst b)"
proof -
  obtain xs ys where bs: "bs = xs @ b # ys" using b by (meson split_list)
  have bnd: "boundsOk cfg cc" using lay by (simp add: layoutOk_def)
  have fl: "freeList (mem cc) (freeBlockList cc) (xs @ b # ys)" and
    co: "coalesced (warmCodeAlloc cc) (coldCodeAlloc cc) (xs @ b # ys)"
    using lay by (auto simp: layoutOk_def freeOk_def bs)
  note nx = freeList_next [OF fl]
  note lo = codeLow_bounds(1) [OF bnd] and fb = free_block_bounds [OF lay b]
  have size: "snd b \<le> psub (segmentTop cc) (segmentBase cc)"
    using bnd lo fb by (auto simp: boundsOk_def psub_le)
  have next_ok: "\<not> (if fst y = fst b + snd b then \<not> (fst b < warmCodeAlloc cc \<and> fst b + snd b \<ge> coldCodeAlloc cc)
       else fst y \<le> fst b + snd b \<or> fst b + snd b \<noteq> warmCodeAlloc cc \<and>
         take 1 (mhEyeCatcher (mem cc) (fst b + snd b)) \<noteq> take 1 (warmEyeCatcher cfg))"
    if ys: "ys = y # zs" for y zs
  proof (cases "fst y = fst b + snd b")
    case True
    then show ?thesis using co ys by (auto simp: coalesced_append mergeable_def)
  next
    case False
    then have gap: "fst b + snd b < fst y" using co ys by (auto simp: coalesced_append)
    have "take 1 (mhEyeCatcher (mem cc) (fst b + snd b)) = take 1 (warmEyeCatcher cfg)"
      if "fst b + snd b \<noteq> warmCodeAlloc cc"
      using used_after_free [of cfg cc xs b y zs U] lay gap that eyes by (auto simp: bs ys eyesOk_def)
    then show ?thesis using False gap by auto
  qed
  show ?thesis using nx size lo fb bnd next_ok
    by (cases ys) (auto simp: checkBlock_def Let_def boundsOk_def)
qed

text \<open>The walk over all blocks starts beyond the end of the cache, whatever the cache holds.\<close>

lemma walkBlocks_beyond:
  assumes "alignmentOk cfg" "trampolineBase cc \<le> segmentTop cc" "segmentTop cc < 2 ^ 62"
  shows "walkBlocks cfg cc (align (segmentTop cc + sizeof_pointer) (codeCacheAlignment cfg - 1)) = Some False"
proof -
  have "segmentTop cc + sizeof_pointer \<le> align (segmentTop cc + sizeof_pointer) (codeCacheAlignment cfg - 1)"
    using assms by (intro align_props) (auto simp: sizeof_defs)
  then show ?thesis using assms by (subst walkBlocks.simps) (simp add: sizeof_defs)
qed

lemma checkForErrors_ok:
  assumes "layoutOk cfg cc bs U" "eyesOk cfg cc U"
  shows "checkForErrors cfg cc = Some False"
proof -
  have "freeList (mem cc) (freeBlockList cc) bs" using assms by (simp add: layoutOk_def freeOk_def)
  from checkScan_list [OF this] show ?thesis
    using assms walkBlocks_beyond [of cfg cc] checkBlock_ok [OF assms]
    by (auto simp: checkForErrors_def layoutOk_def boundsOk_def freeOk_def)
qed

lemma sanityCheck_ok:
  "layoutOk cfg cc bs U \<Longrightarrow> eyesOk cfg cc U \<Longrightarrow> sanityCheck cfg cc r = Some (Ok (r, cc))"
  by (simp add: sanityCheck_def checkForErrors_ok)

end
