(* ===== verification/CacheOperations.thy ===== *)
theory CacheOperations
  imports CacheLayout
begin

text \<open>
  The operations of a code cache keep its invariant: freeing a block, taking a block from the
  free list, allocating at either end of the contiguous space, and trimming.
\<close>

section \<open>Freeing\<close>

lemma addBlock_blockOk:
  "\<forall>b\<in>set bs. blockOk cfg b \<Longrightarrow> blockOk cfg (s, n) \<Longrightarrow> \<forall>b\<in>set (addBlock w c (s, n) bs). blockOk cfg b"
  by (induction w c "(s, n)" bs arbitrary: s n rule: addBlock.induct) (auto simp: blockOk_def add.assoc)

lemma addBlock_inRegion:
  "w \<le> c \<Longrightarrow> \<forall>b\<in>set bs. inRegion w c b \<and> 0 < snd b \<Longrightarrow> inRegion w c (s, n) \<Longrightarrow> 0 < n \<Longrightarrow>
     \<forall>b\<in>set (addBlock w c (s, n) bs). inRegion w c b"
proof (induction w c "(s, n)" bs arbitrary: s n rule: addBlock.induct)
  case (2 w c s n a m bs)
  have "inRegion w c (a, m + n)" if "a + m = s" "mergeable w c a s"
    using "2.prems" that by (auto simp: inRegion_def mergeable_def)
  moreover have "inRegion w c (s, n + m)" if "s + n = a" "mergeable w c s a"
    using "2.prems" that by (auto simp: inRegion_def mergeable_def)
  moreover have "0 < m + n" "inRegion w c (a, m)" "\<forall>b\<in>set bs. inRegion w c b \<and> 0 < snd b"
    using "2.prems" by auto
  ultimately show ?case using "2.hyps" "2.prems"(1,3,4) by simp
qed simp

lemma coalesced_unique:
  assumes "coalesced w c bs" "x \<in> set bs" "y \<in> set bs" "t \<in> blockRange x" "t \<in> blockRange y"
  shows "x = y"
  using assms
proof (induction bs)
  case (Cons b bs)
  have "\<forall>z\<in>set bs. fst b + snd b \<le> fst z" using Cons.prems(1) by (rule coalesced_Cons_less)
  then show ?case using Cons coalesced_tl [OF Cons.prems(1)] by (fastforce simp: blockRange_def)
qed simp

lemma maxSize_addBlock:
  assumes "k \<in> set (addBlock w c (s, n) bs)" "set (addBlock w c (s, n) bs) \<subseteq> insert k (set bs)"
    "\<forall>b\<in>set bs. b \<in> set (addBlock w c (s, n) bs) \<or> snd b \<le> snd k \<and> P (fst b) = P (fst k)"
  shows "maxSize P (addBlock w c (s, n) bs) = (if P (fst k) then max (maxSize P bs) (snd k) else maxSize P bs)"
proof (rule antisym)
  show "maxSize P (addBlock w c (s, n) bs) \<le> (if P (fst k) then max (maxSize P bs) (snd k) else maxSize P bs)"
    using assms(2) maxSize_ge [of _ bs P] by (fastforce simp: maxSize_le_iff max_def)
  have "maxSize P bs \<le> maxSize P (addBlock w c (s, n) bs)"
    unfolding maxSize_le_iff using assms(1,3) maxSize_ge [of _ "addBlock w c (s, n) bs" P]
    by (metis (no_types, lifting) le_trans)
  then show "(if P (fst k) then max (maxSize P bs) (snd k) else maxSize P bs) \<le> maxSize P (addBlock w c (s, n) bs)"
    using maxSize_ge [OF assms(1), of P] by simp
qed

lemma usedBytes_minus:
  assumes "tilesOk cfg cc bs U" "u \<in> U"
  shows "usedBytes (U - {u}) = usedBytes U - blockRange u"
  using assms unfolding tilesOk_def usedBytes_def by blast

lemma usedBytes_insert: "usedBytes (insert u U) = blockRange u \<union> usedBytes U"
  by (auto simp: usedBytes_def)

text \<open>The used block becomes free: who owns which address.\<close>

lemma tilesOk_release:
  assumes "tilesOk cfg cc bs U" "u \<in> U" "blockBytes bs' = blockRange u \<union> blockBytes bs"
    "warmCodeAlloc cc' = warmCodeAlloc cc" "coldCodeAlloc cc' = coldCodeAlloc cc"
    "codeArea cfg cc' = codeArea cfg cc"
  shows "tilesOk cfg cc' bs' (U - {u})"
proof -
  have "blockRange u \<subseteq> usedBytes U" using assms(2) by (auto simp: usedBytes_def)
  then show ?thesis using assms usedBytes_minus [OF assms(1,2)] unfolding tilesOk_def by auto
qed

lemma layout_disjoint:
  assumes "layoutOk cfg cc bs U" "u \<in> U" "b \<in> set bs"
  shows "fst b + snd b \<le> fst u \<or> fst u + snd u \<le> fst b"
proof -
  have "blockRange b \<inter> blockRange u = {}"
    using assms mem_blockBytes [OF assms(3)] unfolding layoutOk_def tilesOk_def usedBytes_def by blast
  moreover have "0 < snd b" "0 < snd u"
    using assms blockOk_pos [of cfg b] blockOk_pos [of cfg u] by (auto simp: layoutOk_def freeOk_def tilesOk_def)
  ultimately show ?thesis by (rule blocks_apart)
qed

lemma updateMax_fields [simp]:
  "mem (updateMaxSizeOfFreeBlocks cfg p n cc) = mem cc"
  "freeBlockList (updateMaxSizeOfFreeBlocks cfg p n cc) = freeBlockList cc"
  "warmCodeAlloc (updateMaxSizeOfFreeBlocks cfg p n cc) = warmCodeAlloc cc"
  "coldCodeAlloc (updateMaxSizeOfFreeBlocks cfg p n cc) = coldCodeAlloc cc"
  "segmentBase (updateMaxSizeOfFreeBlocks cfg p n cc) = segmentBase cc"
  "segmentTop (updateMaxSizeOfFreeBlocks cfg p n cc) = segmentTop cc"
  "trampolineBase (updateMaxSizeOfFreeBlocks cfg p n cc) = trampolineBase cc"
  "CCPreLoadedCodeBase (updateMaxSizeOfFreeBlocks cfg p n cc) = CCPreLoadedCodeBase cc"
  "repositoryFreeSpace (updateMaxSizeOfFreeBlocks cfg p n cc) = repositoryFreeSpace cc"
  by (simp_all add: updateMaxSizeOfFreeBlocks_def)

lemma updateMax_sizes:
  assumes "codeCacheFreeBlockRecylingEnabled cfg"
  shows "sizeOfLargestFreeWarmBlock (updateMaxSizeOfFreeBlocks cfg p n cc) =
      (if p < warmCodeAlloc cc then max (sizeOfLargestFreeWarmBlock cc) n else sizeOfLargestFreeWarmBlock cc)"
    "sizeOfLargestFreeColdBlock (updateMaxSizeOfFreeBlocks cfg p n cc) =
      (if p < warmCodeAlloc cc then sizeOfLargestFreeColdBlock cc else max (sizeOfLargestFreeColdBlock cc) n)"
  using assms by (simp_all add: updateMaxSizeOfFreeBlocks_def max_def)

text \<open>The part of \<open>addFreeBlock2\<close> that works on the list.\<close>

lemma link_in_list:
  assumes ok: "alignmentOk cfg" and new: "blockOk cfg (s, n)"
    and fl: "freeList (mem cc) (freeBlockList cc) bs" and blocks: "\<forall>b\<in>set bs. blockOk cfg b"
    and co: "coalesced (warmCodeAlloc cc) (coldCodeAlloc cc) bs"
    and wc: "warmCodeAlloc cc \<le> coldCodeAlloc cc" "s < warmCodeAlloc cc \<or> coldCodeAlloc cc \<le> s"
    and disj: "\<forall>b\<in>set bs. fst b + snd b \<le> s \<or> s + n \<le> fst b"
  obtains link cc' where
    "(if freeBlockList cc \<noteq> 0 then
        Option.bind (insertionPoint (fbNext (mem cc)) s (freeBlockList cc))
          (\<lambda>cur. Some (mergeFreeBlock cc cur s (s + n) n))
      else Some (s, (setNext s 0 (setBlockSize s n cc))\<lparr>freeBlockList := s\<rparr>)) = Some (link, cc')"
    "eraseList cc' = eraseList cc"
    "freeList (mem cc') (freeBlockList cc') (addBlock (warmCodeAlloc cc) (coldCodeAlloc cc) (s, n) bs)"
    "(link, fbSize (mem cc') link) \<in> set (addBlock (warmCodeAlloc cc) (coldCodeAlloc cc) (s, n) bs)"
    "s \<in> blockRange (link, fbSize (mem cc') link)"
proof (cases "bs = []")
  case True
  then have "freeBlockList cc = 0" using fl by simp
  moreover have "0 < s" "0 < n" using blockOk_pos [OF new] by auto
  ultimately show ?thesis using True
    by (intro that [of s "(setNext s 0 (setBlockSize s n cc))\<lparr>freeBlockList := s\<rparr>"])
      (auto simp: write_simps blockRange_def)
next
  case False
  then have "freeBlockList cc \<noteq> 0" using fl by (metis freeList_Nil)
  then show ?thesis using mergeFreeBlock_addBlock [OF ok new fl False blocks co refl refl wc disj] that by auto
qed

text \<open>What the operations on free blocks leave alone.\<close>

definition sameArea :: "codeCache \<Rightarrow> codeCache \<Rightarrow> bool" where
  "sameArea cc cc' \<longleftrightarrow> warmCodeAlloc cc' = warmCodeAlloc cc \<and> coldCodeAlloc cc' = coldCodeAlloc cc \<and>
     segmentBase cc' = segmentBase cc \<and> segmentTop cc' = segmentTop cc \<and>
     trampolineBase cc' = trampolineBase cc \<and> CCPreLoadedCodeBase cc' = CCPreLoadedCodeBase cc \<and>
     repositoryFreeSpace cc' = repositoryFreeSpace cc"

lemma sameArea_cong:
  assumes "sameArea cc cc'"
  shows "codeArea cfg cc' = codeArea cfg cc" "boundsOk cfg cc' = boundsOk cfg cc"
  using assms by (simp_all add: sameArea_def codeArea_def codeLow_def boundsOk_def)

lemma sameArea_erase:
  assumes "eraseList cc' = eraseList cc" shows "sameArea cc cc'"
  using eraseList_fields [OF assms] by (simp add: sameArea_def)

lemma clearEyeCatcher_mem [simp]:
  "fbSize (mem (clearEyeCatcher p cc)) = fbSize (mem cc)" "fbNext (mem (clearEyeCatcher p cc)) = fbNext (mem cc)"
  "mhSize (mem (clearEyeCatcher p cc)) = mhSize (mem cc)"
  "q \<noteq> p \<Longrightarrow> mhEyeCatcher (mem (clearEyeCatcher p cc)) q = mhEyeCatcher (mem cc) q"
  "warmCodeAlloc (clearEyeCatcher p cc) = warmCodeAlloc cc" "coldCodeAlloc (clearEyeCatcher p cc) = coldCodeAlloc cc"
  "freeBlockList (clearEyeCatcher p cc) = freeBlockList cc"
  "sizeOfLargestFreeWarmBlock (clearEyeCatcher p cc) = sizeOfLargestFreeWarmBlock cc"
  "sizeOfLargestFreeColdBlock (clearEyeCatcher p cc) = sizeOfLargestFreeColdBlock cc"
  by (simp_all add: clearEyeCatcher_def)

lemma lseg_clearEyeCatcher [simp]: "lseg (mem (clearEyeCatcher p cc)) q bs r = lseg (mem cc) q bs r"
  by (rule lseg_cong) simp

lemma freeOk_add:
  assumes bnd: "boundsOk cfg cc" and free: "freeOk cfg cc bs" and rec: "codeCacheFreeBlockRecylingEnabled cfg"
    and new: "blockOk cfg (s, n)" "inRegion (warmCodeAlloc cc) (coldCodeAlloc cc) (s, n)"
    and disj: "\<forall>b\<in>set bs. fst b + snd b \<le> s \<or> s + n \<le> fst b"
    and fl: "freeList (mem cc') (freeBlockList cc') (addBlock (warmCodeAlloc cc) (coldCodeAlloc cc) (s, n) bs)"
    and link: "(link, fbSize (mem cc') link) \<in> set (addBlock (warmCodeAlloc cc) (coldCodeAlloc cc) (s, n) bs)"
      "s \<in> blockRange (link, fbSize (mem cc') link)"
    and er: "eraseList cc' = eraseList (clearEyeCatcher s cc)"
  shows "freeOk cfg (updateMaxSizeOfFreeBlocks cfg link (fbSize (mem cc') link) cc')
           (addBlock (warmCodeAlloc cc) (coldCodeAlloc cc) (s, n) bs)"
proof -
  let ?w = "warmCodeAlloc cc" and ?c = "coldCodeAlloc cc"
  let ?as = "addBlock ?w ?c (s, n) bs"
  have wc: "?w \<le> ?c" using bnd by (simp add: boundsOk_def)
  have bs: "\<forall>b\<in>set bs. blockOk cfg b" "\<forall>b\<in>set bs. inRegion ?w ?c b \<and> 0 < snd b" "\<forall>b\<in>set bs. 0 < snd b"
    and co: "coalesced ?w ?c bs"
    and large: "sizeOfLargestFreeWarmBlock cc = maxSize (\<lambda>a. a < ?w) bs"
      "sizeOfLargestFreeColdBlock cc = maxSize (\<lambda>a. \<not> a < ?w) bs"
    using free by (auto simp: freeOk_def blockOk_def)
  have n: "0 < n" using blockOk_pos [OF new(1)] by simp
  have co': "coalesced ?w ?c ?as" using co disj bs n wc new by (intro addBlock_coalesced) auto
  obtain k where k: "k \<in> set ?as" "fst k \<le> s \<and> s + n \<le> fst k + snd k"
    "set ?as \<subseteq> insert k (set bs)" "n \<le> snd k" "(fst k < ?w) = (s < ?w)"
    "\<forall>b\<in>set bs. b \<in> set ?as \<or> snd b \<le> snd k \<and> (fst b < ?w) = (fst k < ?w)"
    by (rule addBlock_merged [OF wc bs(2) new(2) n])
  have k_eq: "k = (link, fbSize (mem cc') link)"
    using coalesced_unique [OF co' k(1) link(1) _ link(2)] k(2) n by (auto simp: blockRange_def)
  have f: "warmCodeAlloc cc' = ?w" "sizeOfLargestFreeWarmBlock cc' = sizeOfLargestFreeWarmBlock cc"
    "sizeOfLargestFreeColdBlock cc' = sizeOfLargestFreeColdBlock cc"
    using eraseList_fields(1,5,6) [OF er] by simp_all
  have m: "maxSize (\<lambda>a. a < ?w) ?as = (if fst k < ?w then max (maxSize (\<lambda>a. a < ?w) bs) (snd k) else maxSize (\<lambda>a. a < ?w) bs)"
    "maxSize (\<lambda>a. \<not> a < ?w) ?as = (if \<not> fst k < ?w then max (maxSize (\<lambda>a. \<not> a < ?w) bs) (snd k) else maxSize (\<lambda>a. \<not> a < ?w) bs)"
    using k(6) by (intro maxSize_addBlock [OF k(1,3)]; blast)+
  have "sizeOfLargestFreeWarmBlock (updateMaxSizeOfFreeBlocks cfg link (fbSize (mem cc') link) cc') =
        maxSize (\<lambda>a. a < ?w) ?as"
    unfolding updateMax_sizes [OF rec] f large m k_eq by simp
  moreover have "sizeOfLargestFreeColdBlock (updateMaxSizeOfFreeBlocks cfg link (fbSize (mem cc') link) cc') =
        maxSize (\<lambda>a. \<not> a < ?w) ?as"
    unfolding updateMax_sizes [OF rec] f large m k_eq by simp
  ultimately show ?thesis
    using co' fl addBlock_blockOk [OF bs(1) new(1), of ?w ?c] addBlock_inRegion [OF wc bs(2) new(2) n]
      eraseList_fields(1,2) [OF er] by (simp add: freeOk_def)
qed

lemma addFreeBlock2_ok:
  assumes lay: "layoutOk cfg cc bs U" and u: "(s, n) \<in> U" and eyes: "eyesOk cfg cc (U - {(s, n)})"
    and rec: "codeCacheFreeBlockRecylingEnabled cfg"
  obtains cc' where "addFreeBlock2 cfg s (s + n) cc = Some (Ok (True, cc'))"
    "layoutOk cfg cc' (addBlock (warmCodeAlloc cc) (coldCodeAlloc cc) (s, n) bs) (U - {(s, n)})"
    "eyesOk cfg cc' (U - {(s, n)})" "mhSize (mem cc') = mhSize (mem cc)" "sameArea cc cc'"
proof -
  let ?w = "warmCodeAlloc cc" and ?c = "coldCodeAlloc cc"
  let ?as = "addBlock ?w ?c (s, n) bs" and ?V = "U - {(s, n)}" and ?cc1 = "clearEyeCatcher s cc"
  have bnd: "boundsOk cfg cc" and free: "freeOk cfg cc bs" and tiles: "tilesOk cfg cc bs U"
    using lay by (auto simp: layoutOk_def)
  have ok: "alignmentOk cfg" using bnd by (simp add: boundsOk_def)
  have new: "blockOk cfg (s, n)" "inRegion ?w ?c (s, n)" using tiles u by (auto simp: tilesOk_def)
  have n: "16 < n" "s + n < 2 ^ 63" "codeCacheAlignment cfg dvd s" using new(1) by (auto simp: blockOk_def sizeof_defs)
  have disj: "\<forall>b\<in>set bs. fst b + snd b \<le> s \<or> s + n \<le> fst b" using layout_disjoint [OF lay u] by auto
  have fl1: "freeList (mem ?cc1) (freeBlockList ?cc1) bs" and blocks: "\<forall>b\<in>set bs. blockOk cfg b"
    and co1: "coalesced (warmCodeAlloc ?cc1) (coldCodeAlloc ?cc1) bs" using free by (auto simp: freeOk_def)
  have region: "warmCodeAlloc ?cc1 \<le> coldCodeAlloc ?cc1" "s < warmCodeAlloc ?cc1 \<or> coldCodeAlloc ?cc1 \<le> s"
    using bnd new(2) n by (auto simp: boundsOk_def inRegion_def)
  obtain link cc2 where l: "(if freeBlockList ?cc1 \<noteq> 0 then
        Option.bind (insertionPoint (fbNext (mem ?cc1)) s (freeBlockList ?cc1))
          (\<lambda>cur. Some (mergeFreeBlock ?cc1 cur s (s + n) n))
      else Some (s, (setNext s 0 (setBlockSize s n ?cc1))\<lparr>freeBlockList := s\<rparr>)) = Some (link, cc2)"
    and er: "eraseList cc2 = eraseList ?cc1"
    and fl2: "freeList (mem cc2) (freeBlockList cc2) ?as"
    and ls: "(link, fbSize (mem cc2) link) \<in> set ?as" "s \<in> blockRange (link, fbSize (mem cc2) link)"
    using link_in_list [OF ok new(1) fl1 blocks co1 region disj] by auto
  let ?cc3 = "updateMaxSizeOfFreeBlocks cfg link (fbSize (mem cc2) link) cc2"
  have same: "sameArea cc ?cc3"
    using eraseList_fields [OF er] by (simp add: sameArea_def clearEyeCatcher_def)
  have lay3: "layoutOk cfg ?cc3 ?as ?V"
    unfolding layoutOk_def sameArea_cong(2) [OF same]
    using bnd freeOk_add [OF bnd free rec new disj fl2 ls er]
      tilesOk_release [OF tiles u, of ?as ?cc3] sameArea_cong(1) [OF same] same
    by (auto simp: addBlock_bytes sameArea_def)
  have "fst v \<noteq> s" if "v \<in> ?V" for v
  proof -
    have v: "blockRange v \<inter> blockRange (s, n) = {}" "blockOk cfg v" using that tiles u by (auto simp: tilesOk_def)
    then show ?thesis using blockRange_start [of cfg v] n by (auto simp: blockRange_def)
  qed
  then have eyes3: "eyesOk cfg ?cc3 ?V" using eyes eraseList_fields(8) [OF er] by (simp add: eyesOk_def)
  have al: "align s (codeCacheAlignment cfg - 1) = s" by (rule align_dvd [OF ok n(3)]) (use n in simp)
  have ps: "psub (s + n) s = n" using n by (simp add: psub_le)
  have big: "(s + n \<le> s + sizeof_CodeCacheFreeCacheBlock) = False" "(sizeof_CodeCacheMethodHeader \<le> n) = True"
    using n by (simp_all add: sizeof_defs)
  have "addFreeBlock2 cfg s (s + n) cc = sanityCheck cfg ?cc3 True"
    by (simp only: addFreeBlock2_def Let_def al ps big if_False if_True l Option.bind.simps prod.case)
  also have "\<dots> = Some (Ok (True, ?cc3))" by (rule sanityCheck_ok [OF lay3 eyes3])
  finally show thesis by (rule that [OF _ lay3 eyes3 _ same]) (simp add: eraseList_fields(7) [OF er])
qed

end
