(* ===== verification/CacheAllocation.thy ===== *)
theory CacheAllocation
  imports CacheOperations
begin

text \<open>
  Allocation in a code cache: the block taken from the free list is a best fit, the invariant is
  kept, the allocated block is new, and a failed allocation leaves the cache as it was.
\<close>

section \<open>Writing a header\<close>

lemma writeMethodHeader_fields [simp]:
  "warmCodeAlloc (writeMethodHeader cfg p n k cc) = warmCodeAlloc cc"
  "coldCodeAlloc (writeMethodHeader cfg p n k cc) = coldCodeAlloc cc"
  "segmentBase (writeMethodHeader cfg p n k cc) = segmentBase cc"
  "segmentTop (writeMethodHeader cfg p n k cc) = segmentTop cc"
  "trampolineBase (writeMethodHeader cfg p n k cc) = trampolineBase cc"
  "CCPreLoadedCodeBase (writeMethodHeader cfg p n k cc) = CCPreLoadedCodeBase cc"
  "repositoryFreeSpace (writeMethodHeader cfg p n k cc) = repositoryFreeSpace cc"
  "freeBlockList (writeMethodHeader cfg p n k cc) = freeBlockList cc"
  "sizeOfLargestFreeWarmBlock (writeMethodHeader cfg p n k cc) = sizeOfLargestFreeWarmBlock cc"
  "sizeOfLargestFreeColdBlock (writeMethodHeader cfg p n k cc) = sizeOfLargestFreeColdBlock cc"
  "fbSize (mem (writeMethodHeader cfg p n k cc)) = fbSize (mem cc)"
  "fbNext (mem (writeMethodHeader cfg p n k cc)) = fbNext (mem cc)"
  by (simp_all add: writeMethodHeader_def)

lemma layoutOk_cong:
  assumes "sameArea cc cc'" "freeBlockList cc' = freeBlockList cc"
    "fbSize (mem cc') = fbSize (mem cc)" "fbNext (mem cc') = fbNext (mem cc)"
    "sizeOfLargestFreeWarmBlock cc' = sizeOfLargestFreeWarmBlock cc"
    "sizeOfLargestFreeColdBlock cc' = sizeOfLargestFreeColdBlock cc"
  shows "layoutOk cfg cc' bs U = layoutOk cfg cc bs U"
proof -
  have "lseg (mem cc') p xs q = lseg (mem cc) p xs q" for p xs q
    using assms(3,4) by (intro lseg_cong) simp
  then show ?thesis
    using assms(1,2,5,6) sameArea_cong [OF assms(1)]
    by (simp add: layoutOk_def freeOk_def tilesOk_def sameArea_def)
qed

lemma layoutOk_header [simp]:
  "layoutOk cfg (writeMethodHeader cfg p n k cc) bs U = layoutOk cfg cc bs U"
  by (rule layoutOk_cong) (simp_all add: sameArea_def)

lemma header_written:
  assumes "eyesOk cfg cc U" "headerSizesOk cc U" "p \<notin> fst ` U" "n < 2 ^ 32"
  shows "eyesOk cfg (writeMethodHeader cfg p n k cc) (insert (p, n) U)"
    "headerSizesOk (writeMethodHeader cfg p n k cc) (insert (p, n) U)"
  using assms by (auto simp: eyesOk_def headerSizesOk_def writeMethodHeader_def image_iff)

section \<open>Lists without the block\<close>

lemma coalesced_remove:
  assumes "coalesced w c (us @ b # vs)" "0 < snd b"
  shows "coalesced w c (us @ vs)"
proof -
  have "fst (last us) + snd (last us) < fst (hd vs)" if "us \<noteq> []" "vs \<noteq> []"
    using coalesced_sorted [OF assms(1), of "last us" b] coalesced_sorted [of w c "us @ [b]" vs b "hd vs"] assms that
    by force
  then show ?thesis using assms(1) by (auto simp: coalesced_append dest: coalesced_tl)
qed

lemma coalesced_shrink:
  assumes "coalesced w c (us @ b # vs)" "fst b < fst b'" "fst b' + snd b' = fst b + snd b" "(fst b' < w) = (fst b < w)"
  shows "coalesced w c (us @ b' # vs)"
proof -
  have "fst (last us) + snd (last us) < fst b'" if "us \<noteq> []"
    using coalesced_sorted [OF assms(1), of "last us" b] assms(2) that by force
  then show ?thesis using assms by (auto simp: coalesced_append coalesced_Cons mergeable_def)
qed

lemma coalesced_leftover:
  assumes "coalesced w c (us @ b # vs)" "wanted \<le> snd b" "0 < wanted" "inRegion w c b" "w \<le> c"
  shows "coalesced w c (us @ leftover wanted b @ vs)"
proof (cases "snd b - wanted \<ge> MIN_SIZE_BLOCK")
  case True
  then show ?thesis using assms coalesced_shrink [OF assms(1), of "(fst b + wanted, snd b - wanted)"]
    by (auto simp: leftover_def inRegion_def sizeof_defs)
next
  case False
  then show ?thesis using assms coalesced_remove [OF assms(1)] by (simp add: leftover_def)
qed

lemma leftover_ok:
  assumes "blockOk cfg b" "inRegion w c b" "codeCacheAlignment cfg dvd wanted" "16 < wanted" "wanted \<le> snd b" "w \<le> c"
  shows "\<forall>x\<in>set (leftover wanted b). blockOk cfg x \<and> inRegion w c x \<and> (fst x < w) = (fst b < w) \<and> (c \<le> fst x) = (c \<le> fst b) \<and> snd x \<le> snd b"
    "blockOk cfg (taken wanted b)" "inRegion w c (taken wanted b)"
  using assms by (auto simp: leftover_def taken_def blockOk_def inRegion_def sizeof_defs)

text \<open>The size of the largest block after one is taken.\<close>

lemma maxSize_without:
  assumes "distinct (map fst (us @ b # vs))" "P (fst b)"
  shows "maxSize (\<lambda>a. P a \<and> a \<noteq> fst b) (us @ b # vs) = maxSize P (us @ vs)"
proof -
  have "maxSize (\<lambda>a. P a \<and> a \<noteq> fst b) us = maxSize P us" "maxSize (\<lambda>a. P a \<and> a \<noteq> fst b) vs = maxSize P vs"
    using assms(1) by (auto intro!: maxSize_cong simp: rev_image_eqI)
  then show ?thesis by (simp add: maxSize_append)
qed

lemma largest_after_take:
  assumes big: "biggestOf P (us @ b # vs) st" and dist: "distinct (map fst (us @ b # vs))" and b: "P (fst b)"
    and left: "\<forall>x\<in>set (leftover wanted b). P (fst x) \<and> snd x \<le> snd b"
      "leftover wanted b = (if l = 0 then [] else [(l, sz l)])"
    and sizes: "\<forall>x\<in>set (us @ vs). sz (fst x) = snd x \<and> fst x \<noteq> 0"
  shows "maxSize P (us @ leftover wanted b @ vs) =
    (if fst b = biggestLink st
     then max (if l \<noteq> 0 then sz l else 0) (if secondBiggestLink st \<noteq> 0 then sz (secondBiggestLink st) else 0)
     else maxSize P (us @ b # vs))"
proof -
  have l: "maxSize P (leftover wanted b) = (if l \<noteq> 0 then sz l else 0)" using left by auto
  have split: "maxSize P (us @ leftover wanted b @ vs) = max (maxSize P (leftover wanted b)) (maxSize P (us @ vs))"
    by (simp add: maxSize_append max.left_commute)
  show ?thesis
  proof (cases "fst b = biggestLink st")
    case True
    have "maxLink (\<lambda>a. P a \<and> a \<noteq> fst b) (us @ b # vs) (secondBiggestLink st)"
      using big True by (simp add: biggestOf_def)
    then consider "secondBiggestLink st = 0" "\<forall>x\<in>set (us @ b # vs). \<not> (P (fst x) \<and> fst x \<noteq> fst b)"
      | x where "x \<in> set (us @ b # vs)" "P (fst x)" "fst x \<noteq> fst b" "secondBiggestLink st = fst x" "snd x = maxSize P (us @ vs)"
      unfolding maxLink_def maxSize_without [OF dist, of P, OF b] by (elim disjE conjE bexE) metis+
    then have "maxSize P (us @ vs) = (if secondBiggestLink st \<noteq> 0 then sz (secondBiggestLink st) else 0)"
    proof cases
      case 1
      have "fst x \<noteq> fst b" if "x \<in> set (us @ vs)" for x using dist that by (auto simp: rev_image_eqI)
      then show ?thesis using 1 maxSize_none [of "us @ vs" P] by auto
    next
      case 2
      then have "x \<in> set (us @ vs)" by auto
      then show ?thesis using 2 sizes by auto
    qed
    then show ?thesis using True split l by simp
  next
    case False
    obtain x where x: "x \<in> set (us @ b # vs)" "P (fst x)" "biggestLink st = fst x" "snd x = maxSize P (us @ b # vs)"
      using big b unfolding biggestOf_def maxLink_def by (metis in_set_conv_decomp)
    then have "x \<in> set (us @ vs)" using False by auto
    then have "maxSize P (us @ b # vs) \<le> maxSize P (us @ vs)" using x maxSize_ge [of x "us @ vs" P] by simp
    moreover have "maxSize P (leftover wanted b) \<le> maxSize P (us @ b # vs)"
      unfolding maxSize_le_iff using left(1) maxSize_ge [of b "us @ b # vs" P] b by fastforce
    ultimately show ?thesis using False split by (simp add: maxSize_append max_def split: if_splits)
  qed
qed

section \<open>Taking a block from the free list\<close>

lemma freeOk_distinct:
  assumes "freeOk cfg cc bs" shows "distinct (map fst bs)"
proof -
  have co: "coalesced (warmCodeAlloc cc) (coldCodeAlloc cc) bs" and pos: "\<forall>b\<in>set bs. 0 < snd b"
    using assms by (auto simp: freeOk_def blockOk_def)
  then show ?thesis
  proof (induction bs)
    case (Cons b bs)
    then have "\<forall>x\<in>set bs. fst b + snd b \<le> fst x" by (metis coalesced_Cons_less)
    then show ?case using Cons coalesced_tl [OF Cons.prems(1)] by fastforce
  qed simp
qed

lemma kind_eq:
  assumes "boundsOk cfg cc" "inRegion (warmCodeAlloc cc) (coldCodeAlloc cc) b" "0 < snd b"
  shows "wantedKind cc isCold (fst b) = (if isCold then \<not> fst b < warmCodeAlloc cc else fst b < warmCodeAlloc cc)"
  using assms by (auto simp: wantedKind_def inRegion_def boundsOk_def)

text \<open>The largest block sizes that \<open>findFreeBlock\<close> records.\<close>

definition recordLargest :: "bool \<Rightarrow> nat \<Rightarrow> codeCache \<Rightarrow> codeCache" where
  "recordLargest isCold m cc =
     (if \<not> isCold then cc\<lparr>sizeOfLargestFreeWarmBlock := m\<rparr> else cc\<lparr>sizeOfLargestFreeColdBlock := m\<rparr>)"

lemma recordLargest_fields [simp]:
  "mem (recordLargest k m cc) = mem cc" "freeBlockList (recordLargest k m cc) = freeBlockList cc"
  "warmCodeAlloc (recordLargest k m cc) = warmCodeAlloc cc" "coldCodeAlloc (recordLargest k m cc) = coldCodeAlloc cc"
  "sameArea cc' (recordLargest k m cc) = sameArea cc' cc"
  "sizeOfLargestFreeWarmBlock (recordLargest k m cc) = (if k then sizeOfLargestFreeWarmBlock cc else m)"
  "sizeOfLargestFreeColdBlock (recordLargest k m cc) = (if k then m else sizeOfLargestFreeColdBlock cc)"
  by (simp_all add: recordLargest_def sameArea_def)

lemma freeOk_take:
  assumes bnd: "boundsOk cfg cc" and free: "freeOk cfg cc (us @ b # vs)"
    and big: "biggestOf (wantedKind cc isCold) (us @ b # vs) st" and kind: "wantedKind cc isCold (fst b)"
    and want: "codeCacheAlignment cfg dvd wanted" "16 < wanted" "wanted \<le> snd b"
    and er: "eraseList cc1 = eraseList cc"
    and fl: "freeList (mem cc1) (freeBlockList cc1) (us @ leftover wanted b @ vs)"
    and left: "leftover wanted b = (if l = 0 then [] else [(l, fbSize (mem cc1) l)])"
    and sizes: "\<forall>x\<in>set (us @ vs). fbSize (mem cc1) (fst x) = snd x"
    and m: "m = max (if l \<noteq> 0 then fbSize (mem cc1) l else 0)
      (if secondBiggestLink st \<noteq> 0 then fbSize (mem cc1) (secondBiggestLink st) else 0)"
  shows "freeOk cfg (if fst b = biggestLink st then recordLargest isCold m cc1 else cc1) (us @ leftover wanted b @ vs)"
proof -
  let ?w = "warmCodeAlloc cc" and ?c = "coldCodeAlloc cc" and ?bs = "us @ b # vs" and ?bs' = "us @ leftover wanted b @ vs"
  let ?K = "wantedKind cc isCold" and ?N = "\<lambda>a. if isCold then a < ?w else \<not> a < ?w"
  have wc: "?w \<le> ?c" using bnd by (simp add: boundsOk_def)
  have ok: "\<forall>x\<in>set ?bs. blockOk cfg x \<and> inRegion ?w ?c x" and co: "coalesced ?w ?c ?bs" using free by (auto simp: freeOk_def)
  have b: "blockOk cfg b" "inRegion ?w ?c b" using ok by auto
  note lo = leftover_ok [OF b want wc]
  have ok': "\<forall>x\<in>set ?bs'. blockOk cfg x \<and> inRegion ?w ?c x" using ok lo(1) by auto
  have co': "coalesced ?w ?c ?bs'" using want by (intro coalesced_leftover [OF co _ _ b(2) wc]) auto
  have kinds: "?K (fst x) = (if isCold then \<not> fst x < ?w else fst x < ?w)" if "x \<in> set ?bs \<union> set ?bs'" for x
    using that ok ok' blockOk_pos by (intro kind_eq [OF bnd]) blast+
  have leftK: "\<forall>x\<in>set (leftover wanted b). ?K (fst x) \<and> snd x \<le> snd b"
    using lo(1) kind by (auto simp: wantedKind_def)
  have nz: "\<forall>x\<in>set (us @ vs). fbSize (mem cc1) (fst x) = snd x \<and> fst x \<noteq> 0"
    using sizes lseg_sizes [OF fl] by auto
  have largest: "maxSize ?K ?bs' = (if fst b = biggestLink st then m else maxSize ?K ?bs)"
    unfolding m by (rule largest_after_take [OF big freeOk_distinct [OF free] kind leftK left nz])
  have other: "maxSize ?N ?bs' = maxSize ?N ?bs"
  proof -
    have "\<not> ?N (fst b)" "\<forall>x\<in>set (leftover wanted b). \<not> ?N (fst x)"
      using kinds [of b] kind kinds leftK by (auto split: if_splits)
    then show ?thesis by (simp add: maxSize_append maxSize_none)
  qed
  have cong: "maxSize ?K xs = maxSize (\<lambda>a. if isCold then \<not> a < ?w else a < ?w) xs" if "set xs \<subseteq> set ?bs \<union> set ?bs'" for xs
    using kinds that by (intro maxSize_cong) blast
  have large: "sizeOfLargestFreeWarmBlock cc = maxSize (\<lambda>a. a < ?w) ?bs" "sizeOfLargestFreeColdBlock cc = maxSize (\<lambda>a. \<not> a < ?w) ?bs"
    using free by (auto simp: freeOk_def)
  show ?thesis
    using largest [unfolded cong [of ?bs', OF Un_upper2] cong [of ?bs, OF Un_upper1]] other large ok' co' fl eraseList_fields(1,2,5,6) [OF er]
    by (cases isCold) (auto simp: freeOk_def)
qed

text \<open>The free block \<open>b\<close> becomes the used block \<open>u\<close> and what is left of it.\<close>

lemma tilesOk_take:
  assumes tiles: "tilesOk cfg cc (us @ b # vs) U" and want: "wanted \<le> snd b"
    and u: "blockOk cfg (taken wanted b)" "inRegion (warmCodeAlloc cc) (coldCodeAlloc cc) (taken wanted b)"
    and co: "coalesced (warmCodeAlloc cc) (coldCodeAlloc cc) (us @ b # vs)"
    and same: "sameArea cc cc'"
  shows "tilesOk cfg cc' (us @ leftover wanted b @ vs) (insert (taken wanted b) U)"
proof -
  let ?u = "taken wanted b"
  have "blockRange b \<inter> blockRange x = {}" if "x \<in> set (us @ vs)" for x
  proof -
    have "fst x + snd x \<le> fst b \<or> fst b + snd b \<le> fst x"
      using that coalesced_sorted [OF co, of x b] coalesced_sorted [of _ _ "us @ [b]" vs b x] co by auto
    then show ?thesis by (auto simp: blockRange_def)
  qed
  then have "blockRange b \<inter> blockBytes (us @ vs) = {}" unfolding blockBytes_def by blast
  moreover have "blockRange b \<inter> usedBytes U = {}" "blockBytes (us @ vs) \<inter> usedBytes U = {}"
    using tiles by (auto simp: tilesOk_def)
  moreover note taken_leftover [OF want]
  ultimately have sets: "blockBytes (us @ leftover wanted b @ vs) \<union> usedBytes (insert ?u U) = blockBytes (us @ b # vs) \<union> usedBytes U"
    "blockBytes (us @ leftover wanted b @ vs) \<inter> usedBytes (insert ?u U) = {}" "\<forall>v\<in>U. blockRange ?u \<inter> blockRange v = {}"
    unfolding usedBytes_insert by (auto simp: usedBytes_def)
  then show ?thesis using tiles u same sameArea_cong(1) [OF same, of cfg]
    unfolding tilesOk_def by (auto simp: sameArea_def Int_commute)
qed

lemma taken_not_used:
  assumes "tilesOk cfg cc (us @ b # vs) U" "blockOk cfg b"
  shows "fst b \<notin> fst ` U"
proof
  assume "fst b \<in> fst ` U"
  then obtain u where u: "u \<in> U" "fst u = fst b" by auto
  then have "fst b \<in> blockRange u" using assms(1) blockRange_start [of cfg u] by (auto simp: tilesOk_def)
  then show False using assms u blockRange_start [OF assms(2)] by (auto simp: tilesOk_def usedBytes_def)
qed

lemma block_size_bound:
  assumes "layoutOk cfg cc bs U" "b \<in> set bs"
  shows "snd b < 2 ^ 32"
  using free_block_bounds [OF assms] codeLow_bounds(1) [of cfg cc] assms(1)
  by (auto simp: layoutOk_def boundsOk_def)

lemma bestOf_exists:
  assumes lay: "layoutOk cfg cc bs U" and best: "bestOf (wantedKind cc isCold) wanted bs st" and pos: "0 < wanted"
    and large: "wanted \<le> (if isCold then sizeOfLargestFreeColdBlock cc else sizeOfLargestFreeWarmBlock cc)"
  obtains us b vs where "bs = us @ b # vs" "wantedKind cc isCold (fst b)" "wanted \<le> snd b" "bestFitLink st = fst b"
    "bestFitLinkPrev st = (if us = [] then 0 else fst (last us))"
    "\<forall>x\<in>set bs. wantedKind cc isCold (fst x) \<and> wanted \<le> snd x \<longrightarrow> snd b \<le> snd x"
proof -
  let ?P = "\<lambda>a. if isCold then \<not> a < warmCodeAlloc cc else a < warmCodeAlloc cc"
  have "wanted \<le> maxSize ?P bs" using large lay by (cases isCold) (auto simp: layoutOk_def freeOk_def)
  then obtain x where x: "x \<in> set bs" "?P (fst x)" "wanted \<le> snd x"
    using pos maxSize_attained [of ?P bs] by auto
  moreover have "wantedKind cc isCold (fst x) = ?P (fst x)"
    using lay x(1) blockOk_pos by (intro kind_eq) (auto simp: layoutOk_def freeOk_def blockOk_def)
  ultimately have "\<not> (\<forall>b\<in>set bs. wantedKind cc isCold (fst b) \<longrightarrow> snd b < wanted)" by auto
  then show thesis using best that unfolding bestOf_def by blast
qed

lemma scan_whole_list:
  assumes free: "freeOk cfg cc bs"
  obtains st where "scanFreeBlocks cc wanted isCold (freeBlockList cc) 0
      \<lparr>bestFitLink = 0, bestFitLinkPrev = 0, biggestLink = 0, secondBiggestLink = 0\<rparr> = Some st"
    "biggestOf (wantedKind cc isCold) bs st" "bestOf (wantedKind cc isCold) wanted bs st"
proof -
  have fl: "freeList (mem cc) (freeBlockList cc) bs" using free by (simp add: freeOk_def)
  let ?st0 = "\<lparr>bestFitLink = 0, bestFitLinkPrev = 0, biggestLink = 0, secondBiggestLink = 0\<rparr>"
  show thesis
    using that scanFreeBlocks_finds [OF fl, of isCold "[]" ?st0 wanted 0] lseg_sizes [OF fl] freeOk_distinct [OF free]
    by (auto simp: biggestOf_def bestOf_def maxLink_def)
qed

lemma others_apart:
  assumes "freeOk cfg cc (us @ b # vs)"
  shows "\<forall>x\<in>set (us @ vs). fst x \<notin> blockRange b"
proof
  fix x assume x: "x \<in> set (us @ vs)"
  have co: "coalesced (warmCodeAlloc cc) (coldCodeAlloc cc) (us @ b # vs)" using assms by (simp add: freeOk_def)
  have "0 < snd x" using x assms blockOk_pos [of cfg x] by (auto simp: freeOk_def)
  moreover have "fst x + snd x \<le> fst b \<or> fst b + snd b \<le> fst x"
    using x coalesced_sorted [OF co, of x b] coalesced_sorted [of _ _ "us @ [b]" vs b x] co by auto
  ultimately show "fst x \<notin> blockRange b" by (auto simp: blockRange_def)
qed

text \<open>What \<open>findFreeBlock\<close> does once the loop has found a block.\<close>

lemma findFreeBlock_found:
  assumes "scanFreeBlocks cc wanted isCold (freeBlockList cc) 0
      \<lparr>bestFitLink = 0, bestFitLinkPrev = 0, biggestLink = 0, secondBiggestLink = 0\<rparr> = Some st"
    "bestFitLink st = a" "a \<noteq> 0" "removeFreeBlock wanted (bestFitLinkPrev st) a cc = (l, cc1)"
    "cc2 = (if a = biggestLink st then recordLargest isCold (max (if l \<noteq> 0 then fbSize (mem cc1) l else 0)
      (if secondBiggestLink st \<noteq> 0 then fbSize (mem cc1) (secondBiggestLink st) else 0)) cc1 else cc1)"
  shows "findFreeBlock cfg wanted isCold True cc =
    sanityCheck cfg (writeMethodHeader cfg a (fbSize (mem cc2) a) isCold cc2) a"
  using assms(2,3,4) unfolding findFreeBlock_def assms(1) assms(5)
  by (simp add: Let_def recordLargest_def max_def not_le split: if_splits)

lemma findFreeBlock_ok:
  assumes lay: "layoutOk cfg cc bs U" and eyes: "eyesOk cfg cc U" and hs: "headerSizesOk cc U"
    and want: "codeCacheAlignment cfg dvd wanted" "16 < wanted"
    and large: "wanted \<le> (if isCold then sizeOfLargestFreeColdBlock cc else sizeOfLargestFreeWarmBlock cc)"
  obtains us b vs cc' where "bs = us @ b # vs" "wantedKind cc isCold (fst b)" "wanted \<le> snd b"
    "\<forall>x\<in>set bs. wantedKind cc isCold (fst x) \<and> wanted \<le> snd x \<longrightarrow> snd b \<le> snd x"
    "findFreeBlock cfg wanted isCold True cc = Some (Ok (fst b, cc'))"
    "layoutOk cfg cc' (us @ leftover wanted b @ vs) (insert (taken wanted b) U)"
    "eyesOk cfg cc' (insert (taken wanted b) U)" "headerSizesOk cc' (insert (taken wanted b) U)"
    "sameArea cc cc'" "fst b \<notin> fst ` U"
    "if isCold then sizeOfLargestFreeWarmBlock cc' = sizeOfLargestFreeWarmBlock cc
     else sizeOfLargestFreeColdBlock cc' = sizeOfLargestFreeColdBlock cc"
proof -
  have bnd: "boundsOk cfg cc" and free: "freeOk cfg cc bs" and tiles: "tilesOk cfg cc bs U"
    using lay by (auto simp: layoutOk_def)
  have pos: "0 < wanted" using want by simp
  obtain st where scan: "scanFreeBlocks cc wanted isCold (freeBlockList cc) 0
      \<lparr>bestFitLink = 0, bestFitLinkPrev = 0, biggestLink = 0, secondBiggestLink = 0\<rparr> = Some st"
    and big: "biggestOf (wantedKind cc isCold) bs st" and best: "bestOf (wantedKind cc isCold) wanted bs st"
    by (rule scan_whole_list [OF free])
  obtain us b vs where bs: "bs = us @ b # vs" and b: "wantedKind cc isCold (fst b)" "wanted \<le> snd b" "bestFitLink st = fst b"
    "bestFitLinkPrev st = (if us = [] then 0 else fst (last us))"
    "\<forall>x\<in>set bs. wantedKind cc isCold (fst x) \<and> wanted \<le> snd x \<longrightarrow> snd b \<le> snd x"
    by (rule bestOf_exists [OF lay best pos large])
  have co: "coalesced (warmCodeAlloc cc) (coldCodeAlloc cc) (us @ b # vs)"
    and bok: "blockOk cfg b" "inRegion (warmCodeAlloc cc) (coldCodeAlloc cc) b" using free by (auto simp: freeOk_def bs)
  have nz: "fst b \<noteq> 0" using blockOk_pos [OF bok(1)] by simp
  have sz: "snd b < 2 ^ 32" "snd b < 2 ^ 64" using block_size_bound [OF lay, of b] bs by simp_all
  have fl: "freeList (mem cc) (freeBlockList cc) (us @ b # vs)" using free by (simp add: freeOk_def bs)
  obtain l cc1 where rm: "removeFreeBlock wanted (bestFitLinkPrev st) (fst b) cc = (l, cc1)" "eraseList cc1 = eraseList cc"
    "freeList (mem cc1) (freeBlockList cc1) (us @ leftover wanted b @ vs)" "fbSize (mem cc1) (fst b) = snd (taken wanted b)"
    "leftover wanted b = (if l = 0 then [] else [(l, fbSize (mem cc1) l)])" "\<forall>x\<in>set (us @ vs). fbSize (mem cc1) (fst x) = snd x"
    by (rule removeFreeBlock_list [OF fl freeOk_distinct [OF free [unfolded bs]] b(4) b(2) sz(2) pos
      others_apart [OF free [unfolded bs]]])
  define m where "m = max (if l \<noteq> 0 then fbSize (mem cc1) l else 0)
      (if secondBiggestLink st \<noteq> 0 then fbSize (mem cc1) (secondBiggestLink st) else 0)"
  define cc2 where "cc2 = (if fst b = biggestLink st then recordLargest isCold m cc1 else cc1)"
  define cc3 where "cc3 = writeMethodHeader cfg (fst b) (fbSize (mem cc2) (fst b)) isCold cc2"
  have same: "sameArea cc cc2" using sameArea_erase [OF rm(2)] by (simp add: cc2_def)
  have same3: "sameArea cc cc3" using same by (simp add: cc3_def sameArea_def)
  have bnd2: "boundsOk cfg cc2" using bnd sameArea_cong(2) [OF same] by simp
  note lo = leftover_ok [OF bok want(1,2) b(2)]
  have lay2: "layoutOk cfg cc2 (us @ leftover wanted b @ vs) (insert (taken wanted b) U)"
    unfolding layoutOk_def
    using bnd2 freeOk_take [OF bnd free [unfolded bs] big [unfolded bs] b(1) want b(2) rm(2,3,5,6) m_def]
      tilesOk_take [OF tiles [unfolded bs] b(2) lo(2,3) co same] bnd by (simp add: cc2_def boundsOk_def)
  have mem2: "mem cc2 = mem cc1" by (simp add: cc2_def)
  have tk: "(fst b, fbSize (mem cc2) (fst b)) = taken wanted b" using rm(4) mem2 by (simp add: taken_def)
  have new: "fst b \<notin> fst ` U" by (rule taken_not_used [OF tiles [unfolded bs] bok(1)])
  have "fbSize (mem cc2) (fst b) < 2 ^ 32" using rm(4) mem2 sz b(2) by (auto simp: taken_def)
  moreover have "eyesOk cfg cc2 U" "headerSizesOk cc2 U"
    using eyes hs eraseList_fields(7,8) [OF rm(2)] mem2 by (simp_all add: eyesOk_def headerSizesOk_def)
  ultimately have h: "eyesOk cfg cc3 (insert (taken wanted b) U)" "headerSizesOk cc3 (insert (taken wanted b) U)"
    using header_written [of cfg cc2 U "fst b"] new unfolding cc3_def tk [symmetric] by auto
  have lay3: "layoutOk cfg cc3 (us @ leftover wanted b @ vs) (insert (taken wanted b) U)" using lay2 by (simp add: cc3_def)
  have "findFreeBlock cfg wanted isCold True cc = sanityCheck cfg cc3 (fst b)"
    unfolding cc3_def by (rule findFreeBlock_found [OF scan b(3) nz rm(1) cc2_def [unfolded m_def]])
  also have "\<dots> = Some (Ok (fst b, cc3))" by (rule sanityCheck_ok [OF lay3 h(1)])
  finally show thesis by (rule that [OF bs b(1,2,5) _ lay3 h same3 new])
    (simp add: cc3_def cc2_def eraseList_fields(5,6) [OF rm(2)])
qed

section \<open>Allocating at an end of the contiguous space\<close>

lemma coalesced_cong:
  assumes "coalesced w c bs" "\<forall>b\<in>set bs. (fst b < w') = (fst b < w) \<and> (c' \<le> fst b) = (c \<le> fst b)"
  shows "coalesced w' c' bs"
  using assms by (induction w c bs rule: coalesced.induct) (auto simp: mergeable_def)

text \<open>The warm code grows upwards or the cold code downwards by the block \<open>u\<close>.\<close>

definition grown :: "codeCache \<Rightarrow> blk \<Rightarrow> codeCache \<Rightarrow> bool" where
  "grown cc u cc' \<longleftrightarrow>
     (u = (warmCodeAlloc cc, snd u) \<and> warmCodeAlloc cc' = warmCodeAlloc cc + snd u \<and> coldCodeAlloc cc' = coldCodeAlloc cc \<or>
      u = (coldCodeAlloc cc', snd u) \<and> warmCodeAlloc cc' = warmCodeAlloc cc \<and> coldCodeAlloc cc = coldCodeAlloc cc' + snd u) \<and>
     warmCodeAlloc cc' \<le> coldCodeAlloc cc' \<and> freeBlockList cc' = freeBlockList cc \<and>
     fbSize (mem cc') = fbSize (mem cc) \<and> fbNext (mem cc') = fbNext (mem cc) \<and>
     sizeOfLargestFreeWarmBlock cc' = sizeOfLargestFreeWarmBlock cc \<and>
     sizeOfLargestFreeColdBlock cc' = sizeOfLargestFreeColdBlock cc \<and>
     segmentBase cc' = segmentBase cc \<and> segmentTop cc' = segmentTop cc \<and>
     trampolineBase cc' = trampolineBase cc \<and> CCPreLoadedCodeBase cc' = CCPreLoadedCodeBase cc"

lemma layoutOk_grow:
  assumes lay: "layoutOk cfg cc bs U" and g: "grown cc u cc'"
    and n: "codeCacheAlignment cfg dvd snd u" "16 < snd u"
  shows "layoutOk cfg cc' bs (insert u U)" "fst u \<notin> fst ` U"
proof -
  let ?w = "warmCodeAlloc cc" and ?c = "coldCodeAlloc cc" and ?w' = "warmCodeAlloc cc'" and ?c' = "coldCodeAlloc cc'"
  have bnd: "boundsOk cfg cc" and free: "freeOk cfg cc bs" and tiles: "tilesOk cfg cc bs U"
    using lay by (auto simp: layoutOk_def)
  have u: "fst u = ?w \<and> ?w' = ?w + snd u \<and> ?c' = ?c \<or> fst u = ?c' \<and> ?w' = ?w \<and> ?c = ?c' + snd u"
    using g unfolding grown_def prod_eq_iff by auto
  then have le: "?w \<le> ?w'" "?w' \<le> ?c'" "?c' \<le> ?c" using g unfolding grown_def by linarith+
  have low: "codeLow cfg cc' = codeLow cfg cc" "0 < codeLow cfg cc"
    using g codeLow_bounds(1) [OF bnd] by (auto simp: codeLow_def grown_def sizeof_defs)
  have bnd': "boundsOk cfg cc'"
  proof -
    have "codeCacheAlignment cfg dvd ?w'" "codeCacheAlignment cfg dvd ?c'"
      using u n bnd dvd_add_left_iff [OF n(1), of ?c'] by (auto simp: boundsOk_def)
    then show ?thesis using bnd g le low unfolding boundsOk_def grown_def by linarith
  qed
  have reg: "inRegion ?w' ?c' x \<and> (fst x < ?w') = (fst x < ?w) \<and> (?c' \<le> fst x) = (?c \<le> fst x)"
    if "inRegion ?w ?c x" "blockOk cfg x" for x
    using that le blockOk_pos [OF that(2)] by (auto simp: inRegion_def)
  have uok: "blockOk cfg u" "inRegion ?w' ?c' u"
    using u n bnd bnd' low by (auto simp: blockOk_def inRegion_def boundsOk_def sizeof_defs)
  have blocks: "\<forall>b\<in>set bs. blockOk cfg b \<and> inRegion ?w ?c b" using free by (simp add: freeOk_def)
  have free': "freeOk cfg cc' bs"
  proof -
    have "lseg (mem cc') p xs q = lseg (mem cc) p xs q" for p xs q using g by (intro lseg_cong) (simp add: grown_def)
    moreover have "coalesced ?w ?c bs" using free by (simp add: freeOk_def)
    then have "coalesced ?w' ?c' bs" by (rule coalesced_cong) (use blocks reg in blast)
    moreover have "maxSize (\<lambda>a. a < ?w') bs = maxSize (\<lambda>a. a < ?w) bs" "maxSize (\<lambda>a. \<not> a < ?w') bs = maxSize (\<lambda>a. \<not> a < ?w) bs"
      by (rule maxSize_cong; use blocks reg in blast)+
    moreover have "\<forall>b\<in>set bs. inRegion ?w' ?c' b" using blocks reg by blast
    ultimately show ?thesis using free g blocks by (simp add: freeOk_def grown_def)
  qed
  have area: "codeArea cfg cc' = blockRange u \<union> codeArea cfg cc" "blockRange u \<inter> codeArea cfg cc = {}"
  proof -
    have eq: "codeArea cfg cc' = {codeLow cfg cc ..< ?w'} \<union> {?c' ..< CCPreLoadedCodeBase cc}"
      unfolding codeArea_def low using g by (simp add: grown_def)
    have b: "codeLow cfg cc \<le> ?w" "?c \<le> CCPreLoadedCodeBase cc" using bnd by (simp_all add: boundsOk_def)
    show "codeArea cfg cc' = blockRange u \<union> codeArea cfg cc" "blockRange u \<inter> codeArea cfg cc = {}"
      unfolding eq unfolding codeArea_def [of _ cc] blockRange_def using u le b by (elim disjE conjE; force)+
  qed
  have used: "usedBytes U \<subseteq> codeArea cfg cc" "blockBytes bs \<subseteq> codeArea cfg cc" using tiles by (auto simp: tilesOk_def)
  have disj: "\<forall>v\<in>U. blockRange u \<inter> blockRange v = {}" using area(2) used(1) by (auto simp: usedBytes_def)
  have "blockBytes bs \<union> usedBytes (insert u U) = codeArea cfg cc'" "blockBytes bs \<inter> usedBytes (insert u U) = {}"
    using tiles area used unfolding usedBytes_insert tilesOk_def by blast+
  moreover have "\<forall>v\<in>insert u U. blockOk cfg v \<and> inRegion ?w' ?c' v" using uok tiles reg by (auto simp: tilesOk_def)
  ultimately have "tilesOk cfg cc' bs (insert u U)" using tiles disj unfolding tilesOk_def by (auto simp: Int_commute)
  then show "layoutOk cfg cc' bs (insert u U)" using bnd' free' by (simp add: layoutOk_def)
  show "fst u \<notin> fst ` U"
  proof
    assume "fst u \<in> fst ` U"
    then obtain v where v: "v \<in> U" "fst v = fst u" by auto
    then have "fst u \<in> blockRange v" using tiles blockRange_start [of cfg v] by (auto simp: tilesOk_def)
    then show False using disj v blockRange_start [OF uok(1)] by auto
  qed
qed

end
