(* ===== verification/CacheRequests.thy ===== *)
theory CacheRequests
  imports CacheAllocation
begin

text \<open>
  The requests of the compiler to a code cache, \<open>allocateCodeMemory\<close> and
  \<open>trimCodeMemoryAllocation\<close>: when they succeed, what they return, and that they keep the
  invariant.
\<close>

section \<open>The invariant with headers and the repository's count\<close>

text \<open>
  \<open>K\<close> is the part of the repository's count that does not belong to this cache.
\<close>

definition repositoryOk :: "codeCacheConfig \<Rightarrow> nat \<Rightarrow> codeCache \<Rightarrow> bool" where
  "repositoryOk cfg K cc \<longleftrightarrow> K < 2 ^ 62 \<and>
     (usingRepository cfg \<longrightarrow> repositoryFreeSpace cc = K + (coldCodeAlloc cc - warmCodeAlloc cc))"

definition cacheOk :: "codeCacheConfig \<Rightarrow> nat \<Rightarrow> codeCache \<Rightarrow> blk list \<Rightarrow> blk set \<Rightarrow> bool" where
  "cacheOk cfg K cc bs U \<longleftrightarrow> layoutOk cfg cc bs U \<and> eyesOk cfg cc U \<and> headerSizesOk cc U \<and> repositoryOk cfg K cc"

lemma cacheOk_bounds:
  assumes "cacheOk cfg K cc bs U"
  shows "alignmentOk cfg" "warmCodeAlloc cc \<le> coldCodeAlloc cc" "coldCodeAlloc cc < 2 ^ 62"
    "codeCacheAlignment cfg dvd warmCodeAlloc cc" "codeCacheAlignment cfg dvd coldCodeAlloc cc"
    "coldCodeAlloc cc - warmCodeAlloc cc < 2 ^ 32"
proof -
  have b: "boundsOk cfg cc" using assms by (simp add: cacheOk_def layoutOk_def)
  then show "alignmentOk cfg" "warmCodeAlloc cc \<le> coldCodeAlloc cc" "coldCodeAlloc cc < 2 ^ 62"
    "codeCacheAlignment cfg dvd warmCodeAlloc cc" "codeCacheAlignment cfg dvd coldCodeAlloc cc"
    by (auto simp: boundsOk_def)
  show "coldCodeAlloc cc - warmCodeAlloc cc < 2 ^ 32"
    using b codeLow_bounds(1) [OF b] by (auto simp: boundsOk_def)
qed

section \<open>The sizes of a request\<close>

definition sizeOk :: "codeCacheConfig \<Rightarrow> nat \<Rightarrow> bool" where
  "sizeOk cfg s \<longleftrightarrow> codeCacheAlignment cfg dvd s \<and> 16 < s \<and> s < 2 ^ 62"

lemma align_request:
  assumes "alignmentOk cfg" "x < 2 ^ 61" "x \<noteq> 0"
  shows "sizeOk cfg (align (sadd x sizeof_CodeCacheMethodHeader) (codeCacheAlignment cfg - 1))"
    "x + 16 \<le> align (sadd x sizeof_CodeCacheMethodHeader) (codeCacheAlignment cfg - 1)"
    "align (sadd x sizeof_CodeCacheMethodHeader) (codeCacheAlignment cfg - 1) < x + 16 + codeCacheAlignment cfg"
proof -
  have s: "sadd x sizeof_CodeCacheMethodHeader = x + 16" using assms by (simp add: sadd_def sizeof_defs)
  have lt: "x + 16 < 2 ^ 63" using assms by simp
  note p = align_props [OF assms(1) lt] and b = alignment_bounds [OF assms(1)]
  show "sizeOk cfg (align (sadd x sizeof_CodeCacheMethodHeader) (codeCacheAlignment cfg - 1))"
    unfolding s sizeOk_def using p assms b by (intro conjI) (assumption | simp)+
  show "x + 16 \<le> align (sadd x sizeof_CodeCacheMethodHeader) (codeCacheAlignment cfg - 1)"
    "align (sadd x sizeof_CodeCacheMethodHeader) (codeCacheAlignment cfg - 1) < x + 16 + codeCacheAlignment cfg"
    unfolding s using p by simp_all
qed

text \<open>The warm and the cold size that a request asks for, before headers and alignment.\<close>

definition requestedWarm :: "nat \<Rightarrow> nat \<Rightarrow> bool \<Rightarrow> nat" where
  "requestedWarm w c contiguous = (if contiguous then w + c else w)"

definition requestedCold :: "nat \<Rightarrow> bool \<Rightarrow> nat" where
  "requestedCold c contiguous = (if contiguous then 0 else c)"

lemma requested_small:
  "w + c < 2 ^ 61 \<Longrightarrow> requestedWarm w c contiguous < 2 ^ 61 \<and> requestedCold c contiguous < 2 ^ 61"
  by (simp add: requestedWarm_def requestedCold_def)

definition withHeader :: "codeCacheConfig \<Rightarrow> nat \<Rightarrow> nat" where
  "withHeader cfg x = (if x = 0 then 0 else
     align (sadd x sizeof_CodeCacheMethodHeader) (codeCacheAlignment cfg - 1))"

lemma performSizeAdjustments_eq:
  assumes "w + c < 2 ^ 61"
  shows "performSizeAdjustments cfg w c contiguous True =
    (withHeader cfg (requestedWarm w c contiguous), withHeader cfg (requestedCold c contiguous))"
  using assms by (auto simp: performSizeAdjustments_def withHeader_def requestedWarm_def requestedCold_def Let_def sadd_def)

lemma withHeader_ok:
  assumes "alignmentOk cfg" "x < 2 ^ 61"
  shows "withHeader cfg x \<noteq> 0 \<longleftrightarrow> x \<noteq> 0" "x \<noteq> 0 \<Longrightarrow> sizeOk cfg (withHeader cfg x)"
    "x \<noteq> 0 \<Longrightarrow> x + 16 \<le> withHeader cfg x" "withHeader cfg x < 2 ^ 62"
  using align_request [OF assms] by (auto simp: withHeader_def sizeOk_def)

section \<open>The two parts of an allocation\<close>

lemma decrease_fields [simp]:
  "mem (decreaseFreeSpaceInCodeCacheRepository cfg n cc) = mem cc"
  "warmCodeAlloc (decreaseFreeSpaceInCodeCacheRepository cfg n cc) = warmCodeAlloc cc"
  "coldCodeAlloc (decreaseFreeSpaceInCodeCacheRepository cfg n cc) = coldCodeAlloc cc"
  "freeBlockList (decreaseFreeSpaceInCodeCacheRepository cfg n cc) = freeBlockList cc"
  "sizeOfLargestFreeWarmBlock (decreaseFreeSpaceInCodeCacheRepository cfg n cc) = sizeOfLargestFreeWarmBlock cc"
  "sizeOfLargestFreeColdBlock (decreaseFreeSpaceInCodeCacheRepository cfg n cc) = sizeOfLargestFreeColdBlock cc"
  "segmentBase (decreaseFreeSpaceInCodeCacheRepository cfg n cc) = segmentBase cc"
  "segmentTop (decreaseFreeSpaceInCodeCacheRepository cfg n cc) = segmentTop cc"
  "trampolineBase (decreaseFreeSpaceInCodeCacheRepository cfg n cc) = trampolineBase cc"
  "CCPreLoadedCodeBase (decreaseFreeSpaceInCodeCacheRepository cfg n cc) = CCPreLoadedCodeBase cc"
  "usingRepository cfg \<Longrightarrow> repositoryFreeSpace (decreaseFreeSpaceInCodeCacheRepository cfg n cc) = psub (repositoryFreeSpace cc) n"
  by (simp_all add: decreaseFreeSpaceInCodeCacheRepository_def)

text \<open>A block at an end of the contiguous space, with its header.\<close>

lemma cacheOk_grow:
  assumes ok: "cacheOk cfg K cc bs U" and g: "grown cc (p, n) cc1" and n: "sizeOk cfg n"
    and m: "mhSize (mem cc1) = mhSize (mem cc)" "mhEyeCatcher (mem cc1) = mhEyeCatcher (mem cc)"
    and r: "usingRepository cfg \<Longrightarrow> repositoryFreeSpace cc1 = psub (repositoryFreeSpace cc) n"
  shows "cacheOk cfg K (writeMethodHeader cfg p n k cc1) bs (insert (p, n) U)" "p \<notin> fst ` U"
proof -
  have lay: "layoutOk cfg cc bs U" and h: "eyesOk cfg cc1 U" "headerSizesOk cc1 U"
    using ok m by (auto simp: cacheOk_def eyesOk_def headerSizesOk_def)
  have n': "codeCacheAlignment cfg dvd snd (p, n)" "16 < snd (p, n)" using n by (auto simp: sizeOk_def)
  note gr = layoutOk_grow [OF lay g n']
  show new: "p \<notin> fst ` U" using gr(2) by simp
  have g': "coldCodeAlloc cc - warmCodeAlloc cc = coldCodeAlloc cc1 - warmCodeAlloc cc1 + n"
    using g unfolding grown_def by auto
  then have "n < 2 ^ 32" using cacheOk_bounds(6) [OF ok] by simp
  note hw = header_written [OF h new this, of k]
  have "repositoryOk cfg K cc1"
    using ok r g' cacheOk_bounds(6) [OF ok] by (auto simp: cacheOk_def repositoryOk_def psub_le)
  then show "cacheOk cfg K (writeMethodHeader cfg p n k cc1) bs (insert (p, n) U)"
    using gr(1) hw by (simp add: cacheOk_def repositoryOk_def)
qed

lemma findFreeBlock_cacheOk:
  assumes ok: "cacheOk cfg K cc bs U" and n: "sizeOk cfg n"
    and large: "n \<le> (if isCold then sizeOfLargestFreeColdBlock cc else sizeOfLargestFreeWarmBlock cc)"
  obtains p m bs' cc' where "findFreeBlock cfg n isCold True cc = Some (Ok (p, cc'))" "n \<le> m" "p \<notin> fst ` U"
    "cacheOk cfg K cc' bs' (insert (p, m) U)" "sameArea cc cc'"
    "if isCold then sizeOfLargestFreeWarmBlock cc' = sizeOfLargestFreeWarmBlock cc
     else sizeOfLargestFreeColdBlock cc' = sizeOfLargestFreeColdBlock cc"
proof -
  have c: "layoutOk cfg cc bs U" "eyesOk cfg cc U" "headerSizesOk cc U" "repositoryOk cfg K cc"
    "codeCacheAlignment cfg dvd n" "16 < n" using ok n by (auto simp: cacheOk_def sizeOk_def)
  obtain us b vs cc' where f: "n \<le> snd b" "findFreeBlock cfg n isCold True cc = Some (Ok (fst b, cc'))"
    "layoutOk cfg cc' (us @ leftover n b @ vs) (insert (taken n b) U)" "eyesOk cfg cc' (insert (taken n b) U)"
    "headerSizesOk cc' (insert (taken n b) U)" "sameArea cc cc'" "fst b \<notin> fst ` U"
    "if isCold then sizeOfLargestFreeWarmBlock cc' = sizeOfLargestFreeWarmBlock cc
     else sizeOfLargestFreeColdBlock cc' = sizeOfLargestFreeColdBlock cc"
    using findFreeBlock_ok [OF c(1-3,5,6) large] by metis
  have "repositoryOk cfg K cc'" using c(4) f(6) by (simp add: repositoryOk_def sameArea_def)
  moreover have "taken n b = (fst b, snd (taken n b))" "n \<le> snd (taken n b)" using f(1) by (auto simp: taken_def)
  ultimately show thesis using f by (intro that [of "fst b" cc' "snd (taken n b)"]) (auto simp: cacheOk_def)
qed

lemma allocateWarm_ok:
  assumes ok: "cacheOk cfg K cc bs U" and n: "sizeOk cfg n"
    and fits: "if fromList then n \<le> sizeOfLargestFreeWarmBlock cc else warmCodeAlloc cc + n \<le> coldCodeAlloc cc"
  obtains p m bs' cc' where "allocateWarm cfg n fromList True cc = Some (Ok (Some p, cc'))" "n \<le> m" "p \<notin> fst ` U"
    "cacheOk cfg K cc' bs' (insert (p, m) U)" "coldCodeAlloc cc' = coldCodeAlloc cc"
    "warmCodeAlloc cc' = warmCodeAlloc cc + (if fromList then 0 else n)"
    "sizeOfLargestFreeColdBlock cc' = sizeOfLargestFreeColdBlock cc"
proof (cases fromList)
  case True
  obtain p m bs' cc' where f: "findFreeBlock cfg n False True cc = Some (Ok (p, cc'))" "n \<le> m" "p \<notin> fst ` U"
    "cacheOk cfg K cc' bs' (insert (p, m) U)" "sameArea cc cc'" "sizeOfLargestFreeColdBlock cc' = sizeOfLargestFreeColdBlock cc"
    by (rule findFreeBlock_cacheOk [OF ok n, of False]; use fits True in \<open>simp add: that\<close>)
  then show thesis using True by (intro that [of p cc' m bs']) (auto simp: allocateWarm_def sameArea_def)
next
  case False
  define cc1 where "cc1 = (decreaseFreeSpaceInCodeCacheRepository cfg n cc)\<lparr>warmCodeAlloc := warmCodeAlloc cc + n\<rparr>"
  note b = cacheOk_bounds [OF ok]
  have g: "grown cc (warmCodeAlloc cc, n) cc1" using fits False by (simp add: grown_def cc1_def)
  have a: "align (warmCodeAlloc cc) (codeCacheAlignment cfg - 1) = warmCodeAlloc cc"
    using b by (intro align_dvd) auto
  have p: "psub (warmCodeAlloc cc + n) (warmCodeAlloc cc) = n" using fits False b by (simp add: psub_le)
  have "n \<noteq> 0" using n by (simp add: sizeOk_def)
  then have "allocateWarm cfg n fromList True cc =
      Some (Ok (Some (warmCodeAlloc cc), writeMethodHeader cfg (warmCodeAlloc cc) n False cc1))"
    using False fits unfolding allocateWarm_def Let_def a p cc1_def by simp
  moreover have "cacheOk cfg K (writeMethodHeader cfg (warmCodeAlloc cc) n False cc1) bs (insert (warmCodeAlloc cc, n) U)" "warmCodeAlloc cc \<notin> fst ` U"
    by (rule cacheOk_grow [OF ok g n]; simp add: cc1_def)+
  ultimately show thesis using False
    by (intro that [of "warmCodeAlloc cc" "writeMethodHeader cfg (warmCodeAlloc cc) n False cc1" n bs]) (simp_all add: cc1_def)
qed

lemma allocateCold_ok:
  assumes ok: "cacheOk cfg K cc bs U" and n: "sizeOk cfg n"
    and fits: "if fromList then n \<le> sizeOfLargestFreeColdBlock cc else warmCodeAlloc cc + n \<le> coldCodeAlloc cc"
  obtains p m bs' cc' where "allocateCold cfg n fromList warmFromList True a cc = Some (Ok (Some p, cc'))" "n \<le> m"
    "p \<notin> fst ` U" "cacheOk cfg K cc' bs' (insert (p, m) U)" "warmCodeAlloc cc' = warmCodeAlloc cc"
    "coldCodeAlloc cc' = coldCodeAlloc cc - (if fromList then 0 else n)"
proof (cases fromList)
  case True
  obtain p m bs' cc' where f: "findFreeBlock cfg n True True cc = Some (Ok (p, cc'))" "n \<le> m" "p \<notin> fst ` U"
    "cacheOk cfg K cc' bs' (insert (p, m) U)" "sameArea cc cc'"
    by (rule findFreeBlock_cacheOk [OF ok n, of True]; use fits True in \<open>simp add: that\<close>)
  then show thesis using True by (intro that [of p cc' m bs']) (auto simp: allocateCold_def sameArea_def)
next
  case False
  let ?q = "coldCodeAlloc cc - n"
  define cc1 where "cc1 = (decreaseFreeSpaceInCodeCacheRepository cfg n cc)\<lparr>coldCodeAlloc := ?q\<rparr>"
  note b = cacheOk_bounds [OF ok]
  have g: "grown cc (?q, n) cc1" using fits False by (simp add: grown_def cc1_def)
  have d: "codeCacheAlignment cfg dvd ?q" using b n by (simp add: sizeOk_def)
  have ps: "psub (coldCodeAlloc cc) n = ?q" "psub (coldCodeAlloc cc) ?q = n" using fits False b by (simp_all add: psub_le)
  have a: "clearMask ?q (codeCacheAlignment cfg - 1) = ?q"
    using b d clearMask_aligned [OF b(1), of ?q] by simp
  have "n \<noteq> 0" using n by (simp add: sizeOk_def)
  then have "allocateCold cfg n fromList warmFromList True a cc =
      Some (Ok (Some ?q, writeMethodHeader cfg ?q n True cc1))"
    using False fits unfolding allocateCold_def Let_def ps a cc1_def by simp
  moreover have "cacheOk cfg K (writeMethodHeader cfg (?q) n True cc1) bs (insert (?q, n) U)" "?q \<notin> fst ` U"
    by (rule cacheOk_grow [OF ok g n]; simp add: cc1_def)+
  ultimately show thesis using False
    by (intro that [of "?q" "writeMethodHeader cfg (?q) n True cc1" n bs]) (simp_all add: cc1_def)
qed

section \<open>Allocating code memory\<close>

text \<open>Whether the two parts come from the free list, and when a request can be met.\<close>

definition warmFromList :: "codeCache \<Rightarrow> nat \<Rightarrow> bool \<Rightarrow> bool" where
  "warmFromList cc n contiguous \<longleftrightarrow> \<not> contiguous \<and> n \<noteq> 0 \<and> n \<le> sizeOfLargestFreeWarmBlock cc"

definition coldFromList :: "codeCache \<Rightarrow> nat \<Rightarrow> bool \<Rightarrow> bool" where
  "coldFromList cc n contiguous \<longleftrightarrow> \<not> contiguous \<and> n \<noteq> 0 \<and> n \<le> sizeOfLargestFreeColdBlock cc"

definition canAllocate :: "codeCacheConfig \<Rightarrow> codeCache \<Rightarrow> nat \<Rightarrow> nat \<Rightarrow> bool \<Rightarrow> bool" where
  "canAllocate cfg cc w c contiguous \<longleftrightarrow> (let
     ws = withHeader cfg (requestedWarm w c contiguous); cs = withHeader cfg (requestedCold c contiguous) in
     (if warmFromList cc ws contiguous then 0 else ws) + (if coldFromList cc cs contiguous then 0 else cs)
       \<le> coldCodeAlloc cc - warmCodeAlloc cc)"

text \<open>The used blocks of an allocation, with the sizes in their headers.\<close>

definition headerBlock :: "codeCache \<Rightarrow> nat \<Rightarrow> blk" where
  "headerBlock cc p = (p - sizeof_CodeCacheMethodHeader, mhSize (mem cc) (p - sizeof_CodeCacheMethodHeader))"

definition allocatedBlocks :: "codeCache \<Rightarrow> nat \<Rightarrow> nat \<Rightarrow> bool \<Rightarrow> nat \<times> nat \<Rightarrow> blk set" where
  "allocatedBlocks cc w c contiguous ps =
     (if requestedWarm w c contiguous \<noteq> 0 then {headerBlock cc (fst ps)} else {}) \<union>
     (if requestedCold c contiguous \<noteq> 0 then {headerBlock cc (snd ps)} else {})"

text \<open>\<open>allocateCodeMemory\<close> with the adjusted sizes \<open>ws\<close> and \<open>cs\<close> in place of the requested ones.\<close>

lemma allocateCodeMemory_eq:
  assumes ok: "cacheOk cfg K cc bs U" and req: "w + c < 2 ^ 61"
    and ws: "ws = withHeader cfg (requestedWarm w c contiguous)" and cs: "cs = withHeader cfg (requestedCold c contiguous)"
  shows "allocateCodeMemory cfg w c contiguous True cc =
    (if cs \<noteq> 0 \<and> \<not> coldFromList cc cs contiguous \<and>
        coldCodeAlloc cc - warmCodeAlloc cc < cs + (if warmFromList cc ws contiguous then 0 else ws)
     then Some (Ok (None, cc))
     else bindO (allocateWarm cfg ws (warmFromList cc ws contiguous) True cc) (\<lambda>(p, cc1).
       case p of None \<Rightarrow> Some (Ok (None, cc1))
       | Some p \<Rightarrow> bindO (allocateCold cfg cs (coldFromList cc cs contiguous) (warmFromList cc ws contiguous) True p cc1)
           (\<lambda>(q, cc2). case q of None \<Rightarrow> Some (Ok (None, cc2))
            | Some q \<Rightarrow> let wr = (if ws \<noteq> 0 then p + sizeof_CodeCacheMethodHeader else p);
                           cr = (if cs \<noteq> 0 then q + sizeof_CodeCacheMethodHeader else q) in
                Some (Ok (Some (wr, if \<not> contiguous then cr else wr), cc2\<lparr>lastAllocatedBlock := p\<rparr>)))))"
proof -
  note b = cacheOk_bounds [OF ok]
  have bd: "ws < 2 ^ 62" "cs < 2 ^ 62"
    unfolding ws cs by (rule withHeader_ok(4) [OF b(1)]; use req requested_small in blast)+
  have sp: "getFreeContiguousSpace cc = coldCodeAlloc cc - warmCodeAlloc cc"
    using b by (simp add: getFreeContiguousSpace_def psub_le)
  have sum: "sadd cs (if warmFromList cc ws contiguous then 0 else ws) = cs + (if warmFromList cc ws contiguous then 0 else ws)"
    using bd by (intro sadd_small) auto
  have lists: "(\<not> contiguous \<and> ws \<noteq> 0 \<and> ws \<le> sizeOfLargestFreeWarmBlock cc) = warmFromList cc ws contiguous"
    "(\<not> contiguous \<and> cs \<noteq> 0 \<and> cs \<le> sizeOfLargestFreeColdBlock cc) = coldFromList cc cs contiguous"
    by (simp_all add: warmFromList_def coldFromList_def)
  show ?thesis
    unfolding allocateCodeMemory_def performSizeAdjustments_eq [OF req] ws [symmetric] cs [symmetric] Let_def prod.case
      lists sum sp simp_thms ..
qed

lemma allocateCodeMemory_fails:
  assumes ok: "cacheOk cfg K cc bs U" and req: "w + c < 2 ^ 61" and no: "\<not> canAllocate cfg cc w c contiguous"
  shows "allocateCodeMemory cfg w c contiguous True cc = Some (Ok (None, cc))"
proof -
  define ws cs where "ws = withHeader cfg (requestedWarm w c contiguous)" and "cs = withHeader cfg (requestedCold c contiguous)"
  note b = cacheOk_bounds [OF ok] and eq = allocateCodeMemory_eq [OF ok req ws_def cs_def]
  have a: "align (warmCodeAlloc cc) (codeCacheAlignment cfg - 1) = warmCodeAlloc cc"
    using b by (intro align_dvd) auto
  have n: "coldCodeAlloc cc - warmCodeAlloc cc <
      (if warmFromList cc ws contiguous then 0 else ws) + (if coldFromList cc cs contiguous then 0 else cs)"
    using no unfolding canAllocate_def Let_def ws_def cs_def not_le .
  show ?thesis
  proof (cases "cs \<noteq> 0 \<and> \<not> coldFromList cc cs contiguous")
    case True
    then show ?thesis using n unfolding eq by (simp add: add.commute)
  next
    case False
    then have w: "\<not> warmFromList cc ws contiguous" "coldCodeAlloc cc < warmCodeAlloc cc + ws" using n b by (auto split: if_splits)
    then have "allocateWarm cfg ws False True cc = Some (Ok (None, cc))"
      using b unfolding allocateWarm_def Let_def a by simp
    then show ?thesis using False w(1) unfolding eq by simp
  qed
qed

lemma headerSize_of:
  "cacheOk cfg K cc bs U \<Longrightarrow> (p, m) \<in> U \<Longrightarrow> headerBlock cc (p + sizeof_CodeCacheMethodHeader) = (p, m)"
  by (auto simp: cacheOk_def headerSizesOk_def headerBlock_def)

lemma allocateCold_part:
  assumes ok: "cacheOk cfg K cc bs U" and c: "c < 2 ^ 61"
    and fits: "(if coldFromList cc (withHeader cfg c) contiguous then 0 else withHeader cfg c) \<le> coldCodeAlloc cc - warmCodeAlloc cc"
  obtains p m bs' cc' where
    "allocateCold cfg (withHeader cfg c) (coldFromList cc (withHeader cfg c) contiguous) f True a cc = Some (Ok (Some p, cc'))"
    "withHeader cfg c \<le> m \<or> c = 0" "p \<notin> fst ` U \<or> c = 0" "cacheOk cfg K cc' bs' (U \<union> (if c \<noteq> 0 then {(p, m)} else {}))"
proof (cases "c = 0")
  case True
  then have "withHeader cfg c = 0" by (simp add: withHeader_def)
  then show thesis using True ok
    by (intro that [of "coldCodeAlloc cc" cc 0 bs]) (simp_all add: allocateCold_def coldFromList_def)
next
  case False
  note b = cacheOk_bounds [OF ok] and h = withHeader_ok [OF cacheOk_bounds(1) [OF ok] c]
  have "if coldFromList cc (withHeader cfg c) contiguous then withHeader cfg c \<le> sizeOfLargestFreeColdBlock cc
      else warmCodeAlloc cc + withHeader cfg c \<le> coldCodeAlloc cc"
    using fits b(2) by (auto simp: coldFromList_def split: if_splits)
  then show thesis
    by (rule allocateCold_ok [OF ok h(2) [OF False], of _ f a]) (rule that, assumption, simp_all add: False)
qed

lemma allocateWarm_part:
  assumes ok: "cacheOk cfg K cc bs U" and w: "w < 2 ^ 61"
    and fits: "(if warmFromList cc (withHeader cfg w) contiguous then 0 else withHeader cfg w) \<le> coldCodeAlloc cc - warmCodeAlloc cc"
  obtains p m bs' cc' where
    "allocateWarm cfg (withHeader cfg w) (warmFromList cc (withHeader cfg w) contiguous) True cc = Some (Ok (Some p, cc'))"
    "withHeader cfg w \<le> m \<or> w = 0" "p \<notin> fst ` U \<or> w = 0" "cacheOk cfg K cc' bs' (U \<union> (if w \<noteq> 0 then {(p, m)} else {}))"
    "coldCodeAlloc cc' = coldCodeAlloc cc" "sizeOfLargestFreeColdBlock cc' = sizeOfLargestFreeColdBlock cc"
    "warmCodeAlloc cc' = warmCodeAlloc cc + (if warmFromList cc (withHeader cfg w) contiguous then 0 else withHeader cfg w)"
proof (cases "w = 0")
  case True
  then have "withHeader cfg w = 0" by (simp add: withHeader_def)
  then show thesis using True ok
    by (intro that [of "warmCodeAlloc cc" cc 0 bs]) (simp_all add: allocateWarm_def warmFromList_def)
next
  case False
  note b = cacheOk_bounds [OF ok] and h = withHeader_ok [OF cacheOk_bounds(1) [OF ok] w]
  have "if warmFromList cc (withHeader cfg w) contiguous then withHeader cfg w \<le> sizeOfLargestFreeWarmBlock cc
      else warmCodeAlloc cc + withHeader cfg w \<le> coldCodeAlloc cc"
    using fits b(2) by (auto simp: warmFromList_def split: if_splits)
  then show thesis
    by (rule allocateWarm_ok [OF ok h(2) [OF False]]) (rule that, assumption, simp_all add: False)
qed

lemma cacheOk_last: "cacheOk cfg K (cc\<lparr>lastAllocatedBlock := p\<rparr>) bs U = cacheOk cfg K cc bs U"
proof -
  have "layoutOk cfg (cc\<lparr>lastAllocatedBlock := p\<rparr>) bs U = layoutOk cfg cc bs U"
    by (rule layoutOk_cong) (simp_all add: sameArea_def)
  then show ?thesis by (simp add: cacheOk_def eyesOk_def headerSizesOk_def repositoryOk_def)
qed

lemma allocateCodeMemory_succeeds:
  assumes ok: "cacheOk cfg K cc bs U" and req: "w + c < 2 ^ 61" and can: "canAllocate cfg cc w c contiguous"
  obtains ps bs' cc' where "allocateCodeMemory cfg w c contiguous True cc = Some (Ok (Some ps, cc'))"
    "cacheOk cfg K cc' bs' (U \<union> allocatedBlocks cc' w c contiguous ps)"
    "allocatedBlocks cc' w c contiguous ps \<inter> U = {}"
    "requestedWarm w c contiguous \<noteq> 0 \<Longrightarrow> requestedWarm w c contiguous + 16 \<le> snd (headerBlock cc' (fst ps))"
    "requestedCold c contiguous \<noteq> 0 \<Longrightarrow> requestedCold c contiguous + 16 \<le> snd (headerBlock cc' (snd ps))"
proof -
  define x y where "x = requestedWarm w c contiguous" and "y = requestedCold c contiguous"
  define ws cs where "ws = withHeader cfg x" and "cs = withHeader cfg y"
  note b = cacheOk_bounds [OF ok]
  have xy: "x < 2 ^ 61" "y < 2 ^ 61" using requested_small [OF req] by (auto simp: x_def y_def)
  have hx: "ws \<noteq> 0 \<longleftrightarrow> x \<noteq> 0" "cs \<noteq> 0 \<longleftrightarrow> y \<noteq> 0" "x \<noteq> 0 \<Longrightarrow> x + 16 \<le> ws" "y \<noteq> 0 \<Longrightarrow> y + 16 \<le> cs" "ws < 2 ^ 62" "cs < 2 ^ 62"
    using withHeader_ok [OF b(1) xy(1)] withHeader_ok [OF b(1) xy(2)] by (simp_all add: ws_def cs_def)
  have fit: "(if warmFromList cc ws contiguous then 0 else ws) + (if coldFromList cc cs contiguous then 0 else cs)
      \<le> coldCodeAlloc cc - warmCodeAlloc cc"
    using can unfolding canAllocate_def Let_def ws_def cs_def x_def y_def .
  have fitW: "(if warmFromList cc (withHeader cfg x) contiguous then 0 else withHeader cfg x) \<le> coldCodeAlloc cc - warmCodeAlloc cc"
    by (rule add_leD1 [OF fit [unfolded ws_def]])
  obtain p m bs1 cc1 where W: "allocateWarm cfg ws (warmFromList cc ws contiguous) True cc = Some (Ok (Some p, cc1))"
    "ws \<le> m \<or> x = 0" "p \<notin> fst ` U \<or> x = 0" "cacheOk cfg K cc1 bs1 (U \<union> (if x \<noteq> 0 then {(p, m)} else {}))"
    "coldCodeAlloc cc1 = coldCodeAlloc cc" "sizeOfLargestFreeColdBlock cc1 = sizeOfLargestFreeColdBlock cc"
    "warmCodeAlloc cc1 = warmCodeAlloc cc + (if warmFromList cc ws contiguous then 0 else ws)"
    unfolding ws_def by (rule allocateWarm_part [OF ok xy(1) fitW])
  have cl: "coldFromList cc1 cs contiguous = coldFromList cc cs contiguous" using W(6) by (simp add: coldFromList_def)
  have "(if coldFromList cc1 cs contiguous then 0 else cs) \<le> coldCodeAlloc cc1 - warmCodeAlloc cc1"
    unfolding cl W(5,7) using fit b(2) by linarith
  then obtain q k bs2 cc2 where C: "allocateCold cfg cs (coldFromList cc1 cs contiguous) (warmFromList cc ws contiguous) True p cc1 = Some (Ok (Some q, cc2))"
    "cs \<le> k \<or> y = 0" "q \<notin> fst ` (U \<union> (if x \<noteq> 0 then {(p, m)} else {})) \<or> y = 0"
    "cacheOk cfg K cc2 bs2 (U \<union> (if x \<noteq> 0 then {(p, m)} else {}) \<union> (if y \<noteq> 0 then {(q, k)} else {}))"
    unfolding cs_def by (rule allocateCold_part [OF W(4) xy(2)])
  define cc3 where "cc3 = cc2\<lparr>lastAllocatedBlock := p\<rparr>"
  define wr cr where "wr = (if x \<noteq> 0 then p + sizeof_CodeCacheMethodHeader else p)"
    and "cr = (if y \<noteq> 0 then q + sizeof_CodeCacheMethodHeader else q)"
  have res: "allocateCodeMemory cfg w c contiguous True cc = Some (Ok (Some (wr, if contiguous then wr else cr), cc3))"
    unfolding allocateCodeMemory_eq [OF ok req ws_def [unfolded x_def] cs_def [unfolded y_def]]
    using W(1) C(1) [unfolded cl] fit hx(1,2) by (auto simp: Let_def cc3_def wr_def cr_def)
  have ok3: "cacheOk cfg K cc3 bs2 (U \<union> (if x \<noteq> 0 then {(p, m)} else {}) \<union> (if y \<noteq> 0 then {(q, k)} else {}))"
    using C(4) by (simp add: cc3_def cacheOk_last)
  have hW: "x \<noteq> 0 \<Longrightarrow> headerBlock cc3 wr = (p, m)" and hC: "y \<noteq> 0 \<Longrightarrow> headerBlock cc3 cr = (q, k)"
    using headerSize_of [OF ok3] by (auto simp: wr_def cr_def)
  have "y \<noteq> 0 \<Longrightarrow> \<not> contiguous" by (auto simp: y_def requestedCold_def)
  then have blocks: "allocatedBlocks cc3 w c contiguous (wr, if contiguous then wr else cr) =
      (if x \<noteq> 0 then {(p, m)} else {}) \<union> (if y \<noteq> 0 then {(q, k)} else {})"
    using hW hC unfolding allocatedBlocks_def x_def [symmetric] y_def [symmetric] by auto
  show thesis
  proof (rule that [OF res])
    show "cacheOk cfg K cc3 bs2 (U \<union> allocatedBlocks cc3 w c contiguous (wr, if contiguous then wr else cr))"
      using ok3 unfolding blocks by (simp add: Un_assoc)
    show "allocatedBlocks cc3 w c contiguous (wr, if contiguous then wr else cr) \<inter> U = {}"
      unfolding blocks using W(3) C(3) by (auto simp: rev_image_eqI)
  qed (use hW hC hx(3,4) W(2) C(2) \<open>y \<noteq> 0 \<Longrightarrow> \<not> contiguous\<close> in \<open>auto simp: x_def y_def\<close>)
qed

end
