(* ===== verification/CacheTrim.thy ===== *)
theory CacheTrim
  imports CacheRequests
begin

text \<open>Trimming an allocated block to the size that the generated code needs.\<close>

section \<open>Splitting a used block\<close>

lemma tilesOk_split:
  assumes tiles: "tilesOk cfg cc bs U" and u: "(a, n) \<in> U" and k: "0 < k" "k < n"
    and ok: "blockOk cfg (a, k)" "blockOk cfg (a + k, n - k)"
  shows "tilesOk cfg cc bs (insert (a, k) (insert (a + k, n - k) (U - {(a, n)})))"
proof -
  let ?w = "warmCodeAlloc cc" and ?c = "coldCodeAlloc cc" and ?V = "U - {(a, n)}"
  have reg: "inRegion ?w ?c (a, n)" using tiles u by (auto simp: tilesOk_def)
  have r: "blockRange (a, n) = blockRange (a, k) \<union> blockRange (a + k, n - k)"
    "blockRange (a, k) \<inter> blockRange (a + k, n - k) = {}" using k by (auto simp: blockRange_def)
  have "usedBytes U = blockRange (a, n) \<union> usedBytes ?V" using u usedBytes_insert [of "(a, n)" ?V] by (simp add: insert_absorb)
  then have bytes: "usedBytes (insert (a, k) (insert (a + k, n - k) ?V)) = usedBytes U"
    unfolding usedBytes_insert r(1) by blast
  have "\<forall>v\<in>?V. blockRange (a, n) \<inter> blockRange v = {}" using tiles u unfolding tilesOk_def by blast
  then have disj: "\<forall>v\<in>?V. blockRange (a, k) \<inter> blockRange v = {} \<and> blockRange (a + k, n - k) \<inter> blockRange v = {}"
    unfolding r(1) by blast
  have pair: "\<forall>x\<in>?V. \<forall>y\<in>?V. x \<noteq> y \<longrightarrow> blockRange x \<inter> blockRange y = {}" using tiles by (auto simp: tilesOk_def)
  have "\<forall>x\<in>insert (a, k) (insert (a + k, n - k) ?V). \<forall>y\<in>insert (a, k) (insert (a + k, n - k) ?V).
      x \<noteq> y \<longrightarrow> blockRange x \<inter> blockRange y = {}"
    using disj pair r(2) by (simp add: Int_commute)
  moreover have "\<forall>x\<in>insert (a, k) (insert (a + k, n - k) ?V). blockOk cfg x \<and> inRegion ?w ?c x"
    using tiles ok reg k by (auto simp: tilesOk_def inRegion_def)
  ultimately show ?thesis using tiles bytes by (simp add: tilesOk_def)
qed

section \<open>Giving back the end of the warm code\<close>

lemma grown_free_below:
  assumes "inRegion w c x" "0 < snd x" "blockRange x \<inter> {w' ..< w} = {}" "w' < w" "w \<le> c"
  shows "inRegion w' c x \<and> (fst x < w') = (fst x < w)"
proof -
  have "fst x + snd x \<le> w' \<or> w \<le> fst x"
    using assms(2-4) blocks_apart [of x "(w', w - w')"] by (auto simp: blockRange_def)
  then show ?thesis using assms by (auto simp: inRegion_def)
qed

lemma layoutOk_ungrow:
  assumes lay: "layoutOk cfg cc bs (insert u U)" and u: "u \<notin> U" "warmCodeAlloc cc = fst u + snd u"
    and cc': "warmCodeAlloc cc' = fst u" "coldCodeAlloc cc' = coldCodeAlloc cc" "freeBlockList cc' = freeBlockList cc"
      "mem cc' = mem cc"
      "sizeOfLargestFreeWarmBlock cc' = sizeOfLargestFreeWarmBlock cc"
      "sizeOfLargestFreeColdBlock cc' = sizeOfLargestFreeColdBlock cc"
      "segmentBase cc' = segmentBase cc" "segmentTop cc' = segmentTop cc"
      "trampolineBase cc' = trampolineBase cc" "CCPreLoadedCodeBase cc' = CCPreLoadedCodeBase cc"
  shows "layoutOk cfg cc' bs U"
proof -
  let ?w = "warmCodeAlloc cc" and ?c = "coldCodeAlloc cc"
  have bnd: "boundsOk cfg cc" and free: "freeOk cfg cc bs" and tiles: "tilesOk cfg cc bs (insert u U)"
    using lay by (auto simp: layoutOk_def)
  have uok: "blockOk cfg u" using tiles by (auto simp: tilesOk_def)
  have wc: "?w \<le> ?c" "codeLow cfg cc' = codeLow cfg cc" using bnd cc' by (auto simp: boundsOk_def codeLow_def)
  have ru: "blockRange u = {fst u ..< ?w}" "fst u < ?w" using u(2) blockOk_pos [OF uok] by (auto simp: blockRange_def)
  have "blockRange u \<subseteq> codeArea cfg cc" using tiles by (auto simp: tilesOk_def usedBytes_insert)
  then have "fst u \<in> codeArea cfg cc" using ru by auto
  then have low: "codeLow cfg cc \<le> fst u" using ru wc(1) by (auto simp: codeArea_def)
  have bnd': "boundsOk cfg cc'" using bnd low ru wc uok cc' by (auto simp: boundsOk_def blockOk_def)
  have blocks: "\<forall>b\<in>set bs. blockOk cfg b \<and> inRegion ?w ?c b" using free by (simp add: freeOk_def)
  have disjB: "blockRange b \<inter> blockRange u = {}" if "b \<in> set bs" for b
    using tiles mem_blockBytes [OF that] by (auto simp: tilesOk_def usedBytes_insert)
  have kinds: "inRegion (fst u) ?c b \<and> (fst b < fst u) = (fst b < ?w)" if "b \<in> set bs" for b
    using grown_free_below [of ?w ?c b "fst u"] blocks that disjB [OF that] ru wc blockOk_pos [of cfg b] by auto
  have free': "freeOk cfg cc' bs"
  proof -
    have "coalesced ?w ?c bs" using free by (simp add: freeOk_def)
    then have "coalesced (fst u) ?c bs" by (rule coalesced_cong) (use kinds in blast)
    moreover have "maxSize (\<lambda>a. a < fst u) bs = maxSize (\<lambda>a. a < ?w) bs" "maxSize (\<lambda>a. \<not> a < fst u) bs = maxSize (\<lambda>a. \<not> a < ?w) bs"
      by (rule maxSize_cong; use kinds in blast)+
    moreover have "\<forall>b\<in>set bs. inRegion (fst u) ?c b" using kinds by blast
    ultimately show ?thesis using free cc' blocks by (simp add: freeOk_def)
  qed
  have disjU: "blockRange v \<inter> blockRange u = {}" if "v \<in> U" for v using tiles that u(1) by (auto simp: tilesOk_def)
  have usedOk: "\<forall>v\<in>U. blockOk cfg v \<and> inRegion (fst u) ?c v"
  proof
    fix v assume v: "v \<in> U"
    then have "blockOk cfg v" "inRegion ?w ?c v" using tiles by (auto simp: tilesOk_def)
    then show "blockOk cfg v \<and> inRegion (fst u) ?c v"
      using grown_free_below [of ?w ?c v "fst u"] disjU [OF v] ru wc blockOk_pos [of cfg v] by auto
  qed
  have "codeArea cfg cc = blockRange u \<union> codeArea cfg cc'" "blockRange u \<inter> codeArea cfg cc' = {}"
    using low ru wc cc' by (auto simp: codeArea_def)
  moreover have "blockRange u \<inter> usedBytes U = {}" "blockRange u \<inter> blockBytes bs = {}"
    unfolding usedBytes_def blockBytes_def using disjU disjB by blast+
  ultimately have "blockBytes bs \<union> usedBytes U = codeArea cfg cc'" "blockBytes bs \<inter> usedBytes U = {}"
    using tiles unfolding tilesOk_def usedBytes_insert by blast+
  then have "tilesOk cfg cc' bs U" using tiles usedOk cc' by (simp add: tilesOk_def)
  then show ?thesis using bnd' free' by (simp add: layoutOk_def)
qed

section \<open>Trimming\<close>

lemma increase_fields [simp]:
  "mem (increaseFreeSpaceInCodeCacheRepository cfg n cc) = mem cc"
  "warmCodeAlloc (increaseFreeSpaceInCodeCacheRepository cfg n cc) = warmCodeAlloc cc"
  "coldCodeAlloc (increaseFreeSpaceInCodeCacheRepository cfg n cc) = coldCodeAlloc cc"
  "freeBlockList (increaseFreeSpaceInCodeCacheRepository cfg n cc) = freeBlockList cc"
  "sizeOfLargestFreeWarmBlock (increaseFreeSpaceInCodeCacheRepository cfg n cc) = sizeOfLargestFreeWarmBlock cc"
  "sizeOfLargestFreeColdBlock (increaseFreeSpaceInCodeCacheRepository cfg n cc) = sizeOfLargestFreeColdBlock cc"
  "segmentBase (increaseFreeSpaceInCodeCacheRepository cfg n cc) = segmentBase cc"
  "segmentTop (increaseFreeSpaceInCodeCacheRepository cfg n cc) = segmentTop cc"
  "trampolineBase (increaseFreeSpaceInCodeCacheRepository cfg n cc) = trampolineBase cc"
  "CCPreLoadedCodeBase (increaseFreeSpaceInCodeCacheRepository cfg n cc) = CCPreLoadedCodeBase cc"
  "usingRepository cfg \<Longrightarrow> repositoryFreeSpace (increaseFreeSpaceInCodeCacheRepository cfg n cc) = sadd (repositoryFreeSpace cc) n"
  by (simp_all add: increaseFreeSpaceInCodeCacheRepository_def)

text \<open>The new size is written into the header.\<close>

definition setHeaderSize :: "nat \<Rightarrow> nat \<Rightarrow> codeCache \<Rightarrow> codeCache" where
  "setHeaderSize a k cc = cc\<lparr>mem := (mem cc)\<lparr>mhSize := (mhSize (mem cc))(a := k mod 2 ^ 32)\<rparr>\<rparr>"

lemma cacheOk_setHeaderSize:
  assumes "layoutOk cfg cc bs (insert (a, k) V)" "eyesOk cfg cc (insert (a, k) V)" "repositoryOk cfg K cc"
    "headerSizesOk cc V" "a \<notin> fst ` V" "k < 2 ^ 32"
  shows "cacheOk cfg K (setHeaderSize a k cc) bs (insert (a, k) V)"
proof -
  have "layoutOk cfg (setHeaderSize a k cc) bs (insert (a, k) V) = layoutOk cfg cc bs (insert (a, k) V)"
    by (rule layoutOk_cong) (simp_all add: sameArea_def setHeaderSize_def)
  moreover have "\<forall>v\<in>V. fst v \<noteq> a" using assms(5) by (auto simp: image_iff)
  ultimately show ?thesis using assms
    by (auto simp: cacheOk_def eyesOk_def repositoryOk_def headerSizesOk_def setHeaderSize_def)
qed

lemma used_block_facts:
  assumes "cacheOk cfg K cc bs U" "(a, n) \<in> U"
  shows "n < 2 ^ 32" "a \<notin> fst ` (U - {(a, n)})" "mhSize (mem cc) a = n" "blockOk cfg (a, n)"
proof -
  have lay: "layoutOk cfg cc bs U" and hs: "headerSizesOk cc U" using assms(1) by (auto simp: cacheOk_def)
  have bnd: "boundsOk cfg cc" and tiles: "tilesOk cfg cc bs U" using lay by (auto simp: layoutOk_def)
  show "mhSize (mem cc) a = n" using hs assms(2) by (auto simp: headerSizesOk_def)
  show ok: "blockOk cfg (a, n)" using tiles assms(2) by (auto simp: tilesOk_def)
  have "blockRange (a, n) \<subseteq> codeArea cfg cc" using tiles assms(2) by (auto simp: tilesOk_def usedBytes_def)
  then have "a \<in> codeArea cfg cc" "a + n - 1 \<in> codeArea cfg cc" using blockOk_pos [OF ok] by (auto simp: blockRange_def)
  then have "codeLow cfg cc \<le> a" "a + n \<le> segmentTop cc" using bnd blockOk_pos [OF ok] by (auto simp: codeArea_def boundsOk_def)
  then show "n < 2 ^ 32" using codeLow_bounds(1) [OF bnd] bnd by (auto simp: boundsOk_def)
  show "a \<notin> fst ` (U - {(a, n)})"
  proof
    assume "a \<in> fst ` (U - {(a, n)})"
    then obtain v where "v \<in> U" "v \<noteq> (a, n)" "fst v = a" by blast
    then obtain m where m: "(a, m) \<in> U" "m \<noteq> n" by (metis prod.collapse)
    then have "blockRange (a, m) \<inter> blockRange (a, n) = {}" "blockOk cfg (a, m)"
      using tiles assms(2) unfolding tilesOk_def by blast+
    then show False using blockRange_start [of cfg "(a, m)"] blockRange_start [OF ok] by auto
  qed
qed

text \<open>The first part of a used block stays used, the rest becomes free.\<close>

lemma trim_layout:
  assumes ok: "cacheOk cfg K cc bs U" and u: "(a, n) \<in> U" and k: "sizeOk cfg k" "k < n"
    and rest: "16 < n - k"
  shows "layoutOk cfg cc bs (insert (a + k, n - k) (insert (a, k) (U - {(a, n)})))"
    "eyesOk cfg cc (insert (a, k) (U - {(a, n)}))" "(a + k, n - k) \<notin> insert (a, k) (U - {(a, n)})"
proof -
  note f = used_block_facts [OF ok u]
  have lay: "layoutOk cfg cc bs U" and eyes: "eyesOk cfg cc U" using ok by (auto simp: cacheOk_def)
  have new: "blockOk cfg (a, k)" "blockOk cfg (a + k, n - k)"
    using f(4) k rest by (auto simp: blockOk_def sizeOk_def sizeof_defs)
  have "tilesOk cfg cc bs (insert (a, k) (insert (a + k, n - k) (U - {(a, n)})))"
    using lay k by (intro tilesOk_split [OF _ u _ _ new]) (auto simp: layoutOk_def sizeOk_def)
  then show "layoutOk cfg cc bs (insert (a + k, n - k) (insert (a, k) (U - {(a, n)})))"
    using lay by (simp add: layoutOk_def insert_commute)
  show "eyesOk cfg cc (insert (a, k) (U - {(a, n)}))" using eyes u by (auto simp: eyesOk_def)
  have "(a + k, n - k) \<notin> U"
  proof
    assume "(a + k, n - k) \<in> U"
    then have "blockRange (a + k, n - k) \<inter> blockRange (a, n) = {}"
      using lay u k by (auto simp: layoutOk_def tilesOk_def sizeOk_def)
    then show False using k by (auto simp: blockRange_def)
  qed
  then show "(a + k, n - k) \<notin> insert (a, k) (U - {(a, n)})" using k by (auto simp: sizeOk_def)
qed

text \<open>The operation on a used block, in terms of the sizes before and after.\<close>

lemma trimCodeMemoryAllocation_eq:
  assumes "mhSize (mem cc) a = n" "s \<noteq> 0"
  shows "trimCodeMemoryAllocation cfg (a + sizeof_CodeCacheMethodHeader) s cc = (let k = withHeader cfg s in
    if k \<ge> n then Some (Ok (False, cc))
    else if a + n = warmCodeAlloc cc then Some (Ok (True, setHeaderSize a k
      ((increaseFreeSpaceInCodeCacheRepository cfg (n - k) cc)\<lparr>warmCodeAlloc := warmCodeAlloc cc - (n - k)\<rparr>)))
    else if n - k \<ge> MIN_SIZE_BLOCK then
      bindO (addFreeBlock2 cfg (a + k) (a + n) cc) (\<lambda>(_, cc1). Some (Ok (True, setHeaderSize a k cc1)))
    else Some (Ok (False, cc)))"
  using assms by (simp add: trimCodeMemoryAllocation_def withHeader_def Let_def setHeaderSize_def)

definition canTrim :: "codeCacheConfig \<Rightarrow> codeCache \<Rightarrow> blk \<Rightarrow> nat \<Rightarrow> bool" where
  "canTrim cfg cc u s \<longleftrightarrow> s \<noteq> 0 \<and> withHeader cfg s < snd u \<and>
     (fst u + snd u = warmCodeAlloc cc \<or> MIN_SIZE_BLOCK \<le> snd u - withHeader cfg s)"

lemma trim_refused:
  assumes "cacheOk cfg K cc bs U" "(a, n) \<in> U" "\<not> canTrim cfg cc (a, n) s"
  shows "trimCodeMemoryAllocation cfg (a + sizeof_CodeCacheMethodHeader) s cc = Some (Ok (False, cc))"
proof (cases "s = 0")
  case True
  then show ?thesis by (simp add: trimCodeMemoryAllocation_def)
next
  case False
  then show ?thesis using assms(3)
    by (subst trimCodeMemoryAllocation_eq [OF used_block_facts(3) [OF assms(1,2)] False])
      (auto simp: canTrim_def Let_def)
qed

text \<open>The rest of a used block that is neither too small nor misaligned.\<close>

lemma trim_rest:
  assumes ok: "cacheOk cfg K cc bs U" and u: "(a, n) \<in> U" and s: "s < 2 ^ 61" "s \<noteq> 0" and lt: "withHeader cfg s < n"
  shows "sizeOk cfg (withHeader cfg s)" "codeCacheAlignment cfg \<le> n - withHeader cfg s"
proof -
  show k: "sizeOk cfg (withHeader cfg s)" by (rule withHeader_ok(2) [OF cacheOk_bounds(1) [OF ok] s])
  have "codeCacheAlignment cfg dvd n - withHeader cfg s"
    using k used_block_facts(4) [OF ok u] by (auto simp: sizeOk_def blockOk_def)
  then show "codeCacheAlignment cfg \<le> n - withHeader cfg s" using lt by (intro dvd_imp_le) auto
qed

lemma trim_succeeds:
  assumes ok: "cacheOk cfg K cc bs U" and u: "(a, n) \<in> U" and s: "s < 2 ^ 61"
    and rec: "codeCacheFreeBlockRecylingEnabled cfg" and can: "canTrim cfg cc (a, n) s"
  obtains bs' cc' where
    "trimCodeMemoryAllocation cfg (a + sizeof_CodeCacheMethodHeader) s cc = Some (Ok (True, cc'))"
    "cacheOk cfg K cc' bs' (insert (a, withHeader cfg s) (U - {(a, n)}))"
    "CCPreLoadedCodeBase cc' = CCPreLoadedCodeBase cc" "segmentBase cc' = segmentBase cc"
proof -
  define k where "k = withHeader cfg s"
  let ?V = "U - {(a, n)}"
  have s0: "s \<noteq> 0" and lt: "k < n" using can by (auto simp: canTrim_def k_def)
  have k: "sizeOk cfg k" "codeCacheAlignment cfg \<le> n - k"
    using trim_rest [OF ok u s s0] lt by (auto simp: k_def)
  have big: "16 < n - k" using k(2) alignment_bounds(1) [OF cacheOk_bounds(1) [OF ok]] by simp
  note f = used_block_facts [OF ok u] and t = trim_layout [OF ok u k(1) lt big]
  have hs: "headerSizesOk cc ?V" and rep: "repositoryOk cfg K cc" using ok by (auto simp: cacheOk_def headerSizesOk_def)
  have k32: "k < 2 ^ 32" using lt f(1) by simp
  note eq = trimCodeMemoryAllocation_eq [OF f(3) s0, of cfg, folded k_def, unfolded Let_def]
  show thesis
  proof (cases "a + n = warmCodeAlloc cc")
    case True
    define cc1 where "cc1 = (increaseFreeSpaceInCodeCacheRepository cfg (n - k) cc)\<lparr>warmCodeAlloc := warmCodeAlloc cc - (n - k)\<rparr>"
    have w: "warmCodeAlloc cc1 = a + k" using True lt by (simp add: cc1_def)
    have lay: "layoutOk cfg cc1 bs (insert (a, k) ?V)"
      by (rule layoutOk_ungrow [OF t(1,3)]) (use True lt w in \<open>simp_all add: cc1_def\<close>)
    have rep1: "repositoryOk cfg K cc1"
      using rep True lt cacheOk_bounds [OF ok] f(1) by (auto simp: repositoryOk_def cc1_def sadd_def)
    have "eyesOk cfg cc1 (insert (a, k) ?V)" "headerSizesOk cc1 ?V"
      using t(2) hs by (simp_all add: cc1_def eyesOk_def headerSizesOk_def)
    with lay rep1 have "cacheOk cfg K (setHeaderSize a k cc1) bs (insert (a, k) ?V)"
      using f(2) k32 by (intro cacheOk_setHeaderSize)
    moreover have "CCPreLoadedCodeBase (setHeaderSize a k cc1) = CCPreLoadedCodeBase cc" "segmentBase (setHeaderSize a k cc1) = segmentBase cc"
      by (simp_all add: setHeaderSize_def cc1_def increaseFreeSpaceInCodeCacheRepository_def)
    ultimately show thesis using that eq True lt by (simp add: cc1_def k_def)
  next
    case False
    then have min: "MIN_SIZE_BLOCK \<le> n - k" using can by (simp add: canTrim_def k_def)
    let ?W = "insert (a + k, n - k) (insert (a, k) ?V)"
    have W: "?W - {(a + k, n - k)} = insert (a, k) ?V" using t(3) by blast
    obtain cc1 where c: "addFreeBlock2 cfg (a + k) (a + k + (n - k)) cc = Some (Ok (True, cc1))"
      "layoutOk cfg cc1 (addBlock (warmCodeAlloc cc) (coldCodeAlloc cc) (a + k, n - k) bs) (insert (a, k) ?V)"
      "eyesOk cfg cc1 (insert (a, k) ?V)" "mhSize (mem cc1) = mhSize (mem cc)" "sameArea cc cc1"
      by (rule addFreeBlock2_ok [OF t(1) insertI1 _ rec, unfolded W, OF t(2)])
    have "repositoryOk cfg K cc1" "headerSizesOk cc1 ?V"
      using rep hs c(4,5) by (simp_all add: repositoryOk_def sameArea_def headerSizesOk_def)
    with c(2,3) have "cacheOk cfg K (setHeaderSize a k cc1) (addBlock (warmCodeAlloc cc) (coldCodeAlloc cc) (a + k, n - k) bs)
        (insert (a, k) ?V)"
      using f(2) k32 by (intro cacheOk_setHeaderSize)
    moreover have "CCPreLoadedCodeBase (setHeaderSize a k cc1) = CCPreLoadedCodeBase cc" "segmentBase (setHeaderSize a k cc1) = segmentBase cc"
      using c(5) by (simp_all add: setHeaderSize_def sameArea_def)
    ultimately show thesis using that eq False lt min c(1) by (simp add: k_def)
  qed
qed

end
