(* ===== verification/CodeCacheMachine.thy ===== *)
theory CodeCacheMachine
  imports CacheTrim
begin

text \<open>
  A code cache from its initialization on: the requests it serves as a step relation on the
  cache and the set of the blocks in use, and what holds in every reachable state.
\<close>

section \<open>Owners of memory\<close>

text \<open>
  What the users of an allocator rely on: the blocks they own, the free memory and nothing else
  make up its area, and no address has two owners.
\<close>

locale block_owner =
  fixes owns :: "'s \<Rightarrow> blk set \<Rightarrow> bool" and freeBytes :: "'s \<Rightarrow> nat set" and area :: "'s \<Rightarrow> nat set"
  assumes finite_blocks: "owns s U \<Longrightarrow> finite U"
    and finite_area: "owns s U \<Longrightarrow> finite (area s)"
    and divided: "owns s U \<Longrightarrow> freeBytes s \<union> usedBytes U = area s"
    and separate: "owns s U \<Longrightarrow> freeBytes s \<inter> usedBytes U = {}"
    and apart: "owns s U \<Longrightarrow> u \<in> U \<Longrightarrow> v \<in> U \<Longrightarrow> u \<noteq> v \<Longrightarrow> blockRange u \<inter> blockRange v = {}"
begin

lemma used_size:
  assumes "owns s U" shows "card (usedBytes U) = (\<Sum>u\<in>U. snd u)"
proof -
  have "card (\<Union>u\<in>U. blockRange u) = (\<Sum>u\<in>U. card (blockRange u))"
    using finite_blocks [OF assms] apart [OF assms] by (intro card_UN_disjoint) (auto simp: blockRange_def)
  then show ?thesis by (simp add: usedBytes_def blockRange_def)
qed

lemma conserved:
  assumes "owns s U" shows "card (freeBytes s) + (\<Sum>u\<in>U. snd u) = card (area s)"
proof -
  have "card (area s) = card (freeBytes s) + card (usedBytes U)"
    using divided [OF assms] separate [OF assms] finite_area [OF assms] by (metis card_Un_disjoint finite_Un)
  then show ?thesis using used_size [OF assms] by simp
qed

lemma one_owner:
  assumes "owns s U" "u \<in> U" "x \<in> blockRange u"
  shows "x \<in> area s \<and> x \<notin> freeBytes s \<and> (\<forall>v\<in>U. x \<in> blockRange v \<longrightarrow> v = u)"
proof -
  have "x \<in> usedBytes U" using assms(2,3) by (auto simp: usedBytes_def)
  moreover have "v = u" if "v \<in> U" "x \<in> blockRange v" for v using apart [OF assms(1,2) that(1)] assms(3) that(2) by blast
  ultimately show ?thesis using divided [OF assms(1)] separate [OF assms(1)] by blast
qed

end

text \<open>An invariant that every step keeps holds in every reachable state.\<close>

locale kept_by_steps =
  fixes step :: "'s \<Rightarrow> 's \<Rightarrow> bool" and inv :: "'s \<Rightarrow> bool"
  assumes keeps: "inv s \<Longrightarrow> step s t \<Longrightarrow> inv t"
begin

lemma reachable: "step\<^sup>*\<^sup>* s t \<Longrightarrow> inv s \<Longrightarrow> inv t"
  by (induction rule: rtranclp_induct) (auto intro: keeps)

end

section \<open>Steps\<close>

inductive cacheStep :: "codeCacheConfig \<Rightarrow> codeCache \<times> blk set \<Rightarrow> codeCache \<times> blk set \<Rightarrow> bool" for cfg where
  allocated: "allocateCodeMemory cfg w c contiguous True cc = Some (Ok (Some ps, cc')) \<Longrightarrow> w + c < 2 ^ 61 \<Longrightarrow>
    cacheStep cfg (cc, U) (cc', U \<union> allocatedBlocks cc' w c contiguous ps)"
| refused: "allocateCodeMemory cfg w c contiguous True cc = Some (Ok (None, cc')) \<Longrightarrow> w + c < 2 ^ 61 \<Longrightarrow>
    cacheStep cfg (cc, U) (cc', U)"
| freed: "addFreeBlock2 cfg (fst u) (fst u + snd u) cc = Some (Ok (r, cc')) \<Longrightarrow> u \<in> U \<Longrightarrow>
    cacheStep cfg (cc, U) (cc', U - {u})"
| trimmed: "trimCodeMemoryAllocation cfg (fst u + sizeof_CodeCacheMethodHeader) s cc = Some (Ok (r, cc')) \<Longrightarrow>
    u \<in> U \<Longrightarrow> s < 2 ^ 61 \<Longrightarrow>
    cacheStep cfg (cc, U) (cc', if r then insert (headerBlock cc' (fst u + sizeof_CodeCacheMethodHeader)) (U - {u}) else U)"
| reserved: "cacheStep cfg (cc, U) (reserve i cc, U)"
| unreserved: "cacheStep cfg (cc, U) (unreserve cc, U)"

definition cacheInv :: "codeCacheConfig \<Rightarrow> nat \<Rightarrow> codeCache \<times> blk set \<Rightarrow> bool" where
  "cacheInv cfg K s \<longleftrightarrow> codeCacheFreeBlockRecylingEnabled cfg \<and> (\<exists>bs. cacheOk cfg K (fst s) bs (snd s))"

lemma cacheOk_reserve:
  "cacheOk cfg K (reserve i cc) bs U = cacheOk cfg K cc bs U" "cacheOk cfg K (unreserve cc) bs U = cacheOk cfg K cc bs U"
proof -
  have "layoutOk cfg (reserve i cc) bs U = layoutOk cfg cc bs U" "layoutOk cfg (unreserve cc) bs U = layoutOk cfg cc bs U"
    by (rule layoutOk_cong; simp add: sameArea_def reserve_def unreserve_def)+
  then show "cacheOk cfg K (reserve i cc) bs U = cacheOk cfg K cc bs U" "cacheOk cfg K (unreserve cc) bs U = cacheOk cfg K cc bs U"
    by (simp_all add: cacheOk_def eyesOk_def headerSizesOk_def repositoryOk_def reserve_def unreserve_def)
qed

lemma addFreeBlock2_cacheOk:
  assumes ok: "cacheOk cfg K cc bs U" and rec: "codeCacheFreeBlockRecylingEnabled cfg" and u: "u \<in> U"
  obtains cc' where "addFreeBlock2 cfg (fst u) (fst u + snd u) cc = Some (Ok (True, cc'))"
    "cacheOk cfg K cc' (addBlock (warmCodeAlloc cc) (coldCodeAlloc cc) u bs) (U - {u})"
proof -
  have lay: "layoutOk cfg cc bs U" and u': "(fst u, snd u) \<in> U" and eyes: "eyesOk cfg cc (U - {(fst u, snd u)})"
    and hs: "headerSizesOk cc U" and rep: "repositoryOk cfg K cc"
    using ok u by (auto simp: cacheOk_def eyesOk_def)
  obtain cc' where c: "addFreeBlock2 cfg (fst u) (fst u + snd u) cc = Some (Ok (True, cc'))"
    "layoutOk cfg cc' (addBlock (warmCodeAlloc cc) (coldCodeAlloc cc) (fst u, snd u) bs) (U - {(fst u, snd u)})"
    "eyesOk cfg cc' (U - {(fst u, snd u)})" "mhSize (mem cc') = mhSize (mem cc)" "sameArea cc cc'"
    by (rule addFreeBlock2_ok [OF lay u' eyes rec])
  have "headerSizesOk cc' (U - {u})" "repositoryOk cfg K cc'"
    using hs rep c(4,5) by (auto simp: headerSizesOk_def repositoryOk_def sameArea_def)
  then show thesis using that c by (simp add: cacheOk_def)
qed

lemma trim_cacheOk:
  assumes ok: "cacheOk cfg K cc bs U" and rec: "codeCacheFreeBlockRecylingEnabled cfg" and u: "u \<in> U" and s: "s < 2 ^ 61"
  obtains cc' bs' where
    "trimCodeMemoryAllocation cfg (fst u + sizeof_CodeCacheMethodHeader) s cc = Some (Ok (canTrim cfg cc u s, cc'))"
    "cacheOk cfg K cc' bs' (if canTrim cfg cc u s
       then insert (headerBlock cc' (fst u + sizeof_CodeCacheMethodHeader)) (U - {u}) else U)"
proof (cases "canTrim cfg cc u s")
  case True
  obtain a n where u': "u = (a, n)" by (cases u)
  obtain bs' cc' where t: "trimCodeMemoryAllocation cfg (a + sizeof_CodeCacheMethodHeader) s cc = Some (Ok (True, cc'))"
    "cacheOk cfg K cc' bs' (insert (a, withHeader cfg s) (U - {(a, n)}))"
    by (rule trim_succeeds [OF ok u [unfolded u'] s rec True [unfolded u']])
  have "headerBlock cc' (a + sizeof_CodeCacheMethodHeader) = (a, withHeader cfg s)" by (rule headerSize_of [OF t(2)]) simp
  then show thesis using that [of cc' bs'] t True by (simp add: u')
next
  case False
  then show thesis using that [of cc bs] ok trim_refused [OF ok, of "fst u" "snd u" s] u by simp
qed

text \<open>An allocation returns; it is refused, and changes nothing, exactly when there is no room for it.\<close>

lemma allocateCodeMemory_result:
  assumes "cacheOk cfg K cc bs U" "w + c < 2 ^ 61"
  shows "\<exists>r cc' bs'. allocateCodeMemory cfg w c contiguous True cc = Some (Ok (r, cc')) \<and>
    (case r of None \<Rightarrow> \<not> canAllocate cfg cc w c contiguous \<and> cc' = cc
     | Some ps \<Rightarrow> canAllocate cfg cc w c contiguous \<and>
         cacheOk cfg K cc' bs' (U \<union> allocatedBlocks cc' w c contiguous ps) \<and>
         allocatedBlocks cc' w c contiguous ps \<inter> U = {} \<and>
         (requestedWarm w c contiguous \<noteq> 0 \<longrightarrow> requestedWarm w c contiguous + 16 \<le> snd (headerBlock cc' (fst ps))) \<and>
         (requestedCold c contiguous \<noteq> 0 \<longrightarrow> requestedCold c contiguous + 16 \<le> snd (headerBlock cc' (snd ps))))"
proof (cases "canAllocate cfg cc w c contiguous")
  case True
  show ?thesis
    by (rule allocateCodeMemory_succeeds [OF assms True], intro exI conjI, assumption) (simp add: True)
next
  case False
  then show ?thesis using allocateCodeMemory_fails [OF assms False] by auto
qed

lemma cacheStep_keeps: "cacheInv cfg K s \<Longrightarrow> cacheStep cfg s t \<Longrightarrow> cacheInv cfg K t"
proof -
  assume inv: "cacheInv cfg K s" and step: "cacheStep cfg s t"
  obtain bs where rec: "codeCacheFreeBlockRecylingEnabled cfg" and ok: "cacheOk cfg K (fst s) bs (snd s)"
    using inv by (auto simp: cacheInv_def)
  from step ok show ?thesis
  proof (cases rule: cacheStep.cases)
    case (allocated w c contiguous cc ps cc' U)
    then have ok': "cacheOk cfg K cc bs U" using ok by simp
    from allocateCodeMemory_result [OF ok' allocated(4), of contiguous] allocated rec
    show ?thesis by (auto simp: cacheInv_def)
  next
    case (refused w c contiguous cc cc' U)
    then have ok': "cacheOk cfg K cc bs U" using ok by simp
    from allocateCodeMemory_result [OF ok' refused(4), of contiguous] refused rec ok'
    show ?thesis by (auto simp: cacheInv_def)
  next
    case (freed u cc r cc' U)
    then have ok': "cacheOk cfg K cc bs U" using ok by simp
    obtain cc2 where "addFreeBlock2 cfg (fst u) (fst u + snd u) cc = Some (Ok (True, cc2))"
      "cacheOk cfg K cc2 (addBlock (warmCodeAlloc cc) (coldCodeAlloc cc) u bs) (U - {u})"
      by (rule addFreeBlock2_cacheOk [OF ok' rec freed(4)])
    then show ?thesis using freed rec by (auto simp: cacheInv_def)
  next
    case (trimmed u s' cc r cc' U)
    then have ok': "cacheOk cfg K cc bs U" using ok by simp
    obtain cc2 bs2 where
      "trimCodeMemoryAllocation cfg (fst u + sizeof_CodeCacheMethodHeader) s' cc = Some (Ok (canTrim cfg cc u s', cc2))"
      "cacheOk cfg K cc2 bs2 (if canTrim cfg cc u s'
         then insert (headerBlock cc2 (fst u + sizeof_CodeCacheMethodHeader)) (U - {u}) else U)"
      by (rule trim_cacheOk [OF ok' rec trimmed(4,5)])
    then show ?thesis using trimmed rec by (auto simp: cacheInv_def)
  next
    case (reserved cc U i)
    then show ?thesis using ok rec by (auto simp: cacheInv_def cacheOk_reserve)
  next
    case (unreserved cc U)
    then show ?thesis using ok rec by (auto simp: cacheInv_def cacheOk_reserve)
  qed
qed

interpretation cacheRun: kept_by_steps "cacheStep cfg" "cacheInv cfg K" for cfg K
  by unfold_locales (rule cacheStep_keeps)

interpretation cacheOwner: block_owner "\<lambda>s U. cacheOk cfg K (fst s) (snd s) U" "\<lambda>s. blockBytes (snd s)"
    "\<lambda>s. codeArea cfg (fst s)" for cfg K
  by unfold_locales (auto simp: cacheOk_def layoutOk_def tilesOk_def codeArea_def)

section \<open>Initialization\<close>

lemma clearMask_le: "clearMask x m \<le> x"
proof -
  have "unat ((word_of_nat x :: u64) AND NOT (word_of_nat m)) \<le> unat (word_of_nat x :: u64)"
    using word_and_le1 word_and_le2 by (simp add: word_le_nat_alt)
  also have "\<dots> \<le> x" by (simp add: unat_of_nat take_bit_eq_mod)
  finally show ?thesis by (simp add: clearMask_def)
qed

definition goodConfig :: "codeCacheConfig \<Rightarrow> bool" where
  "goodConfig cfg \<longleftrightarrow> alignmentOk cfg \<and> codeCacheFreeBlockRecylingEnabled cfg \<and>
     take 1 (coldEyeCatcher cfg) = take 1 (warmEyeCatcher cfg)"

text \<open>
  The segment is large enough, its preloaded code is aligned like the method bodies, and the
  repository counts the space that is left for them.
\<close>

definition goodSegment :: "codeCacheConfig \<Rightarrow> nat \<Rightarrow> nat \<Rightarrow> nat \<Rightarrow> codeCache \<Rightarrow> bool" where
  "goodSegment cfg base segTop allocated cc \<longleftrightarrow> 0 < base \<and> base + allocated \<le> segTop \<and> segTop < 2 ^ 62 \<and> segTop - base < 2 ^ 32 \<and>
     codeCacheAlignment cfg dvd CCPreLoadedCodeBase cc \<and> codeLow cfg cc \<le> CCPreLoadedCodeBase cc \<and>
     (usingRepository cfg \<longrightarrow> CCPreLoadedCodeBase cc - codeLow cfg cc \<le> repositoryFreeSpace cc \<and>
        repositoryFreeSpace cc < 2 ^ 62)"

lemma initialize_fields:
  assumes "initialize cfg cb so mo yo ta base segTop n cc0 = (True, cc)"
  shows "freeBlockList cc = 0" "sizeOfLargestFreeWarmBlock cc = 0" "sizeOfLargestFreeColdBlock cc = 0"
    "segmentBase cc = base" "segmentTop cc = segTop" "warmCodeAlloc cc = codeLow cfg cc"
    "coldCodeAlloc cc = CCPreLoadedCodeBase cc" "CCPreLoadedCodeBase cc \<le> trampolineBase cc" "trampolineBase cc \<le> base + n"
proof -
  let ?h = "base + n"
  define hb where "hb = clearMask (?h - trampolineCodeSize cfg * numRuntimeHelpers cfg) (codeCacheTrampolineAlignmentBytes cfg)"
  define tb where "tb = (if trampolineCodeSize cfg = 0 then ?h else if \<not> needsMethodTrampolines cfg then hb
    else hb - (hb - base) * trampolineSpacePercentage cfg div 100)"
  note defs = initialize_def Let_def unreserve_def codeLow_def decreaseFreeSpaceInCodeCacheRepository_def hb_def [symmetric]
  show "freeBlockList cc = 0" "sizeOfLargestFreeWarmBlock cc = 0" "sizeOfLargestFreeColdBlock cc = 0"
    using assms by (auto simp: defs split: if_splits)
  show "segmentBase cc = base" "segmentTop cc = segTop"
    using assms by (auto simp: defs split: if_splits)
  show "warmCodeAlloc cc = codeLow cfg cc"
    using assms by (auto simp: defs split: if_splits)
  show "coldCodeAlloc cc = CCPreLoadedCodeBase cc"
    using assms by (auto simp: defs split: if_splits)
  have t: "trampolineBase cc = tb" "CCPreLoadedCodeBase cc = clearMask tb (codeCacheHelperAlignment cfg - 1) - ccPreLoadedCodeSize cfg"
    using assms by (auto simp: defs tb_def split: if_splits)
  have "hb \<le> ?h" using clearMask_le [of "?h - trampolineCodeSize cfg * numRuntimeHelpers cfg"] unfolding hb_def by (rule le_trans) simp
  then have "tb \<le> ?h" by (auto simp: tb_def)
  then show "trampolineBase cc \<le> base + n" by (simp add: t)
  show "CCPreLoadedCodeBase cc \<le> trampolineBase cc" unfolding t
    using clearMask_le [of tb] by (rule order.trans [OF diff_le_self])
qed

definition otherSpace :: "codeCacheConfig \<Rightarrow> codeCache \<Rightarrow> nat" where
  "otherSpace cfg cc = (if usingRepository cfg then repositoryFreeSpace cc - (coldCodeAlloc cc - warmCodeAlloc cc) else 0)"

lemma initialize_cacheOk:
  assumes init: "initialize cfg cb so mo yo ta base segTop n cc0 = (True, cc)"
    and cfg: "goodConfig cfg" and seg: "goodSegment cfg base segTop n cc"
  shows "cacheOk cfg (otherSpace cfg cc) cc [] {}"
proof -
  note f = initialize_fields [OF init]
  have al: "alignmentOk cfg" using cfg by (simp add: goodConfig_def)
  have s: "0 < base" "base + n \<le> segTop" "segTop < 2 ^ 62" "segTop - base < 2 ^ 32"
    "codeCacheAlignment cfg dvd CCPreLoadedCodeBase cc" "codeLow cfg cc \<le> CCPreLoadedCodeBase cc"
    using seg by (auto simp: goodSegment_def)
  have "codeCacheAlignment cfg dvd codeLow cfg cc"
    unfolding codeLow_def f using s by (intro align_props(1) [OF al]) (simp add: sizeof_defs)
  then have "boundsOk cfg cc" using al s f by (simp add: boundsOk_def)
  moreover have "freeOk cfg cc []" "tilesOk cfg cc [] {}" using f
    by (simp_all add: freeOk_def tilesOk_def usedBytes_def codeArea_def)
  moreover have "repositoryOk cfg (otherSpace cfg cc) cc"
    using seg f by (auto simp: repositoryOk_def otherSpace_def goodSegment_def)
  ultimately show ?thesis using cfg by (simp add: cacheOk_def layoutOk_def eyesOk_def headerSizesOk_def goodConfig_def)
qed

text \<open>A cache as \<open>initialize\<close> leaves it, and the states that it can reach.\<close>

definition initialized :: "codeCacheConfig \<Rightarrow> codeCache \<Rightarrow> bool" where
  "initialized cfg cc \<longleftrightarrow> goodConfig cfg \<and> (\<exists>cb so mo yo ta base segTop n cc0.
     initialize cfg cb so mo yo ta base segTop n cc0 = (True, cc) \<and> goodSegment cfg base segTop n cc)"

definition cacheReachable :: "codeCacheConfig \<Rightarrow> codeCache \<Rightarrow> codeCache \<Rightarrow> blk set \<Rightarrow> bool" where
  "cacheReachable cfg cc0 cc U \<longleftrightarrow> initialized cfg cc0 \<and> (cacheStep cfg)\<^sup>*\<^sup>* (cc0, {}) (cc, U)"

lemma cacheReachableE:
  assumes "cacheReachable cfg cc0 cc U"
  obtains bs where "codeCacheFreeBlockRecylingEnabled cfg" "cacheOk cfg (otherSpace cfg cc0) cc bs U"
proof -
  have "cacheInv cfg (otherSpace cfg cc0) (cc0, {})"
    using assms initialize_cacheOk by (fastforce simp: cacheReachable_def initialized_def cacheInv_def goodConfig_def)
  then have "cacheInv cfg (otherSpace cfg cc0) (cc, U)"
    using assms cacheRun.reachable by (auto simp: cacheReachable_def)
  then show thesis using that by (auto simp: cacheInv_def)
qed

lemma cacheReachable_step:
  "cacheReachable cfg cc0 cc U \<Longrightarrow> cacheStep cfg (cc, U) (cc', U') \<Longrightarrow> cacheReachable cfg cc0 cc' U'"
  by (auto simp: cacheReachable_def)

lemma card_blockBytes: "coalesced w c bs \<Longrightarrow> card (blockBytes bs) = sum_list (map snd bs)"
proof (induction bs)
  case (Cons b bs)
  have "\<forall>x\<in>set bs. fst b + snd b \<le> fst x" using Cons.prems by (rule coalesced_Cons_less)
  then have "blockRange b \<inter> blockBytes bs = {}" by (fastforce simp: blockRange_def blockBytes_def)
  then have "card (blockBytes (b # bs)) = card (blockRange b) + card (blockBytes bs)"
    by (simp add: card_Un_disjoint blockRange_def blockBytes_def)
  then show ?case using Cons coalesced_tl [OF Cons.prems] by (simp add: blockRange_def)
qed simp

lemma card_codeArea:
  assumes "boundsOk cfg cc"
  shows "card (codeArea cfg cc) = (warmCodeAlloc cc - codeLow cfg cc) + (CCPreLoadedCodeBase cc - coldCodeAlloc cc)"
proof -
  have "{codeLow cfg cc ..< warmCodeAlloc cc} \<inter> {coldCodeAlloc cc ..< CCPreLoadedCodeBase cc} = {}"
    using assms by (auto simp: boundsOk_def)
  then show ?thesis by (simp add: codeArea_def card_Un_disjoint)
qed

end
