(* ===== verification/CacheSegments.thy ===== *)
theory CacheSegments
  imports CodeCacheMachine
begin

text \<open>
  The layout that \<open>initialize\<close> gives a segment, from its arguments: the areas it sets aside, their
  alignments, and what it takes from the free space of the repository.
\<close>

section \<open>Rounding down\<close>

lemma clearMask_ge:
  assumes "x < 2 ^ 64" "m < 2 ^ 64"
  shows "x - m \<le> clearMask x m"
proof -
  let ?x = "word_of_nat x :: u64" and ?m = "word_of_nat m :: u64"
  have ux: "unat ?x = x" "unat ?m = m" using assms by (simp_all add: unat_of_nat take_bit_nat_eq_self)
  have "(?x AND ?m) AND (?x AND NOT ?m) = 0" by (rule bit_word_eqI) (simp add: bit_simps)
  then have "(?x AND ?m) + (?x AND NOT ?m) = (?x AND ?m) OR (?x AND NOT ?m)" by (rule disjunctive_add_eq_or)
  also have "\<dots> = ?x" by (rule bit_word_eqI) (auto simp: bit_simps)
  finally have "unat ?x = unat ((?x AND ?m) + (?x AND NOT ?m))" by simp
  also have "\<dots> \<le> unat (?x AND ?m) + unat (?x AND NOT ?m)" by (simp add: unat_plus_if')
  also have "unat (?x AND ?m) \<le> unat ?m" using word_and_le1 [of ?x ?m] by (simp add: word_le_nat_alt)
  finally have "x \<le> m + clearMask x m" using ux by (simp add: clearMask_def)
  then show ?thesis by simp
qed

section \<open>Segments that are large enough\<close>

text \<open>
  A segment that is large enough, in terms of the arguments of \<open>initialize\<close>: a configuration whose
  alignments are multiples of each other, room for the helper trampolines, and the share that is
  not set aside for trampolines holds the preloaded code and what the alignments cost.
\<close>

definition usableSegment :: "codeCacheConfig \<Rightarrow> nat \<Rightarrow> nat \<Rightarrow> nat \<Rightarrow> codeCache \<Rightarrow> bool" where
  "usableSegment cfg base segTop allocated cc0 \<longleftrightarrow> 0 < base \<and> base + allocated \<le> segTop \<and> segTop < 2 ^ 62 \<and> segTop - base < 2 ^ 32 \<and>
     codeCacheHelperAlignment cfg \<in> (\<lambda>k. 2 ^ k) ` {..<32} \<and> codeCacheAlignment cfg dvd codeCacheHelperAlignment cfg \<and>
     codeCacheAlignment cfg dvd ccPreLoadedCodeSize cfg \<and> codeCacheTrampolineAlignmentBytes cfg < 2 ^ 32 \<and>
     100 * (sizeof_pointer + codeCacheAlignment cfg + ccPreLoadedCodeSize cfg + codeCacheHelperAlignment cfg) \<le>
       (allocated - trampolineCodeSize cfg * numRuntimeHelpers cfg - codeCacheTrampolineAlignmentBytes cfg) *
       (100 - (if needsMethodTrampolines cfg then trampolineSpacePercentage cfg else 0)) \<and>
     (usingRepository cfg \<longrightarrow> segTop - base \<le> repositoryFreeSpace cc0 \<and> repositoryFreeSpace cc0 < 2 ^ 62)"

lemma share_of_hundred: "e + 100 * x \<le> d * 100 \<Longrightarrow> e div 100 + x \<le> (d :: nat)"
  by linarith

lemma initialize_layout:
  assumes init: "initialize cfg cb so mo yo ta base segTop n cc0 = (True, cc)"
    and seg: "usableSegment cfg base segTop n cc0" and al: "alignmentOk cfg"
  shows "trampolineBase cc \<le> helperBase cc" "helperBase cc \<le> base + n"
    "base + sizeof_pointer + codeCacheAlignment cfg + ccPreLoadedCodeSize cfg + codeCacheHelperAlignment cfg \<le> trampolineBase cc"
    "CCPreLoadedCodeTop cc = clearMask (trampolineBase cc) (codeCacheHelperAlignment cfg - 1)"
    "CCPreLoadedCodeBase cc = CCPreLoadedCodeTop cc - ccPreLoadedCodeSize cfg"
    "usingRepository cfg \<Longrightarrow> repositoryFreeSpace cc = (if trampolineCodeSize cfg = 0 then repositoryFreeSpace cc0
       else repositoryFreeSpace cc0 - ((warmCodeAlloc cc - base) + (segTop - trampolineBase cc)))"
proof -
  let ?h = "base + n" and ?s = "trampolineCodeSize cfg * numRuntimeHelpers cfg" and ?a = "codeCacheTrampolineAlignmentBytes cfg"
  let ?p = "if needsMethodTrampolines cfg then trampolineSpacePercentage cfg else 0"
  let ?need = "sizeof_pointer + codeCacheAlignment cfg + ccPreLoadedCodeSize cfg + codeCacheHelperAlignment cfg"
  have s: "0 < base" "base + n \<le> segTop" "segTop < 2 ^ 62" "segTop - base < 2 ^ 32" "?a < 2 ^ 32"
    "100 * ?need \<le> (n - ?s - ?a) * (100 - ?p)"
    "usingRepository cfg \<Longrightarrow> segTop - base \<le> repositoryFreeSpace cc0 \<and> repositoryFreeSpace cc0 < 2 ^ 62"
    using seg by (auto simp: usableSegment_def)
  have pos: "0 < ?need" by (simp add: sizeof_defs)
  then have room: "?s + ?a < n" "?p < 100" using s(6) by (cases "?s + ?a < n"; cases "?p < 100"; simp)+
  define hb where "hb = clearMask (?h - ?s) ?a"
  define tb where "tb = (if trampolineCodeSize cfg = 0 then ?h else if \<not> needsMethodTrampolines cfg then hb
    else hb - (hb - base) * trampolineSpacePercentage cfg div 100)"
  note defs = initialize_def Let_def unreserve_def decreaseFreeSpaceInCodeCacheRepository_def hb_def [symmetric]
  have t: "trampolineBase cc = tb" "helperBase cc = (if trampolineCodeSize cfg = 0 then ?h else hb)"
    "CCPreLoadedCodeTop cc = clearMask tb (codeCacheHelperAlignment cfg - 1)"
    "CCPreLoadedCodeBase cc = CCPreLoadedCodeTop cc - ccPreLoadedCodeSize cfg"
    using init by (auto simp: defs tb_def split: if_splits)
  have r: "usingRepository cfg \<Longrightarrow> repositoryFreeSpace cc = (if trampolineCodeSize cfg = 0 then repositoryFreeSpace cc0
      else psub (repositoryFreeSpace cc0) ((warmCodeAlloc cc - base) + psub segTop tb))"
    using init by (auto simp: defs tb_def split: if_splits)
  have hb: "hb \<le> ?h - ?s" "base + (n - ?s - ?a) \<le> hb"
    using clearMask_le [of "?h - ?s" ?a] clearMask_ge [of "?h - ?s" ?a] s room by (simp_all add: hb_def)
  have "tb \<le> ?h" "tb \<le> (if trampolineCodeSize cfg = 0 then ?h else hb)" using hb by (auto simp: tb_def)
  then show "trampolineBase cc \<le> helperBase cc" "helperBase cc \<le> base + n" using t hb by auto
  show "base + sizeof_pointer + codeCacheAlignment cfg + ccPreLoadedCodeSize cfg + codeCacheHelperAlignment cfg \<le> trampolineBase cc"
  proof -
    have "(n - ?s - ?a) * (100 - ?p) \<le> (n - ?s - ?a) * 100" by simp
    with s(6) have "100 * ?need \<le> (n - ?s - ?a) * 100" by (rule le_trans)
    then have all: "?need \<le> n - ?s - ?a" unfolding mult.commute [of 100] mult_le_cancel2 by simp
    consider "trampolineCodeSize cfg = 0" | "trampolineCodeSize cfg \<noteq> 0" "\<not> needsMethodTrampolines cfg"
      | "trampolineCodeSize cfg \<noteq> 0" "needsMethodTrampolines cfg" by blast
    then show ?thesis
    proof cases
      case 3
      define d where "d = hb - base"
      have d: "hb = base + d" "n - ?s - ?a \<le> d" using hb(2) by (simp_all add: d_def)
      have "100 * ?need \<le> d * (100 - ?p)" using s(6) mult_le_mono1 [OF d(2), of "100 - ?p"] by linarith
      then have "d * ?p + 100 * ?need \<le> d * 100" using room(2) by (simp add: diff_mult_distrib2 add.commute le_diff_conv2)
      then have "(d * ?p) div 100 + ?need \<le> d" by (rule share_of_hundred)
      then show ?thesis using 3 d(1) t(1) by (simp add: tb_def)
    qed (use all hb(2) t(1) in \<open>simp_all add: tb_def\<close>)
  qed
  then have lo: "base \<le> tb" using t(1) by simp
  show "CCPreLoadedCodeTop cc = clearMask (trampolineBase cc) (codeCacheHelperAlignment cfg - 1)"
    "CCPreLoadedCodeBase cc = CCPreLoadedCodeTop cc - ccPreLoadedCodeSize cfg" using t by simp_all
  have w: "warmCodeAlloc cc - base \<le> tb - base"
  proof -
    have "codeLow cfg cc < base + sizeof_pointer + codeCacheAlignment cfg"
      unfolding codeLow_def initialize_fields(4) [OF init] using s by (intro align_props(3) [OF al]) (simp add: sizeof_defs)
    then show ?thesis using initialize_fields(6) [OF init] t(1)
      \<open>base + sizeof_pointer + codeCacheAlignment cfg + ccPreLoadedCodeSize cfg + codeCacheHelperAlignment cfg \<le> trampolineBase cc\<close> by simp
  qed
  show "repositoryFreeSpace cc = (if trampolineCodeSize cfg = 0 then repositoryFreeSpace cc0
       else repositoryFreeSpace cc0 - ((warmCodeAlloc cc - base) + (segTop - trampolineBase cc)))" if u: "usingRepository cfg"
  proof -
    have "psub segTop tb = segTop - tb" using s \<open>tb \<le> ?h\<close> by (intro psub_le) simp_all
    moreover have "(warmCodeAlloc cc - base) + (segTop - tb) \<le> repositoryFreeSpace cc0"
      using s(7) [OF u] w lo s(2) \<open>tb \<le> ?h\<close> by linarith
    moreover have "repositoryFreeSpace cc0 < 2 ^ 64" using s(7) [OF u] by simp
    ultimately show ?thesis using r [OF u] t(1) by (simp add: psub_le)
  qed
qed

lemma initialize_goodSegment:
  assumes init: "initialize cfg cb so mo yo ta base segTop n cc0 = (True, cc)"
    and seg: "usableSegment cfg base segTop n cc0" and al: "alignmentOk cfg"
  shows "goodSegment cfg base segTop n cc"
    "codeCacheHelperAlignment cfg dvd CCPreLoadedCodeTop cc" "CCPreLoadedCodeTop cc \<le> trampolineBase cc"
    "trampolineBase cc < CCPreLoadedCodeTop cc + codeCacheHelperAlignment cfg"
    "CCPreLoadedCodeTop cc = CCPreLoadedCodeBase cc + ccPreLoadedCodeSize cfg"
    "base + sizeof_pointer \<le> warmCodeAlloc cc" "warmCodeAlloc cc < base + sizeof_pointer + codeCacheAlignment cfg"
proof -
  note l = initialize_layout [OF init seg al] and f = initialize_fields [OF init]
  let ?ha = "codeCacheHelperAlignment cfg" and ?top = "CCPreLoadedCodeTop cc"
  have s: "0 < base" "base + n \<le> segTop" "segTop < 2 ^ 62" "segTop - base < 2 ^ 32" "codeCacheAlignment cfg dvd ?ha"
    "codeCacheAlignment cfg dvd ccPreLoadedCodeSize cfg"
    "usingRepository cfg \<Longrightarrow> segTop - base \<le> repositoryFreeSpace cc0 \<and> repositoryFreeSpace cc0 < 2 ^ 62"
    using seg by (auto simp: usableSegment_def)
  obtain k where k: "k < 32" "?ha = 2 ^ k" using seg by (auto simp: usableSegment_def)
  have tb: "trampolineBase cc < 2 ^ 62" using f(9) s by simp
  then have top: "?top = trampolineBase cc div ?ha * ?ha" using l(4) k clearMask_pow2 [of k "trampolineBase cc"] by simp
  show dvd: "?ha dvd ?top" unfolding top by simp
  show le: "?top \<le> trampolineBase cc" unfolding top by simp
  show lt: "trampolineBase cc < ?top + ?ha" unfolding top using k(2) by (metis add_strict_left_mono div_mult_mod_eq mod_less_divisor zero_less_numeral zero_less_power)
  show base: "?top = CCPreLoadedCodeBase cc + ccPreLoadedCodeSize cfg" using l(3,5) lt by simp
  have b: "base + sizeof_pointer < 2 ^ 63" using s f(9) l(3) tb by simp
  have low: "base + sizeof_pointer \<le> codeLow cfg cc" "codeLow cfg cc < base + sizeof_pointer + codeCacheAlignment cfg"
    unfolding codeLow_def f(4) using align_props(2,3) [OF al b] .
  then show "base + sizeof_pointer \<le> warmCodeAlloc cc" "warmCodeAlloc cc < base + sizeof_pointer + codeCacheAlignment cfg"
    using f(6) by simp_all
  have lowb: "codeLow cfg cc \<le> CCPreLoadedCodeBase cc" using low(2) l(3) lt base by simp
  have "codeCacheAlignment cfg dvd CCPreLoadedCodeBase cc + ccPreLoadedCodeSize cfg"
    using dvd_trans [OF s(5) dvd] base by simp
  then have dvdb: "codeCacheAlignment cfg dvd CCPreLoadedCodeBase cc" using s(6) by (simp add: dvd_add_left_iff)
  have "CCPreLoadedCodeBase cc - codeLow cfg cc \<le> repositoryFreeSpace cc \<and> repositoryFreeSpace cc < 2 ^ 62" if u: "usingRepository cfg"
    using l(6) [OF u] s(7) [OF u] f(6,8,9) low s(2) by (auto split: if_splits)
  then show "goodSegment cfg base segTop n cc" using s dvdb lowb by (simp add: goodSegment_def)
qed

end
