(* ===== verification/CodeCacheRuns.thy ===== *)
theory CodeCacheRuns
  imports CacheSegments
begin

text \<open>
  The properties of a code cache in its reachable states, with a run on a concrete cache that
  the statements are applied to.
\<close>

section \<open>A run\<close>

text \<open>A cache of 64 KB with 32-byte alignment and the consistency check switched on.\<close>

definition exampleConfig :: codeCacheConfig where
  "exampleConfig = \<lparr>trampolineCodeSize = 0, ccPreLoadedCodeSize = 0, numRuntimeHelpers = 0, codeCacheKB = 64,
     codeCacheAlignment = 32, codeCacheHelperAlignment = 32, codeCacheTrampolineAlignmentBytes = 8,
     codeCacheTempTrampolineSyncArraySize = 256, codeCacheHashEntryAllocatorSlabSize = 4096,
     needsMethodTrampolines = False, trampolineSpacePercentage = 0, doSanityChecks = True,
     codeCacheFreeBlockRecylingEnabled = True, usingRepository = True,
     warmEyeCatcher = ''JITW'', coldEyeCatcher = ''JITC''\<rparr>"

definition blankCache :: codeCache where
  "blankCache = \<lparr>warmCodeAlloc = 0, coldCodeAlloc = 0, flags = 0, segmentBase = 0, segmentTop = 0,
     freeBlockList = 0, reserved = False, reservingCompThreadID = 0,
     sizeOfLargestFreeColdBlock = 0, sizeOfLargestFreeWarmBlock = 0, helperBase = 0, helperTop = 0,
     tempTrampolineBase = 0, tempTrampolineTop = 0, tempTrampolineNext = 0, trampolineAllocationMark = 0,
     trampolineReservationMark = 0, trampolineBase = 0, tempTrampolinesMax = 0, CCPreLoadedCodeBase = 0,
     CCPreLoadedCodeTop = 0, almostFull = TR_no, lastAllocatedBlock = 0,
     mem = \<lparr>fbSize = \<lambda>_. 0, fbNext = \<lambda>_. 0, mhSize = \<lambda>_. 0, mhEyeCatcher = \<lambda>_. [], mhMetaData = \<lambda>_. 0\<rparr>,
     repositoryFreeSpace = 1000000\<rparr>"

fun resultCache :: "('a \<times> codeCache) outcome option \<Rightarrow> codeCache" where
  "resultCache (Some (Ok (_, cc))) = cc"
| "resultCache _ = blankCache"

definition exampleCache :: codeCache where
  "exampleCache = snd (initialize exampleConfig (\<lambda>_. 0) True True True True 4096 69632 65536 blankCache)"

definition exampleCache1 :: codeCache where
  "exampleCache1 = resultCache (allocateCodeMemory exampleConfig 300 150 False True exampleCache)"

lemma clearMask_31: "clearMask x 31 = x mod 2 ^ 64 div 32 * 32"
  using clearMask_pow2 [of 5 x] by simp

lemmas example_defs = exampleConfig_def blankCache_def Let_def clearMask_31 align_def sizeof_defs psub_le sadd_def

lemma exampleCache_init:
  "initialize exampleConfig (\<lambda>_. 0) True True True True 4096 69632 65536 blankCache = (True, exampleCache)"
  by (simp add: exampleCache_def initialize_def example_defs unreserve_def)

lemma exampleCache_eq: "exampleCache = blankCache\<lparr>segmentBase := 4096, segmentTop := 69632, helperTop := 69632,
    reservingCompThreadID := - 2, warmCodeAlloc := 4128, coldCodeAlloc := 69632, trampolineBase := 69632,
    helperBase := 69632, trampolineReservationMark := 69632, trampolineAllocationMark := 69632,
    CCPreLoadedCodeTop := 69632, CCPreLoadedCodeBase := 69632\<rparr>"
  by (simp add: exampleCache_def initialize_def example_defs unreserve_def)

lemma exampleConfig_good: "goodConfig exampleConfig"
  by (auto simp: goodConfig_def alignmentOk_def exampleConfig_def image_iff intro: bexI [of _ 5])

lemma exampleCache_segment: "goodSegment exampleConfig 4096 69632 65536 exampleCache"
  by (simp add: goodSegment_def codeLow_def exampleCache_eq example_defs)

lemma exampleCache_initialized: "initialized exampleConfig exampleCache"
  unfolding initialized_def using exampleConfig_good exampleCache_init exampleCache_segment by blast

lemma example_allocation:
  "allocateCodeMemory exampleConfig 300 150 False True exampleCache = Some (Ok (Some (4144, 69456), exampleCache1))"
  "mhSize (mem exampleCache1) 4128 = 320" "mhSize (mem exampleCache1) 69440 = 192"
  "warmCodeAlloc exampleCache1 = 4448" "coldCodeAlloc exampleCache1 = 69440" "freeBlockList exampleCache1 = 0"
  by (simp_all add: exampleCache1_def allocateCodeMemory_def performSizeAdjustments_def exampleCache_eq example_defs
    allocateWarm_def allocateCold_def getFreeContiguousSpace_def decreaseFreeSpaceInCodeCacheRepository_def
    writeMethodHeader_def)

lemma example_reachable: "cacheReachable exampleConfig exampleCache exampleCache1 {(4128, 320), (69440, 192)}"
proof -
  have "cacheStep exampleConfig (exampleCache, {}) (exampleCache1, {} \<union> allocatedBlocks exampleCache1 300 150 False (4144, 69456))"
    by (rule allocated [OF example_allocation(1)]) simp
  also have "{} \<union> allocatedBlocks exampleCache1 300 150 False (4144, 69456) = {(4128, 320), (69440, 192)}"
    by (auto simp: allocatedBlocks_def requestedWarm_def requestedCold_def headerBlock_def sizeof_defs example_allocation)
  finally show ?thesis using exampleCache_initialized by (auto simp: cacheReachable_def)
qed

text \<open>
  \<open>_helperBase\<close> is masked with the complement of the alignment and not of the mask: with the
  alignment of 8 bytes it is rounded to an address that is not a multiple of 8.
\<close>

lemma helperBase_not_aligned:
  "helperBase (snd (initialize (exampleConfig\<lparr>trampolineCodeSize := 4, numRuntimeHelpers := 1\<rparr>)
     (\<lambda>_. 0) True True True True 4096 69632 65536 blankCache)) mod 8 = 4"
proof -
  have "clearMask 69628 8 = 69620" by (simp add: clearMask_def)
  then show ?thesis
    by (simp add: initialize_def example_defs unreserve_def decreaseFreeSpaceInCodeCacheRepository_def)
qed

lemma example_freed:
  "\<exists>cc2. cacheReachable exampleConfig exampleCache cc2 {(69440, 192)} \<and>
     freeList (mem cc2) (freeBlockList cc2) [(4128, 320)] \<and> sizeOfLargestFreeWarmBlock cc2 = 320"
proof -
  let ?U = "{(4128, 320), (69440 :: nat, 192 :: nat)}"
  obtain bs where rec: "codeCacheFreeBlockRecylingEnabled exampleConfig"
    and ok: "cacheOk exampleConfig (otherSpace exampleConfig exampleCache) exampleCache1 bs ?U"
    using example_reachable by (rule cacheReachableE)
  then have bs: "bs = []" using example_allocation(6) by (auto simp: cacheOk_def layoutOk_def freeOk_def freeList_Nil)
  have lay: "layoutOk exampleConfig exampleCache1 bs ?U" and eyes: "eyesOk exampleConfig exampleCache1 (?U - {(4128, 320)})"
    using ok by (auto simp: cacheOk_def eyesOk_def)
  obtain cc2 where c: "addFreeBlock2 exampleConfig 4128 (4128 + 320) exampleCache1 = Some (Ok (True, cc2))"
    "layoutOk exampleConfig cc2 (addBlock (warmCodeAlloc exampleCache1) (coldCodeAlloc exampleCache1) (4128, 320) bs) (?U - {(4128, 320)})"
    "sameArea exampleCache1 cc2"
    by (rule addFreeBlock2_ok [OF lay _ eyes rec]) auto
  have "cacheReachable exampleConfig exampleCache cc2 (?U - {(4128, 320)})"
    using c(1) by (intro cacheReachable_step [OF example_reachable freed]) auto
  moreover have "?U - {(4128, 320)} = {(69440, 192)}" by auto
  ultimately show ?thesis using c(2,3) by (auto simp: bs layoutOk_def freeOk_def sameArea_def example_allocation)
qed

section \<open>Free space\<close>

text \<open>The free blocks, the used blocks and the contiguous space add up to the code area.\<close>

lemma cacheOk_total:
  assumes ok: "cacheOk cfg K cc bs U"
  shows "sum_list (map snd bs) + (\<Sum>u\<in>U. snd u) + (coldCodeAlloc cc - warmCodeAlloc cc) = CCPreLoadedCodeBase cc - codeLow cfg cc"
    "getFreeContiguousSpace cc = coldCodeAlloc cc - warmCodeAlloc cc"
proof -
  have c: "coalesced (warmCodeAlloc cc) (coldCodeAlloc cc) bs" "boundsOk cfg cc"
    using ok by (auto simp: cacheOk_def layoutOk_def freeOk_def)
  have "card (blockBytes bs) + (\<Sum>u\<in>U. snd u) = card (codeArea cfg cc)"
    using cacheOwner.conserved [of cfg _ "(cc, bs)" U] ok by simp
  then show "sum_list (map snd bs) + (\<Sum>u\<in>U. snd u) + (coldCodeAlloc cc - warmCodeAlloc cc) = CCPreLoadedCodeBase cc - codeLow cfg cc"
    unfolding card_blockBytes [OF c(1)] card_codeArea [OF c(2)] using c(2) by (auto simp: boundsOk_def)
  show "getFreeContiguousSpace cc = coldCodeAlloc cc - warmCodeAlloc cc"
    using cacheOk_bounds(2,3) [OF ok] by (simp add: getFreeContiguousSpace_def psub_le)
qed

lemma cacheOk_freeList: "cacheOk cfg K cc bs U \<Longrightarrow> freeList (mem cc) (freeBlockList cc) bs"
  by (simp add: cacheOk_def layoutOk_def freeOk_def)

lemma cacheOk_finite: "cacheOk cfg K cc bs U \<Longrightarrow> finite U"
  by (simp add: cacheOk_def layoutOk_def tilesOk_def)

lemma free_space:
  assumes ok: "cacheOk cfg K cc bs U" and rec: "codeCacheFreeBlockRecylingEnabled cfg" and u: "u \<in> U"
  shows "\<exists>cc' bs'. addFreeBlock2 cfg (fst u) (fst u + snd u) cc = Some (Ok (True, cc')) \<and> freeList (mem cc') (freeBlockList cc') bs' \<and>
    sum_list (map snd bs') = sum_list (map snd bs) + snd u \<and> getFreeContiguousSpace cc' = getFreeContiguousSpace cc"
proof -
  let ?bs = "addBlock (warmCodeAlloc cc) (coldCodeAlloc cc) u bs"
  have lay: "layoutOk cfg cc bs U" and u': "(fst u, snd u) \<in> U" and eyes: "eyesOk cfg cc (U - {(fst u, snd u)})"
    using ok u by (auto simp: cacheOk_def eyesOk_def)
  obtain cc1 where a: "addFreeBlock2 cfg (fst u) (fst u + snd u) cc = Some (Ok (True, cc1))" "sameArea cc cc1"
    by (rule addFreeBlock2_ok [OF lay u' eyes rec])
  obtain cc' where c: "addFreeBlock2 cfg (fst u) (fst u + snd u) cc = Some (Ok (True, cc'))" "cacheOk cfg K cc' ?bs (U - {u})"
    by (rule addFreeBlock2_cacheOk [OF ok rec u])
  have same: "sameArea cc cc'" using a c(1) by simp
  have "(\<Sum>v\<in>U. snd v) = snd u + (\<Sum>v\<in>U - {u}. snd v)" by (rule sum.remove [OF cacheOk_finite [OF ok] u])
  then have "sum_list (map snd ?bs) = sum_list (map snd bs) + snd u"
    using cacheOk_total(1) [OF ok] cacheOk_total(1) [OF c(2)] same by (simp add: sameArea_def codeLow_def)
  then show ?thesis using c cacheOk_freeList [OF c(2)] same by (auto simp: getFreeContiguousSpace_def sameArea_def)
qed

lemma trim_space:
  assumes ok: "cacheOk cfg K cc bs U" and rec: "codeCacheFreeBlockRecylingEnabled cfg" and u: "u \<in> U" and s: "s < 2 ^ 61"
  shows "\<exists>r cc' bs' k. trimCodeMemoryAllocation cfg (fst u + sizeof_CodeCacheMethodHeader) s cc = Some (Ok (r, cc')) \<and>
    freeList (mem cc') (freeBlockList cc') bs' \<and> codeCacheAlignment cfg dvd k \<and> s + 16 \<le> k \<and> k < s + 16 + codeCacheAlignment cfg \<and>
    (r \<longleftrightarrow> s \<noteq> 0 \<and> k < snd u \<and> (fst u + snd u = warmCodeAlloc cc \<or> 96 \<le> snd u - k)) \<and>
    mhSize (mem cc') (fst u) = (if r then k else snd u) \<and> (\<not> r \<longrightarrow> cc' = cc) \<and>
    sum_list (map snd bs') + getFreeContiguousSpace cc' =
      sum_list (map snd bs) + getFreeContiguousSpace cc + (if r then snd u - k else 0)"
proof -
  obtain a n where u': "u = (a, n)" by (cases u)
  define k where "k = align (s + 16) (codeCacheAlignment cfg - 1)"
  have k: "codeCacheAlignment cfg dvd k" "s + 16 \<le> k" "k < s + 16 + codeCacheAlignment cfg"
    unfolding k_def using s by (intro align_props [OF cacheOk_bounds(1) [OF ok]]; simp)+
  have wh: "withHeader cfg s = k" if "s \<noteq> 0" using that s by (simp add: withHeader_def k_def sizeof_defs sadd_def)
  have can: "canTrim cfg cc u s \<longleftrightarrow> s \<noteq> 0 \<and> k < snd u \<and> (fst u + snd u = warmCodeAlloc cc \<or> 96 \<le> snd u - k)"
    using wh by (auto simp: canTrim_def sizeof_defs)
  show ?thesis
  proof (cases "canTrim cfg cc u s")
    case False
    have "mhSize (mem cc) (fst u) = snd u" using ok u by (simp add: cacheOk_def headerSizesOk_def)
    then show ?thesis
      using trim_refused [OF ok, of a n s] u u' False can k cacheOk_freeList [OF ok] by (intro exI [of _ False] exI [of _ cc] exI [of _ bs] exI [of _ k]) simp
  next
    case True
    obtain bs' cc' where t: "trimCodeMemoryAllocation cfg (a + sizeof_CodeCacheMethodHeader) s cc = Some (Ok (True, cc'))"
      "cacheOk cfg K cc' bs' (insert (a, withHeader cfg s) (U - {(a, n)}))"
      "CCPreLoadedCodeBase cc' = CCPreLoadedCodeBase cc" "segmentBase cc' = segmentBase cc"
      by (rule trim_succeeds [OF ok u [unfolded u'] s rec True [unfolded u']])
    have s0: "s \<noteq> 0" "k < n" using True can u' by auto
    have fin: "finite (U - {(a, n)})" using cacheOk_finite [OF ok] by simp
    have new: "(a, k) \<notin> U - {(a, n)}"
    proof
      assume "(a, k) \<in> U - {(a, n)}"
      then have "blockRange (a, k) \<inter> blockRange (a, n) = {}" using ok u u' s0 by (auto simp: cacheOk_def layoutOk_def tilesOk_def)
      then show False using s0 k(2) by (auto simp: blockRange_def)
    qed
    have "(\<Sum>v\<in>U. snd v) = n + (\<Sum>v\<in>U - {(a, n)}. snd v)" using sum.remove [OF cacheOk_finite [OF ok] u, of snd] by (simp add: u')
    moreover have "(\<Sum>v\<in>insert (a, k) (U - {(a, n)}). snd v) = k + (\<Sum>v\<in>U - {(a, n)}. snd v)" using sum.insert [OF fin new, of snd] by simp
    moreover have total: "CCPreLoadedCodeBase cc' - codeLow cfg cc' = CCPreLoadedCodeBase cc - codeLow cfg cc"
      using t(3,4) by (simp add: codeLow_def)
    ultimately have "sum_list (map snd bs') + getFreeContiguousSpace cc' = sum_list (map snd bs) + getFreeContiguousSpace cc + (n - k)"
      using cacheOk_total [OF ok] cacheOk_total [OF t(2)] total s0(2) unfolding wh [OF s0(1)] by linarith
    moreover have "mhSize (mem cc') a = k" using t(2) wh s0 by (simp add: cacheOk_def headerSizesOk_def)
    ultimately show ?thesis
      using t(1) cacheOk_freeList [OF t(2)] k can True by (intro exI [of _ True] exI [of _ cc'] exI [of _ bs'] exI [of _ k]) (simp add: u')
  qed
qed

section \<open>Properties of a code cache\<close>




text \<open>C27: in a configuration that recycles free blocks and whose two eye-catchers begin with the same
  letter (\<open>goodConfig\<close>, part of \<open>cacheReachable\<close>), in every state that a code cache reaches from its
  initialization by allocating, freeing, trimming and reserving, the code's own consistency check
  \<open>checkForErrors\<close> ends and reports no error: the free blocks are in order, inside the cache,
  coalesced and followed by used blocks, and the recorded sizes of the largest warm and cold blocks
  are right. Without recycling the check fails (\<open>free_crashes_without_recycling\<close>).\<close>

theorem reachable_check_passes:
  assumes "cacheReachable cfg cc0 cc U"
  shows "checkForErrors cfg cc = Some False"
  using assms by (rule cacheReachableE) (auto simp: cacheOk_def intro: checkForErrors_ok)

text \<open>The check after an allocation from a new cache.\<close>

theorem reachable_check_passes_witness:
  "cacheReachable exampleConfig exampleCache exampleCache1 {(4128, 320), (69440, 192)} \<and>
   checkForErrors exampleConfig exampleCache1 = Some False"
  using example_reachable reachable_check_passes [OF example_reachable] by blast

text \<open>C28: no address of a reachable cache has two owners: an address of a used block lies in the code
  area, in no block of the free list and in no other used block.\<close>

theorem reachable_blocks_have_one_owner:
  assumes "cacheReachable cfg cc0 cc U" "u \<in> U" "x \<in> blockRange u"
  shows "\<exists>bs. freeList (mem cc) (freeBlockList cc) bs \<and> x \<in> codeArea cfg cc \<and> x \<notin> blockBytes bs \<and>
    (\<forall>v\<in>U. x \<in> blockRange v \<longrightarrow> v = u)"
proof -
  obtain bs where ok: "cacheOk cfg (otherSpace cfg cc0) cc bs U" using assms(1) by (rule cacheReachableE)
  then have "freeList (mem cc) (freeBlockList cc) bs" by (simp add: cacheOk_def layoutOk_def freeOk_def)
  then show ?thesis using cacheOwner.one_owner [of cfg _ "(cc, bs)" U u x] ok assms(2,3) by auto
qed

text \<open>An address of the first block that is allocated.\<close>

theorem reachable_blocks_have_one_owner_witness:
  "(\<exists>bs. freeList (mem exampleCache1) (freeBlockList exampleCache1) bs \<and> 4200 \<in> codeArea exampleConfig exampleCache1 \<and>
      4200 \<notin> blockBytes bs \<and> (\<forall>v\<in>{(4128, 320), (69440, 192)}. 4200 \<in> blockRange v \<longrightarrow> v = (4128, 320)))"
  by (rule reachable_blocks_have_one_owner [OF example_reachable]) (simp_all add: blockRange_def)

text \<open>C29: no memory is lost: in a reachable cache the free blocks, the used blocks and the contiguous
  space add up to the code area of the cache, and the repository counts exactly the contiguous
  space on top of what belongs to other caches.\<close>

theorem reachable_memory_conserved:
  assumes "cacheReachable cfg cc0 cc U"
  shows "\<exists>bs. freeList (mem cc) (freeBlockList cc) bs \<and>
    sum_list (map snd bs) + (\<Sum>u\<in>U. snd u) + (coldCodeAlloc cc - warmCodeAlloc cc) = CCPreLoadedCodeBase cc - codeLow cfg cc \<and>
    (usingRepository cfg \<longrightarrow> repositoryFreeSpace cc = otherSpace cfg cc0 + getFreeContiguousSpace cc)"
proof -
  obtain bs where ok: "cacheOk cfg (otherSpace cfg cc0) cc bs U" using assms by (rule cacheReachableE)
  then have "repositoryOk cfg (otherSpace cfg cc0) cc" by (simp add: cacheOk_def)
  then show ?thesis using cacheOk_total [OF ok] cacheOk_freeList [OF ok] by (auto simp: repositoryOk_def)
qed

text \<open>The sizes after the first allocation.\<close>

theorem reachable_memory_conserved_witness:
  "\<exists>bs. freeList (mem exampleCache1) (freeBlockList exampleCache1) bs \<and>
    sum_list (map snd bs) + (\<Sum>u\<in>{(4128, 320), (69440, 192)}. snd u) + (69440 - 4448) =
      CCPreLoadedCodeBase exampleCache1 - codeLow exampleConfig exampleCache1"
  using reachable_memory_conserved [OF example_reachable] by (auto simp: example_allocation)

text \<open>C30: a request for code memory always returns. It succeeds exactly when each part fits into a free
  block or both fit into the contiguous space; the new blocks were not in use and are large enough
  for the code and its header, and the cache stays well-formed. A refused request leaves the cache
  as it was.\<close>

theorem allocation_succeeds_when_possible:
  assumes "cacheReachable cfg cc0 cc U" "w + c < 2 ^ 61"
  shows "\<exists>r cc'. allocateCodeMemory cfg w c contiguous True cc = Some (Ok (r, cc')) \<and>
    (case r of None \<Rightarrow> \<not> canAllocate cfg cc w c contiguous \<and> cc' = cc
     | Some ps \<Rightarrow> canAllocate cfg cc w c contiguous \<and>
         cacheReachable cfg cc0 cc' (U \<union> allocatedBlocks cc' w c contiguous ps) \<and>
         allocatedBlocks cc' w c contiguous ps \<inter> U = {} \<and>
         (requestedWarm w c contiguous \<noteq> 0 \<longrightarrow> requestedWarm w c contiguous + 16 \<le> snd (headerBlock cc' (fst ps))) \<and>
         (requestedCold c contiguous \<noteq> 0 \<longrightarrow> requestedCold c contiguous + 16 \<le> snd (headerBlock cc' (snd ps))))"
proof -
  obtain bs where ok: "cacheOk cfg (otherSpace cfg cc0) cc bs U" using assms(1) by (rule cacheReachableE)
  have reach: "cacheReachable cfg cc0 cc' (U \<union> allocatedBlocks cc' w c contiguous ps)"
    if "allocateCodeMemory cfg w c contiguous True cc = Some (Ok (Some ps, cc'))" for ps cc'
    using cacheReachable_step [OF assms(1) allocated [OF that assms(2)]] .
  obtain r cc' bs' where r: "allocateCodeMemory cfg w c contiguous True cc = Some (Ok (r, cc'))"
    "case r of None \<Rightarrow> \<not> canAllocate cfg cc w c contiguous \<and> cc' = cc
     | Some ps \<Rightarrow> canAllocate cfg cc w c contiguous \<and>
         cacheOk cfg (otherSpace cfg cc0) cc' bs' (U \<union> allocatedBlocks cc' w c contiguous ps) \<and>
         allocatedBlocks cc' w c contiguous ps \<inter> U = {} \<and>
         (requestedWarm w c contiguous \<noteq> 0 \<longrightarrow> requestedWarm w c contiguous + 16 \<le> snd (headerBlock cc' (fst ps))) \<and>
         (requestedCold c contiguous \<noteq> 0 \<longrightarrow> requestedCold c contiguous + 16 \<le> snd (headerBlock cc' (snd ps)))"
    using allocateCodeMemory_result [OF ok assms(2), of contiguous] by blast
  show ?thesis
  proof (intro exI conjI)
    show "allocateCodeMemory cfg w c contiguous True cc = Some (Ok (r, cc'))" by (rule r(1))
  qed (use r reach in \<open>cases r; simp\<close>)
qed

text \<open>A request for 1000 bytes of warm code in the cache of the run.\<close>

theorem allocation_succeeds_when_possible_witness:
  "\<exists>ps cc'. allocateCodeMemory exampleConfig 1000 0 False True exampleCache1 = Some (Ok (Some ps, cc')) \<and>
     1016 \<le> snd (headerBlock cc' (fst ps))"
proof -
  have "canAllocate exampleConfig exampleCache1 1000 0 False"
    by (simp add: canAllocate_def withHeader_def requestedWarm_def requestedCold_def example_allocation example_defs)
  then show ?thesis
    using allocation_succeeds_when_possible [OF example_reachable, of 1000 0 False]
    by (auto simp: requestedWarm_def split: option.splits)
qed

text \<open>C31: in a configuration that recycles free blocks (part of \<open>cacheReachable\<close>), freeing a used block
  and trimming it to \<open>s\<close> bytes of code return, without running into the consistency check or a list
  that does not end. Freeing adds the bytes of the block to the free list. Trimming succeeds exactly
  when the block is larger than the \<open>k\<close> bytes that are needed, the smallest aligned size for the code
  and its header, and is the last warm block or leaves at least 96 bytes; then the header says \<open>k\<close>,
  and exactly the rest becomes free. Otherwise nothing changes.\<close>

theorem free_and_trim_return:
  assumes "cacheReachable cfg cc0 cc U" "u \<in> U" "s < 2 ^ 61" "freeList (mem cc) (freeBlockList cc) bs"
  shows "(\<exists>cc' bs'. addFreeBlock2 cfg (fst u) (fst u + snd u) cc = Some (Ok (True, cc')) \<and> freeList (mem cc') (freeBlockList cc') bs' \<and>
      sum_list (map snd bs') = sum_list (map snd bs) + snd u \<and> getFreeContiguousSpace cc' = getFreeContiguousSpace cc) \<and>
    (\<exists>r cc' bs' k. trimCodeMemoryAllocation cfg (fst u + sizeof_CodeCacheMethodHeader) s cc = Some (Ok (r, cc')) \<and>
      freeList (mem cc') (freeBlockList cc') bs' \<and>
      codeCacheAlignment cfg dvd k \<and> s + 16 \<le> k \<and> k < s + 16 + codeCacheAlignment cfg \<and>
      (r \<longleftrightarrow> s \<noteq> 0 \<and> k < snd u \<and> (fst u + snd u = warmCodeAlloc cc \<or> 96 \<le> snd u - k)) \<and>
      mhSize (mem cc') (fst u) = (if r then k else snd u) \<and> (\<not> r \<longrightarrow> cc' = cc) \<and>
      sum_list (map snd bs') + getFreeContiguousSpace cc' =
        sum_list (map snd bs) + getFreeContiguousSpace cc + (if r then snd u - k else 0))"
proof -
  obtain bs2 where rec: "codeCacheFreeBlockRecylingEnabled cfg" and ok2: "cacheOk cfg (otherSpace cfg cc0) cc bs2 U"
    using assms(1) by (rule cacheReachableE)
  then have "bs2 = bs" using assms(4) by (auto simp: cacheOk_def layoutOk_def freeOk_def intro: freeList_unique)
  with ok2 have ok: "cacheOk cfg (otherSpace cfg cc0) cc bs U" by simp
  let ?free = "\<lambda>cc' bs'. freeList (mem cc') (freeBlockList cc') bs'"
  have freed: "\<exists>cc' bs'. addFreeBlock2 cfg (fst u) (fst u + snd u) cc = Some (Ok (True, cc')) \<and> ?free cc' bs' \<and>
      sum_list (map snd bs') = sum_list (map snd bs) + snd u \<and> getFreeContiguousSpace cc' = getFreeContiguousSpace cc"
    by (rule free_space [OF ok rec assms(2)])
  moreover have "\<exists>r cc' bs' k. trimCodeMemoryAllocation cfg (fst u + sizeof_CodeCacheMethodHeader) s cc = Some (Ok (r, cc')) \<and>
      ?free cc' bs' \<and> codeCacheAlignment cfg dvd k \<and> s + 16 \<le> k \<and> k < s + 16 + codeCacheAlignment cfg \<and>
      (r \<longleftrightarrow> s \<noteq> 0 \<and> k < snd u \<and> (fst u + snd u = warmCodeAlloc cc \<or> 96 \<le> snd u - k)) \<and>
      mhSize (mem cc') (fst u) = (if r then k else snd u) \<and> (\<not> r \<longrightarrow> cc' = cc) \<and>
      sum_list (map snd bs') + getFreeContiguousSpace cc' =
        sum_list (map snd bs) + getFreeContiguousSpace cc + (if r then snd u - k else 0)"
    by (rule trim_space [OF ok rec assms(2,3)])
  ultimately show ?thesis by blast
qed

text \<open>Freeing the first block of the run, and trimming it to 100 bytes.\<close>

theorem free_and_trim_return_witness:
  "(\<exists>cc' bs'. addFreeBlock2 exampleConfig 4128 4448 exampleCache1 = Some (Ok (True, cc')) \<and>
     freeList (mem cc') (freeBlockList cc') bs' \<and> sum_list (map snd bs') = 320) \<and>
   (\<exists>r cc' k. trimCodeMemoryAllocation exampleConfig 4144 100 exampleCache1 = Some (Ok (r, cc')) \<and> r \<and>
     mhSize (mem cc') 4128 = k \<and> 116 \<le> k \<and> k < 148)"
proof -
  have fl: "freeList (mem exampleCache1) (freeBlockList exampleCache1) []" by (simp add: example_allocation)
  have "codeCacheAlignment exampleConfig = 32" by (simp add: exampleConfig_def)
  with free_and_trim_return [OF example_reachable _ _ fl, of "(4128, 320)" 100] show ?thesis
    by (fastforce simp: example_allocation sizeof_defs)
qed

text \<open>C32: when the recorded size of the largest warm or cold free block is at least the (aligned) size
  asked for, \<open>findFreeBlock\<close> returns the smallest block of that kind that is large enough. The block
  leaves the free list; if at least 96 bytes remain, they stay in its place, otherwise the whole
  block is given away, and the header says how much was taken.\<close>

theorem findFreeBlock_best_fit:
  assumes "cacheReachable cfg cc0 cc U" "codeCacheAlignment cfg dvd n" "16 < n"
    "n \<le> (if isCold then sizeOfLargestFreeColdBlock cc else sizeOfLargestFreeWarmBlock cc)"
  shows "\<exists>us b vs cc'. freeList (mem cc) (freeBlockList cc) (us @ b # vs) \<and> wantedKind cc isCold (fst b) \<and> n \<le> snd b \<and>
    (\<forall>x\<in>set (us @ b # vs). wantedKind cc isCold (fst x) \<and> n \<le> snd x \<longrightarrow> snd b \<le> snd x) \<and>
    findFreeBlock cfg n isCold True cc = Some (Ok (fst b, cc')) \<and>
    freeList (mem cc') (freeBlockList cc') (us @ leftover n b @ vs) \<and> mhSize (mem cc') (fst b) = snd (taken n b)"
proof -
  obtain bs where "cacheOk cfg (otherSpace cfg cc0) cc bs U" using assms(1) by (rule cacheReachableE)
  then have c: "layoutOk cfg cc bs U" "eyesOk cfg cc U" "headerSizesOk cc U"
    and fl: "freeList (mem cc) (freeBlockList cc) bs" by (auto simp: cacheOk_def layoutOk_def freeOk_def)
  have kept: "freeList (mem cc') (freeBlockList cc') xs \<and> mhSize (mem cc') (fst b) = snd (taken n b)"
    if "layoutOk cfg cc' xs V" "headerSizesOk cc' (insert (taken n b) U)" for cc' xs V b
    using that by (auto simp: layoutOk_def freeOk_def headerSizesOk_def taken_def)
  show ?thesis
    by (rule findFreeBlock_ok [OF c assms(2-4)], intro exI conjI, use fl in simp, assumption+) (use kept in blast)+
qed

text \<open>The block freed in the run is the best fit for the next request.\<close>

theorem findFreeBlock_best_fit_witness:
  "\<exists>cc2 us b vs cc'. freeList (mem cc2) (freeBlockList cc2) (us @ b # vs) \<and>
     findFreeBlock exampleConfig 64 False True cc2 = Some (Ok (fst b, cc')) \<and>
     freeList (mem cc') (freeBlockList cc') (us @ leftover 64 b @ vs)"
proof -
  obtain cc2 where c: "cacheReachable exampleConfig exampleCache cc2 {(69440, 192)}" "sizeOfLargestFreeWarmBlock cc2 = 320"
    using example_freed by blast
  have "codeCacheAlignment exampleConfig dvd 64" by (simp add: exampleConfig_def)
  from findFreeBlock_best_fit [OF c(1) this, of False] c(2) show ?thesis by simp blast
qed

text \<open>C33: \<open>addFreeBlock2\<close> on a used block implements the addition to an ordered list of blocks: the block
  is put in its place and merged with the blocks it touches, but warm code never with cold code, and
  exactly its bytes become free.\<close>

theorem addFreeBlock2_refines_addBlock:
  assumes "cacheReachable cfg cc0 cc U" "u \<in> U" "freeList (mem cc) (freeBlockList cc) bs"
  shows "\<exists>cc'. addFreeBlock2 cfg (fst u) (fst u + snd u) cc = Some (Ok (True, cc')) \<and>
    freeList (mem cc') (freeBlockList cc') (addBlock (warmCodeAlloc cc) (coldCodeAlloc cc) u bs) \<and>
    coalesced (warmCodeAlloc cc) (coldCodeAlloc cc) (addBlock (warmCodeAlloc cc) (coldCodeAlloc cc) u bs) \<and>
    blockBytes (addBlock (warmCodeAlloc cc) (coldCodeAlloc cc) u bs) = blockRange u \<union> blockBytes bs"
proof -
  obtain bs' where rec: "codeCacheFreeBlockRecylingEnabled cfg" and ok: "cacheOk cfg (otherSpace cfg cc0) cc bs' U"
    using assms(1) by (rule cacheReachableE)
  have bs: "bs' = bs" using ok assms(3) by (auto simp: cacheOk_def layoutOk_def freeOk_def intro: freeList_unique)
  have lay: "layoutOk cfg cc bs U" and eyes: "eyesOk cfg cc (U - {(fst u, snd u)})" and u: "(fst u, snd u) \<in> U"
    using ok assms(2) by (auto simp: bs cacheOk_def eyesOk_def)
  obtain cc' where c: "addFreeBlock2 cfg (fst u) (fst u + snd u) cc = Some (Ok (True, cc'))"
    "layoutOk cfg cc' (addBlock (warmCodeAlloc cc) (coldCodeAlloc cc) (fst u, snd u) bs) (U - {(fst u, snd u)})" "sameArea cc cc'"
    by (rule addFreeBlock2_ok [OF lay u eyes rec])
  then show ?thesis by (auto simp: addBlock_bytes layoutOk_def freeOk_def sameArea_def)
qed

text \<open>The first block of the run, freed into an empty list.\<close>

theorem addFreeBlock2_refines_addBlock_witness:
  "\<exists>cc'. addFreeBlock2 exampleConfig 4128 4448 exampleCache1 = Some (Ok (True, cc')) \<and>
     freeList (mem cc') (freeBlockList cc') [(4128, 320)]"
  using addFreeBlock2_refines_addBlock [OF example_reachable, of "(4128, 320)" "[]"] by (auto simp: example_allocation)

text \<open>With the consistency check on and the recycling of free blocks off, freeing the first block
  of a well-formed cache crashes: the sizes of the largest blocks are then not maintained, but
  \<open>checkForErrors\<close> compares them with the list.\<close>

lemma free_crashes_without_recycling:
  assumes "cacheOk cfg K cc [] U" "u \<in> U" "doSanityChecks cfg" "\<not> codeCacheFreeBlockRecylingEnabled cfg"
  shows "addFreeBlock2 cfg (fst u) (fst u + snd u) cc = Some (Fault SanityCheckCrash)"
proof -
  let ?s = "fst u" and ?n = "snd u"
  have lay: "layoutOk cfg cc [] U" using assms(1) by (simp add: cacheOk_def)
  then have bnd: "boundsOk cfg cc" and zero: "freeBlockList cc = 0" "sizeOfLargestFreeWarmBlock cc = 0" "sizeOfLargestFreeColdBlock cc = 0"
    and ub: "blockOk cfg u" using assms(2) by (auto simp: layoutOk_def freeOk_def tilesOk_def)
  have n: "16 < ?n" "?s + ?n < 2 ^ 63" "codeCacheAlignment cfg dvd ?s" "0 < ?s" using ub by (auto simp: blockOk_def sizeof_defs)
  have ok: "alignmentOk cfg" using bnd by (simp add: boundsOk_def)
  have al: "align ?s (codeCacheAlignment cfg - 1) = ?s" using n by (intro align_dvd [OF ok n(3)]) simp
  have ps: "psub (?s + ?n) ?s = ?n" using n by (simp add: psub_le)
  define cc3 where "cc3 = (setNext ?s 0 (setBlockSize ?s ?n (clearEyeCatcher ?s cc)))\<lparr>freeBlockList := ?s\<rparr>"
  have eq: "addFreeBlock2 cfg ?s (?s + ?n) cc = sanityCheck cfg cc3 True"
    using n zero assms(4) unfolding addFreeBlock2_def Let_def al ps
    by (simp add: sizeof_defs updateMaxSizeOfFreeBlocks_def cc3_def)
  have f: "freeList (mem cc3) ?s [(?s, ?n)]" "freeBlockList cc3 = ?s" "sizeOfLargestFreeWarmBlock cc3 = 0"
    "sizeOfLargestFreeColdBlock cc3 = 0" "trampolineBase cc3 \<le> segmentTop cc3" "segmentTop cc3 < 2 ^ 62"
    using n zero bnd by (auto simp: cc3_def setNext_def setBlockSize_def clearEyeCatcher_def boundsOk_def)
  have "checkForErrors cfg cc3 = Some True"
    using checkScan_list [OF f(1), of cfg False 0 0] walkBlocks_beyond [OF ok f(5,6)] f(2-4) n
    by (auto simp: checkForErrors_def)
  then show ?thesis using assms(3) by (simp add: eq sanityCheck_def)
qed

end
