(* ===== verification/Trampolines.thy ===== *)
theory Trampolines
  imports CodeCache
begin

text \<open>
  The trampolines of a code cache (\<open>compiler/runtime/OMRCodeCache.cpp\<close>) and the hash table of the
  methods that have one (\<open>compiler/runtime/CodeCacheTypes.cpp\<close>). A trampoline is a piece of code
  in the cache through which calls reach a method that is out of range; a permanent trampoline is
  reserved before it is allocated, a temporary one stands in for a permanent one that must not be
  modified before the next synchronization.

  The fields of a \<open>CodeCacheHashEntry\<close> are maps from the address of the entry, the synchronization
  blocks a list in the order of their links, with the first \<open>_entryCount\<close> elements of an
  array as a list. The callback \<open>createMethodTrampoline\<close> is code of the platform: \<open>created\<close> records
  the arguments of its last call for an address. The results of \<open>getMemory\<close> and of
  \<open>mtd.startPC\<close> are arguments.
\<close>

section \<open>State\<close>

record hashEntries =
  heNext :: "nat \<Rightarrow> nat"
  heKey :: "nat \<Rightarrow> nat"
  heMethod :: "nat \<Rightarrow> nat"
  heStartPC :: "nat \<Rightarrow> nat"
  heTrampoline :: "nat \<Rightarrow> nat"

record slab =
  slabSegment :: nat
  heapAlloc :: nat
  heapTop :: nat

record syncBlock =
  hashEntryArray :: "nat list"
  entryListSize :: nat

text \<open>\<open>resolvedMethodHT\<close> holds the buckets of the table, whose \<open>_size\<close> is their number.\<close>

record trampolineState =
  cache :: codeCache
  entries :: hashEntries
  resolvedMethodHT :: "nat list"
  hashEntryFreeList :: nat
  hashEntrySlab :: slab
  olderSlabs :: "slab list"
  trampolineSyncList :: "syncBlock list"
  created :: "nat \<rightharpoonup> nat \<times> nat"

definition sizeof_CodeCacheHashEntry :: nat where "sizeof_CodeCacheHashEntry = 40"

definition CODECACHE_FULL_SYNC_REQUIRED :: u32 where "CODECACHE_FULL_SYNC_REQUIRED = 1"

section \<open>The hash table\<close>

definition hashTableAllocate :: "codeCacheConfig \<Rightarrow> nat list" where
  "hashTableAllocate cfg = replicate (max (codeCacheKB cfg * 2 div 3) 1) 0"

definition hashResolvedMethod :: "nat \<Rightarrow> nat" where "hashResolvedMethod method = method"

partial_function (option) findInChain :: "hashEntries \<Rightarrow> nat \<Rightarrow> nat \<Rightarrow> nat option" where
  "findInChain h method entry =
     (if entry = 0 then Some 0
      else if heMethod h entry = method then Some entry
      else findInChain h method (heNext h entry))"

definition findResolvedMethod :: "nat \<Rightarrow> trampolineState \<Rightarrow> nat option" where
  "findResolvedMethod method st = (let key = hashResolvedMethod method; bs = resolvedMethodHT st in
     findInChain (entries st) method (bs ! (key mod length bs)))"

definition hashAdd :: "nat \<Rightarrow> trampolineState \<Rightarrow> trampolineState" where
  "hashAdd entry st = (let bs = resolvedMethodHT st; bucket = heKey (entries st) entry mod length bs in
     st\<lparr>entries := (entries st)\<lparr>heNext := (heNext (entries st))(entry := bs ! bucket)\<rparr>,
        resolvedMethodHT := bs[bucket := entry]\<rparr>)"

text \<open>The search of \<open>remove\<close> for the link that leads to the entry; \<open>0\<close> stands for the bucket itself.\<close>

partial_function (option) findLink :: "hashEntries \<Rightarrow> nat \<Rightarrow> nat \<Rightarrow> nat \<Rightarrow> nat option option" where
  "findLink h entry prev cur =
     (if cur = 0 then Some None
      else if cur = entry then Some (Some prev)
      else findLink h entry cur (heNext h cur))"

definition hashRemove :: "nat \<Rightarrow> trampolineState \<Rightarrow> (bool \<times> trampolineState) option" where
  "hashRemove entry st = (let h = entries st; bs = resolvedMethodHT st; bucket = heKey h entry mod length bs in
     Option.bind (findLink h entry 0 (bs ! bucket)) (\<lambda>r. Some (case r of
       None \<Rightarrow> (False, st)
     | Some prev \<Rightarrow> (True,
         if prev = 0
         then st\<lparr>resolvedMethodHT := bs[bucket := heNext h entry], entries := h\<lparr>heNext := (heNext h)(entry := 0)\<rparr>\<rparr>
         else st\<lparr>entries := h\<lparr>heNext := (heNext h)(prev := heNext h entry, entry := 0)\<rparr>\<rparr>))))"

section \<open>Hash entries\<close>

definition slabAllocate :: "codeCacheConfig \<Rightarrow> nat \<Rightarrow> slab" where
  "slabAllocate cfg segment = \<lparr>slabSegment = segment, heapAlloc = segment,
     heapTop = segment + codeCacheHashEntryAllocatorSlabSize cfg\<rparr>"

text \<open>\<open>newSegment\<close> is the memory for a new slab, if it is to be had; a result of \<open>0\<close> is \<open>NULL\<close>.\<close>

definition allocateHashEntry :: "codeCacheConfig \<Rightarrow> nat option \<Rightarrow> trampolineState \<Rightarrow> nat \<times> trampolineState" where
  "allocateHashEntry cfg newSegment st = (let
     take = (\<lambda>sl st1. (heapAlloc sl, st1\<lparr>hashEntrySlab := sl\<lparr>heapAlloc := heapAlloc sl + sizeof_CodeCacheHashEntry\<rparr>\<rparr>)) in
     if hashEntryFreeList st \<noteq> 0 then
       (hashEntryFreeList st, st\<lparr>hashEntryFreeList := heNext (entries st) (hashEntryFreeList st)\<rparr>)
     else if heapAlloc (hashEntrySlab st) + sizeof_CodeCacheHashEntry > heapTop (hashEntrySlab st) then
       (case newSegment of None \<Rightarrow> (0, st)
        | Some segment \<Rightarrow> take (slabAllocate cfg segment) (st\<lparr>olderSlabs := hashEntrySlab st # olderSlabs st\<rparr>))
     else take (hashEntrySlab st) st)"

definition freeHashEntry :: "nat \<Rightarrow> trampolineState \<Rightarrow> trampolineState" where
  "freeHashEntry entry st = st
     \<lparr>entries := (entries st)\<lparr>heNext := (heNext (entries st))(entry := hashEntryFreeList st)\<rparr>,
      hashEntryFreeList := entry\<rparr>"

definition addResolvedMethod :: "codeCacheConfig \<Rightarrow> nat option \<Rightarrow> nat \<Rightarrow> trampolineState \<Rightarrow> bool \<times> trampolineState" where
  "addResolvedMethod cfg newSegment method st = (let (entry, st1) = allocateHashEntry cfg newSegment st in
     if entry = 0 then (False, st1)
     else (True, hashAdd entry (st1\<lparr>entries := (entries st1)
       \<lparr>heKey := (heKey (entries st1))(entry := hashResolvedMethod method),
        heMethod := (heMethod (entries st1))(entry := method),
        heStartPC := (heStartPC (entries st1))(entry := 0),
        heTrampoline := (heTrampoline (entries st1))(entry := 0)\<rparr>\<rparr>)))"

definition findOrAddResolvedMethod :: "codeCacheConfig \<Rightarrow> nat option \<Rightarrow> nat \<Rightarrow> trampolineState \<Rightarrow> trampolineState option" where
  "findOrAddResolvedMethod cfg newSegment method st = Option.bind (findResolvedMethod method st)
     (\<lambda>entry. Some (if entry = 0 then snd (addResolvedMethod cfg newSegment method st) else st))"

section \<open>Reserving and allocating trampolines\<close>

definition allocateTrampoline :: "codeCacheConfig \<Rightarrow> codeCache \<Rightarrow> nat \<times> codeCache" where
  "allocateTrampoline cfg cc = (if trampolineAllocationMark cc > trampolineReservationMark cc then
     let t = trampolineAllocationMark cc - trampolineCodeSize cfg in (t, cc\<lparr>trampolineAllocationMark := t\<rparr>)
     else (0, cc))"

definition allocateTempTrampoline :: "codeCacheConfig \<Rightarrow> codeCache \<Rightarrow> nat \<times> codeCache" where
  "allocateTempTrampoline cfg cc = (if tempTrampolineNext cc \<ge> tempTrampolineTop cc then (0, cc)
     else (tempTrampolineNext cc, cc\<lparr>tempTrampolineNext := tempTrampolineNext cc + trampolineCodeSize cfg\<rparr>))"

definition reserveSpaceForTrampoline :: "codeCacheConfig \<Rightarrow> nat \<Rightarrow> codeCache \<Rightarrow> ErrorCode \<times> codeCache" where
  "reserveSpaceForTrampoline cfg numTrampolines cc = (let size = numTrampolines * trampolineCodeSize cfg in
     if size \<noteq> 0 then
       if trampolineReservationMark cc \<ge> trampolineBase cc + size
       then (ERRORCODE_SUCCESS, cc\<lparr>trampolineReservationMark := trampolineReservationMark cc - size\<rparr>)
       else (ERRORCODE_INSUFFICIENTSPACE, cc\<lparr>almostFull := TR_yes\<rparr>)
     else (ERRORCODE_SUCCESS, cc))"

definition unreserveSpaceForTrampoline :: "codeCacheConfig \<Rightarrow> codeCache \<Rightarrow> codeCache" where
  "unreserveSpaceForTrampoline cfg cc = cc\<lparr>trampolineReservationMark := trampolineReservationMark cc + trampolineCodeSize cfg\<rparr>"

definition reserveResolvedTrampoline ::
    "codeCacheConfig \<Rightarrow> nat option \<Rightarrow> nat \<Rightarrow> trampolineState \<Rightarrow> (ErrorCode \<times> trampolineState) option" where
  "reserveResolvedTrampoline cfg newSegment method st =
     (if \<not> needsMethodTrampolines cfg then Some (ERRORCODE_SUCCESS, st)
      else Option.bind (findResolvedMethod method st) (\<lambda>entry.
        if entry = 0 then
          let (retValue, cc) = reserveSpaceForTrampoline cfg 1 (cache st); st1 = st\<lparr>cache := cc\<rparr> in
          if retValue = ERRORCODE_SUCCESS then
            let (added, st2) = addResolvedMethod cfg newSegment method st1 in
            Some (if \<not> added then ERRORCODE_FATALERROR else retValue, st2)
          else Some (retValue, st1)
        else Some (ERRORCODE_SUCCESS, st)))"

section \<open>Finding, replacing and synchronizing trampolines\<close>

definition createTrampoline :: "nat \<Rightarrow> nat \<Rightarrow> nat \<Rightarrow> trampolineState \<Rightarrow> trampolineState" where
  "createTrampoline trampoline targetStartPC method st =
     st\<lparr>created := (created st)(trampoline \<mapsto> (targetStartPC, method))\<rparr>"

definition setStartPC :: "nat \<Rightarrow> nat \<Rightarrow> trampolineState \<Rightarrow> trampolineState" where
  "setStartPC entry pc st = st\<lparr>entries := (entries st)\<lparr>heStartPC := (heStartPC (entries st))(entry := pc)\<rparr>\<rparr>"

definition setTrampoline :: "nat \<Rightarrow> nat \<Rightarrow> trampolineState \<Rightarrow> trampolineState" where
  "setTrampoline entry t st = st\<lparr>entries := (entries st)\<lparr>heTrampoline := (heTrampoline (entries st))(entry := t)\<rparr>\<rparr>"

definition findTrampoline ::
    "codeCacheConfig \<Rightarrow> (nat \<Rightarrow> nat) \<Rightarrow> nat \<Rightarrow> trampolineState \<Rightarrow> (nat \<times> trampolineState) outcome option" where
  "findTrampoline cfg startPC method st = Option.bind (findResolvedMethod method st) (\<lambda>entry. Some (
     if entry = 0 then Fault NullDereference
     else let trampoline = heTrampoline (entries st) entry in
       if trampoline = 0 then
         let newPC = startPC method; (t, cc) = allocateTrampoline cfg (cache st) in
         Ok (t, setStartPC entry newPC (setTrampoline entry t (createTrampoline t newPC method (st\<lparr>cache := cc\<rparr>))))
       else Ok (trampoline, st)))"

definition findHelperTrampoline :: "codeCacheConfig \<Rightarrow> nat \<Rightarrow> codeCache \<Rightarrow> nat" where
  "findHelperTrampoline cfg helperIndex cc = helperBase cc + trampolineCodeSize cfg * helperIndex"

text \<open>
  The search of \<open>saveTempTrampoline\<close> through the blocks: \<open>None\<close> when the entry is already stored,
  otherwise the first block with a free slot, if there is one.
\<close>

fun findSyncSlot :: "nat \<Rightarrow> syncBlock list \<Rightarrow> nat \<Rightarrow> nat option \<Rightarrow> nat option option" where
  "findSyncSlot entry [] i free = Some free"
| "findSyncSlot entry (b # bs) i free =
     (if entry \<in> set (hashEntryArray b) then None
      else findSyncSlot entry bs (i + 1)
        (if length (hashEntryArray b) < entryListSize b \<and> free = None then Some i else free))"

definition allocateTempTrampolineSyncBlock :: "codeCacheConfig \<Rightarrow> bool \<Rightarrow> trampolineState \<Rightarrow> bool \<times> trampolineState" where
  "allocateTempTrampolineSyncBlock cfg memoryOk st = (if \<not> memoryOk then (False, st)
     else (True, st\<lparr>trampolineSyncList :=
       \<lparr>hashEntryArray = [], entryListSize = codeCacheTempTrampolineSyncArraySize cfg\<rparr> # trampolineSyncList st\<rparr>))"

text \<open>Storing in a block whose array is full would write behind its end.\<close>

definition storeEntry :: "nat \<Rightarrow> nat \<Rightarrow> trampolineState \<Rightarrow> (bool \<times> trampolineState) outcome" where
  "storeEntry k entry st = (let b = trampolineSyncList st ! k in
     if length (hashEntryArray b) < entryListSize b
     then Ok (True, st\<lparr>trampolineSyncList :=
       (trampolineSyncList st)[k := b\<lparr>hashEntryArray := hashEntryArray b @ [entry]\<rparr>]\<rparr>)
     else Fault OutOfBounds)"

definition saveTempTrampoline :: "codeCacheConfig \<Rightarrow> bool \<Rightarrow> nat \<Rightarrow> trampolineState \<Rightarrow> (bool \<times> trampolineState) outcome" where
  "saveTempTrampoline cfg memoryOk entry st = (case findSyncSlot entry (trampolineSyncList st) 0 None of
     None \<Rightarrow> Ok (True, st)
   | Some (Some k) \<Rightarrow> storeEntry k entry st
   | Some None \<Rightarrow> let (allocated, st1) = allocateTempTrampolineSyncBlock cfg memoryOk st in
       if \<not> allocated then Ok (False, st1\<lparr>cache := (cache st1)
         \<lparr>flags := flags (cache st1) OR CODECACHE_FULL_SYNC_REQUIRED\<rparr>\<rparr>)
       else storeEntry 0 entry st1)"

definition replaceTrampoline :: "codeCacheConfig \<Rightarrow> bool \<Rightarrow> nat \<Rightarrow> nat \<Rightarrow> nat \<Rightarrow> bool \<Rightarrow> trampolineState
    \<Rightarrow> (nat \<times> trampolineState) outcome option" where
  "replaceTrampoline cfg memoryOk method oldTrampoline newTargetPC needSync st =
     Option.bind (findResolvedMethod method st) (\<lambda>entry. Some (
       if oldTrampoline = 0 then
         if entry = 0 then Fault NullDereference
         else let (t, cc) = allocateTrampoline cfg (cache st) in
           Ok (t, setStartPC entry newTargetPC (setTrampoline entry t (st\<lparr>cache := cc\<rparr>)))
       else if needSync then
         let (t, cc) = allocateTempTrampoline cfg (cache st) in
         case saveTempTrampoline cfg memoryOk entry (st\<lparr>cache := cc\<rparr>) of
           Fault e \<Rightarrow> Fault e
         | Ok (_, st1) \<Rightarrow>
             if t = 0 then Ok (0, st1)
             else if entry = 0 then Fault NullDereference
             else Ok (t, setStartPC entry newTargetPC st1)
       else if entry = 0 then Fault NullDereference
       else Ok (oldTrampoline, setStartPC entry newTargetPC st)))"

text \<open>What \<open>patchCallPoint\<close> passes to the platform: the current target and the current trampoline.\<close>

definition patchArguments :: "codeCacheConfig \<Rightarrow> nat \<Rightarrow> trampolineState \<Rightarrow> (nat \<times> nat) option" where
  "patchArguments cfg method st = (if needsMethodTrampolines cfg then
     Option.bind (findResolvedMethod method st) (\<lambda>entry. Some (
       if entry \<noteq> 0 then
         let resolvedTramp = heTrampoline (entries st) entry in
         (if resolvedTramp \<noteq> 0 then heStartPC (entries st) entry else 0, resolvedTramp)
       else (0, 0)))
     else Some (0, 0))"

definition fullSyncEntry :: "(nat \<Rightarrow> nat) \<Rightarrow> nat \<Rightarrow> trampolineState \<Rightarrow> trampolineState" where
  "fullSyncEntry startPC entry st = (let
     method = heMethod (entries st) entry; newPC = startPC method; trampoline = heTrampoline (entries st) entry in
     if trampoline \<noteq> 0 \<and> heStartPC (entries st) entry \<noteq> newPC
     then setStartPC entry newPC (createTrampoline trampoline newPC method st) else st)"

partial_function (option) fullSyncChain :: "(nat \<Rightarrow> nat) \<Rightarrow> nat \<Rightarrow> trampolineState \<Rightarrow> trampolineState option" where
  "fullSyncChain startPC entry st =
     (if entry = 0 then Some st
      else let st1 = fullSyncEntry startPC entry st in fullSyncChain startPC (heNext (entries st1) entry) st1)"

primrec fullSyncBuckets :: "(nat \<Rightarrow> nat) \<Rightarrow> nat list \<Rightarrow> trampolineState \<Rightarrow> trampolineState option" where
  "fullSyncBuckets startPC [] st = Some st"
| "fullSyncBuckets startPC (b # bs) st = Option.bind (fullSyncChain startPC b st) (fullSyncBuckets startPC bs)"

definition syncEntry :: "(nat \<Rightarrow> nat) \<Rightarrow> nat \<Rightarrow> trampolineState \<Rightarrow> trampolineState" where
  "syncEntry startPC entry st = (let method = heMethod (entries st) entry; newPC = startPC method in
     setStartPC entry newPC (createTrampoline (heTrampoline (entries st) entry) newPC method st))"

definition clearSyncBlocks :: "trampolineState \<Rightarrow> trampolineState" where
  "clearSyncBlocks st = st\<lparr>trampolineSyncList := map (\<lambda>b. b\<lparr>hashEntryArray := []\<rparr>) (trampolineSyncList st)\<rparr>"

text \<open>A stored null pointer is dereferenced, unless all entries of the table are synchronized instead.\<close>

definition syncTempTrampolines :: "(nat \<Rightarrow> nat) \<Rightarrow> trampolineState \<Rightarrow> trampolineState outcome option" where
  "syncTempTrampolines startPC st = bindO
     (if flags (cache st) AND CODECACHE_FULL_SYNC_REQUIRED \<noteq> 0 then
        Option.bind (fullSyncBuckets startPC (resolvedMethodHT st) st) (\<lambda>st1. let st2 = clearSyncBlocks st1 in
          Some (Ok (st2\<lparr>cache := (cache st2)\<lparr>flags := flags (cache st2) AND NOT CODECACHE_FULL_SYNC_REQUIRED\<rparr>\<rparr>)))
      else if \<exists>b\<in>set (trampolineSyncList st). 0 \<in> set (hashEntryArray b) then Some (Fault NullDereference)
      else Some (Ok (clearSyncBlocks
        (fold (\<lambda>b. fold (syncEntry startPC) (hashEntryArray b)) (trampolineSyncList st) st))))
     (\<lambda>st3. Some (Ok (st3\<lparr>cache := (cache st3)\<lparr>tempTrampolineNext := tempTrampolineBase (cache st3)\<rparr>\<rparr>)))"

end
