(* ===== verification/TrampolineTable.thy ===== *)
theory TrampolineTable
  imports Trampolines
begin

text \<open>
  The hash table of the methods with trampolines: its chains as lists of entries, the table as a
  set of entries with different methods, and what lookup, addition and removal do to that set.
\<close>

section \<open>Chains\<close>

primrec chain :: "(nat \<Rightarrow> nat) \<Rightarrow> nat \<Rightarrow> nat list \<Rightarrow> bool" where
  "chain nx p [] \<longleftrightarrow> p = 0"
| "chain nx p (a # as) \<longleftrightarrow> p = a \<and> a \<noteq> 0 \<and> chain nx (nx a) as"

lemma chain_null [simp]: "chain nx 0 xs \<longleftrightarrow> xs = []"
  by (cases xs) auto

lemma chain_upd [simp]: "a \<notin> set xs \<Longrightarrow> chain (nx(a := b)) p xs = chain nx p xs"
  by (induction xs arbitrary: p) auto

lemma chain_nonzero: "chain nx p xs \<Longrightarrow> 0 \<notin> set xs"
  by (induction xs arbitrary: p) auto

lemma chain_unique: "chain nx p xs \<Longrightarrow> chain nx p ys \<Longrightarrow> xs = ys"
proof (induction xs arbitrary: p ys)
  case (Cons a xs)
  then show ?case by (cases ys) auto
qed simp

lemma chain_suffix: "chain nx p (xs @ a # ys) \<Longrightarrow> chain nx a (a # ys)"
  by (induction xs arbitrary: p) auto

lemma chain_distinct: "chain nx p xs \<Longrightarrow> distinct xs"
proof (induction xs arbitrary: p)
  case (Cons a xs)
  have "a \<notin> set xs"
  proof
    assume "a \<in> set xs"
    then obtain ys zs where xs: "xs = ys @ a # zs" by (meson split_list)
    then have "chain nx a (a # zs)" using Cons.prems chain_suffix [of nx "nx a" ys a zs] by simp
    then have "a # xs = a # zs" using Cons.prems chain_unique by (metis chain.simps(2))
    then show False using xs by simp
  qed
  then show ?case using Cons by auto
qed simp

lemma findInChain_chain:
  "chain (heNext h) p xs \<Longrightarrow> findInChain h m p = Some (case List.find (\<lambda>e. heMethod h e = m) xs of None \<Rightarrow> 0 | Some e \<Rightarrow> e)"
proof (induction xs arbitrary: p)
  case Nil
  then show ?case by (simp add: findInChain.simps)
next
  case (Cons a xs)
  then show ?case by (subst findInChain.simps) auto
qed

section \<open>The table as a set of entries\<close>

definition tableOk :: "hashEntries \<Rightarrow> nat list \<Rightarrow> nat set \<Rightarrow> bool" where
  "tableOk h bs E \<longleftrightarrow> bs \<noteq> [] \<and> finite E \<and> 0 \<notin> E \<and> inj_on (heMethod h) E \<and> (\<forall>e\<in>E. heKey h e = heMethod h e) \<and>
     (\<forall>i<length bs. \<exists>xs. chain (heNext h) (bs ! i) xs \<and> set xs = {e \<in> E. heMethod h e mod length bs = i})"

lemma tableOk_bucket:
  assumes "tableOk h bs E" "i < length bs"
  obtains xs where "chain (heNext h) (bs ! i) xs" "set xs = {e \<in> E. heMethod h e mod length bs = i}"
  using assms unfolding tableOk_def by blast

lemma tableOk_cong:
  "heNext h' = heNext h \<Longrightarrow> heKey h' = heKey h \<Longrightarrow> heMethod h' = heMethod h \<Longrightarrow> tableOk h' bs E = tableOk h bs E"
  by (simp add: tableOk_def)

lemma tableOk_empty: "tableOk h (hashTableAllocate cfg) {}"
  by (auto simp: tableOk_def hashTableAllocate_def intro: exI [of _ "[]"])

text \<open>A lookup finds the entry of the method, or there is none.\<close>

lemma findResolvedMethod_cases:
  assumes "tableOk (entries st) (resolvedMethodHT st) E"
  obtains (found) e where "findResolvedMethod m st = Some e" "e \<in> E" "e \<noteq> 0" "heMethod (entries st) e = m"
  | (absent) "findResolvedMethod m st = Some 0" "m \<notin> heMethod (entries st) ` E"
proof -
  let ?h = "entries st" and ?bs = "resolvedMethodHT st"
  let ?i = "m mod length ?bs"
  have "?i < length ?bs" using assms by (simp add: tableOk_def)
  then obtain xs where xs: "chain (heNext ?h) (?bs ! ?i) xs" "set xs = {e \<in> E. heMethod ?h e mod length ?bs = ?i}"
    by (rule tableOk_bucket [OF assms])
  have r: "findResolvedMethod m st = Some (case List.find (\<lambda>e. heMethod ?h e = m) xs of None \<Rightarrow> 0 | Some e \<Rightarrow> e)"
    using findInChain_chain [OF xs(1), of m] by (simp add: findResolvedMethod_def hashResolvedMethod_def Let_def)
  show thesis
  proof (cases "List.find (\<lambda>e. heMethod ?h e = m) xs")
    case None
    then have "m \<notin> heMethod ?h ` E" using xs(2) by (auto simp: find_None_iff)
    then show thesis using absent r None by simp
  next
    case (Some e)
    then have "e \<in> set xs" "heMethod ?h e = m" by (auto simp: find_Some_iff in_set_conv_nth)
    then show thesis using found r Some xs(2) chain_nonzero [OF xs(1)] by auto
  qed
qed

lemma findResolvedMethod_member:
  assumes "tableOk (entries st) (resolvedMethodHT st) E" "e \<in> E"
  shows "findResolvedMethod (heMethod (entries st) e) st = Some e"
proof (cases rule: findResolvedMethod_cases [OF assms(1), of "heMethod (entries st) e"])
  case (1 e')
  then show ?thesis using assms by (auto simp: tableOk_def inj_on_def)
qed (use assms(2) in auto)

text \<open>Adding a new entry, in the form in which \<open>addResolvedMethod\<close> does it.\<close>

lemma tableOk_add:
  assumes ok: "tableOk h bs E" and e: "e \<notin> E" "e \<noteq> 0" and m: "m \<notin> heMethod h ` E"
  shows "tableOk (h\<lparr>heKey := (heKey h)(e := m), heMethod := (heMethod h)(e := m), heStartPC := s, heTrampoline := t,
      heNext := (heNext h)(e := bs ! (m mod length bs))\<rparr>) (bs[m mod length bs := e]) (insert e E)"
    (is "tableOk ?h ?bs ?E")
proof -
  let ?i = "m mod length bs"
  have len: "bs \<noteq> []" "?i < length bs" using ok by (auto simp: tableOk_def)
  have meth: "heMethod ?h x = heMethod h x" if "x \<in> E" for x using that e(1) by auto
  have "\<exists>xs. chain (heNext ?h) (?bs ! i) xs \<and> set xs = {x \<in> ?E. heMethod ?h x mod length ?bs = i}" if i: "i < length ?bs" for i
  proof -
    obtain xs where xs: "chain (heNext h) (bs ! i) xs" "set xs = {x \<in> E. heMethod h x mod length bs = i}"
      using tableOk_bucket [OF ok] i by (metis length_list_update)
    have c: "chain (heNext ?h) (bs ! i) xs" using xs e(1) by simp
    show ?thesis
    proof (cases "i = ?i")
      case True
      have "chain (heNext ?h) (?bs ! i) (e # xs)" using c True len(2) e(2) by simp
      moreover have "set (e # xs) = {x \<in> ?E. heMethod ?h x mod length ?bs = i}" using xs(2) True e(1) by auto
      ultimately show ?thesis by blast
    next
      case False
      then have "chain (heNext ?h) (?bs ! i) xs" using c by simp
      moreover have "set xs = {x \<in> ?E. heMethod ?h x mod length ?bs = i}" using xs(2) False e(1) by auto
      ultimately show ?thesis by blast
    qed
  qed
  moreover have "inj_on (heMethod ?h) ?E" using ok e(1) m meth unfolding tableOk_def inj_on_def by fastforce
  ultimately show ?thesis using ok e len by (auto simp: tableOk_def)
qed

section \<open>Removal\<close>

lemma findLink_chain:
  "chain (heNext h) p (xs @ e # ys) \<Longrightarrow> e \<notin> set xs \<Longrightarrow> findLink h e q p = Some (Some (if xs = [] then q else last xs))"
proof (induction xs arbitrary: p q)
  case Nil
  then show ?case by (subst findLink.simps) auto
next
  case (Cons a xs)
  then have "chain (heNext h) (heNext h a) (xs @ e # ys)" "e \<notin> set xs" by auto
  from Cons.IH [OF this, of a] Cons.prems show ?case by (subst findLink.simps) auto
qed

lemma chain_append_last:
  assumes "chain nx p (xs @ e # ys)" "xs \<noteq> []"
  shows "chain (nx(last xs := nx e, e := 0)) p (xs @ ys)"
  using assms
proof (induction xs arbitrary: p)
  case (Cons a xs)
  have d: "distinct ((a # xs) @ e # ys)" using chain_distinct [OF Cons.prems(1)] .
  show ?case
  proof (cases "xs = []")
    case True
    have "chain (nx(a := nx e, e := 0)) (nx e) ys" using Cons.prems d True by simp
    then show ?thesis using Cons.prems d True by (simp del: fun_upd_apply) (auto simp: fun_upd_apply)
  next
    case False
    have c: "chain nx (nx a) (xs @ e # ys)" using Cons.prems(1) by simp
    have "last xs \<in> set xs" using False by simp
    then have "last xs \<noteq> a" "e \<noteq> a" using d by auto
    then show ?thesis using Cons.IH [OF c False] Cons.prems False by simp
  qed
qed simp

text \<open>\<open>remove\<close> takes exactly the entry out of the table, whatever its place in the chain.\<close>

lemma hashRemove_ok:
  assumes ok: "tableOk (entries st) (resolvedMethodHT st) E" and e: "e \<in> E"
  shows "\<exists>st'. hashRemove e st = Some (True, st') \<and> tableOk (entries st') (resolvedMethodHT st') (E - {e})"
proof -
  let ?h = "entries st" and ?bs = "resolvedMethodHT st"
  let ?i = "heMethod ?h e mod length ?bs"
  have key: "heKey ?h e = heMethod ?h e" and len: "?i < length ?bs" using ok e by (auto simp: tableOk_def)
  obtain zs where zs: "chain (heNext ?h) (?bs ! ?i) zs" "set zs = {x \<in> E. heMethod ?h x mod length ?bs = ?i}"
    by (rule tableOk_bucket [OF ok len])
  then obtain xs ys where s: "zs = xs @ e # ys" using e by (metis (mono_tags, lifting) mem_Collect_eq split_list)
  have d: "distinct (xs @ e # ys)" using chain_distinct [OF zs(1)] by (simp add: s)
  have link: "findLink ?h e 0 (?bs ! ?i) = Some (Some (if xs = [] then 0 else last xs))"
    by (rule findLink_chain [of _ _ _ _ ys]) (use zs(1) d in \<open>auto simp: s\<close>)
  have "0 \<notin> set xs" using chain_nonzero [OF zs(1)] by (simp add: s)
  then have nz: "last xs \<noteq> 0" if "xs \<noteq> []" using last_in_set [OF that] by metis
  define nx where "nx = (if xs = [] then (heNext ?h)(e := 0) else (heNext ?h)(last xs := heNext ?h e, e := 0))"
  define bs' where "bs' = (if xs = [] then ?bs[?i := heNext ?h e] else ?bs)"
  have r: "hashRemove e st = Some (True, st\<lparr>resolvedMethodHT := bs', entries := ?h\<lparr>heNext := nx\<rparr>\<rparr>)"
    using link nz by (cases "xs = []") (simp_all add: hashRemove_def key Let_def nx_def bs'_def)
  have "\<exists>us. chain nx (bs' ! i) us \<and> set us = {x \<in> E - {e}. heMethod ?h x mod length ?bs = i}" if i: "i < length ?bs" for i
  proof (cases "i = ?i")
    case True
    have "chain nx (bs' ! i) (xs @ ys)"
    proof (cases "xs = []")
      case True
      then show ?thesis using zs(1) d len \<open>i = ?i\<close> by (simp add: nx_def bs'_def s)
    next
      case False
      then show ?thesis using chain_append_last [OF zs(1) [unfolded s] False] \<open>i = ?i\<close> by (simp add: nx_def bs'_def)
    qed
    moreover have "set (xs @ ys) = {x \<in> E - {e}. heMethod ?h x mod length ?bs = i}" using zs(2) d True by (auto simp: s)
    ultimately show ?thesis by blast
  next
    case False
    obtain us where us: "chain (heNext ?h) (?bs ! i) us" "set us = {x \<in> E. heMethod ?h x mod length ?bs = i}"
      by (rule tableOk_bucket [OF ok i])
    have "e \<notin> set us" using us(2) False by auto
    moreover have "last xs \<notin> set us" if "xs \<noteq> []" using us(2) False zs(2) that last_in_set [OF that] by (auto simp: s)
    ultimately have "chain nx (bs' ! i) us" using us(1) False by (simp add: nx_def bs'_def)
    moreover have "set us = {x \<in> E - {e}. heMethod ?h x mod length ?bs = i}" using us(2) False by auto
    ultimately show ?thesis by blast
  qed
  then show ?thesis using ok r by (auto simp: tableOk_def bs'_def inj_on_diff)
qed

end
