(* ===== verification/TrampolineInvariant.thy ===== *)
theory TrampolineInvariant
  imports TrampolineTable CodeCacheMachine
begin

text \<open>
  The invariant of the trampolines of a code cache: the hash table holds the reserved methods, the
  marks count the reserved and the allocated trampolines, every method has a slot of its own,
  and what each operation does to it.
\<close>

section \<open>Invariant\<close>

definition synced :: "trampolineState \<Rightarrow> nat set" where
  "synced st = (\<Union>b\<in>set (trampolineSyncList st). set (hashEntryArray b))"

definition withTrampoline :: "trampolineState \<Rightarrow> nat set \<Rightarrow> nat set" where
  "withTrampoline st E = {e \<in> E. heTrampoline (entries st) e \<noteq> 0}"

text \<open>
  The table, and where its entries lie: in the used part of the slabs. No entry has been given
  back, which no code in the repository does.
\<close>

definition entriesOk :: "codeCacheConfig \<Rightarrow> trampolineState \<Rightarrow> nat set \<Rightarrow> bool" where
  "entriesOk cfg st E \<longleftrightarrow> tableOk (entries st) (resolvedMethodHT st) E \<and> hashEntryFreeList st = 0 \<and>
     sizeof_CodeCacheHashEntry \<le> codeCacheHashEntryAllocatorSlabSize cfg \<and> 0 < heapAlloc (hashEntrySlab st) \<and>
     (\<forall>e\<in>E. e < heapAlloc (hashEntrySlab st) \<or> heapTop (hashEntrySlab st) \<le> e) \<and>
     (\<forall>e\<in>E. \<exists>sl\<in>set (hashEntrySlab st # olderSlabs st). slabSegment sl \<le> e \<and> e < heapTop sl) \<and>
     slabSegment (hashEntrySlab st) \<le> heapAlloc (hashEntrySlab st)"

text \<open>
  The permanent trampolines lie from the allocation mark up to the temporary ones, and the
  reservation mark leaves room for one per method.
\<close>

definition marksOk :: "codeCacheConfig \<Rightarrow> trampolineState \<Rightarrow> nat set \<Rightarrow> bool" where
  "marksOk cfg st E \<longleftrightarrow> (let cc = cache st; s = trampolineCodeSize cfg; A = withTrampoline st E; T = heTrampoline (entries st) in
     0 < s \<and> 0 < trampolineBase cc \<and> trampolineBase cc \<le> trampolineReservationMark cc \<and>
     (\<exists>n\<ge>card E. tempTrampolineBase cc = trampolineReservationMark cc + s * n) \<and>
     tempTrampolineBase cc = trampolineAllocationMark cc + s * card A \<and>
     inj_on T A \<and> (\<forall>e\<in>A. \<exists>i<card A. T e = trampolineAllocationMark cc + s * i) \<and>
     (\<exists>j q. j \<le> q \<and> tempTrampolineNext cc = tempTrampolineBase cc + s * j \<and> tempTrampolineTop cc = tempTrampolineBase cc + s * q))"

definition areaOk :: "codeCache \<Rightarrow> bool" where
  "areaOk cc \<longleftrightarrow> CCPreLoadedCodeBase cc \<le> trampolineBase cc \<and> tempTrampolineTop cc = helperBase cc"

definition trampolineOk :: "codeCacheConfig \<Rightarrow> trampolineState \<Rightarrow> nat set \<Rightarrow> bool" where
  "trampolineOk cfg st E \<longleftrightarrow> needsMethodTrampolines cfg \<and> 0 < codeCacheTempTrampolineSyncArraySize cfg \<and>
     entriesOk cfg st E \<and> marksOk cfg st E \<and> areaOk (cache st) \<and> synced st \<subseteq> withTrampoline st E"

lemma trampolineOk_table: "trampolineOk cfg st E \<Longrightarrow> tableOk (entries st) (resolvedMethodHT st) E"
  by (simp add: trampolineOk_def entriesOk_def)

text \<open>Operations that keep the table and the marks.\<close>

definition sameTable :: "trampolineState \<Rightarrow> trampolineState \<Rightarrow> bool" where
  "sameTable st st' \<longleftrightarrow> heNext (entries st') = heNext (entries st) \<and> heKey (entries st') = heKey (entries st) \<and>
     heMethod (entries st') = heMethod (entries st) \<and> heTrampoline (entries st') = heTrampoline (entries st) \<and>
     resolvedMethodHT st' = resolvedMethodHT st \<and> hashEntryFreeList st' = hashEntryFreeList st \<and>
     hashEntrySlab st' = hashEntrySlab st \<and> olderSlabs st' = olderSlabs st"

lemma sameTable_refl [simp]: "sameTable st st"
  by (simp add: sameTable_def)

lemma sameTable_trans: "sameTable st st' \<Longrightarrow> sameTable st' st'' \<Longrightarrow> sameTable st st''"
  by (simp add: sameTable_def)

lemma withTrampoline_cong: "sameTable st st' \<Longrightarrow> withTrampoline st' E = withTrampoline st E"
  by (simp add: sameTable_def withTrampoline_def)

lemma entriesOk_cong: "sameTable st st' \<Longrightarrow> entriesOk cfg st' E = entriesOk cfg st E"
  using tableOk_cong [of "entries st'" "entries st" "resolvedMethodHT st" E] by (auto simp: sameTable_def entriesOk_def)

lemma marksOk_cong: "sameTable st st' \<Longrightarrow> cache st' = cache st \<Longrightarrow> marksOk cfg st' E = marksOk cfg st E"
  by (simp add: sameTable_def withTrampoline_def marksOk_def)

text \<open>The reservation mark, the temporary trampolines and the entries without trampoline may change.\<close>

lemma marksOk_transfer:
  assumes ok: "marksOk cfg st E" and A: "withTrampoline st' E' = withTrampoline st E"
    and T: "\<And>x. x \<in> withTrampoline st E \<Longrightarrow> heTrampoline (entries st') x = heTrampoline (entries st) x"
    and c: "trampolineBase (cache st') = trampolineBase (cache st)" "trampolineAllocationMark (cache st') = trampolineAllocationMark (cache st)"
      "tempTrampolineBase (cache st') = tempTrampolineBase (cache st)" "tempTrampolineTop (cache st') = tempTrampolineTop (cache st)"
    and r: "trampolineBase (cache st) \<le> trampolineReservationMark (cache st')"
      "\<exists>n\<ge>card E'. tempTrampolineBase (cache st) = trampolineReservationMark (cache st') + trampolineCodeSize cfg * n"
    and t: "\<exists>j q. j \<le> q \<and> tempTrampolineNext (cache st') = tempTrampolineBase (cache st) + trampolineCodeSize cfg * j \<and>
      tempTrampolineTop (cache st) = tempTrampolineBase (cache st) + trampolineCodeSize cfg * q"
  shows "marksOk cfg st' E'"
proof -
  let ?A = "withTrampoline st E" and ?T = "heTrampoline (entries st)" and ?T' = "heTrampoline (entries st')"
  have m: "inj_on ?T ?A" "\<forall>e\<in>?A. \<exists>i<card ?A. ?T e = trampolineAllocationMark (cache st) + trampolineCodeSize cfg * i"
    using ok by (simp_all add: marksOk_def Let_def)
  have "inj_on ?T' ?A" using m(1) inj_on_cong [of ?A ?T' ?T] T by blast
  moreover have "\<forall>e\<in>?A. \<exists>i<card ?A. ?T' e = trampolineAllocationMark (cache st) + trampolineCodeSize cfg * i"
    using m(2) T by simp
  ultimately show ?thesis using ok r t unfolding marksOk_def Let_def A c by blast
qed

lemma marksOkD:
  assumes "marksOk cfg st E"
  shows "0 < trampolineCodeSize cfg" "trampolineBase (cache st) \<le> trampolineReservationMark (cache st)"
    "\<exists>n\<ge>card E. tempTrampolineBase (cache st) = trampolineReservationMark (cache st) + trampolineCodeSize cfg * n"
    "\<exists>j q. j \<le> q \<and> tempTrampolineNext (cache st) = tempTrampolineBase (cache st) + trampolineCodeSize cfg * j \<and>
       tempTrampolineTop (cache st) = tempTrampolineBase (cache st) + trampolineCodeSize cfg * q"
  using assms unfolding marksOk_def Let_def by blast+

lemma trampolineOkD:
  assumes "trampolineOk cfg st E"
  shows "entriesOk cfg st E" "marksOk cfg st E" "areaOk (cache st)" "synced st \<subseteq> withTrampoline st E" "needsMethodTrampolines cfg"
    "0 < codeCacheTempTrampolineSyncArraySize cfg"
  using assms by (simp_all add: trampolineOk_def)

lemma trampolineOk_sameTable:
  assumes "trampolineOk cfg st E" "sameTable st st'" "cache st' = cache st" "synced st' \<subseteq> withTrampoline st E"
  shows "trampolineOk cfg st' E"
  using assms entriesOk_cong [OF assms(2)] marksOk_cong [OF assms(2,3)] withTrampoline_cong [OF assms(2)]
  by (simp add: trampolineOk_def)

lemma setters_sameTable [simp]:
  "sameTable st (setStartPC e pc st)" "sameTable st (createTrampoline t pc m st)" "sameTable st (clearSyncBlocks st)"
  "sameTable st (st\<lparr>cache := cc\<rparr>)"
  by (simp_all add: sameTable_def setStartPC_def createTrampoline_def clearSyncBlocks_def)

lemma setters_fields [simp]:
  "cache (setStartPC e pc st) = cache st" "cache (createTrampoline t pc m st) = cache st" "cache (clearSyncBlocks st) = cache st"
  "cache (setTrampoline e t st) = cache st"
  "synced (setStartPC e pc st) = synced st" "synced (createTrampoline t pc m st) = synced st" "synced (clearSyncBlocks st) = {}"
  "synced (setTrampoline e t st) = synced st"
  "synced (st\<lparr>cache := cc\<rparr>) = synced st" "synced (st\<lparr>entries := h\<rparr>) = synced st"
  "created (setStartPC e pc st) = created st" "created (setTrampoline e t st) = created st" "created (clearSyncBlocks st) = created st"
  "created (createTrampoline t pc m st) = (created st)(t \<mapsto> (pc, m))"
  "entries (createTrampoline t pc m st) = entries st" "entries (clearSyncBlocks st) = entries st"
  "heStartPC (entries (setStartPC e pc st)) = (heStartPC (entries st))(e := pc)"
  "heStartPC (entries (setTrampoline e t st)) = heStartPC (entries st)"
  "heMethod (entries (setStartPC e pc st)) = heMethod (entries st)" "heMethod (entries (setTrampoline e t st)) = heMethod (entries st)"
  "heTrampoline (entries (setStartPC e pc st)) = heTrampoline (entries st)"
  "heTrampoline (entries (setTrampoline e t st)) = (heTrampoline (entries st))(e := t)"
  "heNext (entries (setStartPC e pc st)) = heNext (entries st)"
  by (auto simp: synced_def setStartPC_def createTrampoline_def clearSyncBlocks_def setTrampoline_def)

section \<open>Allocating a permanent trampoline\<close>

lemma finite_withTrampoline: "trampolineOk cfg st E \<Longrightarrow> finite (withTrampoline st E)"
  using trampolineOk_table by (auto simp: tableOk_def withTrampoline_def)

text \<open>A method that is in the table and has no trampoline can always be given one.\<close>

lemma allocateTrampoline_ok:
  assumes ok: "trampolineOk cfg st E" and e: "e \<in> E" "heTrampoline (entries st) e = 0"
  obtains t cc where "allocateTrampoline cfg (cache st) = (t, cc)" "0 < t" "trampolineBase (cache st) \<le> t"
    "trampolineOk cfg (setTrampoline e t (st\<lparr>cache := cc\<rparr>)) E" "flags cc = flags (cache st)"
    "t \<notin> heTrampoline (entries st) ` withTrampoline st E"
proof -
  let ?cc = "cache st" and ?s = "trampolineCodeSize cfg" and ?A = "withTrampoline st E" and ?T = "heTrampoline (entries st)"
  have fin: "finite E" "finite ?A" using trampolineOk_table [OF ok] finite_withTrampoline [OF ok] by (auto simp: tableOk_def)
  have eA: "e \<notin> ?A" and sub: "insert e ?A \<subseteq> E" using e by (auto simp: withTrampoline_def)
  have card: "card ?A < card E" using card_mono [OF fin(1) sub] eA fin(2) by simp
  have m: "0 < ?s" "0 < trampolineBase ?cc" "trampolineBase ?cc \<le> trampolineReservationMark ?cc"
    "tempTrampolineBase ?cc = trampolineAllocationMark ?cc + ?s * card ?A" "inj_on ?T ?A"
    "\<forall>x\<in>?A. \<exists>i<card ?A. ?T x = trampolineAllocationMark ?cc + ?s * i"
    using ok by (auto simp: trampolineOk_def marksOk_def Let_def)
  obtain n where n: "card E \<le> n" "tempTrampolineBase ?cc = trampolineReservationMark ?cc + ?s * n"
    using ok by (auto simp: trampolineOk_def marksOk_def Let_def)
  have "?s * Suc (card ?A) \<le> ?s * n" using card n(1) by (intro mult_le_mono2) simp
  then have le: "trampolineReservationMark ?cc + ?s \<le> trampolineAllocationMark ?cc" using n(2) m(4) by simp
  define t where "t = trampolineAllocationMark ?cc - ?s"
  have t: "trampolineAllocationMark ?cc = t + ?s" "trampolineReservationMark ?cc \<le> t" using le by (simp_all add: t_def)
  define cc where "cc = ?cc\<lparr>trampolineAllocationMark := t\<rparr>"
  let ?st = "setTrampoline e t (st\<lparr>cache := cc\<rparr>)"
  have a: "allocateTrampoline cfg ?cc = (t, cc)" using le m(1) by (simp add: allocateTrampoline_def t_def cc_def Let_def)
  have t0: "0 < t" using t m by simp
  have A': "withTrampoline ?st E = insert e ?A" using e t0 by (auto simp: withTrampoline_def setTrampoline_def)
  have c': "card (insert e ?A) = Suc (card ?A)" using eA fin(2) by simp
  have new: "t \<notin> ?T ` ?A"
  proof
    assume "t \<in> ?T ` ?A"
    then obtain x where "x \<in> ?A" "?T x = t" by auto
    then obtain i where "t = t + ?s + ?s * i" using m(6) t(1) by metis
    then show False using m(1) by simp
  qed
  have slots: "\<exists>i<Suc (card ?A). (?T(e := t)) x = t + ?s * i" if "x \<in> insert e ?A" for x
  proof (cases "x = e")
    case True
    then show ?thesis by (intro exI [of _ 0]) simp
  next
    case False
    then obtain i where "i < card ?A" "?T x = t + ?s + ?s * i" using m(6) t(1) \<open>x \<in> insert e ?A\<close> by (metis insertE)
    then show ?thesis using False by (intro exI [of _ "Suc i"]) simp
  qed
  have inj: "inj_on (?T(e := t)) (insert e ?A)" using m(5) new eA by (auto simp: inj_on_def)
  have "marksOk cfg ?st E"
    using ok m t n inj slots c' unfolding trampolineOk_def marksOk_def Let_def A'
    by (auto simp: cc_def setTrampoline_def)
  moreover have "entriesOk cfg ?st E"
    using ok tableOk_cong [of "entries ?st" "entries st" "resolvedMethodHT st" E]
    by (simp add: trampolineOk_def entriesOk_def setTrampoline_def)
  moreover have "areaOk cc" using ok by (simp add: trampolineOk_def areaOk_def cc_def)
  ultimately have "trampolineOk cfg ?st E" using ok A' by (auto simp: trampolineOk_def)
  then show thesis using that a t0 t m new by (auto simp: cc_def)
qed

section \<open>Reserving\<close>

definition freshMemory :: "codeCacheConfig \<Rightarrow> trampolineState \<Rightarrow> nat \<Rightarrow> bool" where
  "freshMemory cfg st p \<longleftrightarrow> 0 < p \<and> (\<forall>sl\<in>set (hashEntrySlab st # olderSlabs st).
     p + codeCacheHashEntryAllocatorSlabSize cfg \<le> slabSegment sl \<or> heapTop sl \<le> p)"

text \<open>A hash entry comes from the current slab or from a new one, and is not in use.\<close>

lemma allocateHashEntry_ok:
  assumes ok: "entriesOk cfg st E" and fresh: "\<And>p. seg = Some p \<Longrightarrow> freshMemory cfg st p"
  obtains (failed) "allocateHashEntry cfg seg st = (0, st)"
  | (entry) e sl older where "allocateHashEntry cfg seg st = (e, st\<lparr>hashEntrySlab := sl, olderSlabs := older\<rparr>)"
      "e \<noteq> 0" "e \<notin> E" "0 < heapAlloc sl" "slabSegment sl \<le> heapAlloc sl"
      "\<forall>x\<in>insert e E. x < heapAlloc sl \<or> heapTop sl \<le> x"
      "\<forall>x\<in>insert e E. \<exists>y\<in>set (sl # older). slabSegment y \<le> x \<and> x < heapTop y"
proof -
  let ?sl = "hashEntrySlab st"
  have o: "hashEntryFreeList st = 0" "0 < heapAlloc ?sl" "\<forall>e\<in>E. e < heapAlloc ?sl \<or> heapTop ?sl \<le> e"
    "\<forall>e\<in>E. \<exists>y\<in>set (?sl # olderSlabs st). slabSegment y \<le> e \<and> e < heapTop y" "slabSegment ?sl \<le> heapAlloc ?sl"
    "40 \<le> codeCacheHashEntryAllocatorSlabSize cfg"
    using ok by (auto simp: entriesOk_def sizeof_CodeCacheHashEntry_def)
  note defs = allocateHashEntry_def Let_def sizeof_CodeCacheHashEntry_def
  show thesis
  proof (cases "heapAlloc ?sl + 40 \<le> heapTop ?sl")
    case True
    let ?new = "?sl\<lparr>heapAlloc := heapAlloc ?sl + 40\<rparr>"
    have "allocateHashEntry cfg seg st = (heapAlloc ?sl, st\<lparr>hashEntrySlab := ?new, olderSlabs := olderSlabs st\<rparr>)"
      using True o(1) by (simp add: defs)
    then show thesis
      by (rule entry) (use True o in \<open>auto; force\<close>)+
  next
    case False
    show thesis
    proof (cases seg)
      case None
      then show thesis using failed False o(1) by (simp add: defs)
    next
      case (Some p)
      let ?n = "codeCacheHashEntryAllocatorSlabSize cfg"
      let ?new = "\<lparr>slabSegment = p, heapAlloc = p + 40, heapTop = p + ?n\<rparr>"
      have f: "0 < p" "\<forall>y\<in>set (?sl # olderSlabs st). p + ?n \<le> slabSegment y \<or> heapTop y \<le> p"
        using fresh [OF Some] by (auto simp: freshMemory_def)
      have out: "x < p \<or> p + ?n \<le> x" if "x \<in> E" for x using o(4) f(2) that by fastforce
      have "allocateHashEntry cfg seg st = (p, st\<lparr>hashEntrySlab := ?new, olderSlabs := ?sl # olderSlabs st\<rparr>)"
        using False o(1) Some by (simp add: defs slabAllocate_def)
      then show thesis
      proof (rule entry)
        show "p \<noteq> 0" "0 < heapAlloc ?new" "slabSegment ?new \<le> heapAlloc ?new" using f by auto
        show "p \<notin> E" using out [of p] o(6) by auto
        show "\<forall>x\<in>insert p E. x < heapAlloc ?new \<or> heapTop ?new \<le> x" using out by fastforce
        show "\<forall>x\<in>insert p E. \<exists>y\<in>set (?new # ?sl # olderSlabs st). slabSegment y \<le> x \<and> x < heapTop y"
          using o(4,6) by fastforce
      qed
    qed
  qed
qed

end
