(* ===== verification/TrampolineOperations.thy ===== *)
theory TrampolineOperations
  imports TrampolineInvariant
begin

text \<open>
  The operations on the trampolines of a code cache keep the invariant and always return; and they
  keep the trampolines current: a permanent trampoline leads to the start of its method, or its entry
  waits in the synchronization list.
\<close>

section \<open>Current trampolines\<close>

definition fullSyncRequired :: "trampolineState \<Rightarrow> bool" where
  "fullSyncRequired st \<longleftrightarrow> flags (cache st) AND CODECACHE_FULL_SYNC_REQUIRED \<noteq> 0"

definition currentOk :: "(nat \<Rightarrow> nat) \<Rightarrow> trampolineState \<Rightarrow> nat set \<Rightarrow> bool" where
  "currentOk pc st E \<longleftrightarrow> \<not> fullSyncRequired st \<and> (\<forall>e\<in>withTrampoline st E. let h = entries st; m = heMethod h e in
     e \<in> synced st \<or> created st (heTrampoline h e) = Some (pc m, m) \<and> heStartPC h e = pc m)"

text \<open>A change that concerns one method only.\<close>

lemma currentOk_change:
  assumes cur: "currentOk pc st E" and inj: "inj_on (heMethod (entries st)) E" and e: "e \<in> E" "m = heMethod (entries st) e"
    and same: "heMethod (entries st') = heMethod (entries st)" "\<not> fullSyncRequired st'" "synced st \<subseteq> synced st'"
    and others: "\<And>x. x \<in> withTrampoline st' E \<Longrightarrow> x \<noteq> e \<Longrightarrow> x \<in> withTrampoline st E \<and>
      created st' (heTrampoline (entries st') x) = created st (heTrampoline (entries st) x) \<and>
      heStartPC (entries st') x = heStartPC (entries st) x"
    and one: "e \<in> synced st' \<or> created st' (heTrampoline (entries st') e) = Some (new, m) \<and> heStartPC (entries st') e = new"
  shows "currentOk (pc(m := new)) st' E"
proof -
  have "x \<in> synced st' \<or> created st' (heTrampoline (entries st') x) = Some ((pc(m := new)) (heMethod (entries st) x), heMethod (entries st) x)
      \<and> heStartPC (entries st') x = (pc(m := new)) (heMethod (entries st) x)" if x: "x \<in> withTrampoline st' E" for x
  proof (cases "x = e")
    case True
    then show ?thesis using one e(2) by simp
  next
    case False
    have "x \<in> E" using x by (simp add: withTrampoline_def)
    then have "heMethod (entries st) x \<noteq> m" using inj e False by (auto simp: inj_on_def)
    then show ?thesis using others [OF x False] cur same(3) by (auto simp: currentOk_def Let_def)
  qed
  then show ?thesis using same by (auto simp: currentOk_def Let_def simp del: fun_upd_apply)
qed

lemma trampolineOk_inj:
  assumes "trampolineOk cfg st E"
  shows "inj_on (heMethod (entries st)) E" "inj_on (heTrampoline (entries st)) (withTrampoline st E)"
  using assms by (auto simp: trampolineOk_def entriesOk_def tableOk_def marksOk_def Let_def)

lemma trampoline_below_temp:
  assumes "trampolineOk cfg st E" "x \<in> withTrampoline st E"
  shows "heTrampoline (entries st) x + trampolineCodeSize cfg \<le> tempTrampolineBase (cache st)"
    "trampolineBase (cache st) \<le> heTrampoline (entries st) x"
proof -
  let ?s = "trampolineCodeSize cfg" and ?cc = "cache st"
  have m: "tempTrampolineBase ?cc = trampolineAllocationMark ?cc + ?s * card (withTrampoline st E)"
    "trampolineBase ?cc \<le> trampolineReservationMark ?cc"
    using assms(1) by (auto simp: trampolineOk_def marksOk_def Let_def)
  obtain i where i: "i < card (withTrampoline st E)" "heTrampoline (entries st) x = trampolineAllocationMark ?cc + ?s * i"
    using assms by (auto simp: trampolineOk_def marksOk_def Let_def)
  have "?s * Suc i \<le> ?s * card (withTrampoline st E)" using i(1) by (intro mult_le_mono2) simp
  then show "heTrampoline (entries st) x + ?s \<le> tempTrampolineBase ?cc" using m i(2) by simp
  obtain n where n: "card E \<le> n" "tempTrampolineBase ?cc = trampolineReservationMark ?cc + ?s * n"
    using assms(1) by (auto simp: trampolineOk_def marksOk_def Let_def)
  have "finite E" using trampolineOk_table [OF assms(1)] by (simp add: tableOk_def)
  then have "card (withTrampoline st E) \<le> n" using n(1) card_mono [of E "withTrampoline st E"] by (auto simp: withTrampoline_def)
  then have "?s * card (withTrampoline st E) \<le> ?s * n" by (rule mult_le_mono2)
  then have "trampolineReservationMark ?cc \<le> trampolineAllocationMark ?cc" using m(1) n(2) by linarith
  then show "trampolineBase ?cc \<le> heTrampoline (entries st) x" using m(2) i(2) by simp
qed

section \<open>Reserving a trampoline\<close>

text \<open>The entries stay as they are; new ones have no trampoline yet.\<close>

definition extends :: "trampolineState \<Rightarrow> nat set \<Rightarrow> trampolineState \<Rightarrow> nat set \<Rightarrow> bool" where
  "extends st E st' E' \<longleftrightarrow> E \<subseteq> E' \<and> created st' = created st \<and> synced st' = synced st \<and>
     flags (cache st') = flags (cache st) \<and> (\<forall>e\<in>E'-E. heTrampoline (entries st') e = 0) \<and>
     (\<forall>e\<in>E. heMethod (entries st') e = heMethod (entries st) e \<and> heTrampoline (entries st') e = heTrampoline (entries st) e \<and>
        heStartPC (entries st') e = heStartPC (entries st) e)"

lemma extends_withTrampoline: "extends st E st' E' \<Longrightarrow> withTrampoline st' E' = withTrampoline st E"
proof -
  assume x: "extends st E st' E'"
  have "e \<in> E' \<and> heTrampoline (entries st') e \<noteq> 0 \<longleftrightarrow> e \<in> E \<and> heTrampoline (entries st) e \<noteq> 0" for e
    using x unfolding extends_def by (metis DiffI subsetD)
  then show ?thesis unfolding withTrampoline_def by blast
qed

lemma currentOk_extends:
  assumes "currentOk pc st E" "extends st E st' E'" shows "currentOk pc st' E'"
proof -
  have "e \<in> E" if "e \<in> withTrampoline st E" for e using that by (simp add: withTrampoline_def)
  then show ?thesis using assms
    unfolding currentOk_def extends_withTrampoline [OF assms(2)] by (auto simp: extends_def fullSyncRequired_def Let_def)
qed

lemma reserveSpaceForTrampoline_ok:
  assumes ok: "trampolineOk cfg st E" and r: "reserveSpaceForTrampoline cfg k (cache st) = (r, cc)"
  shows "trampolineOk cfg (st\<lparr>cache := cc\<rparr>) E" "extends st E (st\<lparr>cache := cc\<rparr>) E"
    "r = ERRORCODE_SUCCESS \<Longrightarrow> \<exists>n\<ge>card E + k. tempTrampolineBase cc = trampolineReservationMark cc + trampolineCodeSize cfg * n"
    "r = ERRORCODE_SUCCESS \<or> r = ERRORCODE_INSUFFICIENTSPACE"
proof -
  let ?cc = "cache st" and ?s = "trampolineCodeSize cfg"
  obtain n where n: "card E \<le> n" "tempTrampolineBase ?cc = trampolineReservationMark ?cc + ?s * n"
    using ok by (auto simp: trampolineOk_def marksOk_def Let_def)
  have s: "0 < ?s" using ok by (simp add: trampolineOk_def marksOk_def Let_def)
  note m = trampolineOkD(2) [OF ok]
  have same: "sameTable st (st\<lparr>cache := cc\<rparr>)" by simp
  note cong = entriesOk_cong [OF same] withTrampoline_cong [OF same]
  have base: "trampolineBase ?cc \<le> trampolineReservationMark ?cc" using ok by (simp add: trampolineOk_def marksOk_def Let_def)
  consider (failed) "r = ERRORCODE_INSUFFICIENTSPACE" "cc = ?cc\<lparr>almostFull := TR_yes\<rparr>"
    | (reserved) q where "r = ERRORCODE_SUCCESS" "q + ?s * k = trampolineReservationMark ?cc" "trampolineBase ?cc \<le> q"
        "cc = ?cc\<lparr>trampolineReservationMark := q\<rparr>"
  proof (cases "k = 0")
    case True
    then have "r = ERRORCODE_SUCCESS" "cc = ?cc\<lparr>trampolineReservationMark := trampolineReservationMark ?cc\<rparr>"
      using r by (auto simp: reserveSpaceForTrampoline_def)
    then show thesis using that(2) [of "trampolineReservationMark ?cc"] True base by simp
  next
    case False
    then show thesis
      using r s that(1) that(2) [of "trampolineReservationMark ?cc - ?s * k"]
      by (auto simp: reserveSpaceForTrampoline_def Let_def ac_simps split: if_splits)
  qed
  then have main: "trampolineOk cfg (st\<lparr>cache := cc\<rparr>) E \<and> extends st E (st\<lparr>cache := cc\<rparr>) E \<and>
    (r = ERRORCODE_SUCCESS \<longrightarrow> (\<exists>n\<ge>card E + k. tempTrampolineBase cc = trampolineReservationMark cc + ?s * n)) \<and>
    (r = ERRORCODE_SUCCESS \<or> r = ERRORCODE_INSUFFICIENTSPACE)"
  proof cases
    case failed
    then have "marksOk cfg (st\<lparr>cache := cc\<rparr>) E"
      by (intro marksOk_transfer [OF m cong(2)]) (use marksOkD [OF m] in simp_all)
    then show ?thesis using ok cong failed by (simp add: trampolineOk_def areaOk_def extends_def)
  next
    case (reserved q)
    have "tempTrampolineBase ?cc = q + ?s * (n + k)" using n(2) reserved(2) by (simp add: algebra_simps)
    moreover have "card E + k \<le> n + k" using n(1) by simp
    ultimately have ex: "\<exists>n\<ge>card E + k. tempTrampolineBase ?cc = q + ?s * n" by blast
    then have "\<exists>n\<ge>card E. tempTrampolineBase ?cc = q + ?s * n" by (meson add_leD1)
    then have "marksOk cfg (st\<lparr>cache := cc\<rparr>) E"
      using reserved by (intro marksOk_transfer [OF m cong(2)]) (use marksOkD [OF m] in simp_all)
    then show ?thesis using ok cong reserved ex by (simp add: trampolineOk_def areaOk_def extends_def)
  qed
  then show "trampolineOk cfg (st\<lparr>cache := cc\<rparr>) E" "extends st E (st\<lparr>cache := cc\<rparr>) E"
    "r = ERRORCODE_SUCCESS \<Longrightarrow> \<exists>n\<ge>card E + k. tempTrampolineBase cc = trampolineReservationMark cc + ?s * n"
    "r = ERRORCODE_SUCCESS \<or> r = ERRORCODE_INSUFFICIENTSPACE" by blast+
qed

lemma addResolvedMethod_ok:
  assumes ok: "trampolineOk cfg st E" and fresh: "\<And>p. seg = Some p \<Longrightarrow> freshMemory cfg st p"
    and new: "m \<notin> heMethod (entries st) ` E"
    and room: "\<exists>n\<ge>card E + 1. tempTrampolineBase (cache st) = trampolineReservationMark (cache st) + trampolineCodeSize cfg * n"
    and r: "addResolvedMethod cfg seg m st = (b, st')"
  shows "\<exists>E'. trampolineOk cfg st' E' \<and> extends st E st' E' \<and> (b \<longrightarrow> m \<in> heMethod (entries st') ` E')"
proof -
  have ent: "entriesOk cfg st E" using ok by (simp add: trampolineOk_def)
  show ?thesis
  proof (rule allocateHashEntry_ok [OF ent fresh, of seg])
    assume "allocateHashEntry cfg seg st = (0, st)"
    then show ?thesis using ok r by (auto simp: addResolvedMethod_def extends_def)
  next
    fix e sl older
    assume a: "allocateHashEntry cfg seg st = (e, st\<lparr>hashEntrySlab := sl, olderSlabs := older\<rparr>)" and e: "e \<noteq> 0" "e \<notin> E"
      and slab: "0 < heapAlloc sl" "slabSegment sl \<le> heapAlloc sl" "\<forall>x\<in>insert e E. x < heapAlloc sl \<or> heapTop sl \<le> x"
        "\<forall>x\<in>insert e E. \<exists>y\<in>set (sl # older). slabSegment y \<le> x \<and> x < heapTop y"
    let ?h = "entries st" and ?bs = "resolvedMethodHT st"
    let ?h' = "?h\<lparr>heKey := (heKey ?h)(e := m), heMethod := (heMethod ?h)(e := m), heStartPC := (heStartPC ?h)(e := 0),
      heTrampoline := (heTrampoline ?h)(e := 0), heNext := (heNext ?h)(e := ?bs ! (m mod length ?bs))\<rparr>"
    have b: "b" and st': "st' = st\<lparr>hashEntrySlab := sl, olderSlabs := older, entries := ?h', resolvedMethodHT := ?bs[m mod length ?bs := e]\<rparr>"
      using r a e(1) by (auto simp: addResolvedMethod_def hashAdd_def hashResolvedMethod_def Let_def)
    have table: "tableOk ?h' (?bs[m mod length ?bs := e]) (insert e E)"
      by (rule tableOk_add [OF trampolineOk_table [OF ok] e(2,1) new])
    have fin: "finite E" using trampolineOk_table [OF ok] by (simp add: tableOk_def)
    have A: "withTrampoline st' (insert e E) = withTrampoline st E" using e(2) by (auto simp: withTrampoline_def st')
    have T: "heTrampoline (entries st') x = heTrampoline ?h x" if "x \<in> withTrampoline st E" for x
      using that e(2) by (auto simp: withTrampoline_def st')
    have "marksOk cfg st' (insert e E)"
      by (rule marksOk_transfer [OF trampolineOkD(2) [OF ok] A T])
        (use marksOkD [OF trampolineOkD(2) [OF ok]] room fin e(2) in \<open>simp_all add: st'\<close>)
    moreover have "entriesOk cfg st' (insert e E)" using ent table slab by (simp add: entriesOk_def st')
    moreover have "synced st' = synced st" by (simp add: synced_def st')
    ultimately have "trampolineOk cfg st' (insert e E)" using ok A by (simp add: trampolineOk_def areaOk_def st')
    moreover have "extends st E st' (insert e E)" using e(2) \<open>synced st' = synced st\<close> by (auto simp: extends_def st')
    moreover have "m \<in> heMethod (entries st') ` insert e E" by (simp add: st')
    ultimately show ?thesis by blast
  qed
qed

lemma reserveResolvedTrampoline_ok:
  assumes ok: "trampolineOk cfg st E" and fresh: "\<And>p. seg = Some p \<Longrightarrow> freshMemory cfg st p"
  obtains r st' E' where "reserveResolvedTrampoline cfg seg m st = Some (r, st')" "trampolineOk cfg st' E'" "extends st E st' E'"
    "r = ERRORCODE_SUCCESS \<Longrightarrow> m \<in> heMethod (entries st') ` E'"
proof -
  have need: "needsMethodTrampolines cfg" using ok by (simp add: trampolineOk_def)
  show thesis
  proof (cases rule: findResolvedMethod_cases [OF trampolineOk_table [OF ok], of m])
    case (1 e)
    then have "reserveResolvedTrampoline cfg seg m st = Some (ERRORCODE_SUCCESS, st)"
      using need by (simp add: reserveResolvedTrampoline_def)
    moreover have "extends st E st E" by (simp add: extends_def)
    moreover have "m \<in> heMethod (entries st) ` E" using 1 by blast
    ultimately show thesis using that ok by blast
  next
    case 2
    obtain r cc where r: "reserveSpaceForTrampoline cfg 1 (cache st) = (r, cc)" by force
    note rs = reserveSpaceForTrampoline_ok [OF ok r]
    show thesis
    proof (cases "r = ERRORCODE_SUCCESS")
      case False
      then have "reserveResolvedTrampoline cfg seg m st = Some (r, st\<lparr>cache := cc\<rparr>)"
        using need 2 r by (simp add: reserveResolvedTrampoline_def)
      then show thesis using that rs False by blast
    next
      case True
      obtain b st' where a: "addResolvedMethod cfg seg m (st\<lparr>cache := cc\<rparr>) = (b, st')" by force
      have f: "freshMemory cfg (st\<lparr>cache := cc\<rparr>) p" if "seg = Some p" for p using fresh [OF that] by (simp add: freshMemory_def)
      obtain E' where E': "trampolineOk cfg st' E'" "extends (st\<lparr>cache := cc\<rparr>) E st' E'" "b \<longrightarrow> m \<in> heMethod (entries st') ` E'"
        using addResolvedMethod_ok [OF rs(1) f _ _ a] rs(3) [OF True] 2 by (auto simp del: One_nat_def)
      have "reserveResolvedTrampoline cfg seg m st = Some (if \<not> b then ERRORCODE_FATALERROR else r, st')"
        using need 2 r a True by (simp add: reserveResolvedTrampoline_def)
      moreover have "extends st E st' E'" using rs(2) E'(2) by (simp add: extends_def)
      ultimately show thesis using that [of _ st' E'] E' by (metis ErrorCode.distinct(3))
    qed
  qed
qed

end
