(* ===== verification/TrampolineSync.thy ===== *)
theory TrampolineSync
  imports TrampolineOperations
begin

text \<open>
  Looking up, replacing and synchronizing trampolines: the three operations return, keep the
  invariant, and, as long as there is memory for the synchronization list, keep the trampolines
  current.
\<close>

section \<open>Lookup\<close>

lemma fullSyncRequired_fields [simp]:
  "fullSyncRequired (setStartPC e pc st) = fullSyncRequired st" "fullSyncRequired (createTrampoline t pc m st) = fullSyncRequired st"
  "fullSyncRequired (setTrampoline e t st) = fullSyncRequired st" "fullSyncRequired (clearSyncBlocks st) = fullSyncRequired st"
  by (simp_all add: fullSyncRequired_def)

lemma withTrampoline_fields [simp]:
  "withTrampoline (setStartPC e pc st) E = withTrampoline st E" "withTrampoline (createTrampoline t pc m st) E = withTrampoline st E"
  "withTrampoline (clearSyncBlocks st) E = withTrampoline st E" "withTrampoline (st\<lparr>cache := cc\<rparr>) E = withTrampoline st E"
  by (simp_all add: withTrampoline_def)

lemma trampolineOk_setters:
  assumes "trampolineOk cfg st E"
  shows "trampolineOk cfg (setStartPC e pc st) E" "trampolineOk cfg (createTrampoline t pc m st) E"
  by (rule trampolineOk_sameTable [OF assms]; use trampolineOkD(4) [OF assms] in simp)+

text \<open>A method of the table without trampoline gets one, which leads to \<open>new\<close>.\<close>

lemma newTrampoline_ok:
  assumes ok: "trampolineOk cfg st E" and e: "e \<in> E" "heTrampoline (entries st) e = 0" "m = heMethod (entries st) e"
  obtains t cc where "allocateTrampoline cfg (cache st) = (t, cc)" "0 < t" "trampolineBase (cache st) \<le> t"
    "trampolineOk cfg (setStartPC e new (setTrampoline e t (st\<lparr>cache := cc\<rparr>))) E"
    "currentOk pc st E \<Longrightarrow> currentOk (pc(m := new)) (createTrampoline t new m (setStartPC e new (setTrampoline e t (st\<lparr>cache := cc\<rparr>)))) E"
proof (rule allocateTrampoline_ok [OF ok e(1,2)])
  fix t cc
  assume a: "allocateTrampoline cfg (cache st) = (t, cc)" "0 < t" "trampolineBase (cache st) \<le> t"
    "trampolineOk cfg (setTrampoline e t (st\<lparr>cache := cc\<rparr>)) E" "flags cc = flags (cache st)"
    "t \<notin> heTrampoline (entries st) ` withTrampoline st E"
  let ?st = "createTrampoline t new m (setStartPC e new (setTrampoline e t (st\<lparr>cache := cc\<rparr>)))"
  have "currentOk (pc(m := new)) ?st E" if cur: "currentOk pc st E"
  proof (rule currentOk_change [OF cur trampolineOk_inj(1) [OF ok] e(1,3)])
    show "\<not> fullSyncRequired ?st" using cur a(5) by (simp add: currentOk_def fullSyncRequired_def)
    fix x assume x: "x \<in> withTrampoline ?st E" "x \<noteq> e"
    then have "x \<in> withTrampoline st E" by (simp add: withTrampoline_def setTrampoline_def)
    then show "x \<in> withTrampoline st E \<and>
      created ?st (heTrampoline (entries ?st) x) = created st (heTrampoline (entries st) x) \<and>
      heStartPC (entries ?st) x = heStartPC (entries st) x" using a(6) x(2) by (auto simp: setTrampoline_def)
  qed simp_all
  then show thesis using that a trampolineOk_setters(1) [OF a(4)] by blast
qed

text \<open>The order of the updates of \<open>findTrampoline\<close> does not matter.\<close>

lemma create_commute:
  "setStartPC e new (setTrampoline e t (createTrampoline t new m st)) = createTrampoline t new m (setStartPC e new (setTrampoline e t st))"
  by (simp add: setStartPC_def setTrampoline_def createTrampoline_def)

lemma findTrampoline_ok:
  assumes ok: "trampolineOk cfg st E" and e: "e \<in> E" "m = heMethod (entries st) e"
  obtains t st' where "findTrampoline cfg pc m st = Some (Ok (t, st'))" "0 < t" "trampolineBase (cache st) \<le> t" "trampolineOk cfg st' E"
    "heMethod (entries st') e = m" "heTrampoline (entries st') e = t" "currentOk pc st E \<Longrightarrow> currentOk pc st' E"
proof -
  have f: "findResolvedMethod m st = Some e" using findResolvedMethod_member [OF trampolineOk_table [OF ok] e(1)] e(2) by simp
  have e0: "e \<noteq> 0" using trampolineOk_table [OF ok] e(1) by (auto simp: tableOk_def)
  show thesis
  proof (cases "heTrampoline (entries st) e = 0")
    case False
    then have "e \<in> withTrampoline st E" using e(1) by (simp add: withTrampoline_def)
    then have "trampolineBase (cache st) \<le> heTrampoline (entries st) e" by (rule trampoline_below_temp(2) [OF ok])
    moreover have "findTrampoline cfg pc m st = Some (Ok (heTrampoline (entries st) e, st))"
      using f e0 False by (simp add: findTrampoline_def)
    ultimately show thesis by (intro that) (use False ok e(2) in simp_all)
  next
    case True
    show thesis
    proof (rule newTrampoline_ok [OF ok e(1) True e(2), where new = "pc m" and pc = pc])
      fix t cc
      let ?st = "setStartPC e (pc m) (setTrampoline e t (st\<lparr>cache := cc\<rparr>))"
      assume a: "allocateTrampoline cfg (cache st) = (t, cc)" "0 < t" "trampolineBase (cache st) \<le> t" "trampolineOk cfg ?st E"
        "currentOk pc st E \<Longrightarrow> currentOk (pc(m := pc m)) (createTrampoline t (pc m) m ?st) E"
      have "findTrampoline cfg pc m st = Some (Ok (t, createTrampoline t (pc m) m ?st))"
        using f e0 True a(1) by (simp add: findTrampoline_def create_commute Let_def)
      then show thesis by (rule that) (use a e(2) trampolineOk_setters(2) in \<open>simp_all add: setTrampoline_def setStartPC_def\<close>)
    qed
  qed
qed

section \<open>Replacement\<close>

lemma findSyncSlot_None: "findSyncSlot e bs i free = None \<Longrightarrow> \<exists>b\<in>set bs. e \<in> set (hashEntryArray b)"
  by (induction bs arbitrary: i free) (auto split: if_splits)

lemma findSyncSlot_Some:
  "findSyncSlot e bs i free = Some r \<Longrightarrow> r = free \<or>
     (\<exists>k<length bs. r = Some (i + k) \<and> length (hashEntryArray (bs ! k)) < entryListSize (bs ! k))"
proof (induction bs arbitrary: i free)
  case (Cons b bs)
  let ?free = "if length (hashEntryArray b) < entryListSize b \<and> free = None then Some i else free"
  have f: "findSyncSlot e bs (i + 1) ?free = Some r" using Cons.prems by (auto split: if_splits)
  from Cons.IH [OF f] show ?case
  proof
    assume "r = ?free"
    then show ?thesis by (force split: if_splits)
  next
    assume "\<exists>k<length bs. r = Some (i + 1 + k) \<and> length (hashEntryArray (bs ! k)) < entryListSize (bs ! k)"
    then obtain k where "k < length bs" "r = Some (i + 1 + k)" "length (hashEntryArray (bs ! k)) < entryListSize (bs ! k)" by blast
    then show ?thesis by (intro disjI2 exI [of _ "Suc k"]) simp
  qed
qed simp

lemma storeEntry_ok:
  assumes "k < length (trampolineSyncList st)" "length (hashEntryArray (trampolineSyncList st ! k)) < entryListSize (trampolineSyncList st ! k)"
  shows "\<exists>bs. storeEntry k e st = Ok (True, st\<lparr>trampolineSyncList := bs\<rparr>) \<and>
    synced (st\<lparr>trampolineSyncList := bs\<rparr>) = insert e (synced st)"
proof -
  let ?bs = "trampolineSyncList st"
  let ?b = "(?bs ! k)\<lparr>hashEntryArray := hashEntryArray (?bs ! k) @ [e]\<rparr>"
  have "?bs = take k ?bs @ ?bs ! k # drop (Suc k) ?bs" using assms(1) by (rule id_take_nth_drop)
  then have s: "set ?bs = insert (?bs ! k) (set (take k ?bs) \<union> set (drop (Suc k) ?bs))" by (metis Un_insert_right list.simps(15) set_append)
  have u: "set (?bs[k := ?b]) = insert ?b (set (take k ?bs) \<union> set (drop (Suc k) ?bs))"
    using assms(1) by (simp add: upd_conv_take_nth_drop)
  have "synced (st\<lparr>trampolineSyncList := ?bs[k := ?b]\<rparr>) = insert e (synced st)" by (simp add: synced_def u s)
  then show ?thesis using assms(2) by (simp add: storeEntry_def Let_def) blast
qed

text \<open>The entry is stored, or there is no memory and a full synchronization is asked for.\<close>

lemma saveTempTrampoline_ok:
  assumes "0 < codeCacheTempTrampolineSyncArraySize cfg"
  obtains b bs where "saveTempTrampoline cfg memoryOk e st = Ok (b, st\<lparr>trampolineSyncList := bs\<rparr>)"
      "synced (st\<lparr>trampolineSyncList := bs\<rparr>) = insert e (synced st)"
  | "saveTempTrampoline cfg memoryOk e st = Ok (False, st\<lparr>cache := (cache st)\<lparr>flags := flags (cache st) OR CODECACHE_FULL_SYNC_REQUIRED\<rparr>\<rparr>)"
      "\<not> memoryOk" "findSyncSlot e (trampolineSyncList st) 0 None = Some None"
proof (cases "findSyncSlot e (trampolineSyncList st) 0 None")
  case None
  then have "synced st = insert e (synced st)" using findSyncSlot_None [OF None] by (auto simp: synced_def)
  moreover have "st\<lparr>trampolineSyncList := trampolineSyncList st\<rparr> = st" by simp
  ultimately show thesis using that(1) [of True "trampolineSyncList st"] None by (simp add: saveTempTrampoline_def)
next
  case (Some r)
  show thesis
  proof (cases r)
    case None
    show thesis
    proof (cases memoryOk)
      case False
      then show thesis using that(2) Some None by (simp add: saveTempTrampoline_def allocateTempTrampolineSyncBlock_def)
    next
      case True
      let ?st = "st\<lparr>trampolineSyncList := \<lparr>hashEntryArray = [], entryListSize = codeCacheTempTrampolineSyncArraySize cfg\<rparr> # trampolineSyncList st\<rparr>"
      obtain bs where "storeEntry 0 e ?st = Ok (True, ?st\<lparr>trampolineSyncList := bs\<rparr>)"
        "synced (?st\<lparr>trampolineSyncList := bs\<rparr>) = insert e (synced ?st)"
        using storeEntry_ok [of 0 ?st e] assms by auto
      then show thesis using that(1) [of True bs] Some None True
        by (simp add: saveTempTrampoline_def allocateTempTrampolineSyncBlock_def synced_def)
    qed
  next
    case k: (Some k)
    then have "k < length (trampolineSyncList st)" "length (hashEntryArray (trampolineSyncList st ! k)) < entryListSize (trampolineSyncList st ! k)"
      using findSyncSlot_Some [OF Some] by auto
    then obtain bs where "storeEntry k e st = Ok (True, st\<lparr>trampolineSyncList := bs\<rparr>)"
      "synced (st\<lparr>trampolineSyncList := bs\<rparr>) = insert e (synced st)" using storeEntry_ok by blast
    then show thesis using that(1) Some k by (simp add: saveTempTrampoline_def)
  qed
qed

text \<open>A temporary trampoline lies above all permanent ones.\<close>

lemma allocateTempTrampoline_ok:
  assumes ok: "trampolineOk cfg st E" and a: "allocateTempTrampoline cfg (cache st) = (t, cc)"
  shows "trampolineOk cfg (st\<lparr>cache := cc\<rparr>) E" "flags cc = flags (cache st)"
    "t = 0 \<or> tempTrampolineBase (cache st) \<le> t \<and> t + trampolineCodeSize cfg \<le> tempTrampolineTop (cache st)"
    "t = 0 \<longleftrightarrow> tempTrampolineTop (cache st) \<le> tempTrampolineNext (cache st)"
proof -
  let ?cc = "cache st" and ?s = "trampolineCodeSize cfg"
  note m = marksOkD [OF trampolineOkD(2) [OF ok]]
  obtain j q where jq: "j \<le> q" "tempTrampolineNext ?cc = tempTrampolineBase ?cc + ?s * j" "tempTrampolineTop ?cc = tempTrampolineBase ?cc + ?s * q"
    using m(4) by blast
  have pos: "0 < tempTrampolineBase ?cc"
  proof -
    have "0 < trampolineBase ?cc" using trampolineOkD(2) [OF ok] by (simp add: marksOk_def Let_def)
    then show ?thesis using m(2,3) by auto
  qed
  have main: "trampolineOk cfg (st\<lparr>cache := cc\<rparr>) E \<and> flags cc = flags ?cc \<and>
    (t = 0 \<or> tempTrampolineBase ?cc \<le> t \<and> t + ?s \<le> tempTrampolineTop ?cc) \<and> (t = 0 \<longleftrightarrow> tempTrampolineTop ?cc \<le> tempTrampolineNext ?cc)"
  proof (cases "tempTrampolineTop ?cc \<le> tempTrampolineNext ?cc")
    case True
    then show ?thesis using a ok by (auto simp: allocateTempTrampoline_def)
  next
    case False
    then have cc: "t = tempTrampolineNext ?cc" "cc = ?cc\<lparr>tempTrampolineNext := tempTrampolineNext ?cc + ?s\<rparr>"
      using a by (auto simp: allocateTempTrampoline_def)
    have "j < q" using False jq m(1) by simp
    then have "?s * Suc j \<le> ?s * q" by (intro mult_le_mono2) simp
    then have le: "t + ?s \<le> tempTrampolineTop ?cc" using jq cc(1) by simp
    have "\<exists>j q. j \<le> q \<and> tempTrampolineNext ?cc + ?s = tempTrampolineBase ?cc + ?s * j \<and> tempTrampolineTop ?cc = tempTrampolineBase ?cc + ?s * q"
      using \<open>j < q\<close> jq by (intro exI [of _ "Suc j"] exI [of _ q]) simp
    then have "marksOk cfg (st\<lparr>cache := cc\<rparr>) E"
      by (intro marksOk_transfer [OF trampolineOkD(2) [OF ok]]) (use m(2,3) in \<open>simp_all add: cc(2)\<close>)
    moreover have "entriesOk cfg (st\<lparr>cache := cc\<rparr>) E" using entriesOk_cong [of st "st\<lparr>cache := cc\<rparr>"] trampolineOkD(1) [OF ok] by simp
    moreover have "areaOk cc" using trampolineOkD(3) [OF ok] by (simp add: areaOk_def cc(2))
    ultimately have "trampolineOk cfg (st\<lparr>cache := cc\<rparr>) E" using trampolineOkD [OF ok] by (simp add: trampolineOk_def)
    then show ?thesis using False le pos jq cc by simp
  qed
  then show "trampolineOk cfg (st\<lparr>cache := cc\<rparr>) E" "flags cc = flags (cache st)"
    "t = 0 \<or> tempTrampolineBase (cache st) \<le> t \<and> t + trampolineCodeSize cfg \<le> tempTrampolineTop (cache st)"
    "t = 0 \<longleftrightarrow> tempTrampolineTop (cache st) \<le> tempTrampolineNext (cache st)" by blast+
qed

text \<open>
  Replacing the trampoline of a method, with the current trampoline as the old one. The caller
  creates the code of the trampoline it gets.
\<close>

definition patchWith :: "nat \<Rightarrow> nat \<Rightarrow> nat \<Rightarrow> trampolineState \<Rightarrow> trampolineState" where
  "patchWith t new m st = (if t = 0 then st else createTrampoline t new m st)"

lemma trampolineOk_patchWith: "trampolineOk cfg st E \<Longrightarrow> trampolineOk cfg (patchWith t new m st) E"
  by (simp add: patchWith_def trampolineOk_setters)

lemma replaceTemp_ok:
  assumes ok: "trampolineOk cfg st E" and e: "e \<in> withTrampoline st E" "m = heMethod (entries st) e"
  obtains t st' where "replaceTrampoline cfg memoryOk m (heTrampoline (entries st) e) new True st = Some (Ok (t, st'))"
    "trampolineOk cfg st' E" "memoryOk \<Longrightarrow> currentOk pc st E \<Longrightarrow> currentOk (pc(m := new)) (patchWith t new m st') E"
proof -
  let ?old = "heTrampoline (entries st) e"
  have eE: "e \<in> E" and old: "?old \<noteq> 0" using e(1) by (auto simp: withTrampoline_def)
  have f: "findResolvedMethod m st = Some e" using findResolvedMethod_member [OF trampolineOk_table [OF ok] eE] e(2) by simp
  have e0: "e \<noteq> 0" using trampolineOk_table [OF ok] eE by (auto simp: tableOk_def)
  obtain t cc where a: "allocateTempTrampoline cfg (cache st) = (t, cc)" by force
  note tmp = allocateTempTrampoline_ok [OF ok a]
  let ?st = "st\<lparr>cache := cc\<rparr>"
  have rep: "replaceTrampoline cfg memoryOk m ?old new True st = Some (Ok (t, if t = 0 then st1 else setStartPC e new st1))"
    if "saveTempTrampoline cfg memoryOk e ?st = Ok (b, st1)" for b st1
    using f e0 old a that by (simp add: replaceTrampoline_def)
  show thesis
  proof (rule saveTempTrampoline_ok [OF trampolineOkD(6) [OF ok], of memoryOk e ?st])
    fix b bs
    let ?st1 = "?st\<lparr>trampolineSyncList := bs\<rparr>"
    assume s: "saveTempTrampoline cfg memoryOk e ?st = Ok (b, ?st1)" "synced ?st1 = insert e (synced ?st)"
    let ?st2 = "if t = 0 then ?st1 else setStartPC e new ?st1"
    have same: "sameTable ?st ?st1" "withTrampoline ?st1 E = withTrampoline st E" by (simp_all add: sameTable_def withTrampoline_def)
    have sub: "synced ?st1 \<subseteq> withTrampoline ?st E" unfolding s(2) using trampolineOkD(4) [OF tmp(1)] e(1) by simp
    have ok1: "trampolineOk cfg ?st1 E" by (rule trampolineOk_sameTable [OF tmp(1) same(1) _ sub]) simp
    then have ok2: "trampolineOk cfg ?st2 E" by (simp add: trampolineOk_setters)
    have "currentOk (pc(m := new)) (patchWith t new m ?st2) E" if cur: "currentOk pc st E"
    proof (rule currentOk_change [OF cur trampolineOk_inj(1) [OF ok] eE e(2)])
      have syn: "synced (patchWith t new m ?st2) = insert e (synced st)" using s(2) by (simp add: patchWith_def)
      then show "e \<in> synced (patchWith t new m ?st2) \<or>
          created (patchWith t new m ?st2) (heTrampoline (entries (patchWith t new m ?st2)) e) = Some (new, m) \<and>
          heStartPC (entries (patchWith t new m ?st2)) e = new" by simp
      show "synced st \<subseteq> synced (patchWith t new m ?st2)" unfolding syn by blast
      show "\<not> fullSyncRequired (patchWith t new m ?st2)"
        using cur tmp(2) by (simp add: patchWith_def currentOk_def fullSyncRequired_def)
      show "heMethod (entries (patchWith t new m ?st2)) = heMethod (entries st)" by (simp add: patchWith_def)
      fix x assume x: "x \<in> withTrampoline (patchWith t new m ?st2) E" "x \<noteq> e"
      then have xA: "x \<in> withTrampoline st E" by (auto simp: patchWith_def same(2) split: if_splits)
      have "t = 0 \<or> t \<noteq> heTrampoline (entries st) x"
        using tmp(3) trampoline_below_temp(1) [OF ok xA] marksOkD(1) [OF trampolineOkD(2) [OF ok]] by auto
      then show "x \<in> withTrampoline st E \<and>
          created (patchWith t new m ?st2) (heTrampoline (entries (patchWith t new m ?st2)) x) = created st (heTrampoline (entries st) x) \<and>
          heStartPC (entries (patchWith t new m ?st2)) x = heStartPC (entries st) x" using xA x(2) by (auto simp: patchWith_def)
    qed
    then show thesis using that rep [OF s(1)] ok2 by blast
  next
    let ?st1 = "?st\<lparr>cache := (cache ?st)\<lparr>flags := flags (cache ?st) OR CODECACHE_FULL_SYNC_REQUIRED\<rparr>\<rparr>"
    assume s: "saveTempTrampoline cfg memoryOk e ?st = Ok (False, ?st1)" "\<not> memoryOk"
    have same: "sameTable ?st ?st1" by (simp add: sameTable_def)
    have "marksOk cfg ?st1 E"
      by (rule marksOk_transfer [OF trampolineOkD(2) [OF tmp(1)]]) (use marksOkD [OF trampolineOkD(2) [OF tmp(1)]] in simp_all)
    then have "trampolineOk cfg ?st1 E"
      using trampolineOkD [OF tmp(1)] entriesOk_cong [OF same] by (simp add: trampolineOk_def areaOk_def)
    then have "trampolineOk cfg (if t = 0 then ?st1 else setStartPC e new ?st1) E" by (simp add: trampolineOk_setters)
    then show thesis using that rep [OF s(1)] s(2) by blast
  qed
qed

lemma replaceTrampoline_ok:
  assumes ok: "trampolineOk cfg st E" and e: "e \<in> E" "m = heMethod (entries st) e"
  obtains t st' where "replaceTrampoline cfg memoryOk m (heTrampoline (entries st) e) new needSync st = Some (Ok (t, st'))"
    "trampolineOk cfg st' E" "memoryOk \<Longrightarrow> currentOk pc st E \<Longrightarrow> currentOk (pc(m := new)) (patchWith t new m st') E"
proof -
  let ?old = "heTrampoline (entries st) e"
  have f: "findResolvedMethod m st = Some e" using findResolvedMethod_member [OF trampolineOk_table [OF ok] e(1)] e(2) by simp
  have e0: "e \<noteq> 0" using trampolineOk_table [OF ok] e(1) by (auto simp: tableOk_def)
  consider (first) "?old = 0" | (temp) "?old \<noteq> 0" needSync | (place) "?old \<noteq> 0" "\<not> needSync" by blast
  then show thesis
  proof cases
    case first
    show thesis
    proof (rule newTrampoline_ok [OF ok e(1) first e(2), where new = new and pc = pc])
      fix t cc
      let ?st = "setStartPC e new (setTrampoline e t (st\<lparr>cache := cc\<rparr>))"
      assume a: "allocateTrampoline cfg (cache st) = (t, cc)" "0 < t" "trampolineOk cfg ?st E"
        "currentOk pc st E \<Longrightarrow> currentOk (pc(m := new)) (createTrampoline t new m ?st) E"
      have "replaceTrampoline cfg memoryOk m ?old new needSync st = Some (Ok (t, ?st))"
        using f e0 first a(1) by (simp add: replaceTrampoline_def)
      then show thesis by (rule that) (use a in \<open>simp_all add: patchWith_def\<close>)
    qed
  next
    case temp
    then have eA: "e \<in> withTrampoline st E" using e(1) by (simp add: withTrampoline_def)
    show thesis
      by (rule replaceTemp_ok [OF ok eA e(2), where memoryOk = memoryOk and new = new and pc = pc])
        (rule that, use temp in simp_all)
  next
    case place
    then have eA: "e \<in> withTrampoline st E" using e(1) by (simp add: withTrampoline_def)
    let ?st = "setStartPC e new st"
    have rep: "replaceTrampoline cfg memoryOk m ?old new needSync st = Some (Ok (?old, ?st))"
      using f e0 place by (simp add: replaceTrampoline_def)
    have "currentOk (pc(m := new)) (patchWith ?old new m ?st) E" if cur: "currentOk pc st E"
    proof (rule currentOk_change [OF cur trampolineOk_inj(1) [OF ok] e])
      show "\<not> fullSyncRequired (patchWith ?old new m ?st)" using cur by (simp add: patchWith_def currentOk_def)
      fix x assume x: "x \<in> withTrampoline (patchWith ?old new m ?st) E" "x \<noteq> e"
      then have xA: "x \<in> withTrampoline st E" by (simp add: patchWith_def split: if_splits)
      have "heTrampoline (entries st) x \<noteq> ?old" using inj_onD [OF trampolineOk_inj(2) [OF ok] _ xA eA] x(2) by blast
      then show "x \<in> withTrampoline st E \<and>
          created (patchWith ?old new m ?st) (heTrampoline (entries (patchWith ?old new m ?st)) x) = created st (heTrampoline (entries st) x) \<and>
          heStartPC (entries (patchWith ?old new m ?st)) x = heStartPC (entries st) x" using xA x(2) by (simp add: patchWith_def)
    qed (use place in \<open>simp_all add: patchWith_def\<close>)
    then show thesis using that rep trampolineOk_setters(1) [OF ok] by blast
  qed
qed

section \<open>Synchronization\<close>

text \<open>Synchronizing a list of entries makes exactly their trampolines current.\<close>

lemma syncEntry_fields [simp]:
  "sameTable st (syncEntry pc e st)" "cache (syncEntry pc e st) = cache st" "synced (syncEntry pc e st) = synced st"
  by (auto simp: syncEntry_def Let_def intro: sameTable_trans [OF setters_sameTable(2) setters_sameTable(1)])

lemma fold_syncEntry:
  fixes pc :: "nat \<Rightarrow> nat" and st :: trampolineState and xs :: "nat list"
  assumes "set xs \<subseteq> A" "inj_on (heTrampoline (entries st)) A"
  defines "st' \<equiv> fold (syncEntry pc) xs st"
  shows "sameTable st st' \<and> cache st' = cache st \<and> synced st' = synced st \<and>
    (\<forall>x\<in>A. created st' (heTrampoline (entries st) x) = (if x \<in> set xs then Some (pc (heMethod (entries st) x), heMethod (entries st) x)
       else created st (heTrampoline (entries st) x)) \<and>
     heStartPC (entries st') x = (if x \<in> set xs then pc (heMethod (entries st) x) else heStartPC (entries st) x))"
  using assms(1,2) unfolding st'_def
proof (induction xs arbitrary: st)
  case (Cons a xs)
  let ?st = "syncEntry pc a st"
  have same: "heTrampoline (entries ?st) = heTrampoline (entries st)" "heMethod (entries ?st) = heMethod (entries st)"
    by (simp_all add: syncEntry_def Let_def)
  have here: "created ?st (heTrampoline (entries st) x) = (if x = a then Some (pc (heMethod (entries st) x), heMethod (entries st) x)
      else created st (heTrampoline (entries st) x))"
    "heStartPC (entries ?st) x = (if x = a then pc (heMethod (entries st) x) else heStartPC (entries st) x)" if "x \<in> A" for x
    using that Cons.prems by (auto simp: syncEntry_def Let_def inj_on_def)
  have IH: "sameTable ?st (fold (syncEntry pc) xs ?st) \<and> cache (fold (syncEntry pc) xs ?st) = cache st \<and>
    synced (fold (syncEntry pc) xs ?st) = synced st \<and>
    (\<forall>x\<in>A. created (fold (syncEntry pc) xs ?st) (heTrampoline (entries st) x) = (if x \<in> set xs then Some (pc (heMethod (entries st) x), heMethod (entries st) x)
       else created ?st (heTrampoline (entries st) x)) \<and>
     heStartPC (entries (fold (syncEntry pc) xs ?st)) x = (if x \<in> set xs then pc (heMethod (entries st) x) else heStartPC (entries ?st) x))"
    using Cons.IH [of ?st] Cons.prems unfolding same by simp
  moreover have "sameTable st (fold (syncEntry pc) xs ?st)" using sameTable_trans [OF syncEntry_fields(1)] IH by blast
  ultimately show ?case using here by simp
qed simp

lemma fold_concat: "fold (\<lambda>b. fold f (g b)) bs st = fold f (concat (map g bs)) st"
  by (induction bs arbitrary: st) simp_all

text \<open>The full synchronization keeps the table; it ends because every chain does.\<close>

lemma fullSyncEntry_fields [simp]:
  "sameTable st (fullSyncEntry pc e st)" "cache (fullSyncEntry pc e st) = cache st" "synced (fullSyncEntry pc e st) = synced st"
  by (auto simp: fullSyncEntry_def Let_def intro: sameTable_trans [OF setters_sameTable(2) setters_sameTable(1)])

text \<open>An entry whose start address is already recorded is passed over.\<close>

definition untouched :: "(nat \<Rightarrow> nat) \<Rightarrow> trampolineState \<Rightarrow> trampolineState \<Rightarrow> nat set \<Rightarrow> bool" where
  "untouched pc st st' A \<longleftrightarrow> sameTable st st' \<and> cache st' = cache st \<and> synced st' = synced st \<and>
     (\<forall>x\<in>A. heStartPC (entries st) x = pc (heMethod (entries st) x) \<longrightarrow>
        heStartPC (entries st') x = pc (heMethod (entries st) x) \<and> created st' (heTrampoline (entries st) x) = created st (heTrampoline (entries st) x))"

lemma untouched_trans:
  assumes "untouched pc st st' A" "untouched pc st' st'' A" shows "untouched pc st st'' A"
  using assms sameTable_trans [of st st' st''] by (simp add: untouched_def sameTable_def)

lemma fullSyncEntry_untouched:
  assumes "inj_on (heTrampoline (entries st)) A" "e \<in> E" "A = withTrampoline st E"
  shows "untouched pc st (fullSyncEntry pc e st) A"
proof -
  have "heTrampoline (entries st) x \<noteq> heTrampoline (entries st) e"
    if "x \<in> A" "heStartPC (entries st) x = pc (heMethod (entries st) x)" "heStartPC (entries st) e \<noteq> pc (heMethod (entries st) e)"
      "heTrampoline (entries st) e \<noteq> 0" for x
    using inj_onD [OF assms(1) _ that(1), of e] that assms(2,3) by (auto simp: withTrampoline_def)
  then have "heStartPC (entries (fullSyncEntry pc e st)) x = pc (heMethod (entries st) x) \<and>
      created (fullSyncEntry pc e st) (heTrampoline (entries st) x) = created st (heTrampoline (entries st) x)"
    if "x \<in> A" "heStartPC (entries st) x = pc (heMethod (entries st) x)" for x
    using that by (auto simp: fullSyncEntry_def Let_def)
  then show ?thesis by (simp add: untouched_def)
qed

lemma fullSyncChain_ok:
  assumes "chain (heNext (entries st)) p xs" "set xs \<subseteq> E" "inj_on (heTrampoline (entries st)) (withTrampoline st E)"
  shows "\<exists>st'. fullSyncChain pc p st = Some st' \<and> untouched pc st st' (withTrampoline st E)"
  using assms
proof (induction xs arbitrary: p st)
  case Nil
  then show ?case by (simp add: fullSyncChain.simps untouched_def)
next
  case (Cons a xs)
  let ?st = "fullSyncEntry pc a st"
  have same: "sameTable st ?st" by simp
  then have t: "heTrampoline (entries ?st) = heTrampoline (entries st)" "heNext (entries ?st) = heNext (entries st)"
    "withTrampoline ?st E = withTrampoline st E" using withTrampoline_cong [OF same] by (auto simp: sameTable_def)
  have u: "untouched pc st ?st (withTrampoline st E)" using fullSyncEntry_untouched [OF Cons.prems(3)] Cons.prems(2) by simp
  obtain st' where "fullSyncChain pc (heNext (entries ?st) a) ?st = Some st'" "untouched pc ?st st' (withTrampoline ?st E)"
    using Cons.IH [of ?st "heNext (entries ?st) a"] Cons.prems t by auto
  then show ?case using Cons.prems u untouched_trans t(3) by (subst fullSyncChain.simps) (auto simp: Let_def)
qed

lemma fullSyncBuckets_ok:
  assumes "\<forall>b\<in>set bs. \<exists>xs. chain (heNext (entries st)) b xs \<and> set xs \<subseteq> E" "inj_on (heTrampoline (entries st)) (withTrampoline st E)"
  shows "\<exists>st'. fullSyncBuckets pc bs st = Some st' \<and> untouched pc st st' (withTrampoline st E)"
  using assms
proof (induction bs arbitrary: st)
  case Nil
  then show ?case by (simp add: untouched_def)
next
  case (Cons b bs)
  then obtain xs where xs: "chain (heNext (entries st)) b xs" "set xs \<subseteq> E" by auto
  obtain st1 where c: "fullSyncChain pc b st = Some st1" "untouched pc st st1 (withTrampoline st E)"
    using fullSyncChain_ok [OF xs Cons.prems(2)] by blast
  then have same: "sameTable st st1" by (simp add: untouched_def)
  then have t: "heTrampoline (entries st1) = heTrampoline (entries st)" "heNext (entries st1) = heNext (entries st)"
    "withTrampoline st1 E = withTrampoline st E" using withTrampoline_cong [OF same] by (auto simp: sameTable_def)
  obtain st' where "fullSyncBuckets pc bs st1 = Some st'" "untouched pc st1 st' (withTrampoline st1 E)"
    using Cons.IH [of st1] Cons.prems t by auto
  then show ?case using c untouched_trans [OF c(2)] t(3) by auto
qed

end
