(* ===== verification/TrampolineRuns.thy ===== *)
theory TrampolineRuns
  imports TrampolineSync
begin

text \<open>
  The trampolines of a code cache from its initialization on: the requests of the compiler and the
  synchronizations as a step relation on the cache and the start addresses of the methods, and the
  properties of the states that are reached.
\<close>

section \<open>Synchronization of a well-formed state\<close>

lemma clear_bits: "(x AND NOT y) AND y = (0 :: u32)"
  by (rule bit_word_eqI) (simp add: bit_simps)

lemma syncTempTrampolines_ok:
  assumes ok: "trampolineOk cfg st E"
  obtains st' where "syncTempTrampolines pc st = Some (Ok st')" "trampolineOk cfg st' E" "sameTable st st'"
    "tempTrampolineNext (cache st') = tempTrampolineBase (cache st')" "synced st' = {}" "\<not> fullSyncRequired st'"
    "currentOk pc st E \<Longrightarrow> currentOk pc st' E"
    "\<And>x. fullSyncRequired st \<Longrightarrow> x \<in> withTrampoline st E \<Longrightarrow> heStartPC (entries st) x = pc (heMethod (entries st) x) \<Longrightarrow>
       created st' (heTrampoline (entries st) x) = created st (heTrampoline (entries st) x)"
proof -
  let ?A = "withTrampoline st E"
  have finish: "trampolineOk cfg (st2\<lparr>cache := (cache st2)\<lparr>tempTrampolineNext := tempTrampolineBase (cache st2)\<rparr>\<rparr>) E"
    if same: "sameTable st st2" and c: "cache st2 = (cache st)\<lparr>flags := f\<rparr>" and e: "synced st2 = {}" for st2 f
  proof -
    let ?st = "st2\<lparr>cache := (cache st2)\<lparr>tempTrampolineNext := tempTrampolineBase (cache st2)\<rparr>\<rparr>"
    have same': "sameTable st ?st" using same by (simp add: sameTable_def)
    obtain j q where "j \<le> q" "tempTrampolineTop (cache st) = tempTrampolineBase (cache st) + trampolineCodeSize cfg * q"
      using marksOkD(4) [OF trampolineOkD(2) [OF ok]] by blast
    then have "\<exists>j q. j \<le> q \<and> tempTrampolineBase (cache st) = tempTrampolineBase (cache st) + trampolineCodeSize cfg * j \<and>
      tempTrampolineTop (cache st) = tempTrampolineBase (cache st) + trampolineCodeSize cfg * q" by (intro exI [of _ 0] exI [of _ q]) simp
    then have "marksOk cfg ?st E"
      by (intro marksOk_transfer [OF trampolineOkD(2) [OF ok] withTrampoline_cong [OF same']])
        (use marksOkD [OF trampolineOkD(2) [OF ok]] same' in \<open>simp_all add: c sameTable_def\<close>)
    then show ?thesis using trampolineOkD [OF ok] entriesOk_cong [OF same'] e by (simp add: trampolineOk_def areaOk_def c)
  qed
  show thesis
  proof (cases "fullSyncRequired st")
    case True
    have t: "tableOk (entries st) (resolvedMethodHT st) E" by (rule trampolineOk_table [OF ok])
    have "\<forall>b\<in>set (resolvedMethodHT st). \<exists>xs. chain (heNext (entries st)) b xs \<and> set xs \<subseteq> E"
    proof
      fix b assume "b \<in> set (resolvedMethodHT st)"
      then obtain i where i: "i < length (resolvedMethodHT st)" "resolvedMethodHT st ! i = b" by (auto simp: in_set_conv_nth)
      obtain xs where "chain (heNext (entries st)) (resolvedMethodHT st ! i) xs"
        "set xs = {e \<in> E. heMethod (entries st) e mod length (resolvedMethodHT st) = i}"
        by (rule tableOk_bucket [OF t i(1)])
      then show "\<exists>xs. chain (heNext (entries st)) b xs \<and> set xs \<subseteq> E" using i(2) by auto
    qed
    then obtain st1 where st1: "fullSyncBuckets pc (resolvedMethodHT st) st = Some st1" "untouched pc st st1 ?A"
      using fullSyncBuckets_ok [OF _ trampolineOk_inj(2) [OF ok]] by blast
    define st2 where "st2 = (clearSyncBlocks st1)\<lparr>cache := (cache st1)\<lparr>flags := flags (cache st1) AND NOT CODECACHE_FULL_SYNC_REQUIRED\<rparr>\<rparr>"
    have same: "sameTable st st2" using st1(2) sameTable_trans [of st st1 st2]
      by (simp add: untouched_def st2_def sameTable_def clearSyncBlocks_def)
    have c: "cache st2 = (cache st)\<lparr>flags := flags (cache st) AND NOT CODECACHE_FULL_SYNC_REQUIRED\<rparr>"
      using st1(2) by (simp add: st2_def untouched_def)
    have e: "synced st2 = {}" by (simp add: st2_def)
    let ?st = "st2\<lparr>cache := (cache st2)\<lparr>tempTrampolineNext := tempTrampolineBase (cache st2)\<rparr>\<rparr>"
    have "syncTempTrampolines pc st = Some (Ok ?st)"
      using True st1(1) by (simp add: syncTempTrampolines_def fullSyncRequired_def st2_def Let_def)
    then show thesis
    proof (rule that)
      show "trampolineOk cfg ?st E" by (rule finish [OF same c e])
      show "sameTable st ?st" using same by (simp add: sameTable_def)
      show "synced ?st = {}" using e by simp
      show "\<not> fullSyncRequired ?st" by (simp add: fullSyncRequired_def c clear_bits)
      show "currentOk pc st E \<Longrightarrow> currentOk pc ?st E" using True by (simp add: currentOk_def)
      show "created ?st (heTrampoline (entries st) x) = created st (heTrampoline (entries st) x)"
        if "x \<in> ?A" "heStartPC (entries st) x = pc (heMethod (entries st) x)" for x
        using st1(2) that by (simp add: untouched_def st2_def)
    qed simp
  next
    case False
    let ?xs = "concat (map hashEntryArray (trampolineSyncList st))"
    define st1 where "st1 = fold (syncEntry pc) ?xs st"
    have xs: "set ?xs = synced st" by (simp add: synced_def)
    have sub: "set ?xs \<subseteq> ?A" unfolding xs by (rule trampolineOkD(4) [OF ok])
    note f = fold_syncEntry [OF sub trampolineOk_inj(2) [OF ok], of pc, folded st1_def, unfolded xs]
    define st2 where "st2 = clearSyncBlocks st1"
    have same: "sameTable st st2" using f sameTable_trans [OF _ setters_sameTable(3)] by (simp add: st2_def)
    have c: "cache st2 = (cache st)\<lparr>flags := flags (cache st)\<rparr>" using f by (simp add: st2_def)
    have e: "synced st2 = {}" by (simp add: st2_def)
    let ?st = "st2\<lparr>cache := (cache st2)\<lparr>tempTrampolineNext := tempTrampolineBase (cache st2)\<rparr>\<rparr>"
    have "0 \<notin> synced st" using sub xs trampolineOk_table [OF ok] by (auto simp: tableOk_def withTrampoline_def)
    then have "\<not> (\<exists>b\<in>set (trampolineSyncList st). 0 \<in> set (hashEntryArray b))" by (auto simp: synced_def)
    then have "syncTempTrampolines pc st = Some (Ok ?st)"
      using False by (simp add: syncTempTrampolines_def fullSyncRequired_def st2_def st1_def fold_concat)
    then show thesis
    proof (rule that)
      show "trampolineOk cfg ?st E" by (rule finish [OF same c e])
      show same': "sameTable st ?st" using same by (simp add: sameTable_def)
      show "synced ?st = {}" using e by simp
      show "\<not> fullSyncRequired ?st" using False c by (simp add: fullSyncRequired_def)
      show "currentOk pc ?st E" if cur: "currentOk pc st E"
      proof -
        have "created ?st (heTrampoline (entries st) x) = Some (pc (heMethod (entries st) x), heMethod (entries st) x) \<and>
            heStartPC (entries ?st) x = pc (heMethod (entries st) x)" if x: "x \<in> ?A" for x
        proof (cases "x \<in> synced st")
          case True
          then show ?thesis using f x xs by (simp add: st2_def)
        next
          case False
          then have "created st (heTrampoline (entries st) x) = Some (pc (heMethod (entries st) x), heMethod (entries st) x) \<and>
            heStartPC (entries st) x = pc (heMethod (entries st) x)" using cur x by (auto simp: currentOk_def Let_def)
          then show ?thesis using f x xs False by (simp add: st2_def)
        qed
        then show ?thesis using withTrampoline_cong [OF same'] same' False c
          by (simp add: currentOk_def Let_def sameTable_def fullSyncRequired_def)
      qed
    qed (use False in simp_all)
  qed
qed

section \<open>Steps\<close>

text \<open>
  A state is the cache with the start addresses of the methods. A method is compiled anew when no
  trampoline leads to it, or its trampoline is replaced and the new one created; \<open>listMemory\<close> says
  that there is always memory for the synchronization list.
\<close>

inductive trampolineStep :: "codeCacheConfig \<Rightarrow> bool \<Rightarrow> trampolineState \<times> (nat \<Rightarrow> nat) \<Rightarrow> trampolineState \<times> (nat \<Rightarrow> nat) \<Rightarrow> bool"
    for cfg listMemory where
  reserved: "reserveResolvedTrampoline cfg seg m st = Some (r, st') \<Longrightarrow> (\<And>p. seg = Some p \<Longrightarrow> freshMemory cfg st p) \<Longrightarrow>
    trampolineStep cfg listMemory (st, pc) (st', pc)"
| space: "reserveSpaceForTrampoline cfg k (cache st) = (r, cc) \<Longrightarrow>
    trampolineStep cfg listMemory (st, pc) (st\<lparr>cache := cc\<rparr>, pc)"
| found: "findTrampoline cfg pc m st = Some (Ok (t, st')) \<Longrightarrow> trampolineStep cfg listMemory (st, pc) (st', pc)"
| recompiled: "patchArguments cfg m st = Some (x, 0) \<Longrightarrow> trampolineStep cfg listMemory (st, pc) (st, pc(m := new))"
| replaced: "patchArguments cfg m st = Some (x, old) \<Longrightarrow> findResolvedMethod m st \<noteq> Some 0 \<Longrightarrow> listMemory \<longrightarrow> memoryOk \<Longrightarrow>
    replaceTrampoline cfg memoryOk m old new needSync st = Some (Ok (t, st')) \<Longrightarrow>
    trampolineStep cfg listMemory (st, pc) (patchWith t new m st', pc(m := new))"
| synchronized: "syncTempTrampolines pc st = Some (Ok st') \<Longrightarrow> trampolineStep cfg listMemory (st, pc) (st', pc)"

definition trampolineInv :: "codeCacheConfig \<Rightarrow> bool \<Rightarrow> trampolineState \<times> (nat \<Rightarrow> nat) \<Rightarrow> bool" where
  "trampolineInv cfg listMemory s \<longleftrightarrow>
     (\<exists>E. trampolineOk cfg (fst s) E \<and> (listMemory \<longrightarrow> currentOk (snd s) (fst s) E))"

lemma lookup_member:
  assumes "trampolineOk cfg st E" "findResolvedMethod m st = Some e" "e \<noteq> 0"
  shows "e \<in> E" "heMethod (entries st) e = m"
  using findResolvedMethod_cases [OF trampolineOk_table [OF assms(1)], of m] assms(2,3) by fastforce+

lemma patchArguments_cases:
  assumes "trampolineOk cfg st E" "patchArguments cfg m st = Some (x, old)"
  obtains (absent) "findResolvedMethod m st = Some 0" "m \<notin> heMethod (entries st) ` E" "old = 0"
  | (present) e where "findResolvedMethod m st = Some e" "e \<in> E" "heMethod (entries st) e = m" "old = heTrampoline (entries st) e"
proof (cases rule: findResolvedMethod_cases [OF trampolineOk_table [OF assms(1)], of m])
  case (1 e)
  then have "old = heTrampoline (entries st) e"
    using assms(2) trampolineOkD(5) [OF assms(1)] by (simp add: patchArguments_def Let_def)
  then show thesis using present 1 by blast
next
  case 2
  then have "old = 0" using assms(2) trampolineOkD(5) [OF assms(1)] by (simp add: patchArguments_def)
  then show thesis using absent 2 by blast
qed

lemma currentOk_recompiled:
  assumes cur: "currentOk pc st E" and none: "\<And>e. e \<in> withTrampoline st E \<Longrightarrow> heMethod (entries st) e \<noteq> m"
  shows "currentOk (pc(m := new)) st E"
  using cur none by (simp add: currentOk_def Let_def)

lemma trampolineStep_keeps: "trampolineInv cfg listMemory s \<Longrightarrow> trampolineStep cfg listMemory s t \<Longrightarrow> trampolineInv cfg listMemory t"
proof -
  assume inv: "trampolineInv cfg listMemory s" and step: "trampolineStep cfg listMemory s t"
  obtain E where ok: "trampolineOk cfg (fst s) E" and cur: "listMemory \<Longrightarrow> currentOk (snd s) (fst s) E"
    using inv by (auto simp: trampolineInv_def)
  from step ok cur show ?thesis
  proof (cases rule: trampolineStep.cases)
    case (reserved seg m st r st' pc)
    have okst: "trampolineOk cfg st E" using ok reserved(1) by simp
    obtain r2 st2 E' where "reserveResolvedTrampoline cfg seg m st = Some (r2, st2)" "trampolineOk cfg st2 E'" "extends st E st2 E'"
      using reserveResolvedTrampoline_ok [OF okst reserved(4), of seg m] by blast
    then show ?thesis using reserved cur currentOk_extends [of pc st E st' E'] by (auto simp: trampolineInv_def)
  next
    case (space k st r cc pc)
    then show ?thesis using ok cur reserveSpaceForTrampoline_ok(1,2) [of cfg st E k r cc] currentOk_extends [of pc st E _ E]
      by (auto simp: trampolineInv_def)
  next
    case (found pc m st t st')
    have okst: "trampolineOk cfg st E" using ok found(1) by simp
    have "findResolvedMethod m st \<noteq> Some 0" using found(3) by (auto simp: findTrampoline_def)
    then obtain e where e: "e \<in> E" "m = heMethod (entries st) e"
      by (cases rule: findResolvedMethod_cases [OF trampolineOk_table [OF okst], of m]) auto
    show ?thesis
      by (rule findTrampoline_ok [OF okst e, of pc]) (use found cur in \<open>auto simp: trampolineInv_def\<close>)
  next
    case (recompiled m st x pc new)
    have okst: "trampolineOk cfg st E" using ok recompiled(1) by simp
    have none: "heMethod (entries st) e \<noteq> m" if e: "e \<in> withTrampoline st E" for e
    proof
      assume m: "heMethod (entries st) e = m"
      have eE: "e \<in> E" "heTrampoline (entries st) e \<noteq> 0" using e by (auto simp: withTrampoline_def)
      have f: "findResolvedMethod m st = Some e" using findResolvedMethod_member [OF trampolineOk_table [OF okst] eE(1)] m by simp
      show False
        by (rule patchArguments_cases [OF okst recompiled(3)]) (use f eE m trampolineOk_table [OF okst] in \<open>auto simp: tableOk_def\<close>)
    qed
    show ?thesis using okst cur recompiled currentOk_recompiled [OF _ none] by (auto simp: trampolineInv_def)
  next
    case (replaced m st x old memoryOk new needSync t' st' pc)
    have okst: "trampolineOk cfg st E" using ok replaced(1) by simp
    show ?thesis
    proof (rule patchArguments_cases [OF okst replaced(3)])
      fix e assume e: "e \<in> E" "heMethod (entries st) e = m" "old = heTrampoline (entries st) e"
      obtain t2 st2 where a: "replaceTrampoline cfg memoryOk m old new needSync st = Some (Ok (t2, st2))" "trampolineOk cfg st2 E"
          "memoryOk \<Longrightarrow> currentOk pc st E \<Longrightarrow> currentOk (pc(m := new)) (patchWith t2 new m st2) E"
        by (rule replaceTrampoline_ok [OF okst e(1) e(2) [symmetric], of memoryOk new needSync pc, folded e(3)])
          (rule that, assumption, assumption, blast)
      then have "t2 = t'" "st2 = st'" using replaced(6) by simp_all
      then have "trampolineOk cfg (patchWith t' new m st') E" "listMemory \<Longrightarrow> currentOk (pc(m := new)) (patchWith t' new m st') E"
        using a trampolineOk_patchWith cur replaced(1,5) by auto
      then show ?thesis using replaced(2) by (auto simp: trampolineInv_def)
    qed (use replaced in simp)
  next
    case (synchronized pc st st')
    have okst: "trampolineOk cfg st E" using ok synchronized(1) by simp
    show ?thesis
      by (rule syncTempTrampolines_ok [OF okst, of pc]) (use synchronized cur in \<open>auto simp: trampolineInv_def\<close>)
  qed
qed

interpretation trampolineRun: kept_by_steps "trampolineStep cfg listMemory" "trampolineInv cfg listMemory" for cfg listMemory
  by unfold_locales (rule trampolineStep_keeps)

section \<open>Initialization\<close>

definition trampolinesInitialized :: "codeCacheConfig \<Rightarrow> trampolineState \<Rightarrow> bool" where
  "trampolinesInitialized cfg st \<longleftrightarrow> needsMethodTrampolines cfg \<and> 0 < trampolineCodeSize cfg \<and>
     0 < codeCacheTempTrampolineSyncArraySize cfg \<and> sizeof_CodeCacheHashEntry \<le> codeCacheHashEntryAllocatorSlabSize cfg \<and>
     (\<exists>cb so mo yo ta base segTop n cc0. initialize cfg cb so mo yo ta base segTop n cc0 = (True, cache st)) \<and>
     0 < trampolineBase (cache st) \<and> resolvedMethodHT st = hashTableAllocate cfg \<and> hashEntryFreeList st = 0 \<and>
     (\<exists>segment>0. hashEntrySlab st = slabAllocate cfg segment) \<and> olderSlabs st = [] \<and>
     trampolineSyncList st = (if tempTrampolinesMax (cache st) = 0 then []
       else [\<lparr>hashEntryArray = [], entryListSize = codeCacheTempTrampolineSyncArraySize cfg\<rparr>])"

lemma initialize_trampolines:
  assumes init: "initialize cfg cb so mo yo ta base segTop n cc0 = (True, cc)"
    and cfg: "needsMethodTrampolines cfg" "0 < trampolineCodeSize cfg"
  shows "flags cc = 0" "tempTrampolineTop cc = helperBase cc" "tempTrampolineNext cc = tempTrampolineBase cc"
    "trampolineAllocationMark cc = tempTrampolineBase cc" "trampolineReservationMark cc = tempTrampolineBase cc"
    "trampolineBase cc < tempTrampolineBase cc" "tempTrampolineBase cc = helperBase cc - trampolineCodeSize cfg * tempTrampolinesMax cc"
proof -
  define hb where "hb = clearMask (base + n - trampolineCodeSize cfg * numRuntimeHelpers cfg) (codeCacheTrampolineAlignmentBytes cfg)"
  note defs = initialize_def Let_def unreserve_def decreaseFreeSpaceInCodeCacheRepository_def hb_def [symmetric]
  show "flags cc = 0" "tempTrampolineTop cc = helperBase cc" "tempTrampolineNext cc = tempTrampolineBase cc"
    using init cfg by (auto simp: defs split: if_splits)
  show "trampolineAllocationMark cc = tempTrampolineBase cc" "trampolineReservationMark cc = tempTrampolineBase cc"
    using init cfg by (auto simp: defs split: if_splits)
  show "trampolineBase cc < tempTrampolineBase cc"
    using init cfg by (auto simp: defs split: if_splits)
  show "tempTrampolineBase cc = helperBase cc - trampolineCodeSize cfg * tempTrampolinesMax cc"
    using init cfg by (auto simp: defs split: if_splits)
qed

lemma trampolinesInitialized_ok:
  assumes i: "trampolinesInitialized cfg st"
  shows "trampolineOk cfg st {}" "currentOk pc st {}"
proof -
  let ?cc = "cache st" and ?s = "trampolineCodeSize cfg"
  have cfg: "needsMethodTrampolines cfg" "0 < ?s" using i by (auto simp: trampolinesInitialized_def)
  obtain cb so mo yo ta base segTop n cc0 where init: "initialize cfg cb so mo yo ta base segTop n cc0 = (True, ?cc)"
    using i by (auto simp: trampolinesInitialized_def)
  note f = initialize_trampolines [OF init cfg]
  have "tempTrampolineTop ?cc = tempTrampolineBase ?cc + ?s * tempTrampolinesMax ?cc" using f by simp
  then have "\<exists>j q. j \<le> q \<and> tempTrampolineNext ?cc = tempTrampolineBase ?cc + ?s * j \<and> tempTrampolineTop ?cc = tempTrampolineBase ?cc + ?s * q"
    using f(3) by (intro exI [of _ 0] exI [of _ "tempTrampolinesMax ?cc"]) simp
  moreover have "\<exists>n\<ge>card ({} :: nat set). tempTrampolineBase ?cc = trampolineReservationMark ?cc + ?s * n" using f by (intro exI [of _ 0]) simp
  moreover have A: "withTrampoline st {} = {}" by (simp add: withTrampoline_def)
  ultimately have "marksOk cfg st {}" using i f cfg(2) unfolding marksOk_def Let_def A by (simp add: trampolinesInitialized_def)
  moreover have "entriesOk cfg st {}"
    using i tableOk_empty by (auto simp: entriesOk_def trampolinesInitialized_def slabAllocate_def)
  moreover have "areaOk ?cc" using f initialize_fields(8) [OF init] by (simp add: areaOk_def)
  moreover have "synced st = {}" using i by (auto simp: synced_def trampolinesInitialized_def)
  ultimately show "trampolineOk cfg st {}" using i by (simp add: trampolineOk_def trampolinesInitialized_def)
  show "currentOk pc st {}" using f(1) A by (simp add: currentOk_def fullSyncRequired_def)
qed

definition trampolineReachable :: "codeCacheConfig \<Rightarrow> bool \<Rightarrow> trampolineState \<Rightarrow> (nat \<Rightarrow> nat) \<Rightarrow> bool" where
  "trampolineReachable cfg listMemory st pc \<longleftrightarrow>
     (\<exists>st0 pc0. trampolinesInitialized cfg st0 \<and> (trampolineStep cfg listMemory)\<^sup>*\<^sup>* (st0, pc0) (st, pc))"

lemma trampolineReachableE:
  assumes "trampolineReachable cfg listMemory st pc"
  obtains E where "trampolineOk cfg st E" "listMemory \<Longrightarrow> currentOk pc st E"
proof -
  obtain st0 pc0 where i: "trampolinesInitialized cfg st0" and r: "(trampolineStep cfg listMemory)\<^sup>*\<^sup>* (st0, pc0) (st, pc)"
    using assms by (auto simp: trampolineReachable_def)
  have "trampolineInv cfg listMemory (st0, pc0)" using trampolinesInitialized_ok [OF i] by (auto simp: trampolineInv_def)
  then have "trampolineInv cfg listMemory (st, pc)" using trampolineRun.reachable [OF r] by blast
  then show thesis using that by (auto simp: trampolineInv_def)
qed

lemma trampolineReachable_step:
  "trampolineReachable cfg listMemory st pc \<Longrightarrow> trampolineStep cfg listMemory (st, pc) (st', pc') \<Longrightarrow> trampolineReachable cfg listMemory st' pc'"
  by (auto simp: trampolineReachable_def intro: rtranclp.rtrancl_into_rtrancl)

end
