(* ===== verification/TrampolineProperties.thy ===== *)
theory TrampolineProperties
  imports TrampolineRuns
begin

text \<open>
  The properties of the trampolines in the reachable states of a code cache, with a concrete cache
  that the statements are applied to.
\<close>

section \<open>An example\<close>

text \<open>A cache of 64 KB with four temporary trampolines of 16 bytes and one slot in a synchronization block.\<close>

definition trampolineConfig :: codeCacheConfig where
  "trampolineConfig = \<lparr>trampolineCodeSize = 16, ccPreLoadedCodeSize = 0, numRuntimeHelpers = 4, codeCacheKB = 6,
     codeCacheAlignment = 32, codeCacheHelperAlignment = 32, codeCacheTrampolineAlignmentBytes = 8,
     codeCacheTempTrampolineSyncArraySize = 1, codeCacheHashEntryAllocatorSlabSize = 4096,
     needsMethodTrampolines = True, trampolineSpacePercentage = 10, doSanityChecks = True,
     codeCacheFreeBlockRecylingEnabled = True, usingRepository = False,
     warmEyeCatcher = ''JITW'', coldEyeCatcher = ''JITC''\<rparr>"

definition anyCache :: codeCache where
  "anyCache = \<lparr>warmCodeAlloc = 0, coldCodeAlloc = 0, flags = 0, segmentBase = 0, segmentTop = 0,
     freeBlockList = 0, reserved = False, reservingCompThreadID = 0,
     sizeOfLargestFreeColdBlock = 0, sizeOfLargestFreeWarmBlock = 0, helperBase = 0, helperTop = 0,
     tempTrampolineBase = 0, tempTrampolineTop = 0, tempTrampolineNext = 0, trampolineAllocationMark = 0,
     trampolineReservationMark = 0, trampolineBase = 0, tempTrampolinesMax = 0, CCPreLoadedCodeBase = 0,
     CCPreLoadedCodeTop = 0, almostFull = TR_no, lastAllocatedBlock = 0,
     mem = \<lparr>fbSize = \<lambda>_. 0, fbNext = \<lambda>_. 0, mhSize = \<lambda>_. 0, mhEyeCatcher = \<lambda>_. [], mhMetaData = \<lambda>_. 0\<rparr>,
     repositoryFreeSpace = 0\<rparr>"

definition exampleStart :: trampolineState where
  "exampleStart = \<lparr>cache = snd (initialize trampolineConfig (\<lambda>_. 4) True True True True 4096 69632 65536 anyCache),
     entries = \<lparr>heNext = \<lambda>_. 0, heKey = \<lambda>_. 0, heMethod = \<lambda>_. 0, heStartPC = \<lambda>_. 0, heTrampoline = \<lambda>_. 0\<rparr>,
     resolvedMethodHT = [0, 0, 0, 0], hashEntryFreeList = 0, hashEntrySlab = slabAllocate trampolineConfig 1000000,
     olderSlabs = [], trampolineSyncList = [\<lparr>hashEntryArray = [], entryListSize = 1\<rparr>], created = Map.empty\<rparr>"

lemma example_init:
  "initialize trampolineConfig (\<lambda>_. 4) True True True True 4096 69632 65536 anyCache = (True, cache exampleStart)"
  "tempTrampolinesMax (cache exampleStart) = 4" "0 < trampolineBase (cache exampleStart)"
proof -
  have c: "clearMask 69568 8 = 69568" by (simp add: clearMask_def)
  show "initialize trampolineConfig (\<lambda>_. 4) True True True True 4096 69632 65536 anyCache = (True, cache exampleStart)"
    "tempTrampolinesMax (cache exampleStart) = 4" "0 < trampolineBase (cache exampleStart)"
    by (simp_all add: exampleStart_def initialize_def trampolineConfig_def anyCache_def unreserve_def Let_def c
      decreaseFreeSpaceInCodeCacheRepository_def)
qed

lemma example_start: "trampolinesInitialized trampolineConfig exampleStart"
proof -
  have "(\<exists>cb so mo yo ta base segTop n cc0. initialize trampolineConfig cb so mo yo ta base segTop n cc0 = (True, cache exampleStart))"
    using example_init(1) by blast
  moreover have "hashTableAllocate trampolineConfig = [0, 0, 0, 0]" by code_simp
  ultimately show ?thesis unfolding trampolinesInitialized_def using example_init(2,3)
    by (auto simp: trampolineConfig_def sizeof_CodeCacheHashEntry_def exampleStart_def slabAllocate_def)
qed

lemma example_reachable_start: "trampolineReachable trampolineConfig listMemory exampleStart pc"
  using example_start by (auto simp: trampolineReachable_def)

section \<open>Properties\<close>




text \<open>Method 100 in the cache of the example.\<close>

lemma example_reserve: "\<exists>st1. reserveResolvedTrampoline trampolineConfig None 100 exampleStart = Some (ERRORCODE_SUCCESS, st1)"
proof -
  have c: "clearMask 69568 8 = 69568" by (simp add: clearMask_def)
  have "findResolvedMethod 100 exampleStart = Some 0"
    by (simp add: findResolvedMethod_def hashResolvedMethod_def exampleStart_def findInChain.simps)
  moreover have "\<exists>cc. reserveSpaceForTrampoline trampolineConfig 1 (cache exampleStart) = (ERRORCODE_SUCCESS, cc)"
    by (simp add: exampleStart_def initialize_def trampolineConfig_def anyCache_def unreserve_def Let_def c
      decreaseFreeSpaceInCodeCacheRepository_def reserveSpaceForTrampoline_def)
  then obtain cc where cc: "reserveSpaceForTrampoline trampolineConfig 1 (cache exampleStart) = (ERRORCODE_SUCCESS, cc)" by blast
  moreover have "fst (addResolvedMethod trampolineConfig None 100 (exampleStart\<lparr>cache := cc\<rparr>))"
    by (simp add: addResolvedMethod_def allocateHashEntry_def exampleStart_def slabAllocate_def trampolineConfig_def Let_def
      sizeof_CodeCacheHashEntry_def)
  moreover have "needsMethodTrampolines trampolineConfig" by (simp add: trampolineConfig_def)
  ultimately show ?thesis by (auto simp: reserveResolvedTrampoline_def split: prod.splits)
qed


text \<open>C13: in a run of the operations from an initialized cache that needs method trampolines, in which
  there was always memory for the synchronization list and every change of a start address went
  through \<open>replaceTrampoline\<close> where a trampoline led to the method (\<open>trampolineStep\<close>),
  \<open>syncTempTrampolines\<close> ends, and then every permanent trampoline leads to the start of its method as it
  is compiled now, all temporary trampolines are free again, and nothing waits to be synchronized.\<close>

theorem synchronization_makes_current:
  assumes "trampolineReachable cfg True st pc"
  shows "\<exists>st'. syncTempTrampolines pc st = Some (Ok st') \<and>
    (\<forall>m e. findResolvedMethod m st' = Some e \<and> e \<noteq> 0 \<and> heTrampoline (entries st') e \<noteq> 0 \<longrightarrow>
       created st' (heTrampoline (entries st') e) = Some (pc m, m)) \<and>
    tempTrampolineNext (cache st') = tempTrampolineBase (cache st') \<and> (\<forall>b\<in>set (trampolineSyncList st'). hashEntryArray b = [])"
proof -
  obtain E where ok: "trampolineOk cfg st E" and cur: "currentOk pc st E" using assms by (auto elim: trampolineReachableE)
  obtain st' where s: "syncTempTrampolines pc st = Some (Ok st')" "trampolineOk cfg st' E"
    "tempTrampolineNext (cache st') = tempTrampolineBase (cache st')" "synced st' = {}" "currentOk pc st' E"
    using syncTempTrampolines_ok [OF ok, of pc] cur by metis
  have "created st' (heTrampoline (entries st') e) = Some (pc m, m)"
    if "findResolvedMethod m st' = Some e" "e \<noteq> 0" "heTrampoline (entries st') e \<noteq> 0" for m e
    using lookup_member [OF s(2) that(1,2)] that(3) s(4,5) by (auto simp: currentOk_def withTrampoline_def Let_def)
  then show ?thesis using s by (auto simp: synced_def)
qed

text \<open>The synchronization of the cache of the example, after a lookup of the trampoline of method 100.\<close>

theorem synchronization_makes_current_witness:
  "\<exists>st e st'. trampolineReachable trampolineConfig True st (\<lambda>m. 5000) \<and> heTrampoline (entries st') e \<noteq> 0 \<and>
     syncTempTrampolines (\<lambda>m. 5000) st = Some (Ok st') \<and> created st' (heTrampoline (entries st') e) = Some (5000, 100)"
proof -
  let ?pc = "\<lambda>m :: nat. 5000 :: nat"
  obtain st1 where r: "reserveResolvedTrampoline trampolineConfig None 100 exampleStart = Some (ERRORCODE_SUCCESS, st1)"
    using example_reserve by blast
  have reach1: "trampolineReachable trampolineConfig True st1 ?pc"
    by (rule trampolineReachable_step [OF example_reachable_start reserved [OF r]]) simp
  obtain E where "trampolineOk trampolineConfig exampleStart E" using example_reachable_start by (rule trampolineReachableE)
  then obtain E1 where ok1: "trampolineOk trampolineConfig st1 E1" "100 \<in> heMethod (entries st1) ` E1"
    using reserveResolvedTrampoline_ok [of trampolineConfig exampleStart E None 100] r by (metis Pair_inject option.distinct(1) option.inject)
  then obtain e where e: "e \<in> E1" "100 = heMethod (entries st1) e" by blast
  obtain t st2 where f: "findTrampoline trampolineConfig ?pc 100 st1 = Some (Ok (t, st2))" "0 < t" "trampolineOk trampolineConfig st2 E1"
    "heMethod (entries st2) e = 100" "heTrampoline (entries st2) e = t"
    by (rule findTrampoline_ok [OF ok1(1) e, of ?pc])
  have reach2: "trampolineReachable trampolineConfig True st2 ?pc" by (rule trampolineReachable_step [OF reach1 found [OF f(1)]])
  obtain st' where s: "syncTempTrampolines ?pc st2 = Some (Ok st')" "trampolineOk trampolineConfig st' E1" "sameTable st2 st'"
    by (rule syncTempTrampolines_ok [OF f(3), of ?pc])
  have m: "heMethod (entries st') e = 100" "heTrampoline (entries st') e \<noteq> 0" using s(3) f by (auto simp: sameTable_def)
  have "findResolvedMethod 100 st' = Some e" using findResolvedMethod_member [OF trampolineOk_table [OF s(2)] e(1)] m(1) by simp
  moreover have "e \<noteq> 0" using trampolineOk_table [OF s(2)] e(1) by (auto simp: tableOk_def)
  ultimately have "created st' (heTrampoline (entries st') e) = Some (5000, 100)"
    using synchronization_makes_current [OF reach2] s(1) m(2) by auto
  then show ?thesis using reach2 m(2) s(1) by blast
qed

section \<open>Where the synchronization fails\<close>

text \<open>
  When there is no memory for the synchronization list, a replacement asks for a full synchronization.
  But it has already recorded the new start of the method, and the full synchronization passes over
  entries whose recorded start is right: the permanent trampoline keeps leading to the old code, while
  the temporary one is given up.
\<close>

lemma full_sync_misses_trampoline:
  assumes "trampolineReachable cfg listMemory st pc" "findResolvedMethod m st = Some e" "e \<noteq> 0" "heTrampoline (entries st) e \<noteq> 0"
    and full: "findSyncSlot e (trampolineSyncList st) 0 None = Some None" "tempTrampolineNext (cache st) < tempTrampolineTop (cache st)"
  shows "\<exists>t st1 st2. replaceTrampoline cfg False m (heTrampoline (entries st) e) new True st = Some (Ok (t, st1)) \<and> t \<noteq> 0 \<and>
    syncTempTrampolines (pc(m := new)) (createTrampoline t new m st1) = Some (Ok st2) \<and>
    tempTrampolineNext (cache st2) = tempTrampolineBase (cache st2) \<and>
    created st2 (heTrampoline (entries st) e) = created st (heTrampoline (entries st) e)"
proof -
  obtain E where ok: "trampolineOk cfg st E" using assms(1) by (rule trampolineReachableE)
  note mem = lookup_member [OF ok assms(2,3)]
  have eA: "e \<in> withTrampoline st E" using mem(1) assms(4) by (simp add: withTrampoline_def)
  obtain t cc where a: "allocateTempTrampoline cfg (cache st) = (t, cc)" by force
  note tmp = allocateTempTrampoline_ok [OF ok a]
  have t: "t \<noteq> 0" using tmp(4) full(2) by simp
  define st1 where "st1 = setStartPC e new (st\<lparr>cache := cc\<lparr>flags := flags cc OR CODECACHE_FULL_SYNC_REQUIRED\<rparr>\<rparr>)"
  have rep: "replaceTrampoline cfg False m (heTrampoline (entries st) e) new True st = Some (Ok (t, st1))"
    using assms(2-4) a t full(1)
    by (simp add: replaceTrampoline_def saveTempTrampoline_def allocateTempTrampolineSyncBlock_def st1_def)
  obtain t2 st3 where r: "replaceTrampoline cfg False m (heTrampoline (entries st) e) new True st = Some (Ok (t2, st3))" "trampolineOk cfg st3 E"
    by (rule replaceTemp_ok [OF ok eA mem(2) [symmetric], of False new pc])
  let ?st = "createTrampoline t new m st1"
  have ok1: "trampolineOk cfg ?st E" using r rep trampolineOk_setters(2) by simp
  have fields: "heTrampoline (entries ?st) = heTrampoline (entries st)" "heMethod (entries ?st) = heMethod (entries st)"
    "heStartPC (entries ?st) e = new" by (simp_all add: st1_def)
  have flag: "fullSyncRequired ?st"
    by (simp add: fullSyncRequired_def st1_def CODECACHE_FULL_SYNC_REQUIRED_def bit_eq_iff bit_simps) (rule exI [of _ 0], simp)
  have eA1: "e \<in> withTrampoline ?st E" using eA by (simp add: withTrampoline_def st1_def)
  obtain st2 where s: "syncTempTrampolines (pc(m := new)) ?st = Some (Ok st2)" "tempTrampolineNext (cache st2) = tempTrampolineBase (cache st2)"
    "created st2 (heTrampoline (entries st) e) = created ?st (heTrampoline (entries st) e)"
    using syncTempTrampolines_ok [OF ok1, of "pc(m := new)"] flag eA1 fields mem(2) by (metis fun_upd_same)
  have "t \<noteq> heTrampoline (entries st) e"
    using tmp(3) t trampoline_below_temp(1) [OF ok eA] marksOkD(1) [OF trampolineOkD(2) [OF ok]] by auto
  then have "created ?st (heTrampoline (entries st) e) = created st (heTrampoline (entries st) e)" by (simp add: st1_def)
  then show ?thesis using rep t s by metis
qed

end
