(* ===== verification/Spec2Isabelle.thy ===== *)
theory Spec2Isabelle
  imports BitContainer AVLTree HashTab ValueConstraints ConstraintTable RegexPrint DivisionHandlers MultiplyHandlers CodeCacheRuns TrampolineProperties
begin

text \<open>
  \<^bold>\<open>A verification library for the NJ just-in-time compiler\<close>

  NJ is the OMR compiler: an intermediate language of trees, an optimizer that analyses and rewrites it,
  code generators for several processors, and a runtime that holds the compiled code. Under all of them lie the
  containers of \<open>compiler/infra\<close>. This library models the parts of that code that are self-contained and whose errors
  would be silent: the containers on which every data-flow analysis stands, the integer constraints with
  which value propagation reasons about the values of a program, the trees by which divisions and multiplications are
  replaced, and the memory in which the compiled code is placed.

  \<^bold>\<open>The parts and their theories\<close>

  \<^item> \<open>NJ_Prelude\<close>: machine words, C arrays whose out-of-range accesses are the value \<open>None\<close>, counted loops as
    monadic folds, and the rule collections and lemmas that the components share.

  \<^item> \<open>Bits\<close> (\<open>infra/Bit.hpp\<close>, \<open>cs2/bitmanip.h\<close>, \<open>codegen/OMRCodeGenerator.cpp\<close>): counting zeroes, powers of two and ten, decimal
    precisions, population counts and the contiguous-mask test on words of the widths of the source, each with its
    characterisation.

  \<^item> \<open>BitVector\<close>, \<open>BitVectorScan\<close>, \<open>BitContainer\<close> (\<open>infra/BitVector.hpp\<close>, \<open>infra/BitVector.cpp\<close>): a \<open>TR_BitVector\<close> is a record of its
    chunk array and of the first and last non-zero chunk. The invariant says that these two indices are right; the
    abstraction is the set of its elements. Every operation keeps the invariant, stays within the chunk array and
    implements its set operation, for any history of operations; the iterators terminate and enumerate the elements
    in order. \<open>TR_BitContainer\<close> and \<open>TR_BitMatrix\<close> follow.

  \<^item> \<open>DFSet\<close> (\<open>optimizer/UnionBitVectorAnalysis.cpp\<close>, \<open>IntersectionBitVectorAnalysis.cpp\<close>, \<open>BitVectorAnalysis.cpp\<close>): the set
    algebra of the data-flow analyses over any container. Its locale \<open>dfset_container\<close> is what an analysis relies on;
    \<open>BitContainer\<close> interprets it with bit vectors and with singleton containers.

  \<^item> \<open>KeyedTable\<close>: the locale of a table with lookup and addition, and what follows for a sequence of additions.
    \<open>AVLTree\<close> (\<open>infra/AVLTree.hpp\<close>) and \<open>HashTab\<close> (\<open>infra/HashTab.hpp\<close>, \<open>infra/HashTab.cpp\<close>) interpret it: search trees
    with the rotations as the code has them, and the hash table with chains in its open area, growth and rehashing.

  \<^item> \<open>VPConstraint\<close>, \<open>VPMerge\<close>, \<open>VPIntersect\<close>, \<open>ValueConstraints\<close> (\<open>optimizer/VPConstraint.hpp\<close>, \<open>optimizer/VPConstraint.cpp\<close>,
    with \<open>constrainRangeByPrecision\<close> of \<open>optimizer/OMRValuePropagation.cpp\<close>): the constants, ranges and lists of ranges
    at 16, 32 and 64 bits. The classes of the source are the datatype \<open>constraint\<close>; the values a constraint admits are its
    concretisation \<open>gamma\<close>, and \<open>wfc\<close> is the invariant of the objects the classes create. Merging is exactly
    union, intersection exactly intersection, addition and subtraction exactly the wrapped results, and the
    comparisons decide the relation of the sets. The loops over two lists are one loop each, over the steps that
    the three widths and the two mixed cases supply: the locale \<open>merge_steps\<close> states what a step promises and is
    interpreted for the lists of one type and for both mixed cases.

  \<^item> \<open>ConstraintTable\<close> (the \<open>create\<close> functions and \<open>addConstraint\<close>): the hash table through which constraints are shared,
    with objects and pointers. It shows that constants and ranges are unique, which is what the pointer comparisons
    in \<open>merge\<close> and \<open>intersect\<close> need, and that creation through the table builds the constraints of the other theories.

  \<^item> \<open>SimpleRegex\<close>, \<open>RegexLang\<close>, \<open>RegexPrint\<close> (\<open>infra/SimpleRegex.hpp\<close>, \<open>infra/SimpleRegex.cpp\<close>, \<open>ras/IgnoreLocale.cpp\<close>): the filters that
    select methods by name. The parser, the matcher and the printer work on C strings; a filter has a language, and the
    lemmas show that a result of the matcher is right, that every string of a pattern is found, for which filters the
    matcher always returns, and that printed filters are read back. The locale \<open>char_cases\<close> is what the matcher relies on
    in the functions for lower and upper case; it is interpreted with those of \<open>IgnoreLocale.cpp\<close>.

  \<^item> \<open>MagicNumbers\<close>, \<open>MagicValues\<close> (\<open>codegen/OMRCodeGenerator.cpp\<close>): the multipliers and shifts that replace a division by a
    constant, from a table or from a loop, which ends and whose values are exact for every dividend of the width.

  \<^item> \<open>ILNode\<close>, \<open>DivisionSimplifier\<close>, \<open>DivisionPowers\<close>, \<open>DivisionCorrect\<close>, \<open>DivisionHandlers\<close> (\<open>optimizer/OMRSimplifierHandlers.cpp\<close>,
    \<open>codegen/OMRTreeEvaluator.cpp\<close>): the handlers of the simplifier for signed int and long division and remainder.
    A node is an expression tree whose value is computed as the simplifier folds constants; a handler maps the children
    to the tree that replaces the node, for any answers of \<open>performTransformation\<close>, of the code generator and of the
    sign flags. The handlers keep the value of the node. The locale \<open>magic_values\<close> is what they rely on in the code
    generator, interpreted at both widths.

  \<^item> \<open>MultiplySimplifier\<close>, \<open>MultiplyHandlers\<close> (\<open>optimizer/OMRSimplifierHandlers.cpp\<close>, \<open>optimizer/OMRSimplifierHelpers.cpp\<close>): the handlers for
    int and long multiplication over the same expressions. A constant is decomposed into signed powers of two whose
    sum it is, the tree built from them is the product, and the handlers keep the value of the node.

  \<^item> \<open>CodeCache\<close> (\<open>runtime/OMRCodeCache.cpp\<close> and its header files, with the size adjustment and the repository counter of
    \<open>runtime/OMRCodeCacheManager.cpp\<close>): the cache as a record, the structures in its memory as one map per field, and
    the operations: \<open>initialize\<close>, \<open>addFreeBlock2\<close>, \<open>findFreeBlock\<close>, \<open>allocateCodeMemory\<close>,
    \<open>trimCodeMemoryAllocation\<close> and the consistency check \<open>checkForErrors\<close>. \<open>FreeBlocks\<close> relates the linked list in the
    memory to an ordered list of blocks and freeing to insertion with coalescing, \<open>BestFit\<close> the search of the list to the
    smallest block that fits; \<open>CacheLayout\<close> has the invariant: the used and the free blocks tile the warm and cold
    parts of the cache, the free ones are coalesced, and the recorded sizes are right. \<open>CacheOperations\<close>,
    \<open>CacheAllocation\<close>, \<open>CacheRequests\<close> and \<open>CacheTrim\<close> show that the operations return and keep it.
    \<open>CacheSegments\<close> has the layout that \<open>initialize\<close> gives a segment.
    \<open>CodeCacheMachine\<close> is the step relation over caches and the used blocks, with the locales \<open>block_owner\<close> (what
    tiling gives) and \<open>kept_by_steps\<close> (an invariant of steps) interpreted on it, and \<open>CodeCacheRuns\<close> the properties of every
    reachable cache: the check passes, no address has two owners, no memory is lost, and a request is refused only when
    it does not fit.

  \<^item> \<open>Trampolines\<close> (the same files, with the hash table of \<open>runtime/CodeCacheTypes.cpp\<close>): reserving, allocating, finding, replacing
    and synchronizing the trampolines of a cache. \<open>TrampolineTable\<close> relates the chains of the table to a set of entries,
    \<open>TrampolineInvariant\<close> counts reserved and allocated slots, \<open>TrampolineOperations\<close> and \<open>TrampolineSync\<close> show what the operations
    keep, \<open>TrampolineRuns\<close> is their step relation, again an instance of \<open>kept_by_steps\<close>, and \<open>TrampolineProperties\<close> has
    the properties: a reserved trampoline is always to be had, and a synchronization makes all of them current.

  \<^bold>\<open>Correspondence\<close>

  A function of the source is a definition of the same or a similar name (a prefix \<open>short\<close>, \<open>int\<close>, \<open>long\<close> or \<open>merged\<close> names the
  class of a method, \<open>container\<close> and \<open>matrix\<close> those of \<open>infra/BitVector.hpp\<close>). State is passed explicitly. Results of type
  \<open>option\<close> are \<open>None\<close> where the C++ code would read or write outside an array, dereference a null pointer or
  overflow a signed integer, except that negating the smallest number in \<open>isPowerOf2\<close> and
  \<open>checkPositiveOrNegativePowerOfTwo\<close> wraps around, as in \<open>Bits\<close>; a \<open>NULL\<close> that the code returns is a \<open>None\<close> of its own inside. Assertions (\<open>TR_ASSERT\<close>) are
  not checked in production builds and are not part of the models; trace output is left out.

  \<^bold>\<open>Bounds and loops\<close>

  Loops are functions with a measure, or folds. Two are not total as they stand: growing a hash table adds its
  elements anew, for which \<open>addElement\<close> uses fuel, and one level is shown to suffice; the loop of the list
  intersections is a partial function, shown to return for well-formed lists. The loop for the magic values is a partial
  function too; it ends when the exponent reaches twice the width at the latest. Bit vectors are those of a build with
  64-bit chunks. Allocation of the compiler's own data always succeeds. Object addresses and hash functions of keys are parameters. The
  code cache is that of a 64-bit target, with an alignment that is a power of two from 32 bytes on, a size below 4 GB, which
  is what the 32-bit sizes of the headers hold, and requests below \<open>2 ^ 61\<close> bytes; loops over its lists are partial functions that
  end for the lists of a well-formed cache.

  \<^bold>\<open>Where the code falls short\<close>

  The models follow the code, and some theorems state what it does wrong: the balance of an AVL node read as a
  Boolean, the range reset of a bit vector that writes past the array, the membership test of a singleton container,
  the overflow indication of long additions, the comparison of lists of 16-bit constraints, the filters on which
  the matcher reads behind the end of a string, the long divisions of the smallest long by a negative power of
  two and of the extended smallest int by minus one, the mask that replaces a division and multiplication, the
  check of a code cache without recycling, its walk over the blocks that never starts, the alignment of the helpers, and the
  full synchronization, which misses the trampolines it is asked for. The ends of
  \<open>ValueConstraints\<close> and \<open>ConstraintTable\<close> hold the cases in which int and long constraints meet and the duplicated
  lists of the constraint table.

  \<^bold>\<open>Not modelled\<close>

  The constraints on objects and classes (they depend on queries to a front end that is not in the repository) and the
  relational constraints; the handlers of value propagation; of the simplifier all but signed division, remainder
  and multiplication, and there the unsigned operations, the reference counts and the check nodes above a division; the other
  optimizer passes and the IL they rewrite; the
  control-flow graph and the structure analysis; the code generators and register allocation; of the code cache the
  faint blocks, the trampolines of unresolved methods, the locks and the manager that chooses a cache; theorems on it are
  for allocations with method headers; the memory regions, which work on raw memory with operating-system calls; the sparse containers of \<open>cs2\<close> and the
  operators that combine them with bit vectors; IL generation, options, logging and debugging output.
\<close>

end
